(* ===== verification/Prelude.thy ===== *)
theory Prelude
  imports Main "HOL-Library.Word" "HOL-Library.Multiset" "HOL-Library.Sublist"
begin

text \<open>
  Shared vocabulary of the development.

  \<^item> \<open>cpp_error\<close> and \<open>result\<close>: how a C++ operation can end other than by returning.  A
    \<open>throw\<close> of a string literal, a \<open>std::domain_error\<close>, an exception of the JSON library, an
    access outside the behaviour C++ defines, and a call that never returns are values.
  \<^item> the part of the C++ standard library the sources use: \<open>std::isspace\<close> and
    \<open>std::toupper\<close> of the C locale, \<open>std::from_chars\<close>, the digits written by an output
    stream, \<open>std::find_if\<close> as an index, and element access that is undefined out of range.
  \<^item> general lemmas on lists that several components use.
\<close>

section \<open>Results of C++ operations\<close>

datatype cpp_error =
    Thrown string
  | DomainError string
  | InvalidArgument string
  | Undefined string
  | NoReturn

type_synonym 'a result = "cpp_error + 'a"

definition rbind :: "'a result \<Rightarrow> ('a \<Rightarrow> 'b result) \<Rightarrow> 'b result" where
  "rbind m f = (case m of Inl e \<Rightarrow> Inl e | Inr x \<Rightarrow> f x)"

lemma rbind_simps [simp]:
  "rbind (Inl e) f = Inl e"
  "rbind (Inr x) f = f x"
  by (simp_all add: rbind_def)

lemma rbind_Inr_iff: "rbind m f = Inr y \<longleftrightarrow> (\<exists>x. m = Inr x \<and> f x = Inr y)"
  by (cases m) auto

lemma rbind_InrE: "rbind m f = Inr y \<Longrightarrow> (\<And>x. m = Inr x \<Longrightarrow> f x = Inr y \<Longrightarrow> R) \<Longrightarrow> R"
  by (auto simp: rbind_Inr_iff)

lemma not_isl: "\<not> isl r \<Longrightarrow> \<exists>x. r = Inr x"
  by (cases r) simp_all

lemma rbind_Inl_iff: "rbind m f = Inl e \<longleftrightarrow> m = Inl e \<or> (\<exists>x. m = Inr x \<and> f x = Inl e)"
  by (cases m) auto

lemma rbind_assoc: "rbind (rbind m f) g = rbind m (\<lambda>x. rbind (f x) g)"
  by (cases m) auto

lemma rbind_Inr_right [simp]: "rbind m Inr = m"
  by (cases m) auto

lemma rbind_cong [fundef_cong]:
  "m = m' \<Longrightarrow> (\<And>x. m' = Inr x \<Longrightarrow> f x = f' x) \<Longrightarrow> rbind m f = rbind m' f'"
  by (cases m') (auto simp: rbind_def)

text \<open>A loop over a list that threads a state and stops at the first error.\<close>

fun rfold :: "('a \<Rightarrow> 's \<Rightarrow> 's result) \<Rightarrow> 'a list \<Rightarrow> 's \<Rightarrow> 's result" where
  "rfold f [] s = Inr s"
| "rfold f (x # xs) s = rbind (f x s) (rfold f xs)"

lemma rfold_append: "rfold f (xs @ ys) s = rbind (rfold f xs s) (rfold f ys)"
  by (induction xs arbitrary: s) (auto simp: rbind_assoc intro: rbind_cong)

lemma rfold_invariant:
  assumes "rfold f xs s = Inr s'" "P s"
    and "\<And>x s s'. x \<in> set xs \<Longrightarrow> P s \<Longrightarrow> f x s = Inr s' \<Longrightarrow> P s'"
  shows "P s'"
  using assms
proof (induction xs arbitrary: s)
  case Nil
  then show ?case by simp
next
  case (Cons x xs)
  from Cons.prems(1) obtain t where t: "f x s = Inr t" "rfold f xs t = Inr s'"
    by (auto simp: rbind_Inr_iff)
  with Cons.prems(2,3) have "P t" by auto
  with t(2) show ?case
    using Cons.prems(3) by (auto intro: Cons.IH)
qed

text \<open>\<open>std::vector::operator[]\<close>: an index past the end is undefined behaviour.\<close>

definition vec_at :: "'a list \<Rightarrow> nat \<Rightarrow> 'a result" where
  "vec_at xs i = (if i < length xs then Inr (xs ! i) else Inl (Undefined ''operator[]''))"

lemma vec_at_Inr [simp]: "i < length xs \<Longrightarrow> vec_at xs i = Inr (xs ! i)"
  by (simp add: vec_at_def)

lemma vec_at_Inr_iff: "vec_at xs i = Inr x \<longleftrightarrow> i < length xs \<and> x = xs ! i"
  by (auto simp: vec_at_def)

section \<open>Searching\<close>

text \<open>\<open>std::find_if(xs.begin(), xs.end(), P) - xs.begin()\<close>: the length when nothing matches.\<close>

fun find_if :: "('a \<Rightarrow> bool) \<Rightarrow> 'a list \<Rightarrow> nat" where
  "find_if P [] = 0"
| "find_if P (x # xs) = (if P x then 0 else Suc (find_if P xs))"

lemma find_if_le: "find_if P xs \<le> length xs"
  by (induction xs) auto

lemma find_if_less_iff: "find_if P xs < length xs \<longleftrightarrow> (\<exists>x \<in> set xs. P x)"
  by (induction xs) auto

lemma find_if_eq_length_iff: "find_if P xs = length xs \<longleftrightarrow> (\<forall>x \<in> set xs. \<not> P x)"
  by (induction xs) auto

lemma find_if_nth: "find_if P xs < length xs \<Longrightarrow> P (xs ! find_if P xs)"
  by (induction xs) auto

lemma find_if_before: "i < find_if P xs \<Longrightarrow> \<not> P (xs ! i)"
  by (induction xs arbitrary: i) (auto simp: nth_Cons split: nat.splits if_splits)

lemma find_if_append:
  "find_if P (xs @ ys) = (if \<exists>x \<in> set xs. P x then find_if P xs else length xs + find_if P ys)"
  by (induction xs) auto

lemma find_if_unique:
  assumes "i < length xs" "P (xs ! i)" "\<And>j. j < length xs \<Longrightarrow> P (xs ! j) \<Longrightarrow> j = i"
  shows "find_if P xs = i"
proof -
  have "find_if P xs < length xs"
    using assms(1,2) by (auto simp: find_if_less_iff)
  then show ?thesis
    using find_if_nth assms(3) by blast
qed

text \<open>\<open>erase(find(...))\<close>: removes the first element that satisfies the predicate, if any.\<close>

fun erase_first :: "('a \<Rightarrow> bool) \<Rightarrow> 'a list \<Rightarrow> 'a list" where
  "erase_first P [] = []"
| "erase_first P (x # xs) = (if P x then xs else x # erase_first P xs)"

lemma erase_first_eq: "erase_first P xs = take (find_if P xs) xs @ drop (Suc (find_if P xs)) xs"
  by (induction xs) auto

lemma erase_first_remove1: "erase_first (\<lambda>y. y = x) xs = remove1 x xs"
  by (induction xs) auto

lemma erase_first_id: "\<forall>x \<in> set xs. \<not> P x \<Longrightarrow> erase_first P xs = xs"
  by (induction xs) auto

lemma length_erase_first: "\<exists>x \<in> set xs. P x \<Longrightarrow> Suc (length (erase_first P xs)) = length xs"
  by (induction xs) auto

lemma set_erase_first_subset: "set (erase_first P xs) \<subseteq> set xs"
  by (induction xs) auto

lemma filter_erase_first: "filter (\<lambda>x. \<not> P x) (erase_first P xs) = filter (\<lambda>x. \<not> P x) xs"
  by (induction xs) auto

lemma subseq_erase_first: "subseq (erase_first P xs) xs"
  by (induction xs) auto

lemma subseq_distinct:
  assumes "subseq xs ys" "distinct ys"
  shows "distinct xs \<and> set xs \<subseteq> set ys"
  using assms by (induction rule: list_emb.induct) auto

section \<open>Characters\<close>

abbreviation LF :: char where "LF \<equiv> CHR 0x0A"
abbreviation CR :: char where "CR \<equiv> CHR 0x0D"
abbreviation HT :: char where "HT \<equiv> CHR 0x09"
abbreviation SP :: char where "SP \<equiv> CHR 0x20"
abbreviation CRLF :: string where "CRLF \<equiv> [CR, LF]"

definition is_space :: "char \<Rightarrow> bool" where
  "is_space c \<longleftrightarrow> c = SP \<or> c = HT \<or> c = LF \<or> c = CHR 0x0B \<or> c = CHR 0x0C \<or> c = CR"

lemma is_space_eval [simp]:
  "is_space SP" "is_space HT" "is_space LF" "is_space CR"
  by (simp_all add: is_space_def)

definition to_upper :: "char \<Rightarrow> char" where
  "to_upper c = (case map_of (zip ''abcdefghijklmnopqrstuvwxyz'' ''ABCDEFGHIJKLMNOPQRSTUVWXYZ'') c of
     None \<Rightarrow> c | Some u \<Rightarrow> u)"

section \<open>Numbers as text\<close>

definition digit_val :: "char \<Rightarrow> nat option" where
  "digit_val c = (let n = of_char c :: nat in
     if 48 \<le> n \<and> n \<le> 57 then Some (n - 48)
     else if 97 \<le> n \<and> n \<le> 102 then Some (n - 87)
     else if 65 \<le> n \<and> n \<le> 70 then Some (n - 55)
     else None)"

definition is_digit :: "nat \<Rightarrow> char \<Rightarrow> bool" where
  "is_digit b c = (case digit_val c of None \<Rightarrow> False | Some d \<Rightarrow> d < b)"

definition the_digit :: "char \<Rightarrow> nat" where
  "the_digit c = (case digit_val c of None \<Rightarrow> 0 | Some d \<Rightarrow> d)"

definition digit_char :: "nat \<Rightarrow> char" where
  "digit_char d = ''0123456789abcdef'' ! d"

definition digits_val :: "nat \<Rightarrow> string \<Rightarrow> nat" where
  "digits_val b s = foldl (\<lambda>v c. v * b + the_digit c) 0 s"

datatype errc = NoDigits | TooLarge

text \<open>
  \<open>std::from_chars(first, last, value, base)\<close> for an unsigned type of \<open>w\<close> bits: the longest
  prefix of digits is read, what follows is left alone, and there is no sign and no prefix
  \<open>0x\<close>.
\<close>

definition from_chars :: "nat \<Rightarrow> nat \<Rightarrow> string \<Rightarrow> errc + nat" where
  "from_chars b w s =
     (let ds = takeWhile (is_digit b) s in
      if ds = [] then Inl NoDigits
      else if digits_val b ds < 2 ^ w then Inr (digits_val b ds)
      else Inl TooLarge)"

text \<open>The digits an output stream writes for an unsigned number, and \<open>std::setw\<close> with fill \<open>0\<close>.\<close>

fun show_nat :: "nat \<Rightarrow> nat \<Rightarrow> string" where
  "show_nat b n = (if n < b \<or> b < 2 then [digit_char n]
                   else show_nat b (n div b) @ [digit_char (n mod b)])"

declare show_nat.simps [simp del]

definition pad_zero :: "nat \<Rightarrow> string \<Rightarrow> string" where
  "pad_zero w s = replicate (w - length s) CHR ''0'' @ s"

lemma less_16_cases:
  "(d::nat) < 16 \<Longrightarrow> d = 0 \<or> d = 1 \<or> d = 2 \<or> d = 3 \<or> d = 4 \<or> d = 5 \<or> d = 6 \<or> d = 7 \<or>
   d = 8 \<or> d = 9 \<or> d = 10 \<or> d = 11 \<or> d = 12 \<or> d = 13 \<or> d = 14 \<or> d = 15"
  by arith

lemma digit_val_digit_char: "d < 16 \<Longrightarrow> digit_val (digit_char d) = Some d"
  by (drule less_16_cases) (auto simp: digit_char_def digit_val_def)

lemma digit_char_not_space: "d < 16 \<Longrightarrow> \<not> is_space (digit_char d)"
  by (drule less_16_cases) (auto simp: digit_char_def is_space_def)

lemma is_digit_digit_char: "d < b \<Longrightarrow> b \<le> 16 \<Longrightarrow> is_digit b (digit_char d)"
  by (simp add: is_digit_def digit_val_digit_char)

lemma the_digit_digit_char: "d < 16 \<Longrightarrow> the_digit (digit_char d) = d"
  by (simp add: the_digit_def digit_val_digit_char)

lemma the_digit_less: "is_digit b c \<Longrightarrow> the_digit c < b"
  by (auto simp: is_digit_def the_digit_def split: option.splits)

lemma digits_val_Nil [simp]: "digits_val b [] = 0"
  by (simp add: digits_val_def)

lemma digits_val_snoc [simp]: "digits_val b (s @ [c]) = digits_val b s * b + the_digit c"
  by (simp add: digits_val_def)

lemma digits_val_append: "digits_val b (s @ t) = digits_val b s * b ^ length t + digits_val b t"
proof (induction t rule: rev_induct)
  case Nil
  then show ?case by simp
next
  case (snoc c t)
  have "digits_val b (s @ t @ [c]) = digits_val b (s @ t) * b + the_digit c"
    by (metis append_assoc digits_val_snoc)
  with snoc show ?case by (simp add: algebra_simps)
qed

lemma digits_val_less: "list_all (is_digit b) s \<Longrightarrow> digits_val b s < b ^ length s"
proof (induction s rule: rev_induct)
  case Nil
  then show ?case by simp
next
  case (snoc c s)
  then have le: "Suc (digits_val b s) \<le> b ^ length s" and c: "the_digit c < b"
    by (auto simp: the_digit_less)
  have "digits_val b s * b + the_digit c < Suc (digits_val b s) * b"
    using c by simp
  also have "\<dots> \<le> b ^ length s * b"
    using le by (rule mult_le_mono1)
  finally show ?case by (simp add: mult.commute)
qed

lemma show_nat_digits: "2 \<le> b \<Longrightarrow> b \<le> 16 \<Longrightarrow> list_all (is_digit b) (show_nat b n)"
proof (induction b n rule: show_nat.induct)
  case (1 b n)
  then show ?case
    by (subst show_nat.simps) (auto simp: is_digit_digit_char)
qed

lemma digits_val_show_nat: "2 \<le> b \<Longrightarrow> b \<le> 16 \<Longrightarrow> digits_val b (show_nat b n) = n"
proof (induction b n rule: show_nat.induct)
  case (1 b n)
  have small: "n mod b < 16" using "1.prems" by (meson less_le_trans mod_less_divisor zero_less_numeral)
  show ?case
  proof (cases "n < b")
    case True
    with "1.prems" show ?thesis
      by (subst show_nat.simps) (simp add: digits_val_def the_digit_digit_char)
  next
    case False
    with "1.prems" have "show_nat b n = show_nat b (n div b) @ [digit_char (n mod b)]"
      by (subst show_nat.simps) simp
    with "1.IH" False "1.prems" small show ?thesis
      by (simp add: the_digit_digit_char)
  qed
qed

lemma show_nat_not_Nil [simp]: "show_nat b n \<noteq> []"
  by (subst show_nat.simps) simp

lemma show_nat_length:
  "2 \<le> b \<Longrightarrow> n < b ^ k \<Longrightarrow> 0 < k \<Longrightarrow> length (show_nat b n) \<le> k"
proof (induction k arbitrary: n)
  case 0
  then show ?case by simp
next
  case (Suc k)
  show ?case
  proof (cases "n < b")
    case True
    then show ?thesis by (subst show_nat.simps) simp
  next
    case False
    with Suc.prems have k: "0 < k" by (cases k) auto
    have "n div b < b ^ k"
      using Suc.prems by (simp add: less_mult_imp_div_less mult.commute)
    with k Suc have "length (show_nat b (n div b)) \<le> k" by simp
    with False Suc.prems(1) show ?thesis by (subst show_nat.simps) simp
  qed
qed

lemma list_all_digit_not_space:
  assumes "list_all (is_digit b) s" "b \<le> 16" "c \<in> set s"
  shows "\<not> is_space c"
proof
  assume "is_space c"
  then have "digit_val c = None"
    by (auto simp: is_space_def digit_val_def)
  moreover have "is_digit b c" using assms(1,3) by (auto simp: list_all_iff)
  ultimately show False by (simp add: is_digit_def)
qed

lemma from_chars_digits:
  assumes "list_all (is_digit b) s" "s \<noteq> []" "digits_val b s < 2 ^ w"
    and "rest = [] \<or> \<not> is_digit b (hd rest)"
  shows "from_chars b w (s @ rest) = Inr (digits_val b s)"
proof -
  have "takeWhile (is_digit b) (s @ rest) = s"
    using assms(1,4) by (cases rest) (auto simp: takeWhile_append list_all_iff)
  with assms(2,3) show ?thesis by (simp add: from_chars_def)
qed

lemma from_chars_show_nat:
  assumes "2 \<le> b" "b \<le> 16" "n < 2 ^ w" "rest = [] \<or> \<not> is_digit b (hd rest)"
  shows "from_chars b w (show_nat b n @ rest) = Inr n"
  using assms from_chars_digits [of b "show_nat b n" w rest]
  by (simp add: show_nat_digits digits_val_show_nat)

lemma from_chars_bound: "from_chars b w s = Inr n \<Longrightarrow> n < 2 ^ w"
  by (auto simp: from_chars_def Let_def split: if_splits)

lemma from_chars_Nil [simp]: "from_chars b w [] = Inl NoDigits"
  by (simp add: from_chars_def)

lemma the_digit_zero [simp]: "the_digit CHR ''0'' = 0"
  by (simp add: the_digit_def digit_val_def)

lemma digits_val_pad_zero [simp]: "digits_val b (pad_zero w s) = digits_val b s"
proof -
  have "digits_val b (replicate k CHR ''0'') = 0" for k
    by (induction k) (simp_all add: replicate_append_same [symmetric])
  then show ?thesis by (simp add: pad_zero_def digits_val_append)
qed

lemma length_pad_zero: "length s \<le> w \<Longrightarrow> length (pad_zero w s) = w"
  by (simp add: pad_zero_def)

lemma pad_zero_digits:
  "0 < b \<Longrightarrow> list_all (is_digit b) s \<Longrightarrow> list_all (is_digit b) (pad_zero w s)"
  by (auto simp: pad_zero_def list_all_iff is_digit_def digit_val_def)

end
