(* ===== verification/ActionManifest.thy ===== *)
theory ActionManifest
  imports Prelude
begin

text \<open>
  \<open>Relation\<close> and \<open>ActionManifest\<close> (\<open>action-relation.cpp\<close>, \<open>action-manifest.cpp\<close>) and the loop of
  the \<open>ExecutionContext\<close> constructors that fills a manifest.  Relations are shared by pointer
  between the index, the dependency lists and the threads, which write the values; so there is
  a store of relations, a pointer is its position in the store, and the manifest holds pointers.

  The JSON document is a parameter: \<open>deps_of key\<close> is what
  \<open>manifest.at(key).as_object().at("depends").as_array()\<close> yields, one result per element since
  each is converted by \<open>as_string()\<close> in its turn, and \<open>file_of key\<close> the same for \<open>"file"\<close>; an
  exception of the JSON library is an error result.  The recursion follows the dependencies and
  runs on fuel; \<open>NoReturn\<close> stands for a recursion that does not end.
\<close>

section \<open>Relations\<close>

record relation =
  rel_key :: string
  rel_value :: string
  rel_deps :: "nat list"
  rel_depth :: nat
  rel_path :: string

definition default_relation :: relation where
  "default_relation = \<lparr>rel_key = [], rel_value = [], rel_deps = [], rel_depth = 0, rel_path = []\<rparr>"

text \<open>The loop of the constructors over the depths of the dependencies.\<close>

definition depth_of :: "nat list \<Rightarrow> nat" where
  "depth_of ds = foldl (\<lambda>depth d. if depth \<le> d then d + 1 else depth) 1 ds"

definition mk_relation :: "relation list \<Rightarrow> string \<Rightarrow> string \<Rightarrow> nat list \<Rightarrow> relation" where
  "mk_relation store key path deps = \<lparr>rel_key = key, rel_value = [], rel_deps = deps,
     rel_depth = depth_of (map (\<lambda>d. rel_depth (store ! d)) deps), rel_path = path\<rparr>"

definition mk_relation_value :: "relation list \<Rightarrow> string \<Rightarrow> string \<Rightarrow> string \<Rightarrow> nat list \<Rightarrow> relation" where
  "mk_relation_value store key value path deps = (mk_relation store key path deps)\<lparr>rel_value := value\<rparr>"

section \<open>The manifest\<close>

record manifest =
  concurrency :: nat
  store :: "relation list"
  index :: "nat list"

definition empty_manifest :: manifest where
  "empty_manifest = \<lparr>concurrency = 1, store = [], index = []\<rparr>"

definition rel_at :: "manifest \<Rightarrow> nat \<Rightarrow> relation" where
  "rel_at m a = store m ! a"

abbreviation "key_at m a \<equiv> rel_key (rel_at m a)"

definition find_key :: "manifest \<Rightarrow> string \<Rightarrow> nat" where
  "find_key m key = find_if (\<lambda>a. key_at m a = key) (index m)"

text \<open>\<open>std::filesystem::path::operator/\<close> with a POSIX path.\<close>

definition path_join :: "string \<Rightarrow> string \<Rightarrow> string" where
  "path_join dir f =
     (if f \<noteq> [] \<and> hd f = CHR ''/'' then f
      else if dir = [] \<or> last dir = CHR ''/'' then dir @ f
      else dir @ ''/'' @ f)"

definition push_relation :: "relation \<Rightarrow> manifest \<Rightarrow> manifest" where
  "push_relation r m = m\<lparr>store := store m @ [r], index := index m @ [length (store m)]\<rparr>"

text \<open>\<open>actions\<close> is the environment variable \<open>__OW_ACTIONS\<close>; a path made of a null pointer is undefined.\<close>

fun emplace :: "(string \<Rightarrow> string result list result) \<Rightarrow> (string \<Rightarrow> string result) \<Rightarrow> string option \<Rightarrow>
    nat \<Rightarrow> string \<Rightarrow> manifest \<Rightarrow> manifest result"
  and emplace_deps :: "(string \<Rightarrow> string result list result) \<Rightarrow> (string \<Rightarrow> string result) \<Rightarrow> string option \<Rightarrow>
    nat \<Rightarrow> string result list \<Rightarrow> manifest \<Rightarrow> nat list \<Rightarrow> (manifest \<times> nat list) result" where
  "emplace deps_of file_of actions 0 key m = Inl NoReturn"
| "emplace deps_of file_of actions (Suc n) key m =
     (if find_key m key < length (index m) then Inr m
      else rbind (deps_of key) (\<lambda>deps.
           rbind (emplace_deps deps_of file_of actions n deps m []) (\<lambda>(m1, ptrs).
           rbind (file_of key) (\<lambda>fname.
           case actions of
             None \<Rightarrow> Inl (Undefined ''path(nullptr)'')
           | Some dir \<Rightarrow> Inr (push_relation (mk_relation (store m1) key (path_join dir fname) ptrs) m1)))))"
| "emplace_deps deps_of file_of actions n [] m ptrs = Inr (m, ptrs)"
| "emplace_deps deps_of file_of actions n (d # ds) m ptrs =
     rbind d (\<lambda>dep_key.
     rbind (emplace deps_of file_of actions n dep_key m) (\<lambda>m1.
     rbind (vec_at (index m1) (find_key m1 dep_key)) (\<lambda>a.
       emplace_deps deps_of file_of actions n ds m1 (ptrs @ [a]))))"

text \<open>
  \<open>next(key, idx)\<close>: the pointer to the relation to compute, or \<open>None\<close> for the default relation
  that says that all are complete.
\<close>

definition incomplete :: "relation \<Rightarrow> bool" where
  "incomplete r \<longleftrightarrow> rel_value r = [] \<or> rel_value r = ''null''"

definition first_missing :: "manifest \<Rightarrow> nat list \<Rightarrow> nat \<Rightarrow> nat option" where
  "first_missing m deps start =
     (let n = length deps;
          order = map (\<lambda>offset. deps ! ((start + offset) mod n)) [0..<n];
          i = find_if (\<lambda>d. rel_value (rel_at m d) = []) order
      in if i < length order then Some (order ! i) else None)"

fun next_relation :: "nat \<Rightarrow> string \<Rightarrow> nat \<Rightarrow> manifest \<Rightarrow> nat option result" where
  "next_relation 0 key idx m = Inl NoReturn"
| "next_relation (Suc n) key idx m =
     (if \<not> (\<exists>a \<in> set (index m). incomplete (rel_at m a)) then Inr None
      else
        (let i = find_key m key in
         if i = length (index m) then Inl (Thrown ''Key not in index!'')
         else
           (let a = index m ! i; r = rel_at m a in
            if rel_value r \<noteq> [] then
              next_relation n (key_at m (index m ! ((i + 1) mod length (index m)))) idx m
            else if rel_deps r = [] then Inr (Some a)
            else
              (case first_missing m (rel_deps r) (idx mod length (rel_deps r)) of
                 Some d \<Rightarrow> next_relation n (key_at m d) idx m
               | None \<Rightarrow> Inr (Some a)))))"

text \<open>
  The loop of the constructors of \<open>ExecutionContext\<close>: \<open>keys\<close> are the keys of the JSON object in
  its order, without \<open>__OW_NUM_CONCURRENCY\<close>.
\<close>

fun load_loop :: "(string \<Rightarrow> string result list result) \<Rightarrow> (string \<Rightarrow> string result) \<Rightarrow> string option \<Rightarrow>
    nat \<Rightarrow> nat \<Rightarrow> string list \<Rightarrow> manifest \<Rightarrow> manifest result" where
  "load_loop deps_of file_of actions fuel 0 keys m = Inl NoReturn"
| "load_loop deps_of file_of actions fuel (Suc n) keys m =
     (if length (index m) < length keys then
        (let i = find_if (\<lambda>k. find_key m k = length (index m)) keys in
         rbind (if i < length keys then Inr (keys ! i) else Inl (Undefined ''*end()'')) (\<lambda>key.
         rbind (emplace deps_of file_of actions fuel key m) (\<lambda>m1.
           load_loop deps_of file_of actions fuel n keys m1)))
      else Inr m)"

text \<open>
  \<open>std::sort\<close> with the comparison \<open>a->depth() > b->depth()\<close>: a permutation with decreasing depths,
  in which relations of equal depth may come in any order.
\<close>

definition sorted_manifest :: "manifest \<Rightarrow> manifest \<Rightarrow> bool" where
  "sorted_manifest m m' \<longleftrightarrow>
     concurrency m' = concurrency m \<and> store m' = store m \<and> mset (index m') = mset (index m) \<and>
     sorted_wrt (\<lambda>a b. rel_depth (rel_at m' b) \<le> rel_depth (rel_at m' a)) (index m')"

section \<open>Depths\<close>

lemma depth_of_snoc: "depth_of (ds @ [d]) = max (depth_of ds) (Suc d)"
  by (simp add: depth_of_def)

lemma depth_of_Max: "depth_of ds = Suc (Max (set (0 # ds)))"
proof (induction ds rule: rev_induct)
  case Nil
  then show ?case by (simp add: depth_of_def)
next
  case (snoc d ds)
  have "Max (set (0 # ds @ [d])) = max (Max (set (0 # ds))) d"
    by (cases "ds = []") (simp_all add: max.commute max.left_commute)
  with snoc show ?case by (simp add: depth_of_snoc)
qed

lemma depth_of_less: "d \<in> set ds \<Longrightarrow> d < depth_of ds"
  unfolding depth_of_Max by (simp add: less_Suc_eq_le)

section \<open>The invariant\<close>

text \<open>
  Pointers are valid and not repeated, keys are not repeated, the dependencies of a relation are
  the relations of the keys the document gives, in order, all of them in the manifest, and the
  depth is one more than the greatest depth of a dependency.
\<close>

definition manifest_wf :: "(string \<Rightarrow> string result list result) \<Rightarrow> manifest \<Rightarrow> bool" where
  "manifest_wf deps_of m \<longleftrightarrow>
     distinct (index m) \<and> (\<forall>a \<in> set (index m). a < length (store m)) \<and>
     distinct (map (key_at m) (index m)) \<and>
     (\<forall>a \<in> set (index m).
        set (rel_deps (rel_at m a)) \<subseteq> set (index m) \<and>
        deps_of (key_at m a) = Inr (map (\<lambda>d. Inr (key_at m d)) (rel_deps (rel_at m a))) \<and>
        rel_depth (rel_at m a) = depth_of (map (\<lambda>d. rel_depth (rel_at m d)) (rel_deps (rel_at m a))))"

definition extends :: "manifest \<Rightarrow> manifest \<Rightarrow> bool" where
  "extends m m' \<longleftrightarrow> (\<exists>xs ys. store m' = store m @ xs \<and> index m' = index m @ ys) \<and> concurrency m' = concurrency m"

abbreviation "keys m \<equiv> key_at m ` set (index m)"

lemma find_key_less: "find_key m k < length (index m) \<longleftrightarrow> k \<in> keys m"
  unfolding find_key_def find_if_less_iff by auto

lemma find_key_eq: "find_key m k = length (index m) \<longleftrightarrow> k \<notin> keys m"
  unfolding find_key_def find_if_eq_length_iff by auto

lemma find_key_at: "k \<in> keys m \<Longrightarrow> key_at m (index m ! find_key m k) = k"
  using find_if_nth [of "\<lambda>a. key_at m a = k" "index m"] find_key_less [of m k] by (simp add: find_key_def)

lemma extends_refl: "extends m m"
  by (simp add: extends_def)

lemma extends_trans: "extends m m1 \<Longrightarrow> extends m1 m2 \<Longrightarrow> extends m m2"
  by (auto simp: extends_def)

lemma extends_rel_at: "extends m m' \<Longrightarrow> a < length (store m) \<Longrightarrow> rel_at m' a = rel_at m a"
  by (auto simp: extends_def rel_at_def nth_append)

lemma extends_index: "extends m m' \<Longrightarrow> set (index m) \<subseteq> set (index m')"
  by (auto simp: extends_def)

lemma wf_empty: "manifest_wf deps_of empty_manifest"
  by (simp add: manifest_wf_def empty_manifest_def)

lemma wf_deps:
  "manifest_wf deps_of m \<Longrightarrow> a \<in> set (index m) \<Longrightarrow>
   set (rel_deps (rel_at m a)) \<subseteq> set (index m) \<and>
   deps_of (key_at m a) = Inr (map (\<lambda>d. Inr (key_at m d)) (rel_deps (rel_at m a))) \<and>
   rel_depth (rel_at m a) = depth_of (map (\<lambda>d. rel_depth (rel_at m d)) (rel_deps (rel_at m a)))"
  by (simp add: manifest_wf_def)

lemma depth_decreases:
  assumes "manifest_wf deps_of m" "a \<in> set (index m)" "d \<in> set (rel_deps (rel_at m a))"
  shows "d \<in> set (index m) \<and> rel_depth (rel_at m d) < rel_depth (rel_at m a)"
  using assms depth_of_less [of "rel_depth (rel_at m d)" "map (\<lambda>d. rel_depth (rel_at m d)) (rel_deps (rel_at m a))"]
  by (auto simp: manifest_wf_def)

lemma push_wf:
  assumes wf: "manifest_wf deps_of m" and key: "key \<notin> keys m"
    and deps: "deps_of key = Inr (map (\<lambda>d. Inr (key_at m d)) ptrs)" "set ptrs \<subseteq> set (index m)"
  shows "manifest_wf deps_of (push_relation (mk_relation (store m) key path ptrs) m)"
    and "extends m (push_relation (mk_relation (store m) key path ptrs) m)"
    and "keys (push_relation (mk_relation (store m) key path ptrs) m) = insert key (keys m)"
proof -
  let ?r = "mk_relation (store m) key path ptrs"
  let ?m = "push_relation ?r m"
  have lt: "a < length (store m)" if "a \<in> set (index m)" for a using wf that by (simp add: manifest_wf_def)
  have old: "rel_at ?m a = rel_at m a" if "a \<in> set (index m)" for a
    using lt [OF that] by (simp add: push_relation_def rel_at_def nth_append)
  have new: "rel_at ?m (length (store m)) = ?r" by (simp add: push_relation_def rel_at_def)
  have idx: "index ?m = index m @ [length (store m)]" by (simp add: push_relation_def)
  have km: "key_at ?m (length (store m)) = key" by (subst new) (simp add: mk_relation_def)
  show ext: "extends m ?m" by (simp add: extends_def push_relation_def)
  show "keys ?m = insert key (keys m)"
    using old km by (auto simp: idx image_iff)
  have mk: "map (key_at ?m) (index ?m) = map (key_at m) (index m) @ [key]"
    using old km by (simp add: idx)
  have "distinct (map (key_at ?m) (index ?m))"
    unfolding mk using wf key by (simp add: manifest_wf_def)
  moreover have "distinct (index ?m)" "\<forall>a \<in> set (index ?m). a < length (store ?m)"
    using wf lt by (auto simp: idx manifest_wf_def) (auto simp: push_relation_def less_Suc_eq)
  moreover have "set (rel_deps (rel_at ?m a)) \<subseteq> set (index ?m) \<and>
      deps_of (key_at ?m a) = Inr (map (\<lambda>d. Inr (key_at ?m d)) (rel_deps (rel_at ?m a))) \<and>
      rel_depth (rel_at ?m a) = depth_of (map (\<lambda>d. rel_depth (rel_at ?m d)) (rel_deps (rel_at ?m a)))"
    if a: "a \<in> set (index ?m)" for a
  proof (cases "a = length (store m)")
    case True
    have r: "rel_at ?m a = ?r" using True new by simp
    have "map (\<lambda>d. rel_depth (store m ! d)) ptrs = map (\<lambda>d. rel_depth (rel_at ?m d)) ptrs"
      using old deps(2) by (auto simp: rel_at_def [of m])
    moreover have "map (\<lambda>d. Inr (key_at m d) :: string result) ptrs = map (\<lambda>d. Inr (key_at ?m d)) ptrs"
      using old deps(2) by auto
    moreover have "rel_deps ?r = ptrs" "rel_key ?r = key" "rel_depth ?r = depth_of (map (\<lambda>d. rel_depth (store m ! d)) ptrs)"
      by (simp_all add: mk_relation_def)
    moreover have "set ptrs \<subseteq> set (index ?m)" using deps(2) by (auto simp: idx)
    ultimately show ?thesis unfolding r using deps(1) by metis
  next
    case False
    with a have am: "a \<in> set (index m)" by (simp add: idx)
    note w = wf_deps [OF wf am]
    then have "map (\<lambda>d. rel_depth (rel_at ?m d)) (rel_deps (rel_at m a)) = map (\<lambda>d. rel_depth (rel_at m d)) (rel_deps (rel_at m a))"
      "map (\<lambda>d. Inr (key_at ?m d) :: string result) (rel_deps (rel_at m a)) = map (\<lambda>d. Inr (key_at m d)) (rel_deps (rel_at m a))"
      using old by auto
    moreover have "set (rel_deps (rel_at m a)) \<subseteq> set (index ?m)" using w by (auto simp: idx)
    ultimately show ?thesis unfolding old [OF am] using w by metis
  qed
  ultimately show "manifest_wf deps_of ?m"
    unfolding manifest_wf_def by blast
qed

section \<open>Emplacing\<close>

abbreviation "depth_at m a \<equiv> rel_depth (rel_at m a)"

lemma wf_less: "manifest_wf deps_of m \<Longrightarrow> a \<in> set (index m) \<Longrightarrow> a < length (store m)"
  by (simp add: manifest_wf_def)

lemma wf_pointer_eq:
  "manifest_wf deps_of m \<Longrightarrow> a \<in> set (index m) \<Longrightarrow> b \<in> set (index m) \<Longrightarrow> key_at m a = key_at m b \<Longrightarrow> a = b"
  by (auto simp: manifest_wf_def distinct_map inj_on_def)

lemma extends_at:
  "manifest_wf deps_of m \<Longrightarrow> extends m m' \<Longrightarrow> a \<in> set (index m) \<Longrightarrow>
   rel_at m' a = rel_at m a \<and> a \<in> set (index m')"
  using extends_rel_at wf_less extends_index by blast

text \<open>
  What is added on behalf of a key is never deeper than the key's own relation; this is what
  excludes that a key is added a second time by its own dependencies.
\<close>

definition emplaced :: "(string \<Rightarrow> string result list result) \<Rightarrow> manifest \<Rightarrow> manifest \<Rightarrow> string \<Rightarrow> bool" where
  "emplaced deps_of m m' key \<longleftrightarrow> manifest_wf deps_of m' \<and> extends m m' \<and>
     (\<exists>p \<in> set (index m'). key_at m' p = key \<and>
        (\<forall>a \<in> set (index m') - set (index m). depth_at m' a \<le> depth_at m' p))"

definition emplaced_deps ::
  "(string \<Rightarrow> string result list result) \<Rightarrow> manifest \<Rightarrow> string result list \<Rightarrow> nat list \<Rightarrow> manifest \<Rightarrow> nat list \<Rightarrow> bool" where
  "emplaced_deps deps_of m ds ptrs m' ps \<longleftrightarrow> manifest_wf deps_of m' \<and> extends m m' \<and>
     (\<exists>qs. ps = ptrs @ qs \<and> set qs \<subseteq> set (index m') \<and> ds = map (\<lambda>d. Inr (key_at m' d)) qs \<and>
        (\<forall>a \<in> set (index m') - set (index m). \<exists>q \<in> set qs. depth_at m' a \<le> depth_at m' q))"

lemma emplaced_key_new:
  assumes "manifest_wf deps_of m" "key \<notin> keys m" "deps_of key = Inr ds" "emplaced_deps deps_of m ds [] m1 ps"
  shows "key \<notin> keys m1"
proof
  assume "key \<in> keys m1"
  then obtain a where a: "a \<in> set (index m1)" "key_at m1 a = key" by auto
  from assms(4) have wf1: "manifest_wf deps_of m1" and ext: "extends m m1" and ps: "set ps \<subseteq> set (index m1)"
    "ds = map (\<lambda>d. Inr (key_at m1 d)) ps"
    "\<forall>a \<in> set (index m1) - set (index m). \<exists>q \<in> set ps. depth_at m1 a \<le> depth_at m1 q"
    by (auto simp: emplaced_deps_def)
  have "a \<notin> set (index m)" using a(2) assms(2) extends_at [OF assms(1) ext] by auto
  with ps(3) a(1) obtain q where q: "q \<in> set ps" "depth_at m1 a \<le> depth_at m1 q" by blast
  from wf1 a have "map (\<lambda>d. Inr (key_at m1 d) :: string result) (rel_deps (rel_at m1 a)) = map (\<lambda>d. Inr (key_at m1 d)) ps"
    using assms(3) ps(2) wf_deps [OF wf1 a(1)] a(2) by simp
  then have "set (map (\<lambda>d. Inr (key_at m1 d) :: string result) (rel_deps (rel_at m1 a))) =
      set (map (\<lambda>d. Inr (key_at m1 d)) ps)" by (rule arg_cong)
  moreover have "Inr (key_at m1 q) \<in> set (map (\<lambda>d. Inr (key_at m1 d) :: string result) ps)" using q(1) by simp
  ultimately have "Inr (key_at m1 q) \<in> set (map (\<lambda>d. Inr (key_at m1 d) :: string result) (rel_deps (rel_at m1 a)))"
    by (simp only:)
  then obtain d where d: "d \<in> set (rel_deps (rel_at m1 a))" "key_at m1 d = key_at m1 q" by auto
  then have "d = q" using wf_pointer_eq [OF wf1] depth_decreases [OF wf1 a(1)] ps(1) q(1) by blast
  with d depth_decreases [OF wf1 a(1)] q(2) show False by fastforce
qed

lemma emplace_ok:
  "manifest_wf deps_of m \<Longrightarrow> emplace deps_of file_of actions n key m = Inr m' \<Longrightarrow>
   (key \<in> keys m \<longrightarrow> m' = m) \<and> emplaced deps_of m m' key"
  "manifest_wf deps_of m \<Longrightarrow> emplace_deps deps_of file_of actions n ds m ptrs = Inr (m', ps) \<Longrightarrow>
   emplaced_deps deps_of m ds ptrs m' ps"
proof (induction deps_of file_of actions n key m and deps_of file_of actions n ds m ptrs
    arbitrary: m' and m' ps rule: emplace_emplace_deps.induct)
  case (1 deps_of file_of actions key m)
  then show ?case by simp
next
  case (2 deps_of file_of actions n key m)
  show ?case
  proof (cases "key \<in> keys m")
    case True
    then have "m' = m" using "2.prems"(2) find_key_less [of m key] by simp
    with True "2.prems"(1) show ?thesis by (auto simp: emplaced_def extends_refl)
  next
    case False
    then have nf: "\<not> find_key m key < length (index m)" by (simp add: find_key_less)
    from "2.prems"(2) nf obtain deps m1 ptrs fname dir where
      d: "deps_of key = Inr deps" "emplace_deps deps_of file_of actions n deps m [] = Inr (m1, ptrs)"
      and m': "m' = push_relation (mk_relation (store m1) key (path_join dir fname) ptrs) m1"
      by (auto simp: rbind_Inr_iff split: option.splits)
    have ed: "emplaced_deps deps_of m deps [] m1 ptrs"
      using "2.IH" [OF nf d(1) "2.prems"(1) d(2)] .
    then have wf1: "manifest_wf deps_of m1" and ext: "extends m m1" and ps: "set ptrs \<subseteq> set (index m1)"
      "deps = map (\<lambda>d. Inr (key_at m1 d)) ptrs"
      "\<forall>a \<in> set (index m1) - set (index m). \<exists>q \<in> set ptrs. depth_at m1 a \<le> depth_at m1 q"
      by (auto simp: emplaced_deps_def)
    have new: "key \<notin> keys m1" using emplaced_key_new [OF "2.prems"(1) False d(1) ed] .
    have push: "manifest_wf deps_of m'" "extends m1 m'"
      unfolding m' using push_wf [OF wf1 new _ ps(1), of "path_join dir fname"] d(1) ps(2) by simp_all
    let ?p = "length (store m1)"
    have p: "?p \<in> set (index m')" "rel_at m' ?p = mk_relation (store m1) key (path_join dir fname) ptrs"
      by (simp_all add: m' push_relation_def rel_at_def)
    have old: "rel_at m' a = rel_at m1 a" if "a \<in> set (index m1)" for a
      using extends_at [OF wf1 push(2) that] by simp
    have "depth_at m' a \<le> depth_at m' ?p" if a: "a \<in> set (index m') - set (index m)" for a
    proof (cases "a = ?p")
      case False
      with a have a1: "a \<in> set (index m1)" by (simp add: m' push_relation_def)
      with a ps(3) obtain q where q: "q \<in> set ptrs" "depth_at m1 a \<le> depth_at m1 q" by blast
      have "depth_at m1 q < depth_of (map (\<lambda>d. rel_depth (store m1 ! d)) ptrs)"
        using q(1) by (intro depth_of_less) (auto simp: rel_at_def)
      with q(2) old [OF a1] p(2) show ?thesis by (simp add: mk_relation_def)
    qed simp
    moreover have "extends m m'" using extends_trans [OF ext push(2)] .
    moreover have "key_at m' ?p = key" by (subst p(2)) (simp add: mk_relation_def)
    ultimately show ?thesis using False push(1) p(1) unfolding emplaced_def by blast
  qed
next
  case (3 deps_of file_of actions n m ptrs)
  then show ?case by (simp add: emplaced_deps_def extends_refl)
next
  case (4 deps_of file_of actions n d ds m ptrs)
  from "4.prems"(2) obtain k m1 a where
    k: "d = Inr k" and m1: "emplace deps_of file_of actions n k m = Inr m1"
    and a: "vec_at (index m1) (find_key m1 k) = Inr a"
    and rest: "emplace_deps deps_of file_of actions n ds m1 (ptrs @ [a]) = Inr (m', ps)"
    by (auto simp: rbind_Inr_iff)
  have em: "emplaced deps_of m m1 k" using "4.IH"(1) [OF k "4.prems"(1) m1] by simp
  then have wf1: "manifest_wf deps_of m1" by (simp add: emplaced_def)
  have ed: "emplaced_deps deps_of m1 ds (ptrs @ [a]) m' ps"
    using "4.IH"(2) [OF k m1 a wf1 rest] .
  from em obtain p where ext1: "extends m m1" and p: "p \<in> set (index m1)" "key_at m1 p = k"
    "\<forall>a \<in> set (index m1) - set (index m). depth_at m1 a \<le> depth_at m1 p"
    by (auto simp: emplaced_def)
  from a p(1,2) have "key_at m1 a = k" "a \<in> set (index m1)"
    using find_key_at [of k m1] by (auto simp: vec_at_Inr_iff)
  then have ap: "a = p" using wf_pointer_eq [OF wf1] p(1,2) by blast
  from ed obtain qs where wf': "manifest_wf deps_of m'" and ext2: "extends m1 m'"
    and qs: "ps = (ptrs @ [a]) @ qs" "set qs \<subseteq> set (index m')" "ds = map (\<lambda>d. Inr (key_at m' d)) qs"
      "\<forall>b \<in> set (index m') - set (index m1). \<exists>q \<in> set qs. depth_at m' b \<le> depth_at m' q"
    by (auto simp: emplaced_deps_def)
  have old: "rel_at m' b = rel_at m1 b \<and> b \<in> set (index m')" if "b \<in> set (index m1)" for b
    using extends_at [OF wf1 ext2 that] .
  have "\<exists>q \<in> set (p # qs). depth_at m' b \<le> depth_at m' q" if b: "b \<in> set (index m') - set (index m)" for b
  proof (cases "b \<in> set (index m1)")
    case True
    with b p(3) have "depth_at m1 b \<le> depth_at m1 p" by blast
    with old [OF True] old [OF p(1)] show ?thesis by auto
  next
    case False
    with b qs(4) show ?thesis by auto
  qed
  moreover have "ps = ptrs @ p # qs" using qs(1) ap by simp
  moreover have "set (p # qs) \<subseteq> set (index m')" using qs(2) old [OF p(1)] by simp
  moreover have "d # ds = map (\<lambda>d. Inr (key_at m' d)) (p # qs)" using qs(3) k old [OF p(1)] p(2) by simp
  ultimately show ?case
    unfolding emplaced_deps_def
    by (intro conjI wf' extends_trans [OF ext1 ext2] exI [of _ "p # qs"] ballI)
qed

text \<open>
  Emplacing a key keeps the manifest well-formed and only adds to it; afterwards the key is
  there, each relation holds pointers to the relations of exactly the keys the document lists,
  and its depth is one more than the deepest of them.  A key that is there is left alone.
\<close>
theorem emplace_correct:
  assumes "manifest_wf deps_of m" "emplace deps_of file_of actions n key m = Inr m'"
  shows "manifest_wf deps_of m' \<and> extends m m' \<and> key \<in> keys m' \<and> (key \<in> keys m \<longrightarrow> m' = m) \<and>
    (\<forall>a \<in> set (index m'). deps_of (key_at m' a) = Inr (map (\<lambda>d. Inr (key_at m' d)) (rel_deps (rel_at m' a))) \<and>
       (\<forall>d \<in> set (rel_deps (rel_at m' a)). depth_at m' d < depth_at m' a))"
proof -
  have "key \<in> keys m \<longrightarrow> m' = m" and e: "emplaced deps_of m m' key" using emplace_ok(1) [OF assms] by simp_all
  moreover from e have "manifest_wf deps_of m'" "extends m m'" "key \<in> keys m'"
    by (auto simp: emplaced_def)
  ultimately show ?thesis using wf_deps depth_decreases by blast
qed

definition demo_deps :: "string \<Rightarrow> string result list result" where
  "demo_deps k = (if k = ''main'' then Inr [Inr ''a'', Inr ''b''] else if k = ''a'' then Inr [Inr ''b'']
     else if k = ''b'' then Inr [] else Inl (Thrown ''out_of_range''))"

definition demo_file :: "string \<Rightarrow> string result" where
  "demo_file k = Inr (k @ ''.lua'')"

definition demo_manifest :: manifest where
  "demo_manifest = \<lparr>concurrency = 1,
     store = [\<lparr>rel_key = ''b'', rel_value = [], rel_deps = [], rel_depth = 1, rel_path = ''/act/b.lua''\<rparr>,
              \<lparr>rel_key = ''a'', rel_value = [], rel_deps = [0], rel_depth = 2, rel_path = ''/act/a.lua''\<rparr>,
              \<lparr>rel_key = ''main'', rel_value = [], rel_deps = [1, 0], rel_depth = 3, rel_path = ''/act/main.lua''\<rparr>],
     index = [0, 1, 2]\<rparr>"

lemma demo_emplace: "emplace demo_deps demo_file (Some ''/act'') 5 ''main'' empty_manifest = Inr demo_manifest"
  by (simp add: numeral_eq_Suc demo_deps_def demo_file_def demo_manifest_def empty_manifest_def find_key_def
      rel_at_def push_relation_def mk_relation_def depth_of_def path_join_def)

theorem emplace_correct_witness:
  "manifest_wf demo_deps demo_manifest \<and> extends empty_manifest demo_manifest \<and> ''main'' \<in> keys demo_manifest"
  using emplace_correct [OF wf_empty demo_emplace] by (elim conjE) (intro conjI)

section \<open>Termination of the recursion\<close>

text \<open>A document without cycles: every dependency of a key is a key of smaller rank.\<close>

definition acyclic_doc ::
  "(string \<Rightarrow> string result list result) \<Rightarrow> (string \<Rightarrow> string result) \<Rightarrow> string set \<Rightarrow> (string \<Rightarrow> nat) \<Rightarrow> bool" where
  "acyclic_doc deps_of file_of K rank \<longleftrightarrow>
     (\<forall>k \<in> K. (\<exists>ds. deps_of k = Inr (map Inr ds) \<and> set ds \<subseteq> K \<and> (\<forall>d \<in> set ds. rank d < rank k)) \<and>
              (\<exists>f. file_of k = Inr f))"

lemma emplace_total:
  assumes "acyclic_doc deps_of file_of K rank"
  shows "manifest_wf deps_of m \<Longrightarrow> key \<in> K \<Longrightarrow> rank key < n \<Longrightarrow>
    \<exists>m'. emplace deps_of file_of (Some dir) n key m = Inr m'"
proof (induction n arbitrary: key m)
  case 0
  then show ?case by simp
next
  case (Suc n)
  from assms Suc.prems(2) obtain ds f where ds: "deps_of key = Inr (map Inr ds)" "set ds \<subseteq> K"
    "\<forall>d \<in> set ds. rank d < rank key" and f: "file_of key = Inr f" by (fastforce simp: acyclic_doc_def)
  have "\<exists>r. emplace_deps deps_of file_of (Some dir) n (map Inr es) m0 ptrs = Inr r"
    if "set es \<subseteq> set ds" "manifest_wf deps_of m0" for es m0 ptrs
    using that
  proof (induction es arbitrary: m0 ptrs)
    case Nil
    then show ?case by simp
  next
    case (Cons e es)
    then have "e \<in> K" "rank e < n" using ds(2,3) Suc.prems(3) by auto
    then obtain m1 where m1: "emplace deps_of file_of (Some dir) n e m0 = Inr m1"
      using Suc.IH Cons.prems(2) by blast
    then have "emplaced deps_of m0 m1 e" using emplace_ok(1) Cons.prems(2) by blast
    then have "manifest_wf deps_of m1" "find_key m1 e < length (index m1)"
      by (auto simp: emplaced_def find_key_less)
    with m1 Cons show ?case by simp
  qed
  from this [OF order_refl Suc.prems(1), of "[]"] obtain m1 ptrs
    where "emplace_deps deps_of file_of (Some dir) n (map Inr ds) m [] = Inr (m1, ptrs)" by auto
  with ds(1) f show ?case by simp
qed

lemma self_dependency_diverges:
  "deps_of k = Inr (Inr k # ds) \<Longrightarrow> k \<notin> keys m \<Longrightarrow> emplace deps_of file_of actions n k m = Inl NoReturn"
proof (induction n)
  case (Suc n)
  then have "\<not> find_key m k < length (index m)" by (simp add: find_key_less)
  with Suc show ?case by simp
qed simp

text \<open>
  The recursion of \<open>emplace\<close> ends on a document without cycles, with fuel one more than the
  rank of the key; on a key that lists itself as its first dependency it never ends.
\<close>
theorem emplace_terminates:
  assumes "manifest_wf deps_of m" "key \<notin> keys m"
  shows "(acyclic_doc deps_of file_of K rank \<and> key \<in> K \<and> rank key < n \<longrightarrow>
            (\<exists>m'. emplace deps_of file_of (Some dir) n key m = Inr m')) \<and>
         (deps_of key = Inr (Inr key # ds) \<longrightarrow> emplace deps_of file_of (Some dir) n key m = Inl NoReturn)"
  using assms emplace_total self_dependency_diverges by blast

theorem emplace_terminates_witness:
  "\<exists>m'. emplace demo_deps demo_file (Some ''/act'') 1 ''b'' empty_manifest = Inr m'"
proof (rule emplace_terminates [OF wf_empty, THEN conjunct1, THEN mp])
  show "''b'' \<notin> keys empty_manifest" by (simp add: empty_manifest_def)
  show "acyclic_doc demo_deps demo_file {''b''} (\<lambda>_. 0) \<and> ''b'' \<in> {''b''} \<and> (0 :: nat) < 1"
    by (simp add: acyclic_doc_def demo_deps_def demo_file_def)
qed

section \<open>Loading the document\<close>

lemma length_index_keys: "manifest_wf deps_of m \<Longrightarrow> card (keys m) = length (index m)"
  unfolding manifest_wf_def by (metis distinct_card list.set_map length_map)

lemma keys_documented: "manifest_wf deps_of m \<Longrightarrow> k \<in> keys m \<Longrightarrow> \<exists>ds. deps_of k = Inr ds"
  using wf_deps by blast

lemma emplaced_grows:
  assumes "emplaced deps_of m m' key" "manifest_wf deps_of m" "key \<notin> keys m"
  shows "length (index m) < length (index m')"
proof -
  from assms(1) obtain ys where ys: "index m' = index m @ ys" "key \<in> keys m'"
    by (auto simp: emplaced_def extends_def)
  have "keys m = key_at m' ` set (index m)"
    using assms(1,2) extends_at by (auto simp: emplaced_def image_iff)
  with ys assms(3) have "ys \<noteq> []" by auto
  with ys(1) show ?thesis by simp
qed

lemma load_step:
  assumes "manifest_wf deps_of m" "distinct ks" "\<And>k ds. deps_of k = Inr ds \<Longrightarrow> k \<in> set ks"
    "length (index m) < length ks"
  shows "find_if (\<lambda>k. find_key m k = length (index m)) ks < length ks \<and>
         ks ! find_if (\<lambda>k. find_key m k = length (index m)) ks \<notin> keys m"
proof -
  have "card (keys m) < card (set ks)"
    using assms(4) length_index_keys [OF assms(1)] distinct_card [OF assms(2)] by simp
  moreover have "keys m \<subseteq> set ks" using keys_documented [OF assms(1)] assms(3) by blast
  ultimately have "\<exists>k \<in> set ks. k \<notin> keys m" by (metis subsetI subset_antisym less_irrefl)
  then have lt: "find_if (\<lambda>k. find_key m k = length (index m)) ks < length ks"
    unfolding find_if_less_iff find_key_eq by blast
  with find_if_nth [OF lt] show ?thesis by (simp add: find_key_eq)
qed

lemma load_full:
  assumes "manifest_wf deps_of m" "distinct ks" "\<And>k ds. deps_of k = Inr ds \<Longrightarrow> k \<in> set ks"
    "\<not> length (index m) < length ks"
  shows "keys m = set ks"
proof -
  have "keys m \<subseteq> set ks" using keys_documented [OF assms(1)] assms(3) by blast
  moreover have "card (set ks) \<le> card (keys m)"
    using assms(4) length_index_keys [OF assms(1)] distinct_card [OF assms(2)] by simp
  ultimately show ?thesis by (metis List.finite_set card_seteq)
qed

lemma load_loop_ok:
  assumes "distinct ks" "\<And>k ds. deps_of k = Inr ds \<Longrightarrow> k \<in> set ks"
  shows "manifest_wf deps_of m \<Longrightarrow> load_loop deps_of file_of actions fuel n ks m = Inr m' \<Longrightarrow>
    manifest_wf deps_of m' \<and> keys m' = set ks \<and> concurrency m' = concurrency m"
proof (induction n arbitrary: m)
  case 0
  then show ?case by simp
next
  case (Suc n)
  show ?case
  proof (cases "length (index m) < length ks")
    case False
    then show ?thesis using Suc.prems load_full [OF Suc.prems(1) assms False] by simp
  next
    case True
    let ?k = "ks ! find_if (\<lambda>k. find_key m k = length (index m)) ks"
    from Suc.prems(2) True load_step [OF Suc.prems(1) assms True] obtain m1
      where m1: "emplace deps_of file_of actions fuel ?k m = Inr m1"
        and rest: "load_loop deps_of file_of actions fuel n ks m1 = Inr m'"
      by (auto simp: Let_def rbind_Inr_iff)
    have e: "emplaced deps_of m m1 ?k" using emplace_ok(1) [OF Suc.prems(1) m1] by blast
    then have "manifest_wf deps_of m1" "concurrency m1 = concurrency m" by (auto simp: emplaced_def extends_def)
    with Suc.IH [OF _ rest] show ?thesis by simp
  qed
qed

lemma load_loop_total:
  assumes "distinct ks" "\<And>k ds. deps_of k = Inr ds \<Longrightarrow> k \<in> set ks"
    "acyclic_doc deps_of file_of (set ks) rank" "\<forall>k \<in> set ks. rank k < fuel"
  shows "manifest_wf deps_of m \<Longrightarrow> length ks - length (index m) < n \<Longrightarrow>
    \<exists>m'. load_loop deps_of file_of (Some dir) fuel n ks m = Inr m'"
proof (induction n arbitrary: m)
  case 0
  then show ?case by simp
next
  case (Suc n)
  show ?case
  proof (cases "length (index m) < length ks")
    case False
    then show ?thesis by simp
  next
    case True
    let ?i = "find_if (\<lambda>k. find_key m k = length (index m)) ks"
    have i: "?i < length ks" "ks ! ?i \<notin> keys m" using load_step [OF Suc.prems(1) assms(1,2) True] by simp_all
    then obtain m1 where m1: "emplace deps_of file_of (Some dir) fuel (ks ! ?i) m = Inr m1"
      using emplace_total [OF assms(3) Suc.prems(1)] assms(4) nth_mem by blast
    have e: "emplaced deps_of m m1 (ks ! ?i)" using emplace_ok(1) [OF Suc.prems(1) m1] by blast
    then have "manifest_wf deps_of m1" by (simp add: emplaced_def)
    moreover have "length ks - length (index m1) < n"
      using emplaced_grows [OF e Suc.prems(1) i(2)] Suc.prems(2) True by linarith
    ultimately obtain m' where "load_loop deps_of file_of (Some dir) fuel n ks m1 = Inr m'"
      using Suc.IH by blast
    with m1 i(1) True show ?thesis by (simp add: Let_def)
  qed
qed

lemma sorted_topological:
  assumes "manifest_wf deps_of m" "sorted_manifest m m'" "i < length (index m')" "j < length (index m')"
    "index m' ! j \<in> set (rel_deps (rel_at m' (index m' ! i)))"
  shows "i < j"
proof (rule ccontr)
  assume "\<not> i < j"
  then have ji: "j \<le> i" by simp
  have eq: "rel_at m' = rel_at m" using assms(2) by (auto simp: sorted_manifest_def rel_at_def)
  have "index m' ! i \<in> set (index m)"
    using assms(2,3) nth_mem mset_eq_setD by (metis sorted_manifest_def)
  then have "depth_at m' (index m' ! j) < depth_at m' (index m' ! i)"
    using depth_decreases [OF assms(1)] assms(5) by (simp add: eq)
  moreover have "depth_at m' (index m' ! i) \<le> depth_at m' (index m' ! j)"
  proof (cases "j = i")
    case False
    with ji have "j < i" by simp
    with assms(2,3) show ?thesis unfolding sorted_manifest_def sorted_wrt_iff_nth_less by blast
  qed simp
  ultimately show False by simp
qed

text \<open>
  C18: loading a document.  The loop of the constructors ends on a document without cycles, and
  then the manifest holds each key of the document exactly once; once sorted by decreasing
  depth, in whatever order equal depths fall, every relation stands before all its
  dependencies.
\<close>
theorem load_manifest_correct:
  assumes "distinct ks" "\<forall>k ds. deps_of k = Inr ds \<longrightarrow> k \<in> set ks"
    "acyclic_doc deps_of file_of (set ks) rank" "\<forall>k \<in> set ks. rank k < fuel" "length ks < n"
  shows "\<exists>m. load_loop deps_of file_of (Some dir) fuel n ks empty_manifest = Inr m \<and>
    keys m = set ks \<and> length (index m) = length ks \<and>
    (\<forall>m'. sorted_manifest m m' \<longrightarrow>
       mset (map (key_at m') (index m')) = mset ks \<and>
       (\<forall>i j. i < length (index m') \<and> j < length (index m') \<and>
          index m' ! j \<in> set (rel_deps (rel_at m' (index m' ! i))) \<longrightarrow> i < j))"
proof -
  from assms(2) have doc: "\<And>k ds. deps_of k = Inr ds \<Longrightarrow> k \<in> set ks" by blast
  obtain m where m: "load_loop deps_of file_of (Some dir) fuel n ks empty_manifest = Inr m"
  proof -
    have "length ks - length (index empty_manifest) < n" using assms(5) by (simp add: empty_manifest_def)
    then have "\<exists>m. load_loop deps_of file_of (Some dir) fuel n ks empty_manifest = Inr m"
      by (intro load_loop_total [OF assms(1) _ assms(3,4) wf_empty]) (rule doc)
    then show thesis using that by blast
  qed
  have wf: "manifest_wf deps_of m" and k: "keys m = set ks"
    using load_loop_ok [OF assms(1) doc wf_empty m] by simp_all
  have len: "length (index m) = length ks"
    using length_index_keys [OF wf] k distinct_card [OF assms(1)] by simp
  have "mset (map (key_at m') (index m')) = mset ks" if s: "sorted_manifest m m'" for m'
  proof -
    have "mset (map (key_at m') (index m')) = mset (map (key_at m) (index m))"
      using s by (simp add: sorted_manifest_def rel_at_def [abs_def])
    also have "\<dots> = mset ks"
      using wf k assms(1) by (intro set_eq_iff_mset_eq_distinct [THEN iffD1]) (simp_all add: manifest_wf_def)
    finally show ?thesis .
  qed
  with m k len sorted_topological [OF wf] show ?thesis by blast
qed

definition demo_rank :: "string \<Rightarrow> nat" where
  "demo_rank k = (if k = ''main'' then 2 else if k = ''a'' then 1 else 0)"

theorem load_manifest_correct_witness:
  "\<exists>m. load_loop demo_deps demo_file (Some ''/act'') 3 4 [''b'', ''main'', ''a''] empty_manifest = Inr m \<and>
    keys m = set [''b'', ''main'', ''a''] \<and> length (index m) = length [''b'', ''main'', ''a''] \<and>
    (\<forall>m'. sorted_manifest m m' \<longrightarrow>
       mset (map (key_at m') (index m')) = mset [''b'', ''main'', ''a''] \<and>
       (\<forall>i j. i < length (index m') \<and> j < length (index m') \<and>
          index m' ! j \<in> set (rel_deps (rel_at m' (index m' ! i))) \<longrightarrow> i < j))"
proof (rule load_manifest_correct [where rank = demo_rank])
  have "demo_deps ''b'' = Inr (map Inr []) \<and> demo_deps ''a'' = Inr (map Inr [''b'']) \<and>
      demo_deps ''main'' = Inr (map Inr [''a'', ''b''])" by (simp add: demo_deps_def)
  moreover have "\<exists>ds. [Inr ''a'', Inr ''b''] = (map Inr ds :: string result list) \<and> set ds \<subseteq> {''b'', ''main'', ''a''} \<and>
      (\<forall>d \<in> set ds. demo_rank d < demo_rank ''main'')"
    by (rule exI [of _ "[''a'', ''b'']"]) (simp add: demo_rank_def)
  moreover have "\<exists>ds. [Inr ''b''] = (map Inr ds :: string result list) \<and> set ds \<subseteq> {''b'', ''main'', ''a''} \<and>
      (\<forall>d \<in> set ds. demo_rank d < demo_rank ''a'')"
    by (rule exI [of _ "[''b'']"]) (simp add: demo_rank_def)
  ultimately show "acyclic_doc demo_deps demo_file (set [''b'', ''main'', ''a'']) demo_rank"
    unfolding acyclic_doc_def by (simp add: demo_file_def)
qed (auto simp: demo_deps_def demo_rank_def split: if_splits)

section \<open>Choosing the next relation\<close>

text \<open>What \<open>next\<close> needs of a manifest; sorting and writing values keep it.\<close>

definition task_graph :: "manifest \<Rightarrow> bool" where
  "task_graph m \<longleftrightarrow> distinct (map (key_at m) (index m)) \<and>
     (\<forall>a \<in> set (index m). \<forall>d \<in> set (rel_deps (rel_at m a)). d \<in> set (index m) \<and> depth_at m d < depth_at m a)"

lemma wf_task_graph:
  assumes "manifest_wf deps_of m" "sorted_manifest m m'"
  shows "task_graph m'"
proof -
  have eq: "rel_at m' = rel_at m" and ms: "mset (index m') = mset (index m)"
    using assms(2) by (auto simp: sorted_manifest_def rel_at_def)
  have "mset (map (key_at m) (index m')) = mset (map (key_at m) (index m))" using ms by simp
  then have "distinct (map (key_at m) (index m'))"
    using assms(1) mset_eq_imp_distinct_iff unfolding manifest_wf_def by blast
  then show ?thesis
    using depth_decreases [OF assms(1)] mset_eq_setD [OF ms] by (simp add: task_graph_def eq)
qed

lemma find_key_nth:
  assumes "task_graph m" "i < length (index m)"
  shows "find_key m (key_at m (index m ! i)) = i"
  unfolding find_key_def
proof (rule find_if_unique [OF assms(2)])
  fix j assume "j < length (index m)" "key_at m (index m ! j) = key_at m (index m ! i)"
  with assms show "j = i"
    by (auto simp: task_graph_def distinct_conv_nth nth_eq_iff_index_eq)
qed simp

lemma first_missing_order:
  assumes "ds \<noteq> []"
  shows "set (map (\<lambda>offset. ds ! ((start + offset) mod length ds)) [0..<length ds]) = set ds"
proof -
  let ?n = "length ds"
  have n: "0 < ?n" using assms by simp
  have "\<exists>x < ?n. (start + x) mod ?n = i" if "i < ?n" for i
  proof (intro exI conjI)
    let ?s = "start mod ?n"
    show "(i + (?n - ?s)) mod ?n < ?n" using n by simp
    have "?s < ?n" using n by simp
    then have "?s + (i + (?n - ?s)) = i + ?n" by simp
    then have "(start + (i + (?n - ?s)) mod ?n) mod ?n = (i + ?n) mod ?n"
      by (metis mod_add_left_eq mod_add_right_eq)
    then show "(start + (i + (?n - ?s)) mod ?n) mod ?n = i" using that by simp
  qed
  note rot = this
  show ?thesis
  proof (intro equalityI subsetI)
    fix d assume "d \<in> set (map (\<lambda>offset. ds ! ((start + offset) mod ?n)) [0..<?n])"
    then obtain x where "d = ds ! ((start + x) mod ?n)" by auto
    moreover have "(start + x) mod ?n < ?n" using n by simp
    ultimately show "d \<in> set ds" using nth_mem by blast
  next
    fix d assume "d \<in> set ds"
    then obtain i where i: "i < ?n" "d = ds ! i" by (metis in_set_conv_nth)
    then obtain x where "x < ?n" "(start + x) mod ?n = i" using rot by blast
    with i show "d \<in> set (map (\<lambda>offset. ds ! ((start + offset) mod ?n)) [0..<?n])"
      by (intro image_eqI [of _ _ x, THEN subst [OF set_map [symmetric], of "\<lambda>A. d \<in> A"]]) simp_all
  qed
qed

lemma first_missing_iff:
  assumes "ds \<noteq> []"
  shows "first_missing m ds start = None \<longleftrightarrow> (\<forall>d \<in> set ds. rel_value (rel_at m d) \<noteq> [])"
    and "first_missing m ds start = Some d \<Longrightarrow> d \<in> set ds \<and> rel_value (rel_at m d) = []"
proof -
  let ?o = "map (\<lambda>offset. ds ! ((start + offset) mod length ds)) [0..<length ds]"
  let ?P = "\<lambda>d. rel_value (rel_at m d) = []"
  have fm: "first_missing m ds start = (if find_if ?P ?o < length ?o then Some (?o ! find_if ?P ?o) else None)"
    by (simp add: first_missing_def Let_def)
  have less: "find_if ?P ?o < length ?o \<longleftrightarrow> (\<exists>d \<in> set ds. ?P d)"
    unfolding find_if_less_iff first_missing_order [OF assms] ..
  show "first_missing m ds start = None \<longleftrightarrow> (\<forall>d \<in> set ds. rel_value (rel_at m d) \<noteq> [])"
    unfolding fm using less by simp
  assume "first_missing m ds start = Some d"
  then have "find_if ?P ?o < length ?o" "d = ?o ! find_if ?P ?o" unfolding fm by (auto split: if_splits)
  then show "d \<in> set ds \<and> rel_value (rel_at m d) = []"
    using find_if_nth [of ?P ?o] nth_mem [of "find_if ?P ?o" ?o] first_missing_order [OF assms] by metis
qed

definition ready :: "manifest \<Rightarrow> nat \<Rightarrow> bool" where
  "ready m a \<longleftrightarrow> a \<in> set (index m) \<and> rel_value (rel_at m a) = [] \<and>
     (\<forall>d \<in> set (rel_deps (rel_at m a)). rel_value (rel_at m d) \<noteq> [])"

declare next_relation.simps [simp del]

lemma next_at:
  assumes "task_graph m" "i < length (index m)" "\<exists>a \<in> set (index m). incomplete (rel_at m a)"
  shows "next_relation (Suc n) (key_at m (index m ! i)) idx m =
    (let r = rel_at m (index m ! i) in
     if rel_value r \<noteq> [] then next_relation n (key_at m (index m ! ((i + 1) mod length (index m)))) idx m
     else if rel_deps r = [] then Inr (Some (index m ! i))
     else (case first_missing m (rel_deps r) (idx mod length (rel_deps r)) of
        Some d \<Rightarrow> next_relation n (key_at m d) idx m | None \<Rightarrow> Inr (Some (index m ! i))))"
  using assms by (simp add: next_relation.simps find_key_nth Let_def)

lemma next_descend:
  assumes "task_graph m"
  shows "i < length (index m) \<Longrightarrow> rel_value (rel_at m (index m ! i)) = [] \<Longrightarrow> depth_at m (index m ! i) < n \<Longrightarrow>
    \<exists>b. next_relation n (key_at m (index m ! i)) idx m = Inr (Some b) \<and> ready m b"
proof (induction n arbitrary: i)
  case 0
  then show ?case by simp
next
  case (Suc n)
  let ?a = "index m ! i"
  let ?ds = "rel_deps (rel_at m ?a)"
  have a: "?a \<in> set (index m)" using Suc.prems(1) by simp
  have inc: "\<exists>a \<in> set (index m). incomplete (rel_at m a)" using a Suc.prems(2) by (auto simp: incomplete_def)
  show ?case
  proof (cases "?ds = []")
    case True
    with Suc.prems(2) a show ?thesis
      by (simp add: next_at [OF assms Suc.prems(1) inc] Let_def ready_def)
  next
    case False
    show ?thesis
    proof (cases "first_missing m ?ds (idx mod length ?ds)")
      case None
      with first_missing_iff(1) [OF False] have "ready m ?a" using a Suc.prems(2) by (auto simp: ready_def)
      with None False Suc.prems(2) show ?thesis
        by (simp add: next_at [OF assms Suc.prems(1) inc] Let_def)
    next
      case (Some d)
      have d: "d \<in> set ?ds" "rel_value (rel_at m d) = []" using first_missing_iff(2) [OF False Some] by simp_all
      then have "d \<in> set (index m)" "depth_at m d < depth_at m ?a" using assms a by (auto simp: task_graph_def)
      then obtain j where "j < length (index m)" "index m ! j = d" "depth_at m d < n"
        using Suc.prems(3) by (auto simp: in_set_conv_nth)
      with Suc.IH [of j] d(2) Some False Suc.prems(2) show ?thesis
        by (simp add: next_at [OF assms Suc.prems(1) inc] Let_def)
    qed
  qed
qed

lemma next_advance:
  assumes "task_graph m" "\<forall>a \<in> set (index m). depth_at m a < D"
  shows "i < length (index m) \<Longrightarrow> rel_value (rel_at m (index m ! ((i + k) mod length (index m)))) = [] \<Longrightarrow> k + D \<le> n \<Longrightarrow>
    \<exists>b. next_relation n (key_at m (index m ! i)) idx m = Inr (Some b) \<and> ready m b"
proof (induction k arbitrary: i n)
  case 0
  then have "depth_at m (index m ! i) < n" using assms(2) by (metis add_0 less_le_trans nth_mem)
  with 0 show ?case using next_descend [OF assms(1)] by simp
next
  case (Suc k)
  let ?l = "length (index m)"
  show ?case
  proof (cases "rel_value (rel_at m (index m ! i)) = []")
    case True
    have "depth_at m (index m ! i) < n" using assms(2) Suc.prems(1,3) by (metis less_le_trans le_add2 nth_mem)
    with True Suc.prems(1) show ?thesis using next_descend [OF assms(1)] by simp
  next
    case False
    obtain n' where n: "n = Suc n'" using Suc.prems(3) by (cases n) auto
    have l: "0 < ?l" using Suc.prems(1) by linarith
    then have "(i + Suc k) mod ?l < ?l" by simp
    then have inc: "\<exists>a \<in> set (index m). incomplete (rel_at m a)"
      using Suc.prems(2) nth_mem by (fastforce simp: incomplete_def)
    have "((i + 1) mod ?l + k) mod ?l = (i + Suc k) mod ?l" by (simp add: mod_add_left_eq)
    then have "rel_value (rel_at m (index m ! (((i + 1) mod ?l + k) mod ?l))) = []"
      using Suc.prems(2) by simp
    then obtain b where "next_relation n' (key_at m (index m ! ((i + 1) mod ?l))) idx m = Inr (Some b)" "ready m b"
      using Suc.IH [of "(i + 1) mod ?l" n'] l Suc.prems(3) n by auto
    with False show ?thesis unfolding n next_at [OF assms(1) Suc.prems(1) inc] by (simp add: Let_def)
  qed
qed

lemma next_null_diverges:
  assumes "task_graph m" "\<forall>a \<in> set (index m). rel_value (rel_at m a) \<noteq> []"
    "\<exists>a \<in> set (index m). rel_value (rel_at m a) = ''null''"
  shows "i < length (index m) \<Longrightarrow> next_relation n (key_at m (index m ! i)) idx m = Inl NoReturn"
proof (induction n arbitrary: i)
  case 0
  then show ?case by (simp add: next_relation.simps)
next
  case (Suc n)
  have inc: "\<exists>a \<in> set (index m). incomplete (rel_at m a)" using assms(3) by (auto simp: incomplete_def)
  have "0 < length (index m)" using Suc.prems by linarith
  then have "(i + 1) mod length (index m) < length (index m)" by simp
  with Suc.IH assms(2) Suc.prems show ?case
    unfolding next_at [OF assms(1) Suc.prems inc] by (simp add: Let_def)
qed

lemma next_relation_returns:
  assumes "task_graph m" "key \<in> keys m" "\<forall>a \<in> set (index m). depth_at m a < D" "length (index m) + D \<le> n"
  shows "((\<exists>a \<in> set (index m). rel_value (rel_at m a) = []) \<longrightarrow>
            (\<exists>b. next_relation n key idx m = Inr (Some b) \<and> ready m b)) \<and>
         ((\<forall>a \<in> set (index m). \<not> incomplete (rel_at m a)) \<longrightarrow> next_relation n key idx m = Inr None)"
proof (intro conjI impI)
  let ?l = "length (index m)"
  from assms(2) obtain i where i: "i < ?l" "key_at m (index m ! i) = key"
    by (auto simp: in_set_conv_nth)
  { assume "\<exists>a \<in> set (index m). rel_value (rel_at m a) = []"
    then obtain j where j: "j < ?l" "rel_value (rel_at m (index m ! j)) = []" by (auto simp: in_set_conv_nth)
    let ?k = "(j + ?l - i) mod ?l"
    have "(i + ?k) mod ?l = (i + (j + ?l - i)) mod ?l" by (simp add: mod_add_right_eq)
    also have "\<dots> = j" using i(1) j(1) by simp
    finally have "(i + ?k) mod ?l = j" .
    moreover have "?k + D \<le> n" using assms(4) i(1) mod_less_divisor [of ?l "j + ?l - i"] by linarith
    ultimately show "\<exists>b. next_relation n key idx m = Inr (Some b) \<and> ready m b"
      using next_advance [OF assms(1,3) i(1), of ?k n idx] j(2) i(2) by simp }
  { assume "\<forall>a \<in> set (index m). \<not> incomplete (rel_at m a)"
    moreover obtain n' where "n = Suc n'" using assms(4) i(1) by (cases n) auto
    ultimately show "next_relation n key idx m = Inr None" by (simp add: next_relation.simps) }
qed

lemma next_relation_None: "next_relation n key idx m = Inr None \<Longrightarrow> \<forall>a \<in> set (index m). \<not> incomplete (rel_at m a)"
proof (induction n arbitrary: key)
  case 0
  then show ?case by (simp add: next_relation.simps)
next
  case (Suc n)
  then show ?case
    unfolding next_relation.simps Let_def by (auto split: if_splits option.splits)
qed

lemma next_relation_Some:
  assumes "task_graph m"
  shows "next_relation n key idx m = Inr (Some a) \<Longrightarrow> ready m a"
proof (induction n arbitrary: key)
  case 0
  then show ?case by (simp add: next_relation.simps)
next
  case (Suc n)
  let ?i = "find_key m key"
  let ?r = "rel_at m (index m ! ?i)"
  from Suc.prems have inc: "\<exists>a \<in> set (index m). incomplete (rel_at m a)" and ne: "?i \<noteq> length (index m)"
    unfolding next_relation.simps Let_def by (simp_all split: if_splits)
  have i: "?i < length (index m)" using ne find_if_le [of _ "index m"] by (simp add: find_key_def le_neq_implies_less)
  from Suc.prems inc ne have r: "(if rel_value ?r \<noteq> [] then next_relation n (key_at m (index m ! ((?i + 1) mod length (index m)))) idx m
       else if rel_deps ?r = [] then Inr (Some (index m ! ?i))
       else (case first_missing m (rel_deps ?r) (idx mod length (rel_deps ?r)) of
         Some d \<Rightarrow> next_relation n (key_at m d) idx m | None \<Rightarrow> Inr (Some (index m ! ?i)))) = Inr (Some a)"
    unfolding next_relation.simps Let_def by simp
  have here: "ready m (index m ! ?i)" if "rel_value ?r = []" "\<forall>d \<in> set (rel_deps ?r). rel_value (rel_at m d) \<noteq> []"
    using that i by (simp add: ready_def)
  show ?case
  proof (cases "rel_value ?r = [] \<and> rel_deps ?r \<noteq> []")
    case True
    show ?thesis
    proof (cases "first_missing m (rel_deps ?r) (idx mod length (rel_deps ?r))")
      case None
      with True r have "a = index m ! ?i" by simp
      with here True None first_missing_iff(1) show ?thesis by metis
    next
      case (Some d)
      with True r have "next_relation n (key_at m d) idx m = Inr (Some a)" by simp
      then show ?thesis by (rule Suc.IH)
    qed
  next
    case False
    then show ?thesis using r here Suc.IH by (auto split: if_splits)
  qed
qed

text \<open>
  C17: scheduling.  While some relation has no value yet, \<open>next\<close> returns, from any key of the
  manifest and for any index, a relation that has no value and whose dependencies all have one;
  a bound on the depths plus the size of the manifest is enough fuel.  When every relation is
  complete it returns the default relation.
\<close>
theorem next_relation_ready:
  assumes "task_graph m" "key \<in> keys m" "\<forall>a \<in> set (index m). depth_at m a < D" "length (index m) + D \<le> n"
  shows "((\<exists>a \<in> set (index m). rel_value (rel_at m a) = []) \<longrightarrow>
            (\<exists>b. next_relation n key idx m = Inr (Some b) \<and> ready m b)) \<and>
         ((\<forall>a \<in> set (index m). \<not> incomplete (rel_at m a)) \<longrightarrow> next_relation n key idx m = Inr None)"
  by (rule next_relation_returns [OF assms])

theorem next_relation_ready_witness:
  "\<exists>b. next_relation 7 ''main'' 1 demo_manifest = Inr (Some b) \<and> ready demo_manifest b"
proof (rule next_relation_ready [where D = 4, THEN conjunct1, THEN mp])
  show "task_graph demo_manifest" "''main'' \<in> keys demo_manifest" "\<forall>a \<in> set (index demo_manifest). depth_at demo_manifest a < 4"
    "length (index demo_manifest) + 4 \<le> 7" "\<exists>a \<in> set (index demo_manifest). rel_value (rel_at demo_manifest a) = []"
    by (simp_all add: task_graph_def demo_manifest_def rel_at_def)
qed

text \<open>
  A relation whose value is the text \<open>null\<close> counts as incomplete for the test at the start
  of \<open>next\<close> but as complete in the search.  When all relations have a value and one of them is
  \<open>null\<close>, the search goes round the manifest for ever.
\<close>
theorem next_relation_null:
  assumes "task_graph m" "key \<in> keys m" "\<forall>a \<in> set (index m). rel_value (rel_at m a) \<noteq> []"
    "\<exists>a \<in> set (index m). rel_value (rel_at m a) = ''null''"
  shows "next_relation n key idx m = Inl NoReturn"
proof -
  from assms(2) obtain i where "i < length (index m)" "key_at m (index m ! i) = key"
    by (auto simp: in_set_conv_nth)
  with next_null_diverges [OF assms(1,3,4)] show ?thesis by blast
qed

definition null_manifest :: manifest where
  "null_manifest = \<lparr>concurrency = 1, store = [\<lparr>rel_key = ''main'', rel_value = ''null'', rel_deps = [],
     rel_depth = 1, rel_path = ''/act/main.lua''\<rparr>], index = [0]\<rparr>"

theorem next_relation_null_witness: "next_relation 1000 ''main'' 0 null_manifest = Inl NoReturn"
  by (rule next_relation_null) (simp_all add: task_graph_def null_manifest_def rel_at_def)

end
