(* ===== verification/ThreadControls.thy ===== *)
theory ThreadControls
  imports ActionManifest
begin

text \<open>
  \<open>ThreadControls\<close> (\<open>thread-controls.cpp\<close>): the subprocess that computes one relation, the signal
  word and the pending execution indices of its thread, and the queue of initializer threads.

  System calls are parameters.  A call in a loop is given as the list of what its successive
  invocations return, and a loop that wants more answers than there are does not return.  The
  JSON library is a parameter too: \<open>parse\<close> and \<open>serialize\<close>.  The atomics and mutexes guard single
  reads and writes, so each operation is a function on the thread's record; the blocking waits on
  condition variables are left to the caller (\<open>thread_sched_yield\<close> says on what it waits).
\<close>

unbundle bit_operations_syntax

section \<open>Events and system calls\<close>

definition ctl_read_event :: "16 word" where "ctl_read_event = 0x0001"
definition ctl_start_event :: "16 word" where "ctl_start_event = 0x0002"
definition ctl_end_event :: "16 word" where "ctl_end_event = 0x0004"
definition ctl_terminate_event :: "16 word" where "ctl_terminate_event = 0x8000"

datatype errno = NoError | EINTR | ESRCH | OtherError
datatype read_ret = ReadErr errno | ReadEof | ReadData string
datatype write_ret = WriteNone errno | WriteLen nat
datatype poll_ret = PollErr errno | PollTimeout | PollReady bool
datatype call_ret = CallOk | CallErr errno
datatype signo = SIGTERM | SIGCONT | SIGKILL | SIGSTOP

abbreviation "what \<equiv> Inl (Thrown ''what?'')"

section \<open>Starting the subprocess\<close>

text \<open>What the parent sees of the calls of \<open>fork_exec\<close>; \<open>None\<close> and \<open>False\<close> are failures.\<close>

record fork_os =
  fo_downstream :: "(int \<times> int) option"
  fo_upstream :: "(int \<times> int) option"
  fo_eventfd :: "int option"
  fo_bin :: "string option"
  fo_launcher :: "string option"
  fo_pid :: int
  fo_notice :: "read_ret list"
  fo_close_efd :: bool
  fo_close_down :: bool
  fo_close_up :: bool

fun read_notice :: "read_ret list \<Rightarrow> nat \<Rightarrow> unit result" where
  "read_notice [] bytes_read = Inl NoReturn"
| "read_notice (ReadErr e # rs) bytes_read = (if e = EINTR then
     (if bytes_read < 8 then read_notice rs bytes_read else Inr ()) else what)"
| "read_notice (ReadEof # rs) bytes_read = (if bytes_read < 8 then what else Inr ())"
| "read_notice (ReadData d # rs) bytes_read =
     (if bytes_read + length d < 8 then read_notice rs (bytes_read + length d) else Inr ())"

text \<open>\<open>path::filename\<close> and \<open>path::stem\<close>.\<close>

definition path_filename :: "string \<Rightarrow> string" where
  "path_filename p = rev (takeWhile (\<lambda>c. c \<noteq> CHR ''/'') (rev p))"

definition path_stem :: "string \<Rightarrow> string" where
  "path_stem p =
     (let f = path_filename p; d = dropWhile (\<lambda>c. c \<noteq> CHR ''.'') (rev f)
      in if f = ''.'' \<or> f = ''..'' \<or> length d \<le> 1 then f else rev (tl d))"

record started =
  st_argv :: "string list"
  st_pid :: int
  st_pipe :: "int \<times> int"

definition fork_exec :: "fork_os \<Rightarrow> relation \<Rightarrow> started result" where
  "fork_exec os r =
     (case fo_downstream os of None \<Rightarrow> what | Some down \<Rightarrow>
     (case fo_upstream os of None \<Rightarrow> what | Some up \<Rightarrow>
     (case fo_eventfd os of None \<Rightarrow> what | Some efd \<Rightarrow>
     (case fo_bin os of None \<Rightarrow> Inl (Thrown ''__OW_ACTION_BIN environment variable not set.'') | Some bin \<Rightarrow>
     (case fo_launcher os of None \<Rightarrow> Inl (Thrown ''__OW_ACTION_LAUNCHER environment varible not set.'') | Some launcher \<Rightarrow>
       if fo_pid os = -1 then Inl (Thrown ''This shouldn't happen.'')
       else rbind (read_notice (fo_notice os) 0) (\<lambda>_.
         if \<not> fo_close_efd os then what
         else if \<not> fo_close_down os \<or> \<not> fo_close_up os then Inl (Thrown ''this shouldn't happen.'')
         else Inr \<lparr>st_argv = [bin, launcher, path_stem (rel_path r), rel_key r],
                   st_pid = fo_pid os, st_pipe = (fst up, snd down)\<rparr>))))))"

fun wait_for_launcher :: "read_ret list \<Rightarrow> bool result" where
  "wait_for_launcher [] = Inl NoReturn"
| "wait_for_launcher (ReadErr e # rs) = (if e = EINTR then wait_for_launcher rs else what)"
| "wait_for_launcher (ReadEof # rs) = what"
| "wait_for_launcher (ReadData d # rs) = Inr True"

definition subprocess_signal :: "call_ret \<Rightarrow> bool result" where
  "subprocess_signal ret = (case ret of
     CallOk \<Rightarrow> Inr True | CallErr e \<Rightarrow> (if e = ESRCH then Inr False else what))"

section \<open>Talking to the subprocess\<close>

fun write_loop :: "write_ret list \<Rightarrow> string \<Rightarrow> nat \<Rightarrow> string \<Rightarrow> string result" where
  "write_loop [] data bytes_written sent = Inl NoReturn"
| "write_loop (WriteNone e # rs) data bytes_written sent =
     (if e = NoError \<or> e = EINTR then
        (if bytes_written < length data then write_loop rs data bytes_written sent else Inr sent)
      else what)"
| "write_loop (WriteLen n # rs) data bytes_written sent =
     (let sent' = sent @ take n (drop bytes_written data); b = bytes_written + n
      in if b < length data then write_loop rs data b sent' else Inr sent')"

text \<open>
  The parameters of a relation with dependencies are their values, each parsed, under their
  keys; a missing value or the text \<open>null\<close> means that there is nothing to run.
\<close>

fun dep_params :: "(string \<Rightarrow> 'j result) \<Rightarrow> relation list \<Rightarrow> (string \<times> 'j) list \<Rightarrow> (string \<times> 'j) list option result" where
  "dep_params parse [] jv = Inr (Some jv)"
| "dep_params parse (r # rs) jv =
     (if rel_value r = [] \<or> rel_value r = ''null'' then Inr None
      else rbind (parse (rel_value r)) (\<lambda>v.
             dep_params parse rs (if rel_key r \<in> fst ` set jv then jv else jv @ [(rel_key r, v)])))"

definition params_text ::
  "(string \<Rightarrow> 'j result) \<Rightarrow> ((string \<times> 'j) list \<Rightarrow> string) \<Rightarrow> manifest \<Rightarrow> relation \<Rightarrow> string \<Rightarrow> string option result" where
  "params_text parse serialize m r params =
     (if rel_deps r = [] then Inr (Some params)
      else rbind (dep_params parse (map (rel_at m) (rel_deps r)) []) (\<lambda>jv. Inr (map_option serialize jv)))"

definition write_params ::
  "(string \<Rightarrow> 'j result) \<Rightarrow> ((string \<times> 'j) list \<Rightarrow> string) \<Rightarrow> write_ret list \<Rightarrow> manifest \<Rightarrow> relation \<Rightarrow> string \<Rightarrow>
   (bool \<times> string) result" where
  "write_params parse serialize rets m r params =
     rbind (params_text parse serialize m r params) (\<lambda>p. case p of
          None \<Rightarrow> Inr (False, [])
        | Some t \<Rightarrow> rbind (write_loop rets (t @ [LF]) 0 []) (\<lambda>sent. Inr (True, sent)))"

fun wait_for_result :: "poll_ret list \<Rightarrow> nat \<Rightarrow> (bool \<times> nat) result" where
  "wait_for_result [] state = Inl NoReturn"
| "wait_for_result (PollErr e # rs) state = (if e = EINTR then wait_for_result rs state else what)"
| "wait_for_result (PollTimeout # rs) state = Inr (True, state)"
| "wait_for_result (PollReady bits # rs) state = Inr (if bits then (True, state + 1) else (False, state))"

fun read_loop :: "read_ret list \<Rightarrow> string \<Rightarrow> string result" where
  "read_loop [] val = Inl NoReturn"
| "read_loop (ReadErr e # rs) val = (if e = EINTR then read_loop rs val else what)"
| "read_loop (ReadEof # rs) val = Inr val"
| "read_loop (ReadData d # rs) val = read_loop rs (val @ d)"

definition set_value :: "nat \<Rightarrow> string \<Rightarrow> manifest \<Rightarrow> manifest" where
  "set_value a v m = m\<lparr>store := (store m)[a := (store m ! a)\<lparr>rel_value := v\<rparr>]\<rparr>"

definition read_result :: "read_ret list \<Rightarrow> nat \<Rightarrow> manifest \<Rightarrow> (bool \<times> manifest) result" where
  "read_result rets a m = rbind (read_loop rets []) (\<lambda>val.
     Inr (True, if val = [] \<or> val = ''null'' then m else set_value a val m))"

section \<open>Ending the subprocess\<close>

text \<open>The signals sent, in order, and how the function ends.  \<open>naps\<close> are the answers of \<open>nanosleep\<close>.\<close>

fun nap :: "call_ret list \<Rightarrow> unit result" where
  "nap [] = Inl NoReturn"
| "nap (CallOk # rs) = Inr ()"
| "nap (CallErr e # rs) = (if e = EINTR then nap rs else what)"

definition kill_subprocesses ::
  "call_ret \<times> call_ret \<times> call_ret \<Rightarrow> call_ret list \<Rightarrow> int \<Rightarrow> (int \<times> signo) list \<times> unit result" where
  "kill_subprocesses rets naps pid = (case rets of (term, cont, kll) \<Rightarrow>
     (case term of
        CallErr e \<Rightarrow> ([(- pid, SIGTERM)], if e = ESRCH then Inr () else what)
      | CallOk \<Rightarrow>
        (case cont of
           CallErr e \<Rightarrow> ([(- pid, SIGTERM), (- pid, SIGCONT)], if e = ESRCH then Inr () else what)
         | CallOk \<Rightarrow>
           (case nap naps of
              Inl e \<Rightarrow> ([(- pid, SIGTERM), (- pid, SIGCONT)], Inl e)
            | Inr _ \<Rightarrow>
              ([(- pid, SIGTERM), (- pid, SIGCONT), (- pid, SIGKILL)],
               (case kll of CallOk \<Rightarrow> Inr () | CallErr e \<Rightarrow> if e = ESRCH then Inr () else what))))))"

text \<open>The descriptors closed, and how the function ends.\<close>

definition close_pipe :: "bool \<times> bool \<Rightarrow> int \<times> int \<Rightarrow> int list \<times> unit result" where
  "close_pipe rets p =
     (if \<not> fst rets then ([fst p], what)
      else ([fst p, snd p], if snd rets then Inr () else what))"

section \<open>The thread\<close>

record thread_controls =
  tc_pid :: int
  tc_signal :: "16 word"
  tc_state :: nat
  tc_pipe :: "int \<times> int"
  tc_idxs :: "nat list"
  tc_params :: string
  tc_relation :: nat

definition new_thread :: "nat \<Rightarrow> string \<Rightarrow> thread_controls" where
  "new_thread rel params = \<lparr>tc_pid = 0, tc_signal = 0, tc_state = 0, tc_pipe = (0, 0), tc_idxs = [],
     tc_params = params, tc_relation = rel\<rparr>"

definition is_started :: "thread_controls \<Rightarrow> bool" where
  "is_started t \<longleftrightarrow> tc_signal t AND ctl_start_event \<noteq> 0"

definition is_stopped :: "thread_controls \<Rightarrow> bool" where
  "is_stopped t \<longleftrightarrow> tc_signal t AND ctl_end_event \<noteq> 0"

definition has_pending_idxs :: "thread_controls \<Rightarrow> bool" where
  "has_pending_idxs t \<longleftrightarrow> 0 < length (tc_idxs t)"

definition pop_idxs :: "thread_controls \<Rightarrow> nat list \<times> thread_controls" where
  "pop_idxs t = (tc_idxs t, t\<lparr>tc_idxs := []\<rparr>)"

definition notify :: "nat \<Rightarrow> thread_controls \<Rightarrow> thread_controls" where
  "notify idx t = t\<lparr>tc_idxs := tc_idxs t @ [idx], tc_signal := tc_signal t OR ctl_start_event\<rparr>"

definition stop_thread :: "thread_controls \<Rightarrow> nat list \<times> thread_controls" where
  "stop_thread t =
     (let t1 = t\<lparr>tc_idxs := []\<rparr> in
      (tc_idxs t,
       if \<not> is_stopped t1 then t1\<lparr>tc_signal := tc_signal t1 OR (ctl_start_event OR ctl_end_event)\<rparr> else t1))"

text \<open>
  \<open>cleanup()\<close> tests \<open>state_ > 0\<close>, where \<open>state_\<close> is the pointer to the counter and not the
  counter; the pointer is never null.
\<close>

record cleanup_os =
  co_kills :: "call_ret \<times> call_ret \<times> call_ret"
  co_naps :: "call_ret list"
  co_closes :: "bool \<times> bool"

definition cleanup :: "cleanup_os \<Rightarrow> thread_controls \<Rightarrow> (int \<times> signo) list \<times> int list \<times> unit result" where
  "cleanup os t = (case kill_subprocesses (co_kills os) (co_naps os) (tc_pid t) of
     (sent, Inl e) \<Rightarrow> (sent, [], Inl e)
   | (sent, Inr _) \<Rightarrow> (case close_pipe (co_closes os) (tc_pipe t) of (fds, res) \<Rightarrow> (sent, fds, res)))"

text \<open>The answers the system gives during one \<open>thread_continue\<close>; each state uses some of them.\<close>

record thread_os =
  to_fork :: fork_os
  to_reads :: "read_ret list"
  to_kill :: call_ret
  to_writes :: "write_ret list"
  to_polls :: "poll_ret list"
  to_closes :: "bool \<times> bool"

definition thread_continue ::
  "(string \<Rightarrow> 'j result) \<Rightarrow> ((string \<times> 'j) list \<Rightarrow> string) \<Rightarrow> thread_os \<Rightarrow> manifest \<Rightarrow> thread_controls \<Rightarrow>
   (bool \<times> manifest \<times> thread_controls) result" where
  "thread_continue parse serialize os m t =
     (let t1 = t\<lparr>tc_state := tc_state t + 1\<rparr> in
      if tc_state t = 0 then
        rbind (fork_exec (to_fork os) (rel_at m (tc_relation t)))
          (\<lambda>s. Inr (True, m, t1\<lparr>tc_pid := st_pid s, tc_pipe := st_pipe s\<rparr>))
      else if tc_state t = 1 then rbind (wait_for_launcher (to_reads os)) (\<lambda>b. Inr (b, m, t1))
      else if tc_state t = 2 then rbind (subprocess_signal (to_kill os)) (\<lambda>b. Inr (b, m, t1))
      else if tc_state t = 3 then rbind (subprocess_signal (to_kill os)) (\<lambda>b. Inr (b, m, t1))
      else if tc_state t = 4 then
        rbind (write_params parse serialize (to_writes os) m (rel_at m (tc_relation t)) (tc_params t))
          (\<lambda>(b, _). Inr (b, m, t1))
      else if tc_state t = 5 then
        rbind (wait_for_result (to_polls os) (tc_state t)) (\<lambda>(b, st). Inr (b, m, t\<lparr>tc_state := st\<rparr>))
      else if tc_state t = 6 then
        rbind (read_result (to_reads os) (tc_relation t) m) (\<lambda>(b, m'). Inr (b, m', t1))
      else rbind (snd (close_pipe (to_closes os) (tc_pipe t))) (\<lambda>_. Inr (False, m, t)))"

section \<open>The queue of initializer threads\<close>

text \<open>A handle is its number; the flags say whose turn it is.  Times are in milliseconds.\<close>

record sched =
  sched_handles :: "nat list"
  sched_flags :: "nat \<Rightarrow> bool"
  sched_fresh :: nat

definition thread_sched_time_slice :: "sched \<Rightarrow> nat result" where
  "thread_sched_time_slice s =
     (if sched_handles s = [] then what else Inr (5 div length (sched_handles s)))"

definition thread_sched_push :: "sched \<Rightarrow> nat \<times> sched" where
  "thread_sched_push s = (sched_fresh s,
     s\<lparr>sched_handles := sched_fresh s # sched_handles s, sched_flags := (sched_flags s)(sched_fresh s := False),
       sched_fresh := sched_fresh s + 1\<rparr>)"

text \<open>The second component is the handle and the flag value the caller waits for, if it waits.\<close>

definition thread_sched_yield :: "bool \<Rightarrow> sched \<Rightarrow> sched \<times> (nat \<times> bool) option" where
  "thread_sched_yield finished s =
     (case sched_handles s of
        [] \<Rightarrow> (s, None)
      | h # hs \<Rightarrow>
          (let flag = sched_flags s h; s1 = s\<lparr>sched_flags := (sched_flags s)(h := \<not> flag)\<rparr> in
           if finished then (s1\<lparr>sched_handles := hs\<rparr>, None)
           else (s1\<lparr>sched_handles := hs @ [h]\<rparr>, Some (h, flag))))"

section \<open>Signals and pending indices\<close>

lemma events_nonzero [simp]: "ctl_start_event \<noteq> 0" "ctl_end_event \<noteq> 0"
  by (simp_all add: ctl_start_event_def ctl_end_event_def)

lemma signal_bits [simp]:
  "(s OR ctl_start_event) AND ctl_start_event = ctl_start_event"
  "(s OR ctl_start_event) AND ctl_end_event = s AND ctl_end_event"
  "(s OR (ctl_start_event OR ctl_end_event)) AND ctl_start_event = ctl_start_event"
  "(s OR (ctl_start_event OR ctl_end_event)) AND ctl_end_event = ctl_end_event"
proof -
  have z: "ctl_start_event AND ctl_end_event = 0"
    by (simp add: ctl_start_event_def ctl_end_event_def)
  have a: "(s OR a) AND a = a" "(s OR (a OR b)) AND a = a" "(s OR (b OR a)) AND a = a" for a b :: "16 word"
    by (rule bit_word_eqI; auto simp: bit_simps)+
  show "(s OR ctl_start_event) AND ctl_start_event = ctl_start_event"
    "(s OR (ctl_start_event OR ctl_end_event)) AND ctl_start_event = ctl_start_event"
    "(s OR (ctl_start_event OR ctl_end_event)) AND ctl_end_event = ctl_end_event"
    by (rule a)+
  show "(s OR ctl_start_event) AND ctl_end_event = s AND ctl_end_event"
    by (simp add: bit.conj_disj_distrib2 z)
qed

text \<open>
  No execution index is lost between \<open>notify\<close>, \<open>pop_idxs\<close> and \<open>stop_thread\<close>: what a thread
  was notified of since it was last emptied comes back in order, and exactly once.  Notifying
  starts the thread and never stops it; stopping makes it both started and stopped.
\<close>
theorem notify_stop_indices:
  "fst (stop_thread (fold notify idxs t)) = tc_idxs t @ idxs \<and>
   fst (pop_idxs (fold notify idxs t)) = tc_idxs t @ idxs \<and>
   \<not> has_pending_idxs (snd (stop_thread t)) \<and> \<not> has_pending_idxs (snd (pop_idxs t)) \<and>
   is_started (notify i t) \<and> is_stopped (notify i t) = is_stopped t \<and>
   is_stopped (snd (stop_thread t)) \<and> (is_started t \<or> \<not> is_stopped t \<longrightarrow> is_started (snd (stop_thread t)))"
proof -
  have "tc_idxs (fold notify idxs t) = tc_idxs t @ idxs"
    by (induction idxs arbitrary: t) (simp_all add: notify_def)
  then show ?thesis
    by (auto simp: stop_thread_def pop_idxs_def has_pending_idxs_def notify_def is_started_def is_stopped_def
        Let_def)
qed

theorem notify_stop_indices_witness:
  "fst (stop_thread (fold notify [2, 5] (new_thread 0 ''{}''))) = [2, 5] \<and> is_started (notify 7 (new_thread 0 ''{}''))"
  using notify_stop_indices [of "[2, 5]" "new_thread 0 ''{}''" 7] by (simp add: new_thread_def)

section \<open>Loops over system calls\<close>

text \<open>What \<open>write\<close> may answer: no more bytes than it was asked to write.\<close>

fun honest_writes :: "write_ret list \<Rightarrow> nat \<Rightarrow> bool" where
  "honest_writes [] left = True"
| "honest_writes (WriteNone e # rs) left = honest_writes rs left"
| "honest_writes (WriteLen n # rs) left = (0 < n \<and> n \<le> left \<and> honest_writes rs (left - n))"

lemma write_loop_sent:
  "honest_writes rs (length data - b) \<Longrightarrow> b \<le> length data \<Longrightarrow> write_loop rs data b (take b data) = Inr sent \<Longrightarrow>
   sent = data"
proof (induction rs data b "take b data" rule: write_loop.induct)
  case (3 n rs data b)
  have t: "take b data @ take n (drop b data) = take (b + n) data" by (simp add: take_add)
  show ?case
  proof (cases "b + n < length data")
    case True
    with "3.prems" t have "write_loop rs data (b + n) (take (b + n) data) = Inr sent" by (simp add: Let_def)
    with "3.hyps" [OF t [symmetric] refl True] "3.prems"(1) True show ?thesis by simp
  next
    case False
    with "3.prems" t show ?thesis by (simp add: Let_def)
  qed
qed (auto split: if_splits)

lemma read_loop_data:
  "read_loop rs val = Inr v \<Longrightarrow>
   \<exists>k. k < length rs \<and> rs ! k = ReadEof \<and> (\<forall>r \<in> set (take k rs). r = ReadErr EINTR \<or> (\<exists>d. r = ReadData d)) \<and>
     v = val @ concat (map (\<lambda>r. case r of ReadData d \<Rightarrow> d | _ \<Rightarrow> []) (take k rs))"
proof (induction rs val rule: read_loop.induct)
  case (2 e rs val)
  from "2.prems" have e: "e = EINTR" "read_loop rs val = Inr v" by (auto split: if_splits)
  from "2.IH" [OF e] obtain k where "k < length rs" "rs ! k = ReadEof"
    "\<forall>r \<in> set (take k rs). r = ReadErr EINTR \<or> (\<exists>d. r = ReadData d)"
    "v = val @ concat (map (\<lambda>r. case r of ReadData d \<Rightarrow> d | _ \<Rightarrow> []) (take k rs))" by blast
  with e show ?case by (intro exI [of _ "Suc k"]) simp
next
  case (3 rs val)
  then show ?case by (intro exI [of _ 0]) simp
next
  case (4 d rs val)
  then obtain k where "k < length rs" "rs ! k = ReadEof"
    "\<forall>r \<in> set (take k rs). r = ReadErr EINTR \<or> (\<exists>d. r = ReadData d)"
    "v = (val @ d) @ concat (map (\<lambda>r. case r of ReadData d \<Rightarrow> d | _ \<Rightarrow> []) (take k rs))" by auto
  then show ?case by (intro exI [of _ "Suc k"]) simp
qed simp

text \<open>
  What reaches the subprocess.  The bytes written are exactly the text of the parameters and
  a line feed, however the system cuts the writes and however often it interrupts them.  Nothing
  is written when a dependency has no value.
\<close>
theorem write_params_complete:
  assumes "params_text parse serialize m r params = Inr p"
    "\<forall>t. p = Some t \<longrightarrow> honest_writes rets (length (t @ [LF]))"
    "write_params parse serialize rets m r params = Inr (b, sent)"
  shows "(b \<longleftrightarrow> p \<noteq> None) \<and> sent = (case p of None \<Rightarrow> [] | Some t \<Rightarrow> t @ [LF])"
proof (cases p)
  case None
  with assms(1,3) show ?thesis by (simp add: write_params_def)
next
  case (Some t)
  with assms(1,3) have "write_loop rets (t @ [LF]) 0 [] = Inr sent" "b"
    by (auto simp: write_params_def rbind_Inr_iff)
  with write_loop_sent [of rets "t @ [LF]" 0 sent] assms(2) Some show ?thesis by simp
qed

theorem write_params_complete_witness:
  "(True \<longleftrightarrow> Some ''{}'' \<noteq> None) \<and> ''{}'' @ [LF] = (case Some ''{}'' of None \<Rightarrow> [] | Some t \<Rightarrow> t @ [LF])"
  by (rule write_params_complete [where parse = Inr and serialize = "\<lambda>_. []" and m = empty_manifest
        and r = default_relation and params = "''{}''" and rets = "[WriteLen 1, WriteNone EINTR, WriteLen 2]"])
     (simp_all add: params_text_def write_params_def default_relation_def)

text \<open>
  What comes back.  The value read is the concatenation of everything the subprocess wrote
  up to the end of its output, interruptions left out; it becomes the value of the relation
  unless it is empty or the text \<open>null\<close>, and no other relation changes.
\<close>
theorem read_result_value:
  assumes "read_result rets a m = Inr (b, m')"
  shows "b \<and> (\<exists>k. k < length rets \<and> rets ! k = ReadEof \<and>
    (let v = concat (map (\<lambda>r. case r of ReadData d \<Rightarrow> d | _ \<Rightarrow> []) (take k rets))
     in m' = (if v = [] \<or> v = ''null'' then m else set_value a v m))) \<and>
    index m' = index m \<and> (\<forall>i. i \<noteq> a \<longrightarrow> i < length (store m) \<longrightarrow> rel_at m' i = rel_at m i)"
proof -
  from assms obtain v where v: "read_loop rets [] = Inr v" "b"
    and m': "m' = (if v = [] \<or> v = ''null'' then m else set_value a v m)"
    by (auto simp: read_result_def rbind_Inr_iff)
  from read_loop_data [OF v(1)] obtain k where k: "k < length rets" "rets ! k = ReadEof"
    "v = concat (map (\<lambda>r. case r of ReadData d \<Rightarrow> d | _ \<Rightarrow> []) (take k rets))" by auto
  have "let v = concat (map (\<lambda>r. case r of ReadData d \<Rightarrow> d | _ \<Rightarrow> []) (take k rets))
     in m' = (if v = [] \<or> v = ''null'' then m else set_value a v m)"
    unfolding k(3) [symmetric] Let_def by (rule m')
  moreover have "index m' = index m \<and> (\<forall>i. i \<noteq> a \<longrightarrow> i < length (store m) \<longrightarrow> rel_at m' i = rel_at m i)"
    by (simp add: m' set_value_def rel_at_def)
  ultimately show ?thesis using v(2) k(1,2) by blast
qed

theorem read_result_value_witness:
  "True \<and> (\<exists>k. k < length [ReadData ''{'', ReadErr EINTR, ReadData ''}'', ReadEof] \<and>
      [ReadData ''{'', ReadErr EINTR, ReadData ''}'', ReadEof] ! k = ReadEof \<and>
    (let v = concat (map (\<lambda>r. case r of ReadData d \<Rightarrow> d | _ \<Rightarrow> [])
        (take k [ReadData ''{'', ReadErr EINTR, ReadData ''}'', ReadEof]))
     in set_value 0 ''{}'' demo_manifest = (if v = [] \<or> v = ''null'' then demo_manifest else set_value 0 v demo_manifest)))"
proof -
  have "read_result [ReadData ''{'', ReadErr EINTR, ReadData ''}'', ReadEof] 0 demo_manifest =
      Inr (True, set_value 0 ''{}'' demo_manifest)" by (simp add: read_result_def)
  from read_result_value [OF this] show ?thesis by (elim conjE) (intro conjI)
qed

section \<open>The states of a thread\<close>

lemma thread_continue_step:
  assumes "thread_continue parse serialize os m t = Inr (b, m', t')"
  shows "tc_state t \<le> tc_state t' \<and> tc_state t' \<le> tc_state t + 1 \<and> (tc_state t \<le> 7 \<longrightarrow> tc_state t' \<le> 7) \<and>
    (b \<and> tc_state t \<noteq> 5 \<longrightarrow> tc_state t' = tc_state t + 1) \<and> (7 \<le> tc_state t \<longrightarrow> \<not> b) \<and>
    tc_idxs t' = tc_idxs t \<and> tc_signal t' = tc_signal t \<and> tc_relation t' = tc_relation t \<and>
    (tc_state t \<noteq> 6 \<longrightarrow> m' = m) \<and> (0 < tc_state t \<longrightarrow> tc_pid t' = tc_pid t \<and> tc_pipe t' = tc_pipe t)"
proof -
  have poll: "wait_for_result rs st = Inr (c, st') \<Longrightarrow> st' = st \<or> st' = st + 1" for rs st c st'
    by (induction rs st rule: wait_for_result.induct) (auto split: if_splits)
  consider "tc_state t = 0" | "tc_state t = 1" | "tc_state t = 2" | "tc_state t = 3" | "tc_state t = 4"
    | "tc_state t = 5" | "tc_state t = 6" | "7 \<le> tc_state t" by linarith
  then show ?thesis
    using assms by cases (auto simp: thread_continue_def Let_def rbind_Inr_iff dest: poll)
qed

fun thread_run ::
  "(string \<Rightarrow> 'j result) \<Rightarrow> ((string \<times> 'j) list \<Rightarrow> string) \<Rightarrow> thread_os list \<Rightarrow> manifest \<Rightarrow> thread_controls \<Rightarrow>
   (bool \<times> manifest \<times> thread_controls) result" where
  "thread_run parse serialize [] m t = Inr (True, m, t)"
| "thread_run parse serialize (os # oss) m t =
     rbind (thread_continue parse serialize os m t) (\<lambda>(b, m1, t1).
       if b then thread_run parse serialize oss m1 t1 else Inr (False, m1, t1))"

lemma thread_run_append:
  "thread_run parse serialize xs m t = Inr (True, m1, t1) \<Longrightarrow>
   thread_run parse serialize (xs @ ys) m t = thread_run parse serialize ys m1 t1"
proof (induction xs arbitrary: m t)
  case Nil
  then show ?case by simp
next
  case (Cons x xs)
  from Cons.prems obtain m2 t2 where "thread_continue parse serialize x m t = Inr (True, m2, t2)"
    "thread_run parse serialize xs m2 t2 = Inr (True, m1, t1)"
    by (auto simp: rbind_Inr_iff split: if_splits)
  with Cons.IH show ?case by simp
qed

lemma thread_run_waiting:
  "tc_state t = 5 \<Longrightarrow> \<forall>w \<in> set ws. \<exists>ps. to_polls w = PollTimeout # ps \<Longrightarrow>
   thread_run parse serialize ws m t = Inr (True, m, t)"
proof (induction ws)
  case (Cons w ws)
  then have "thread_continue parse serialize w m t = Inr (True, m, t)"
    by (cases t) (auto simp: thread_continue_def)
  with Cons show ?case by simp
qed simp

lemma thread_run_result:
  "tc_state t = 5 \<Longrightarrow> to_polls r = [PollReady True] \<Longrightarrow> read_loop (to_reads e) [] = Inr v \<Longrightarrow>
   thread_run parse serialize [r, e] m t =
     Inr (True, if v = [] \<or> v = ''null'' then m else set_value (tc_relation t) v m, t\<lparr>tc_state := 7\<rparr>)"
  by (simp add: thread_continue_def read_result_def)

lemma thread_run_start:
  "tc_state t = 0 \<Longrightarrow> fork_exec (to_fork o0) (rel_at m (tc_relation t)) = Inr s \<Longrightarrow>
   wait_for_launcher (to_reads o1) = Inr True \<Longrightarrow> to_kill o2 = CallOk \<Longrightarrow> to_kill o3 = CallOk \<Longrightarrow>
   write_params parse serialize (to_writes o4) m (rel_at m (tc_relation t)) (tc_params t) = Inr (True, sent) \<Longrightarrow>
   thread_run parse serialize [o0, o1, o2, o3, o4] m t =
     Inr (True, m, t\<lparr>tc_state := 5, tc_pid := st_pid s, tc_pipe := st_pipe s\<rparr>)"
  by (simp add: thread_continue_def subprocess_signal_def Let_def)

text \<open>
  The life of a thread.  When the system does its part, a fresh thread that is continued
  starts the subprocess, meets the launcher, pauses and resumes it, writes the parameters, waits
  as often as the poll times out, reads the result, and ends in state 7 with the result as the
  value of its relation; its signals and pending indices are untouched.
\<close>
theorem thread_lifecycle:
  assumes "tc_state t = 0" "fork_exec (to_fork o0) (rel_at m (tc_relation t)) = Inr s"
    "wait_for_launcher (to_reads o1) = Inr True" "to_kill o2 = CallOk" "to_kill o3 = CallOk"
    "write_params parse serialize (to_writes o4) m (rel_at m (tc_relation t)) (tc_params t) = Inr (True, sent)"
    "\<forall>w \<in> set ws. \<exists>ps. to_polls w = PollTimeout # ps"
    "to_polls o5 = [PollReady True]" "read_loop (to_reads o6) [] = Inr v" "v \<noteq> []" "v \<noteq> ''null''"
  shows "\<exists>t'. thread_run parse serialize ([o0, o1, o2, o3, o4] @ ws @ [o5, o6]) m t =
           Inr (True, set_value (tc_relation t) v m, t') \<and>
    tc_state t' = 7 \<and> tc_pid t' = st_pid s \<and> tc_idxs t' = tc_idxs t \<and> tc_signal t' = tc_signal t"
proof -
  let ?t5 = "t\<lparr>tc_state := 5, tc_pid := st_pid s, tc_pipe := st_pipe s\<rparr>"
  have "thread_run parse serialize ([o0, o1, o2, o3, o4] @ ws @ [o5, o6]) m t =
      thread_run parse serialize (ws @ [o5, o6]) m ?t5"
    by (rule thread_run_append [OF thread_run_start [OF assms(1-6)]])
  also have "\<dots> = thread_run parse serialize [o5, o6] m ?t5"
    using assms(7) by (intro thread_run_append thread_run_waiting) simp_all
  also have "\<dots> = Inr (True, set_value (tc_relation t) v m, ?t5\<lparr>tc_state := 7\<rparr>)"
    using thread_run_result [of ?t5 o5 o6 v parse serialize m] assms(8-11) by simp
  finally show ?thesis by (intro exI [of _ "?t5\<lparr>tc_state := 7\<rparr>"]) simp
qed

definition demo_fork :: fork_os where
  "demo_fork = \<lparr>fo_downstream = Some (3, 4), fo_upstream = Some (5, 6), fo_eventfd = Some 7,
     fo_bin = Some ''/bin/lua'', fo_launcher = Some ''/l.lua'', fo_pid = 99, fo_notice = [ReadData ''12345678''],
     fo_close_efd = True, fo_close_down = True, fo_close_up = True\<rparr>"

definition demo_os :: thread_os where
  "demo_os = \<lparr>to_fork = demo_fork, to_reads = [ReadData ''{}'', ReadEof], to_kill = CallOk,
     to_writes = [WriteLen 3], to_polls = [PollReady True], to_closes = (True, True)\<rparr>"

theorem thread_lifecycle_witness:
  "\<exists>t'. thread_run Inr (\<lambda>_. []) ([demo_os, demo_os, demo_os, demo_os, demo_os] @
      [demo_os\<lparr>to_polls := [PollTimeout]\<rparr>] @ [demo_os, demo_os]) demo_manifest (new_thread 0 ''{}'') =
           Inr (True, set_value (tc_relation (new_thread 0 ''{}'')) ''{}'' demo_manifest, t') \<and>
    tc_state t' = 7 \<and> tc_pid t' = st_pid \<lparr>st_argv = [''/bin/lua'', ''/l.lua'', ''b'', ''b''], st_pid = 99, st_pipe = (5, 4)\<rparr> \<and>
    tc_idxs t' = tc_idxs (new_thread 0 ''{}'') \<and> tc_signal t' = tc_signal (new_thread 0 ''{}'')"
  by (rule thread_lifecycle)
     (simp_all add: demo_os_def demo_fork_def fork_exec_def new_thread_def demo_manifest_def rel_at_def
        path_stem_def path_filename_def write_params_def params_text_def)

text \<open>
  Cleaning up a thread whose subprocess was never started.  The guard of \<open>cleanup\<close> is always
  true, so for a fresh thread it sends \<open>SIGTERM\<close> to process group 0, which is the controller's
  own, and closes file descriptor 0 twice.
\<close>
theorem cleanup_unstarted:
  "\<exists>sent fds res. cleanup os (new_thread a params) = (sent, fds, res) \<and> (0, SIGTERM) \<in> set sent \<and>
     (\<forall>fd \<in> set fds. fd = 0) \<and> (res = Inr () \<longrightarrow> fds = [0, 0])"
  by (auto simp: cleanup_def new_thread_def kill_subprocesses_def close_pipe_def
      split: prod.splits sum.splits call_ret.splits if_splits)

theorem cleanup_unstarted_witness:
  "\<exists>sent fds res. cleanup \<lparr>co_kills = (CallOk, CallOk, CallOk), co_naps = [CallOk], co_closes = (True, True)\<rparr>
       (new_thread 0 ''{}'') = (sent, fds, res) \<and> (0, SIGTERM) \<in> set sent \<and>
     (\<forall>fd \<in> set fds. fd = 0) \<and> (res = Inr () \<longrightarrow> fds = [0, 0])"
  by (rule cleanup_unstarted)

section \<open>The queue\<close>

lemma yield_many:
  "length xs = n \<Longrightarrow> sched_handles s = xs @ ys \<Longrightarrow>
   sched_handles (((\<lambda>s. fst (thread_sched_yield False s)) ^^ n) s) = ys @ xs"
proof (induction n arbitrary: s xs ys)
  case 0
  then show ?case by simp
next
  case (Suc n)
  then obtain x xs' where x: "xs = x # xs'" by (cases xs) auto
  then have "sched_handles (fst (thread_sched_yield False s)) = xs' @ ys @ [x]"
    using Suc.prems by (simp add: thread_sched_yield_def Let_def)
  with Suc.IH [of xs' "fst (thread_sched_yield False s)" "ys @ [x]"] Suc.prems(1) x show ?case
    by (simp add: funpow_Suc_right del: funpow.simps)
qed

text \<open>
  The queue of initializers is fair.  A new thread is put in front; a yield gives the turn
  to the next one and keeps all in the queue, so that after as many yields as there are threads
  each has had its turn and the order is what it was; a finished thread leaves.  The time slice
  is the integer quotient of five milliseconds, which is zero from six threads on.
\<close>
theorem sched_queue_fair:
  "sched_handles (snd (thread_sched_push s)) = fst (thread_sched_push s) # sched_handles s \<and>
   mset (sched_handles (fst (thread_sched_yield False s))) = mset (sched_handles s) \<and>
   sched_handles (((\<lambda>s. fst (thread_sched_yield False s)) ^^ length (sched_handles s)) s) = sched_handles s \<and>
   sched_handles (fst (thread_sched_yield True s)) = tl (sched_handles s) \<and>
   (5 < length (sched_handles s) \<longrightarrow> thread_sched_time_slice s = Inr 0)"
  using yield_many [of "sched_handles s" "length (sched_handles s)" s "[]"]
  by (auto simp: thread_sched_push_def thread_sched_yield_def thread_sched_time_slice_def Let_def split: list.splits)

theorem sched_queue_fair_witness:
  "thread_sched_time_slice \<lparr>sched_handles = [0, 1, 2, 3, 4, 5], sched_flags = (\<lambda>_. False), sched_fresh = 6\<rparr> = Inr 0"
  using sched_queue_fair [of "\<lparr>sched_handles = [0, 1, 2, 3, 4, 5], sched_flags = (\<lambda>_. False), sched_fresh = 6\<rparr>"]
  by simp

end
