(* ===== verification/Uuid.thy ===== *)
theory Uuid
  imports Prelude
begin

text \<open>
  \<open>UUID::Uuid\<close> and \<open>UUID::Node\<close> (\<open>uuid.cpp\<close>).  A UUID is its sixteen bytes in memory.  The
  numeric fields are read and written with \<open>memcpy\<close>, which on the little-endian machines the
  controller runs on takes the least significant byte first.  An input stream is its text and
  its fail bit; \<open>istream::read\<close> on a short stream stores what there is, leaves the rest of the
  buffer alone and sets the fail bit, after which it stores nothing.
\<close>

unbundle bit_operations_syntax

section \<open>Bytes and fields\<close>

type_synonym byte = "8 word"
type_synonym uuid = "byte list"

fun le_nat :: "byte list \<Rightarrow> nat" where
  "le_nat [] = 0"
| "le_nat (b # bs) = unat b + 256 * le_nat bs"

fun le_bytes :: "nat \<Rightarrow> nat \<Rightarrow> byte list" where
  "le_bytes 0 v = []"
| "le_bytes (Suc k) v = of_nat (v mod 256) # le_bytes k (v div 256)"

text \<open>\<open>memcpy(&dst[i], src, n)\<close> inside one array.\<close>

definition blit :: "nat \<Rightarrow> 'a list \<Rightarrow> 'a list \<Rightarrow> 'a list" where
  "blit i src dst = take i dst @ src @ drop (i + length src) dst"

definition field :: "nat \<Rightarrow> nat \<Rightarrow> byte list \<Rightarrow> nat" where
  "field i n bs = le_nat (take n (drop i bs))"

definition time_low :: "uuid \<Rightarrow> nat" where "time_low u = field 0 4 u"
definition time_mid :: "uuid \<Rightarrow> nat" where "time_mid u = field 4 2 u"
definition time_hi_and_version :: "uuid \<Rightarrow> nat" where "time_hi_and_version u = field 6 2 u"
definition clock_seq_hi_and_reserved :: "uuid \<Rightarrow> nat" where "clock_seq_hi_and_reserved u = field 8 1 u"
definition clock_seq_low :: "uuid \<Rightarrow> nat" where "clock_seq_low u = field 9 1 u"
definition uuid_node :: "uuid \<Rightarrow> byte list" where "uuid_node u = take 6 (drop 10 u)"

section \<open>Construction\<close>

definition zero_uuid :: uuid where
  "zero_uuid = replicate 16 0"

text \<open>
  The version 4 constructor.  The argument lists what the calls of \<open>getrandom\<close> return, a prefix
  of the requested bytes each time; a short answer is asked for again, and the constructor does
  not return when no answer is complete (\<open>None\<close>).
\<close>

definition uuid_mark :: "uuid \<Rightarrow> uuid" where
  "uuid_mark bs =
     (let b = blit 8 [(bs ! 8 OR 0x80) AND 0xBF] bs;
          hi = (word_of_nat (time_hi_and_version b) OR 0x4000) AND 0x4FFF :: 16 word
      in blit 6 (le_bytes 2 (unat hi)) b)"

fun uuid_v4 :: "byte list list \<Rightarrow> uuid option" where
  "uuid_v4 [] = None"
| "uuid_v4 (bs # draws) = (if length bs \<noteq> 16 then uuid_v4 draws else Some (uuid_mark bs))"

section \<open>Text\<close>

definition hex_pad :: "nat \<Rightarrow> nat \<Rightarrow> string" where
  "hex_pad w v = pad_zero w (show_nat 16 v)"

definition node_show :: "byte list \<Rightarrow> string" where
  "node_show bs = concat (map (\<lambda>i. hex_pad 4 (field (2 * i) 2 bs)) [0..<3])"

definition uuid_show :: "uuid \<Rightarrow> string" where
  "uuid_show u = hex_pad 8 (time_low u) @ hex_pad 4 (time_mid u) @ hex_pad 4 (time_hi_and_version u) @
     hex_pad 2 (clock_seq_hi_and_reserved u) @ hex_pad 2 (clock_seq_low u) @ node_show (uuid_node u)"

type_synonym istream = "string \<times> bool"

definition is_read :: "nat \<Rightarrow> string \<Rightarrow> istream \<Rightarrow> string \<times> istream" where
  "is_read n buf is = (case is of (s, failed) \<Rightarrow>
     if failed then (buf, is)
     else if n \<le> length s then (blit 0 (take n s) buf, (drop n s, False))
     else (blit 0 s buf, ([], True)))"

text \<open>A conversion that fails leaves the variable at the zero it was initialised with.\<close>

definition hex_value :: "nat \<Rightarrow> string \<Rightarrow> nat" where
  "hex_value n buf = (case from_chars 16 (4 * n) (take n buf) of Inl _ \<Rightarrow> 0 | Inr v \<Rightarrow> v)"

fun read_words :: "nat list \<Rightarrow> byte list \<Rightarrow> string \<Rightarrow> istream \<Rightarrow> byte list \<times> istream" where
  "read_words [] bs buf is = (bs, is)"
| "read_words (i # is') bs buf is =
     (case is_read 4 buf is of (buf', st) \<Rightarrow>
        read_words is' (blit (i * 2) (le_bytes 2 (hex_value 4 buf')) bs) buf' st)"

definition node_read :: "byte list \<Rightarrow> istream \<Rightarrow> byte list \<times> istream" where
  "node_read bs is = read_words [0, 1, 2] bs (replicate 4 CHR 0x00) is"

definition uuid_read :: "uuid \<Rightarrow> istream \<Rightarrow> uuid \<times> istream" where
  "uuid_read u s0 =
     (case is_read 8 (replicate 8 CHR 0x00) s0 of (b1, s1) \<Rightarrow>
      let u1 = blit 0 (le_bytes 4 (hex_value 8 b1)) u in
      case is_read 4 b1 s1 of (b2, s2) \<Rightarrow>
      let u2 = blit 4 (le_bytes 2 (hex_value 4 b2)) u1 in
      case is_read 4 b2 s2 of (b3, s3) \<Rightarrow>
      let u3 = blit 6 (le_bytes 2 (hex_value 4 b3)) u2 in
      case is_read 2 b3 s3 of (b4, s4) \<Rightarrow>
      let u4 = blit 8 (le_bytes 1 (hex_value 2 b4)) u3 in
      case is_read 2 b4 s4 of (b5, s5) \<Rightarrow>
      let u5 = blit 9 (le_bytes 1 (hex_value 2 b5)) u4 in
      case node_read (replicate 6 0) s5 of (nd, s6) \<Rightarrow>
        (blit 10 nd u5, s6))"

text \<open>The constructor from a text: a fresh random UUID is overwritten by what is read.\<close>

definition uuid_of_string :: "byte list list \<Rightarrow> string \<Rightarrow> uuid option" where
  "uuid_of_string draws s =
     (case uuid_v4 draws of None \<Rightarrow> None | Some tmp \<Rightarrow> Some (fst (uuid_read tmp (s, False))))"

fun uuid_eq_loop :: "byte list \<Rightarrow> byte list \<Rightarrow> bool" where
  "uuid_eq_loop (a # as) (b # bs) = (if a \<noteq> b then False else uuid_eq_loop as bs)"
| "uuid_eq_loop _ _ = True"

definition uuid_eq :: "uuid \<Rightarrow> uuid \<Rightarrow> bool" where
  "uuid_eq u v = uuid_eq_loop (take 16 u) (take 16 v)"

definition uuid_ne :: "uuid \<Rightarrow> uuid \<Rightarrow> bool" where
  "uuid_ne u v = (\<not> uuid_eq u v)"

section \<open>Fields\<close>

lemma length_le_bytes [simp]: "length (le_bytes k v) = k"
  by (induction k v rule: le_bytes.induct) simp_all

lemma le_nat_less: "le_nat bs < 256 ^ length bs"
proof (induction bs)
  case (Cons b bs)
  have "unat b < 256" using unsigned_less [of b] by simp
  with Cons show ?case by simp
qed simp

lemma le_bytes_le_nat: "le_bytes (length bs) (le_nat bs) = bs"
proof (induction bs)
  case (Cons b bs)
  have "unat b < 256" using unsigned_less [of b] by simp
  with Cons show ?case by simp
qed simp

lemma le_nat_le_bytes: "v < 256 ^ k \<Longrightarrow> le_nat (le_bytes k v) = v"
proof (induction k v rule: le_bytes.induct)
  case (2 k v)
  then have "v div 256 < 256 ^ k" by (simp add: less_mult_imp_div_less mult.commute)
  with 2 show ?case by (simp add: unat_of_nat)
qed simp

declare le_bytes.simps [simp del]

lemma le_bytes_2: "le_bytes 2 v = [of_nat (v mod 256), of_nat (v div 256 mod 256)]"
  by (simp add: numeral_2_eq_2 le_bytes.simps)

lemma length_blit: "i + length src \<le> length dst \<Longrightarrow> length (blit i src dst) = length dst"
  by (simp add: blit_def)

lemma hex_value_pad:
  assumes "v < 16 ^ n" "0 < n" "take n buf = hex_pad n v"
  shows "hex_value n buf = v"
proof -
  have "length (show_nat 16 v) \<le> n" using assms(1,2) by (intro show_nat_length) simp_all
  moreover have "list_all (is_digit 16) (hex_pad n v)"
    unfolding hex_pad_def by (rule pad_zero_digits) (simp_all add: show_nat_digits)
  moreover have "hex_pad n v \<noteq> []" by (simp add: hex_pad_def pad_zero_def)
  moreover have "digits_val 16 (hex_pad n v) = v" by (simp add: hex_pad_def digits_val_show_nat)
  moreover have "(16::nat) ^ n = 2 ^ (4 * n)" by (simp add: power_mult)
  ultimately have "from_chars 16 (4 * n) (hex_pad n v @ []) = Inr v"
    using assms(1) by (subst from_chars_digits) simp_all
  then show ?thesis using assms(3) by (simp add: hex_value_def)
qed

lemma length_hex_pad: "v < 16 ^ n \<Longrightarrow> 0 < n \<Longrightarrow> length (hex_pad n v) = n"
  unfolding hex_pad_def by (rule length_pad_zero) (rule show_nat_length; simp)

lemma is_read_pad:
  assumes "v < 16 ^ n" "0 < n" "n \<le> length buf"
  shows "is_read n buf (hex_pad n v @ s, False) = (hex_pad n v @ drop n buf, (s, False))"
  using length_hex_pad [OF assms(1,2)] assms(3) by (simp add: is_read_def blit_def)

lemma hex_value_read: "v < 16 ^ n \<Longrightarrow> 0 < n \<Longrightarrow> hex_value n (hex_pad n v @ b) = v"
  using length_hex_pad [of v n] by (intro hex_value_pad) simp_all

lemma hex_value_read0: "v < 16 ^ n \<Longrightarrow> 0 < n \<Longrightarrow> hex_value n (hex_pad n v) = v"
  using hex_value_read [of v n "[]"] by simp

lemma field_less: "i + n \<le> length bs \<Longrightarrow> field i n bs < 16 ^ (2 * n)"
  using le_nat_less [of "take n (drop i bs)"] by (simp add: field_def power_mult)

lemma le_bytes_field: "i + n \<le> length bs \<Longrightarrow> le_bytes n (field i n bs) = take n (drop i bs)"
  using le_bytes_le_nat [of "take n (drop i bs)"] by (simp add: field_def)

lemma list_16:
  assumes "length xs = 16"
  obtains a0 a1 a2 a3 a4 a5 a6 a7 a8 a9 a10 a11 a12 a13 a14 a15 where "xs = [a0, a1, a2, a3, a4, a5, a6, a7, a8, a9, a10, a11, a12, a13, a14, a15]"
proof -
  have "xs = map (nth xs) [0..<16]" using assms by (metis map_nth)
  also have "\<dots> = [xs ! 0, xs ! 1, xs ! 2, xs ! 3, xs ! 4, xs ! 5, xs ! 6, xs ! 7, xs ! 8, xs ! 9, xs ! 10, xs ! 11, xs ! 12, xs ! 13, xs ! 14, xs ! 15]" by (simp add: upt_rec numeral_eq_Suc)
  finally show thesis by (rule that)
qed

section \<open>Properties\<close>

lemma node_read_show:
  assumes "length bs = 6" "length old = 6"
  shows "node_read old (node_show bs @ rest, False) = (bs, (rest, False))"
proof -
  obtain a b c d e f where bs: "bs = [a, b, c, d, e, f]"
    using assms(1) by (auto simp: numeral_eq_Suc length_Suc_conv)
  obtain a' b' c' d' e' f' where old: "old = [a', b', c', d', e', f']"
    using assms(2) by (auto simp: numeral_eq_Suc length_Suc_conv)
  have f: "field (2 * i) 2 bs < 16 ^ 4" if "i < 3" for i
    using field_less [of "2 * i" 2 bs] that assms(1) by simp
  have lb: "le_bytes 2 (field 0 2 bs) = [a, b]" "le_bytes 2 (field 2 2 bs) = [c, d]" "le_bytes 2 (field 4 2 bs) = [e, f]"
    using le_bytes_field [of 0 2 bs] le_bytes_field [of 2 2 bs] le_bytes_field [of 4 2 bs] by (simp_all add: bs)
  have sh: "node_show bs = hex_pad 4 (field 0 2 bs) @ hex_pad 4 (field 2 2 bs) @ hex_pad 4 (field 4 2 bs)"
    by (simp add: node_show_def upt_rec)
  show ?thesis
    using f [of 0] f [of 1] f [of 2]
    by (simp add: node_read_def sh is_read_pad hex_value_read hex_value_read0 lb length_hex_pad)
       (simp add: old blit_def bs)
qed

lemma uuid_read_show:
  assumes "length u = 16" "length old = 16"
  shows "uuid_read old (uuid_show u @ rest, False) = (u, (rest, False))"
proof -
  have f: "time_low u < 16 ^ 8" "time_mid u < 16 ^ 4" "time_hi_and_version u < 16 ^ 4"
    "clock_seq_hi_and_reserved u < 16 ^ 2" "clock_seq_low u < 16 ^ 2"
    using field_less [of 0 4 u] field_less [of 4 2 u] field_less [of 6 2 u] field_less [of 8 1 u]
      field_less [of 9 1 u] assms(1)
    by (simp_all add: time_low_def time_mid_def time_hi_and_version_def clock_seq_hi_and_reserved_def clock_seq_low_def)
  have lb: "le_bytes 4 (time_low u) = take 4 u" "le_bytes 2 (time_mid u) = take 2 (drop 4 u)"
    "le_bytes 2 (time_hi_and_version u) = take 2 (drop 6 u)"
    "le_bytes 1 (clock_seq_hi_and_reserved u) = take 1 (drop 8 u)"
    "le_bytes 1 (clock_seq_low u) = take 1 (drop 9 u)"
    using assms(1) le_bytes_field [of 0 4 u] le_bytes_field [of 4 2 u] le_bytes_field [of 6 2 u]
      le_bytes_field [of 8 1 u] le_bytes_field [of 9 1 u]
    by (simp_all add: time_low_def time_mid_def time_hi_and_version_def clock_seq_hi_and_reserved_def clock_seq_low_def)
  note lb = lb [unfolded One_nat_def]
  have nd: "node_read (replicate 6 0) (node_show (uuid_node u) @ rest, False) = (uuid_node u, (rest, False))"
    using assms(1) by (intro node_read_show) (simp_all add: uuid_node_def)
  obtain a0 a1 a2 a3 a4 a5 a6 a7 a8 a9 a10 a11 a12 a13 a14 a15
    where u: "u = [a0, a1, a2, a3, a4, a5, a6, a7, a8, a9, a10, a11, a12, a13, a14, a15]"
    using assms(1) by (rule list_16)
  obtain b0 b1 b2 b3 b4 b5 b6 b7 b8 b9 b10 b11 b12 b13 b14 b15
    where old: "old = [b0, b1, b2, b3, b4, b5, b6, b7, b8, b9, b10, b11, b12, b13, b14, b15]"
    using assms(2) by (rule list_16)
  have "fst (uuid_read old (uuid_show u @ rest, False)) =
    blit 10 (uuid_node u) (blit 9 (take 1 (drop 9 u)) (blit 8 (take 1 (drop 8 u))
      (blit 6 (take 2 (drop 6 u)) (blit 4 (take 2 (drop 4 u)) (blit 0 (take 4 u) old))))) \<and>
    snd (uuid_read old (uuid_show u @ rest, False)) = (rest, False)"
    using f by (simp add: uuid_read_def uuid_show_def is_read_pad hex_value_read hex_value_read0 lb nd length_hex_pad)
  moreover have "blit 10 (uuid_node u) (blit 9 (take 1 (drop 9 u)) (blit 8 (take 1 (drop 8 u))
      (blit 6 (take 2 (drop 6 u)) (blit 4 (take 2 (drop 4 u)) (blit 0 (take 4 u) old))))) = u"
    by (simp add: u old blit_def uuid_node_def)
  ultimately show ?thesis by (metis prod.collapse)
qed

text \<open>
  A UUID that is printed and read back is the same UUID, whatever was in the variable
  before, and exactly its 32 characters are taken from the stream.
\<close>
theorem uuid_roundtrip:
  assumes "length u = 16" "length old = 16"
  shows "uuid_read old (uuid_show u @ rest, False) = (u, (rest, False))"
  by (rule uuid_read_show [OF assms])

theorem uuid_roundtrip_witness:
  "uuid_read zero_uuid (uuid_show (replicate 16 255) @ ''!'', False) = (replicate 16 255, (''!'', False))"
  by (rule uuid_roundtrip) (simp_all add: zero_uuid_def)

text \<open>
  The printed form of a UUID is 32 hexadecimal digits, and two UUIDs print the same only
  when the comparison operator calls them equal.
\<close>
theorem uuid_show_injective:
  assumes "length u = 16" "length v = 16"
  shows "length (uuid_show u) = 32 \<and> list_all (is_digit 16) (uuid_show u) \<and>
         (uuid_show u = uuid_show v \<longleftrightarrow> uuid_eq u v) \<and> (uuid_ne u v \<longleftrightarrow> u \<noteq> v)"
proof -
  have pad: "list_all (is_digit 16) (hex_pad n x)" for n x
    unfolding hex_pad_def by (rule pad_zero_digits) (simp_all add: show_nat_digits)
  have eqv: "uuid_eq_loop a b \<longleftrightarrow> a = b" if "length a = length b" for a b
    using that by (induction a b rule: list_induct2) simp_all
  then have eq: "uuid_eq u v \<longleftrightarrow> u = v" using assms by (simp add: uuid_eq_def)
  have up: "[0..<3] = [0, 1, 2]" by (simp add: upt_rec)
  have f: "time_low u < 16 ^ 8" "time_mid u < 16 ^ 4" "time_hi_and_version u < 16 ^ 4"
    "clock_seq_hi_and_reserved u < 16 ^ 2" "clock_seq_low u < 16 ^ 2"
    using field_less [of 0 4 u] field_less [of 4 2 u] field_less [of 6 2 u] field_less [of 8 1 u]
      field_less [of 9 1 u] assms(1)
    by (simp_all add: time_low_def time_mid_def time_hi_and_version_def clock_seq_hi_and_reserved_def clock_seq_low_def)
  have g: "field 0 2 (uuid_node u) < 16 ^ 4" "field 2 2 (uuid_node u) < 16 ^ 4" "field 4 2 (uuid_node u) < 16 ^ 4"
    using field_less [of 0 2 "uuid_node u"] field_less [of 2 2 "uuid_node u"] field_less [of 4 2 "uuid_node u"] assms(1)
    by (simp_all add: uuid_node_def)
  have len: "length (uuid_show u) = 32"
    using f g by (simp add: uuid_show_def length_hex_pad node_show_def up)
  have dig: "list_all (is_digit 16) (uuid_show u)"
    by (simp add: uuid_show_def pad node_show_def up)
  have inj: "u = v" if "uuid_show u = uuid_show v"
    using that uuid_read_show [OF assms(1) assms(1), of "[]"] uuid_read_show [OF assms(2) assms(1), of "[]"]
    by (metis fst_conv)
  show ?thesis using len dig inj eq by (auto simp: uuid_ne_def)
qed

theorem uuid_show_injective_witness:
  "length (uuid_show zero_uuid) = 32 \<and> list_all (is_digit 16) (uuid_show zero_uuid) \<and>
   (uuid_show zero_uuid = uuid_show (replicate 16 1) \<longleftrightarrow> uuid_eq zero_uuid (replicate 16 1)) \<and>
   (uuid_ne zero_uuid (replicate 16 1) \<longleftrightarrow> zero_uuid \<noteq> replicate 16 1)"
  by (rule uuid_show_injective) (simp_all add: zero_uuid_def)

lemma drop_bit_mark: "drop_bit n ((x OR a) AND m) = (drop_bit n x OR drop_bit n a) AND drop_bit n (m :: 'a :: len word)"
  by simp

lemma or_and_absorb: "(x OR a) AND a = (a :: 'a :: len word)"
  by (rule bit_word_eqI) (auto simp: bit_simps)

text \<open>The marked bytes: the version nibble is 4, the variant bits are 10, the rest is kept.\<close>

lemma uuid_mark_hi:
  assumes "length bs = 16"
  shows "time_hi_and_version (uuid_mark bs) =
    unat ((word_of_nat (field 6 2 bs) OR 0x4000) AND 0x4FFF :: 16 word)"
proof -
  obtain a0 a1 a2 a3 a4 a5 a6 a7 a8 a9 a10 a11 a12 a13 a14 a15
    where u: "bs = [a0, a1, a2, a3, a4, a5, a6, a7, a8, a9, a10, a11, a12, a13, a14, a15]"
    using assms by (rule list_16)
  have lt: "unat w < 256 ^ 2" for w :: "16 word" using unsigned_less [of w] by simp
  have "field 6 2 (blit 8 [x] bs) = field 6 2 bs" for x by (simp add: u blit_def field_def)
  moreover have "field 6 2 (blit 6 (le_bytes 2 v) (blit 8 [x] bs)) = le_nat (le_bytes 2 v)" for v x
    by (simp add: u blit_def field_def le_bytes_2)
  ultimately show ?thesis
    using le_nat_le_bytes [OF lt] by (simp add: uuid_mark_def time_hi_and_version_def Let_def)
qed

lemma uuid_mark_byte:
  assumes "length bs = 16"
  shows "uuid_mark bs ! 8 = (bs ! 8 OR 0x80) AND 0xBF"
proof -
  obtain a0 a1 a2 a3 a4 a5 a6 a7 a8 a9 a10 a11 a12 a13 a14 a15
    where u: "bs = [a0, a1, a2, a3, a4, a5, a6, a7, a8, a9, a10, a11, a12, a13, a14, a15]"
    using assms by (rule list_16)
  show ?thesis by (simp add: u uuid_mark_def blit_def le_bytes_2 Let_def)
qed

lemma uuid_mark_length: "length bs = 16 \<Longrightarrow> length (uuid_mark bs) = 16"
  by (simp add: uuid_mark_def length_blit Let_def)

lemma uuid_v4_some: "uuid_v4 draws = Some u \<Longrightarrow> \<exists>bs \<in> set draws. length bs = 16 \<and> u = uuid_mark bs"
  by (induction draws) (auto split: if_splits)

lemma uuid_v4_None: "uuid_v4 draws = None \<longleftrightarrow> (\<forall>bs \<in> set draws. length bs \<noteq> 16)"
  by (induction draws) auto

text \<open>
  The version 4 constructor returns as soon as one random draw is complete, and then the
  version nibble is 4 and the two variant bits are 10, as RFC 4122 asks, whatever was drawn.
\<close>
theorem uuid_v4_marks:
  "(uuid_v4 draws = None \<longleftrightarrow> (\<forall>bs \<in> set draws. length bs \<noteq> 16)) \<and>
   (\<forall>u. uuid_v4 draws = Some u \<longrightarrow>
      length u = 16 \<and> time_hi_and_version u div 2 ^ 12 = 4 \<and> drop_bit 6 (u ! 8) = 2)"
proof -
  have "length u = 16 \<and> time_hi_and_version u div 2 ^ 12 = 4 \<and> drop_bit 6 (u ! 8) = 2"
    if "uuid_v4 draws = Some u" for u
  proof -
    from uuid_v4_some [OF that] obtain bs where bs: "length bs = 16" "u = uuid_mark bs" by blast
    let ?x = "word_of_nat (field 6 2 bs) :: 16 word"
    have "drop_bit 12 (0x4000 :: 16 word) = 4" "drop_bit 12 (0x4FFF :: 16 word) = 4"
      "drop_bit 6 (0x80 :: 8 word) = 2" "drop_bit 6 (0xBF :: 8 word) = 2"
      by code_simp+
    then have "drop_bit 12 ((?x OR 0x4000) AND 0x4FFF) = 4" and v: "drop_bit 6 ((bs ! 8 OR 0x80) AND 0xBF) = 2"
      unfolding drop_bit_mark by (simp_all only: or_and_absorb)
    moreover have "unat (drop_bit 12 w) = unat w div 2 ^ 12" for w :: "16 word"
      by (simp add: drop_bit_eq_div unat_div)
    ultimately have "unat ((?x OR 0x4000) AND 0x4FFF) div 2 ^ 12 = unat (4 :: 16 word)" by metis
    then have "time_hi_and_version u div 2 ^ 12 = 4"
      unfolding bs(2) uuid_mark_hi [OF bs(1)] by simp
    moreover have "drop_bit 6 (u ! 8) = 2"
      unfolding bs(2) uuid_mark_byte [OF bs(1)] by (rule v)
    ultimately show ?thesis using bs uuid_mark_length by simp
  qed
  then show ?thesis using uuid_v4_None by blast
qed

end
