(* ===== verification/ExecutionContext.thy ===== *)
theory ExecutionContext
  imports ThreadControls Uuid
begin

text \<open>
  \<open>ExecutionContext\<close> (\<open>execution-context.cpp\<close>) and the request that creates or finds one
  (\<open>run.cpp\<close>).  Parameters: \<open>genv\<close> is \<open>getenv\<close>, \<open>doc\<close> the parsed \<open>action-manifest.json\<close> (\<open>None\<close>
  when the file does not exist), \<open>srt\<close> what \<open>std::sort\<close> makes of a manifest, \<open>aton\<close> is \<open>inet_aton\<close>,
  \<open>mkdir_ok\<close> says that the temporary directory exists afterwards, \<open>draws\<close> are the random bytes.
  A port is kept in host order, an address as the 32 bits \<open>inet_aton\<close> stores; a variable that is
  read before it is written holds some value, \<open>garbage\<close>.
\<close>

section \<open>State\<close>

datatype routes = RUN | INIT

record peer =
  peer_addr :: "32 word"
  peer_port :: nat

type_synonym environment = "string \<Rightarrow> string option"

record exec_context =
  ec_id :: uuid
  ec_stack :: "nat list"
  ec_array :: "nat list"
  ec_route :: routes
  ec_env :: environment
  ec_manifest :: manifest
  ec_threads :: "thread_controls list"
  ec_peers :: "peer list"
  ec_sync :: nat

text \<open>The document: its keys without the concurrency key, and the value of that key if it is there.\<close>

datatype concurrency_value = CInt64 int | CUint64 nat | COther

record manifest_doc =
  md_keys :: "string list"
  md_deps :: "string \<Rightarrow> string result list result"
  md_file :: "string \<Rightarrow> string result"
  md_concurrency :: "concurrency_value option"

record world =
  w_env :: environment
  w_doc :: "manifest_doc result option"
  w_sort :: "manifest \<Rightarrow> manifest"
  w_aton :: "string \<Rightarrow> 32 word option"
  w_mkdir :: bool
  w_draws :: "byte list list"
  w_garbage :: "32 word"
  w_fuel :: nat

section \<open>Peers\<close>

definition find_char :: "char \<Rightarrow> string \<Rightarrow> nat option" where
  "find_char c s = (let i = find_if (\<lambda>d. d = c) s in if i < length s then Some i else None)"

text \<open>The constructor's loop: no check for the colon, and \<open>inet_aton\<close> is compared with -1.\<close>

definition ctor_peer :: "(string \<Rightarrow> 32 word option) \<Rightarrow> 32 word \<Rightarrow> string \<Rightarrow> peer result" where
  "ctor_peer aton garbage s =
     (let addr = (case find_char CHR '':'' s of None \<Rightarrow> s | Some pos \<Rightarrow> take pos s);
          port = (case find_char CHR '':'' s of None \<Rightarrow> s | Some pos \<Rightarrow> drop (pos + 1) s)
      in case from_chars 10 16 port of
           Inl _ \<Rightarrow> Inl (Thrown ''This shouldn't be possible'')
         | Inr n \<Rightarrow> Inr \<lparr>peer_addr = (case aton addr of None \<Rightarrow> garbage | Some a \<Rightarrow> a), peer_port = n\<rparr>)"

definition merge_peer :: "(string \<Rightarrow> 32 word option) \<Rightarrow> string \<Rightarrow> peer list \<Rightarrow> peer list result" where
  "merge_peer aton s peers =
     (case find_char CHR '':'' s of
        None \<Rightarrow> Inl (Thrown ''This should never happen.'')
      | Some pos \<Rightarrow>
        (case from_chars 10 16 (drop (pos + 1) s) of
           Inl _ \<Rightarrow> Inl (Thrown ''This should never happen.'')
         | Inr n \<Rightarrow>
           (case aton (take pos s) of
              None \<Rightarrow> Inl (Thrown ''This should never happen.'')
            | Some a \<Rightarrow>
              Inr (if find_if (\<lambda>p. peer_port p = n \<and> peer_addr p = a) peers = length peers
                   then peers @ [\<lparr>peer_addr = a, peer_port = n\<rparr>] else peers))))"

definition merge_peer_addresses :: "(string \<Rightarrow> 32 word option) \<Rightarrow> string list \<Rightarrow> exec_context \<Rightarrow> exec_context result" where
  "merge_peer_addresses aton remote c =
     rbind (rfold (merge_peer aton) remote (ec_peers c)) (\<lambda>ps. Inr (c\<lparr>ec_peers := ps\<rparr>))"

fun ctor_peers :: "(string \<Rightarrow> 32 word option) \<Rightarrow> 32 word \<Rightarrow> string list \<Rightarrow> peer list result" where
  "ctor_peers aton garbage [] = Inr []"
| "ctor_peers aton garbage (s # ss) =
     rbind (ctor_peer aton garbage s) (\<lambda>p. rbind (ctor_peers aton garbage ss) (\<lambda>ps. Inr (p # ps)))"

section \<open>Construction\<close>

definition set_concurrency :: "concurrency_value option \<Rightarrow> manifest \<Rightarrow> manifest" where
  "set_concurrency v m = (case v of
     Some (CInt64 i) \<Rightarrow> m\<lparr>concurrency := nat (i mod 2 ^ 64)\<rparr>
   | Some (CUint64 n) \<Rightarrow> m\<lparr>concurrency := n\<rparr>
   | _ \<Rightarrow> m)"

text \<open>
  The manifest of a new context, from the document or, without one, the single default action.
  The two constructors have this code in common but for what they throw.
\<close>

definition load_manifest :: "string \<Rightarrow> string \<Rightarrow> world \<Rightarrow> string \<Rightarrow> manifest result" where
  "load_manifest empty_msg ext_msg w actions = (case w_doc w of
     Some d \<Rightarrow> rbind d (\<lambda>doc.
       if md_keys doc = [] \<and> md_concurrency doc = None then Inl (Thrown empty_msg)
       else rbind (load_loop (md_deps doc) (md_file doc) (Some actions) (w_fuel w) (Suc (length (md_keys doc)))
                     (md_keys doc) (set_concurrency (md_concurrency doc) empty_manifest))
              (\<lambda>m. Inr (w_sort w m)))
   | None \<Rightarrow>
       (case w_env w ''__OW_ACTION_EXT'' of
          None \<Rightarrow> Inl (Thrown ext_msg)
        | Some ext \<Rightarrow>
          (let path = path_join actions (''main.'' @ ext);
               entry = (case w_env w ''__OW_ACTION_ENTRY_POINT'' of None \<Rightarrow> ''main'' | Some e \<Rightarrow> e)
           in Inr (push_relation (mk_relation [] entry path []) empty_manifest))))"

definition finish_context :: "world \<Rightarrow> uuid \<Rightarrow> nat \<Rightarrow> peer list \<Rightarrow> environment \<Rightarrow> manifest \<Rightarrow> exec_context result" where
  "finish_context w u idx peers env m = (case env ''__OW_ACTIVATION_ID'' of
     None \<Rightarrow> Inl (Thrown ''out_of_range'')
   | Some _ \<Rightarrow>
     (if \<not> w_mkdir w then Inl (Thrown ''error_code'')
      else Inr \<lparr>ec_id = u, ec_stack = [idx], ec_array = [idx], ec_route = RUN,
                ec_env = env(''__OW_EXECUTION_CONTEXT_ID'' := Some (uuid_show u)),
                ec_manifest = m, ec_threads = [], ec_peers = peers, ec_sync = length (index m)\<rparr>))"

definition init_context :: "world \<Rightarrow> exec_context result" where
  "init_context w = (case uuid_v4 (w_draws w) of
     None \<Rightarrow> Inl NoReturn
   | Some u \<Rightarrow> Inr \<lparr>ec_id = u, ec_stack = [0], ec_array = [0], ec_route = INIT, ec_env = (\<lambda>_. None),
                     ec_manifest = empty_manifest, ec_threads = [], ec_peers = [], ec_sync = 0\<rparr>)"

definition run_context :: "world \<Rightarrow> environment \<Rightarrow> exec_context result" where
  "run_context w env = (case uuid_v4 (w_draws w) of
     None \<Rightarrow> Inl NoReturn
   | Some u \<Rightarrow> (case w_env w ''__OW_ACTIONS'' of
       None \<Rightarrow> Inl (Thrown ''This shouldn't happen.'')
     | Some actions \<Rightarrow>
         rbind (load_manifest ''This shouldn't happen.'' ''this shouldn't happen.'' w actions)
           (\<lambda>m. finish_context w u 0 [] env m)))"

definition peer_context :: "world \<Rightarrow> uuid \<Rightarrow> nat \<Rightarrow> string list \<Rightarrow> environment \<Rightarrow> exec_context result" where
  "peer_context w u idx peers env =
     rbind (ctor_peers (w_aton w) (w_garbage w) peers) (\<lambda>ps.
       case w_env w ''__OW_ACTIONS'' of
         None \<Rightarrow> Inl (Thrown ''this shouldn't happen.'')
       | Some actions \<Rightarrow>
           rbind (load_manifest ''action-manifest.json can't be empty.''
                    ''Environment variable __OW_ACTION_EXT is not defined!'' w actions)
             (\<lambda>m. finish_context w u idx ps env m))"

section \<open>Operations\<close>

definition context_eq :: "exec_context \<Rightarrow> exec_context \<Rightarrow> bool" where
  "context_eq a b = uuid_eq (ec_id a) (ec_id b)"

definition context_stopped :: "exec_context \<Rightarrow> bool" where
  "context_stopped c = list_all is_stopped (ec_threads c)"

definition pop_execution_idx :: "exec_context \<Rightarrow> (nat \<times> exec_context) result" where
  "pop_execution_idx c =
     (if ec_stack c = [] then Inl (Thrown ''Execution Context idx stack shouldn't be empty when calling pop.'')
      else Inr (last (ec_stack c), c\<lparr>ec_stack := butlast (ec_stack c)\<rparr>))"

definition push_execution_idx :: "nat \<Rightarrow> exec_context \<Rightarrow> exec_context" where
  "push_execution_idx i c = c\<lparr>ec_stack := ec_stack c @ [i]\<rparr>"

section \<open>Run requests\<close>

text \<open>
  A parsed \<open>POST /run\<close>.  \<open>rr_env\<close> is built from the members of the request object, given with
  their values as text; the member \<open>value\<close> is left out.
\<close>

record run_request =
  rr_id :: uuid
  rr_idx :: nat
  rr_peers :: "string list"
  rr_value :: string
  rr_env :: environment

definition request_env :: "(string \<times> string) list \<Rightarrow> environment" where
  "request_env kvps = fold (\<lambda>(k, v) env.
     if k \<noteq> ''value'' then
       (let ek = ''__OW_'' @ map to_upper k in if env ek = None then env(ek := Some v) else env)
     else env) kvps (\<lambda>_. None)"

text \<open>\<open>handle(req, ctx_ptrs)\<close>: the position of the context that takes the request, or a new context.\<close>

definition with_threads :: "run_request \<Rightarrow> exec_context \<Rightarrow> exec_context" where
  "with_threads req c =
     c\<lparr>ec_threads := ec_threads c @ map (\<lambda>a. new_thread a (rr_value req)) (index (ec_manifest c))\<rparr>"

definition run_handle ::
  "world \<Rightarrow> run_request \<Rightarrow> exec_context list \<Rightarrow> (nat + exec_context) result \<times> exec_context list" where
  "run_handle w req ctxs =
     (if uuid_ne (rr_id req) zero_uuid then
        (let i = find_if (\<lambda>c. uuid_eq (ec_id c) (rr_id req)) ctxs in
         if i < length ctxs then
           (Inr (Inl i), ctxs[i := push_execution_idx (rr_idx req)
                                     ((ctxs ! i)\<lparr>ec_array := ec_array (ctxs ! i) @ [rr_idx req]\<rparr>)])
         else
           (rbind (peer_context w (rr_id req) (rr_idx req) (rr_peers req) (rr_env req))
              (\<lambda>c. Inr (Inr (with_threads req c))), ctxs))
      else
        (rbind (run_context w (rr_env req)) (\<lambda>c. Inr (Inr (with_threads req c))), ctxs))"

section \<open>Properties\<close>

definition sort_desc :: "manifest \<Rightarrow> manifest" where
  "sort_desc m = m\<lparr>index := rev (sort_key (\<lambda>a. rel_depth (rel_at m a)) (index m))\<rparr>"

lemma sort_desc_sorted: "sorted_manifest m (sort_desc m)"
proof -
  have "sorted (map (\<lambda>a. rel_depth (rel_at m a)) (sort_key (\<lambda>a. rel_depth (rel_at m a)) (index m)))"
    by (rule sorted_sort_key)
  then have "sorted_wrt (\<lambda>a b. rel_depth (rel_at m a) \<le> rel_depth (rel_at m b)) (sort_key (\<lambda>a. rel_depth (rel_at m a)) (index m))"
    by (simp add: sorted_wrt_map)
  then show ?thesis
    by (simp add: sorted_manifest_def sort_desc_def sorted_wrt_rev rel_at_def)
qed

lemma merge_peers_fold:
  "rfold (merge_peer aton) remote ps = Inr ps' \<Longrightarrow> distinct ps \<Longrightarrow>
   distinct ps' \<and> (\<exists>new. ps' = ps @ new) \<and>
   (\<forall>s \<in> set remote. \<exists>pos n a. find_char CHR '':'' s = Some pos \<and> from_chars 10 16 (drop (pos + 1) s) = Inr n \<and>
      aton (take pos s) = Some a \<and> \<lparr>peer_addr = a, peer_port = n\<rparr> \<in> set ps')"
proof (induction remote arbitrary: ps)
  case Nil
  then show ?case by simp
next
  case (Cons s remote)
  from Cons.prems(1) obtain ps1 where 1: "merge_peer aton s ps = Inr ps1" "rfold (merge_peer aton) remote ps1 = Inr ps'"
    by (auto simp: rbind_Inr_iff)
  from 1(1) obtain pos n a where s: "find_char CHR '':'' s = Some pos" "from_chars 10 16 (drop (pos + 1) s) = Inr n"
    "aton (take pos s) = Some a"
    and ps1: "ps1 = (if find_if (\<lambda>p. peer_port p = n \<and> peer_addr p = a) ps = length ps
                then ps @ [\<lparr>peer_addr = a, peer_port = n\<rparr>] else ps)"
    by (auto simp: merge_peer_def split: option.splits sum.splits)
  let ?p = "\<lparr>peer_addr = a, peer_port = n\<rparr>"
  have eq: "peer_port p = n \<and> peer_addr p = a \<longleftrightarrow> p = ?p" for p :: peer by (cases p) auto
  then have ps1': "ps1 = (if ?p \<in> set ps then ps else ps @ [?p])"
    using ps1 by (auto simp: find_if_eq_length_iff)
  then have "distinct ps1" "?p \<in> set ps1" "\<exists>new. ps1 = ps @ new" using Cons.prems(2) by auto
  with Cons.IH [OF 1(2)] s show ?case by fastforce
qed

text \<open>
  Merging peer addresses.  When it succeeds, the known peers are kept in their order, every
  address of the remote list is in the table, and none is in it twice.
\<close>
theorem merge_peer_addresses_correct:
  assumes "merge_peer_addresses aton remote c = Inr c'" "distinct (ec_peers c)"
  shows "distinct (ec_peers c') \<and> (\<exists>new. ec_peers c' = ec_peers c @ new) \<and>
    (\<forall>s \<in> set remote. \<exists>pos n a. find_char CHR '':'' s = Some pos \<and> from_chars 10 16 (drop (pos + 1) s) = Inr n \<and>
       aton (take pos s) = Some a \<and> \<lparr>peer_addr = a, peer_port = n\<rparr> \<in> set (ec_peers c')) \<and>
    c'\<lparr>ec_peers := ec_peers c\<rparr> = c"
  using assms merge_peers_fold [of aton remote "ec_peers c"]
  by (auto simp: merge_peer_addresses_def rbind_Inr_iff)

definition demo_aton :: "string \<Rightarrow> 32 word option" where
  "demo_aton s = (if s = ''127.0.0.1'' then Some 0x7F000001 else None)"

definition demo_context :: exec_context where
  "demo_context = \<lparr>ec_id = replicate 16 1, ec_stack = [0], ec_array = [0], ec_route = RUN, ec_env = (\<lambda>_. None),
     ec_manifest = sort_desc demo_manifest, ec_threads = map (\<lambda>a. new_thread a ''{}'') [2, 1, 0],
     ec_peers = [\<lparr>peer_addr = 1, peer_port = 5200\<rparr>], ec_sync = 3\<rparr>"

theorem merge_peer_addresses_correct_witness:
  "\<exists>c'. merge_peer_addresses demo_aton [''127.0.0.1:5200''] demo_context = Inr c' \<and> distinct (ec_peers c')"
proof -
  let ?c = "demo_context\<lparr>ec_peers := ec_peers demo_context @ [\<lparr>peer_addr = 0x7F000001, peer_port = 5200\<rparr>]\<rparr>"
  have m: "merge_peer_addresses demo_aton [''127.0.0.1:5200''] demo_context = Inr ?c"
    by (simp add: merge_peer_addresses_def merge_peer_def find_char_def Let_def demo_aton_def demo_context_def
        from_chars_def is_digit_def digit_val_def digits_val_def the_digit_def)
  then show ?thesis
    using merge_peer_addresses_correct [OF m] by (simp add: demo_context_def)
qed

end
