(* ===== verification/BigNum.thy ===== *)
theory BigNum
  imports Prelude
begin

text \<open>
  \<open>HttpBigNum\<close> of \<open>controller-lib/src/application-servers/http/http-requests\<close>: the arbitrarily
  large chunk sizes and byte counts of the HTTP parser, a vector of 64-bit limbs with the most
  significant limb first.  The loops of the source run from the least significant limb; here
  they are recursions over the reversed vector.  \<open>bn_val\<close> is the number a vector stands for,
  and the lemmas say which operations compute on it what their names say.
\<close>

section \<open>Limbs and values\<close>

type_synonym limb = "64 word"
type_synonym bignum = "limb list"

definition limb_base :: nat where
  "limb_base = 2 ^ 64"

definition limb_max :: limb where
  "limb_max = - 1"

fun le_val :: "limb list \<Rightarrow> nat" where
  "le_val [] = 0"
| "le_val (w # ws) = unat w + limb_base * le_val ws"

definition bn_val :: "bignum \<Rightarrow> nat" where
  "bn_val ws = le_val (rev ws)"

definition bn_norm :: "bignum \<Rightarrow> bool" where
  "bn_norm ws \<longleftrightarrow> ws \<noteq> [] \<and> (1 < length ws \<longrightarrow> hd ws \<noteq> 0)"

section \<open>Operations\<close>

subsection \<open>Constructors from text\<close>

text \<open>
  \<open>HttpBigNum(Hex, s)\<close> cuts the text from its end into partitions of \<open>2*sizeof(size_t)\<close> digits;
  the last partition is what is left in front, and may be empty.
\<close>

definition hex_partitions :: "string \<Rightarrow> string list" where
  "hex_partitions s =
     (let n = length s; k = n div 16 in
      map (\<lambda>offset. take 16 (drop (n - (offset + 1) * 16) s)) [0..<k] @ [take (n - k * 16) s])"

fun read_limbs :: "string list \<Rightarrow> bignum \<Rightarrow> bignum result" where
  "read_limbs [] acc = Inr acc"
| "read_limbs (p # ps) acc =
     (case from_chars 16 64 p of
        Inl _ \<Rightarrow> Inl (DomainError ''http-requests.cpp:32:std::from_chars failed.'')
      | Inr num \<Rightarrow> read_limbs ps (acc @ [of_nat num]))"

definition bn_hex :: "string \<Rightarrow> bignum result" where
  "bn_hex s = read_limbs (rev (hex_partitions s)) []"

subsection \<open>Comparison\<close>

fun bn_eq_loop :: "limb list \<Rightarrow> limb list \<Rightarrow> bool" where
  "bn_eq_loop (a # as) (b # bs) = (if a \<noteq> b then False else bn_eq_loop as bs)"
| "bn_eq_loop _ _ = True"

definition bn_eq :: "bignum \<Rightarrow> bignum \<Rightarrow> bool" where
  "bn_eq a b = (if length a \<noteq> length b then False else bn_eq_loop a b)"

fun bn_ne_loop :: "limb list \<Rightarrow> limb list \<Rightarrow> bool" where
  "bn_ne_loop (a # as) (b # bs) = (if a \<noteq> b then True else bn_ne_loop as bs)"
| "bn_ne_loop _ _ = False"

definition bn_ne :: "bignum \<Rightarrow> bignum \<Rightarrow> bool" where
  "bn_ne a b = (if length a \<noteq> length b then True else bn_ne_loop a b)"

text \<open>The loop of \<open><\<close> and \<open><=\<close>, which differ in the answer for equal vectors only.\<close>

fun bn_lt_loop :: "bool \<Rightarrow> limb list \<Rightarrow> limb list \<Rightarrow> bool" where
  "bn_lt_loop e (a # as) (b # bs) =
     (if b < a then False else if a < b then True else bn_lt_loop e as bs)"
| "bn_lt_loop e _ _ = e"

definition bn_lt :: "bignum \<Rightarrow> bignum \<Rightarrow> bool" where
  "bn_lt a b =
     (if length a < length b then True
      else if length b < length a then False else bn_lt_loop False a b)"

definition bn_le :: "bignum \<Rightarrow> bignum \<Rightarrow> bool" where
  "bn_le a b =
     (if length a < length b then True
      else if length b < length a then False else bn_lt_loop True a b)"

fun bn_gt_loop :: "bool \<Rightarrow> limb list \<Rightarrow> limb list \<Rightarrow> bool" where
  "bn_gt_loop e (a # as) (b # bs) =
     (if a < b then False else if b < a then True else bn_gt_loop e as bs)"
| "bn_gt_loop e _ _ = e"

definition bn_gt :: "bignum \<Rightarrow> bignum \<Rightarrow> bool" where
  "bn_gt a b =
     (if length a < length b then False
      else if length b < length a then True else bn_gt_loop False a b)"

definition bn_ge :: "bignum \<Rightarrow> bignum \<Rightarrow> bool" where
  "bn_ge a b =
     (if length a < length b then False
      else if length b < length a then True else bn_gt_loop True a b)"

subsection \<open>Increment and decrement\<close>

text \<open>
  The \<open>do\<close> loop of \<open>++\<close> over the reversed vector; the flag says that the carry left the most
  significant limb.  \<open>++\<close> and \<open>--\<close> are applied to non-empty vectors: on an empty one the loop of
  the source reads before it tests.
\<close>

fun incr_loop :: "limb list \<Rightarrow> limb list \<times> bool" where
  "incr_loop [] = ([], True)"
| "incr_loop (w # ws) =
     (if w = limb_max then (let (r, c) = incr_loop ws in (0 # r, c)) else ((w + 1) # ws, False))"

definition bn_incr :: "bignum \<Rightarrow> bignum" where
  "bn_incr ws = (let (r, c) = incr_loop (rev ws) in if c then 1 # rev r else rev r)"

text \<open>\<open>operator++(int)\<close>: the new value of the object and what the call returns.\<close>

definition bn_incr_post :: "bignum \<Rightarrow> bignum \<times> bignum" where
  "bn_incr_post ws = (let tmp = bn_incr ws in (tmp, tmp))"

text \<open>The loop of \<open>--\<close>; the flag says that the iterator reached the end of the vector.\<close>

fun decr_loop :: "limb list \<Rightarrow> limb list \<times> bool" where
  "decr_loop [] = ([], True)"
| "decr_loop (w # ws) =
     (if w = 0 then (let (r, e) = decr_loop ws in (limb_max # r, e)) else ((w - 1) # ws, ws = []))"

definition bn_decr :: "bignum \<Rightarrow> bignum" where
  "bn_decr ws =
     (let (r, e) = decr_loop (rev ws) in
      case rev r of [] \<Rightarrow> [] | front # rest \<Rightarrow> if e \<and> front = 0 then rest else front # rest)"

definition bn_decr_post :: "bignum \<Rightarrow> bignum \<times> bignum" where
  "bn_decr_post ws = (let tmp = bn_decr ws in (tmp, tmp))"

subsection \<open>Addition\<close>

text \<open>First the limb of the right operand takes the carry, then the sum is formed.\<close>

definition add_carry :: "bool \<Rightarrow> limb \<Rightarrow> limb \<times> bool" where
  "add_carry c r =
     (let carry = (if c then 1 else 0) in
      if 0 < carry \<and> limb_max - r < carry then (r - (limb_max - carry + 1), True)
      else (r + carry, False))"

definition add_limb :: "bool \<Rightarrow> limb \<Rightarrow> limb \<Rightarrow> limb \<times> bool" where
  "add_limb c l tmp =
     (if 0 < tmp \<and> limb_max - l < tmp then (l - (limb_max - tmp + 1), True) else (l + tmp, c))"

fun add_loop :: "bool \<Rightarrow> limb list \<Rightarrow> limb list \<Rightarrow> limb list \<times> bool" where
  "add_loop c ls [] = (ls, c)"
| "add_loop c [] (r # rs) =
     (let (tmp, c1) = add_carry c r; (out, c2) = add_loop c1 [] rs in (tmp # out, c2))"
| "add_loop c (l # ls) (r # rs) =
     (let (tmp, c1) = add_carry c r; (s, c2) = add_limb c1 l tmp;
          (out, c3) = add_loop c2 ls rs in (s # out, c3))"

definition bn_add :: "bignum \<Rightarrow> bignum \<Rightarrow> bignum" where
  "bn_add lhs rhs =
     (let (out, c) = add_loop False (rev lhs) (rev rhs) in if c then 1 # rev out else rev out)"

definition bn_add_limb :: "bignum \<Rightarrow> limb \<Rightarrow> bignum" where
  "bn_add_limb lhs v = bn_add lhs [v]"

text \<open>\<open>HttpBigNum(Dec, s)\<close>: every digit multiplies by ten with nine additions.\<close>

fun bn_dec_loop :: "string \<Rightarrow> bignum \<Rightarrow> bignum result" where
  "bn_dec_loop [] acc = Inr acc"
| "bn_dec_loop (c # cs) acc =
     (case from_chars 10 64 [c] of
        Inl _ \<Rightarrow> Inl (Thrown ''Char conversion failed.'')
      | Inr val \<Rightarrow>
          (let tmp = acc; ten = ((\<lambda>x. bn_add x tmp) ^^ 9) acc in
           bn_dec_loop cs (bn_add_limb ten (of_nat val))))"

definition bn_dec :: "string \<Rightarrow> bignum result" where
  "bn_dec s = bn_dec_loop s [0]"

subsection \<open>Subtraction\<close>

definition sub_limb :: "bool \<Rightarrow> limb \<Rightarrow> limb \<Rightarrow> limb \<times> bool" where
  "sub_limb c l r =
     (if \<not> c then (if l < r then (limb_max - (r - l), True) else (l - r, False))
      else (if l \<le> r then (limb_max - (r - l), True) else (l - r - 1, False)))"

fun borrow_loop :: "bool \<Rightarrow> limb list \<Rightarrow> limb list" where
  "borrow_loop c [] = []"
| "borrow_loop c (w # ws) =
     (if \<not> c then w # ws else if w = 0 then limb_max # borrow_loop True ws else (w - 1) # ws)"

fun sub_loop :: "bool \<Rightarrow> limb list \<Rightarrow> limb list \<Rightarrow> limb list" where
  "sub_loop c ls [] = borrow_loop c ls"
| "sub_loop c [] (r # rs) = []"
| "sub_loop c (l # ls) (r # rs) = (let (d, c1) = sub_limb c l r in d # sub_loop c1 ls rs)"

text \<open>The search for the first non-zero limb has no bound in the source.\<close>

fun strip_zeros :: "limb list \<Rightarrow> bignum result" where
  "strip_zeros [] = Inl (Undefined ''read past the end of the limbs'')"
| "strip_zeros (w # ws) = (if w = 0 then strip_zeros ws else Inr (w # ws))"

definition bn_sub :: "bignum \<Rightarrow> bignum \<Rightarrow> bignum result" where
  "bn_sub lhs rhs =
     (if bn_le lhs rhs then Inr [0]
      else strip_zeros (rev (sub_loop False (rev lhs) (rev rhs))))"

definition bn_sub_limb :: "bignum \<Rightarrow> limb \<Rightarrow> bignum result" where
  "bn_sub_limb lhs v = bn_sub lhs [v]"

subsection \<open>Output\<close>

fun bn_show :: "bignum \<Rightarrow> string result" where
  "bn_show [] = Inl (Undefined ''dereference of end()'')"
| "bn_show (w # ws) =
     Inr (show_nat 16 (unat w) @ concat (map (\<lambda>v. pad_zero 16 (show_nat 16 (unat v))) ws))"

section \<open>Limb arithmetic\<close>

lemma limb_base_gt_1 [simp]: "1 < limb_base" "Suc 0 < limb_base" "0 < limb_base" "limb_base \<noteq> 0"
  by (simp_all add: limb_base_def)

lemma Suc_limb_base [simp]: "Suc (limb_base - Suc 0 + x) = limb_base + x"
  by (simp add: limb_base_def)

lemma unat_limb_less [simp]: "unat (w :: limb) < limb_base"
  using unsigned_less [of w, where ?'a = nat] by (simp add: limb_base_def)

lemma unat_limb_max: "unat limb_max = limb_base - 1"
  by (simp add: limb_max_def unsigned_minus_1_eq_mask mask_eq_exp_minus_1 limb_base_def)

lemma limb_max_iff: "w = limb_max \<longleftrightarrow> unat w = limb_base - 1"
  using unat_limb_max by (auto simp: word_unat_eq_iff)

lemma unat_limb_add: "unat (a + b :: limb) = (unat a + unat b) mod limb_base"
  by (simp add: unat_word_ariths limb_base_def)

lemma unat_limb_succ: "w \<noteq> limb_max \<Longrightarrow> unat (w + 1) = unat w + 1"
proof -
  assume "w \<noteq> limb_max"
  then have "unat w \<noteq> limb_base - 1" by (simp add: limb_max_iff)
  with unat_limb_less [of w] have "unat w + 1 < limb_base" by linarith
  then show ?thesis using unat_limb_add [of w 1] by simp
qed

lemma unat_limb_pred: "w \<noteq> 0 \<Longrightarrow> unat (w - 1 :: limb) = unat w - 1"
  by (metis unat_minus_one)

lemma unat_limb_sub: "b \<le> a \<Longrightarrow> unat (a - b :: limb) = unat a - unat b"
  by (simp add: unat_sub)

lemma unat_limb_max_sub: "unat (limb_max - a) = limb_base - 1 - unat a"
proof -
  have "a \<le> limb_max" by (simp add: limb_max_def)
  then show ?thesis by (simp add: unat_limb_sub unat_limb_max)
qed

lemma le_val_append: "le_val (xs @ ys) = le_val xs + limb_base ^ length xs * le_val ys"
  by (induction xs) (auto simp: algebra_simps)

lemma le_val_less: "le_val xs < limb_base ^ length xs"
proof (induction xs)
  case Nil
  then show ?case by simp
next
  case (Cons x xs)
  have "unat x + limb_base * le_val xs < limb_base * Suc (le_val xs)"
    using unat_limb_less [of x] by simp
  also have "\<dots> \<le> limb_base * limb_base ^ length xs"
    using Cons by (intro mult_le_mono2) simp
  finally show ?case by simp
qed

lemma limb_shift:
  "a + (if c then limb_base ^ n else 0) = b \<Longrightarrow>
   limb_base * a + (if c then limb_base ^ Suc n else 0) = limb_base * b"
  by (auto simp: distrib_left)

lemma incr_loop_val:
  "incr_loop ws = (r, c) \<Longrightarrow>
   length r = length ws \<and> le_val r + (if c then limb_base ^ length ws else 0) = le_val ws + 1"
proof (induction ws arbitrary: r c)
  case Nil
  then show ?case by simp
next
  case (Cons w ws)
  show ?case
  proof (cases "w = limb_max")
    case True
    then obtain r' where "incr_loop ws = (r', c)" "r = 0 # r'"
      using Cons.prems by (auto split: prod.splits)
    moreover from this(1) have
      "limb_base * le_val r' + (if c then limb_base ^ Suc (length ws) else 0) = limb_base * (le_val ws + 1)"
      using Cons.IH by (intro limb_shift) simp
    ultimately show ?thesis
      using True Cons.IH [of r' c] by (cases c) (simp_all add: unat_limb_max)
  next
    case False
    with Cons.prems show ?thesis by (auto simp: unat_limb_succ)
  qed
qed

lemma bn_incr_val: "bn_val (bn_incr ws) = bn_val ws + 1"
  using incr_loop_val [of "rev ws"]
  by (auto simp: bn_incr_def bn_val_def le_val_append split: prod.splits)

lemma add_carry_val:
  "add_carry c r = (tmp, c1) \<Longrightarrow>
   unat tmp + (if c1 then limb_base else 0) = unat r + (if c then 1 else 0) \<and> (c1 \<longrightarrow> tmp = 0)"
proof (cases "c \<and> r = limb_max")
  case True
  then show "add_carry c r = (tmp, c1) \<Longrightarrow> ?thesis"
    by (auto simp: add_carry_def unat_limb_max)
next
  case False
  have eq: "limb_max - r < 1 \<longleftrightarrow> r = limb_max"
    using unat_limb_less [of r] unfolding word_less_nat_alt unat_limb_max_sub limb_max_iff
    by (simp only: unat_1) linarith
  from False show "add_carry c r = (tmp, c1) \<Longrightarrow> ?thesis"
    by (auto simp: add_carry_def eq unat_limb_succ split: if_splits)
qed

lemma add_limb_val:
  assumes "add_limb c l tmp = (s, c2)" "c \<Longrightarrow> tmp = 0"
  shows "unat s + (if c2 then limb_base else 0) = unat l + unat tmp + (if c then limb_base else 0)"
proof (cases "0 < tmp \<and> limb_max - l < tmp")
  case True
  then have "limb_base - 1 - unat l < unat tmp" and nc: "\<not> c"
    using assms(2) by (auto simp: word_less_nat_alt unat_limb_max_sub)
  then have over: "limb_base \<le> unat l + unat tmp" by linarith
  have "l - (limb_max - tmp + 1) = l + tmp"
    by (simp add: limb_max_def)
  with True assms(1) have "s = l + tmp" "c2" by (simp_all add: add_limb_def)
  moreover have "unat (l + tmp) = unat l + unat tmp - limb_base"
  proof -
    have "unat l + unat tmp - limb_base < limb_base"
      using unat_limb_less [of l] unat_limb_less [of tmp] by linarith
    with over show ?thesis by (simp add: unat_limb_add le_mod_geq)
  qed
  ultimately show ?thesis using over nc by simp
next
  case False
  then have "unat tmp \<le> limb_base - 1 - unat l"
    by (auto simp: word_less_nat_alt unat_limb_max_sub)
  with unat_limb_less [of l] have "unat l + unat tmp < limb_base" by linarith
  moreover have "s = l + tmp" "c2 = c"
    using False assms(1) by (auto simp: add_limb_def)
  ultimately show ?thesis by (simp add: unat_limb_add)
qed

lemma add_loop_val:
  "add_loop c ls rs = (out, c') \<Longrightarrow>
   le_val out + (if c' then limb_base ^ length rs else 0) = le_val ls + le_val rs + (if c then 1 else 0)
   \<and> length out = max (length ls) (length rs) \<and> drop (length rs) out = drop (length rs) ls"
proof (induction c ls rs arbitrary: out c' rule: add_loop.induct)
  case (1 c ls)
  then show ?case by auto
next
  case (2 c r rs)
  obtain tmp c1 where t: "add_carry c r = (tmp, c1)" by fastforce
  obtain out' c2 where o: "add_loop c1 [] rs = (out', c2)" by fastforce
  from 2 t o have eq: "out = tmp # out'" "c' = c2" by auto
  have IH: "le_val out' + (if c2 then limb_base ^ length rs else 0) = le_val rs + (if c1 then 1 else 0)"
    "length out' = length rs"
    using "2.IH" [OF t [symmetric] refl o] by auto
  from limb_shift [OF IH(1)] IH(2) add_carry_val [OF t] eq
  show ?case by (cases c1; cases c; cases c2) simp_all
next
  case (3 c l ls r rs)
  obtain tmp c1 where t: "add_carry c r = (tmp, c1)" by fastforce
  obtain s c2 where s: "add_limb c1 l tmp = (s, c2)" by fastforce
  obtain out' c3 where o: "add_loop c2 ls rs = (out', c3)" by fastforce
  from 3 t s o have eq: "out = s # out'" "c' = c3" by auto
  have IH: "le_val out' + (if c3 then limb_base ^ length rs else 0) =
      le_val ls + le_val rs + (if c2 then 1 else 0)"
    "length out' = max (length ls) (length rs)" "drop (length rs) out' = drop (length rs) ls"
    using "3.IH" [OF t [symmetric] refl s [symmetric] refl o] by auto
  have "unat s + (if c2 then limb_base else 0) = unat l + unat tmp + (if c1 then limb_base else 0)"
    using add_limb_val [OF s] add_carry_val [OF t] by blast
  with add_carry_val [OF t]
  have "unat s + (if c2 then limb_base else 0) = unat l + unat r + (if c then 1 else 0)"
    by simp
  with limb_shift [OF IH(1)] IH(2,3) eq show ?case
    by (cases c2; cases c; cases c3) (simp_all add: distrib_left)
qed

lemma le_val_take_drop: "le_val xs = le_val (take n xs) + limb_base ^ min n (length xs) * le_val (drop n xs)"
proof -
  have "le_val xs = le_val (take n xs @ drop n xs)" by simp
  also have "\<dots> = le_val (take n xs) + limb_base ^ min n (length xs) * le_val (drop n xs)"
    by (simp only: le_val_append length_take min.commute)
  finally show ?thesis .
qed

lemma le_val_take_less: "le_val (take n xs) < limb_base ^ n"
proof -
  have "le_val (take n xs) < limb_base ^ length (take n xs)" by (rule le_val_less)
  also have "\<dots> \<le> limb_base ^ n" by (rule power_increasing) (simp_all add: Suc_le_eq)
  finally show ?thesis .
qed

lemma bn_add_val:
  obtains c where
    "bn_val (bn_add a b) + (if c then limb_base ^ length b else 0) =
     bn_val a + bn_val b + (if c then limb_base ^ max (length a) (length b) else 0)"
    "c \<longleftrightarrow> limb_base ^ length b \<le> le_val (take (length b) (rev a)) + bn_val b"
proof -
  obtain out c where o: "add_loop False (rev a) (rev b) = (out, c)" by fastforce
  note v = add_loop_val [OF o]
  have val: "bn_val (bn_add a b) = le_val out + (if c then limb_base ^ length out else 0)"
    using o by (simp add: bn_add_def bn_val_def le_val_append)
  let ?n = "length b"
  let ?K = "limb_base ^ min ?n (length out) * le_val (drop ?n out)"
  have K: "?K = limb_base ^ min ?n (length a) * le_val (drop ?n (rev a))"
    using v by (cases "?n \<le> length a") auto
  have lo: "le_val (take ?n out) + (if c then limb_base ^ ?n else 0) = le_val (take ?n (rev a)) + bn_val b"
  proof -
    have "le_val out = le_val (take ?n out) + ?K" by (rule le_val_take_drop)
    moreover have "le_val (rev a) = le_val (take ?n (rev a)) + ?K"
      unfolding K using le_val_take_drop [of "rev a" ?n] by simp
    moreover have "le_val out + (if c then limb_base ^ ?n else 0) = le_val (rev a) + le_val (rev b)"
      using v by (cases c) simp_all
    ultimately show ?thesis unfolding bn_val_def by linarith
  qed
  have "c \<longleftrightarrow> limb_base ^ ?n \<le> le_val (take ?n (rev a)) + bn_val b"
    using lo le_val_take_less [of ?n out] by (auto split: if_splits)
  moreover have "bn_val (bn_add a b) + (if c then limb_base ^ length b else 0) =
     bn_val a + bn_val b + (if c then limb_base ^ max (length a) (length b) else 0)"
    using val v by (auto simp: bn_val_def)
  ultimately show thesis by (rule that [rotated])
qed

lemma bn_val_less: "bn_val a < limb_base ^ length a"
  using le_val_less [of "rev a"] by (simp add: bn_val_def)

lemma le_val_take_rev_mod: "le_val (take n (rev a)) = bn_val a mod limb_base ^ n"
proof (cases "n \<le> length a")
  case True
  then have "bn_val a = le_val (take n (rev a)) + limb_base ^ n * le_val (drop n (rev a))"
    using le_val_take_drop [of "rev a" n] by (simp add: bn_val_def)
  then show ?thesis using le_val_take_less [of n "rev a"] by simp
next
  case False
  then have "bn_val a < limb_base ^ n"
    using bn_val_less [of a] by (metis less_le_trans nat_le_linear limb_base_gt_1(3) power_increasing less_eq_Suc_le One_nat_def)
  with False show ?thesis by (simp add: bn_val_def)
qed

text \<open>
  \<open>+=\<close> adds, unless the left operand is longer and the sum of the common limbs overflows:
  the last carry is then put in front of all limbs and not into the limb it belongs to.
\<close>
theorem bn_add_correct_iff:
  "bn_val (bn_add a b) = bn_val a + bn_val b \<longleftrightarrow>
   length a \<le> length b \<or> bn_val a mod limb_base ^ length b + bn_val b < limb_base ^ length b"
proof -
  obtain c where c:
    "bn_val (bn_add a b) + (if c then limb_base ^ length b else 0) =
     bn_val a + bn_val b + (if c then limb_base ^ max (length a) (length b) else 0)"
    "c \<longleftrightarrow> limb_base ^ length b \<le> bn_val a mod limb_base ^ length b + bn_val b"
    by (rule bn_add_val [of a b]) (simp add: le_val_take_rev_mod)
  have strict: "limb_base ^ length b < limb_base ^ length a" if "length b < length a"
    using that by (intro power_strict_increasing) auto
  show ?thesis
  proof (cases "length a \<le> length b")
    case True
    then have "max (length a) (length b) = length b" by simp
    with c True show ?thesis by simp
  next
    case False
    with strict have "limb_base ^ length b < limb_base ^ max (length a) (length b)"
      by (simp add: max_def)
    with c False show ?thesis by (auto split: if_splits)
  qed
qed

section \<open>Comparison and values\<close>

lemma bn_eq_iff [simp]: "bn_eq a b \<longleftrightarrow> a = b"
proof -
  have "length a = length b \<Longrightarrow> bn_eq_loop a b \<longleftrightarrow> a = b"
    by (induction a b rule: bn_eq_loop.induct) auto
  then show ?thesis by (auto simp: bn_eq_def)
qed

lemma bn_ne_iff [simp]: "bn_ne a b \<longleftrightarrow> a \<noteq> b"
proof -
  have "length a = length b \<Longrightarrow> bn_ne_loop a b \<longleftrightarrow> a \<noteq> b"
    by (induction a b rule: bn_ne_loop.induct) auto
  then show ?thesis by (auto simp: bn_ne_def)
qed

lemma bn_val_Cons: "bn_val (w # ws) = unat w * limb_base ^ length ws + bn_val ws"
  by (simp add: bn_val_def le_val_append mult.commute)

lemma bn_val_single [simp]: "bn_val [w] = unat w"
  by (simp add: bn_val_def)

lemma bn_val_Cons_less:
  assumes "unat a < unat b" "length as = length bs"
  shows "bn_val (a # as) < bn_val (b # bs)"
proof -
  have "bn_val (a # as) < unat a * limb_base ^ length as + limb_base ^ length as"
    using bn_val_less [of as] by (simp add: bn_val_Cons)
  also have "\<dots> = (unat a + 1) * limb_base ^ length as"
    by simp
  also have "\<dots> \<le> unat b * limb_base ^ length as"
    using assms(1) by (intro mult_le_mono1) simp
  also have "\<dots> \<le> bn_val (b # bs)"
    using assms(2) by (simp add: bn_val_Cons)
  finally show ?thesis .
qed

lemma bn_lt_loop_iff:
  "length a = length b \<Longrightarrow>
   bn_lt_loop e a b \<longleftrightarrow> bn_val a < bn_val b \<or> (e \<and> bn_val a = bn_val b)"
proof (induction e a b rule: bn_lt_loop.induct)
  case (1 e a as b bs)
  consider "b < a" | "a < b" | "a = b" by fastforce
  then show ?case
  proof cases
    case 1
    with "1.prems" bn_val_Cons_less [of b a bs as] show ?thesis
      by (auto simp: word_less_nat_alt)
  next
    case 2
    with "1.prems" bn_val_Cons_less [of a b as bs] show ?thesis
      by (auto simp: word_less_nat_alt)
  next
    case 3
    with "1.prems" "1.IH" show ?thesis by (auto simp: bn_val_Cons)
  qed
qed auto

lemma bn_gt_loop_iff: "bn_gt_loop e a b = bn_lt_loop e b a"
  by (induction e a b rule: bn_gt_loop.induct) auto

lemma bn_val_lower: "bn_norm a \<Longrightarrow> 1 < length a \<Longrightarrow> limb_base ^ (length a - 1) \<le> bn_val a"
proof (cases a)
  case Nil
  then show "1 < length a \<Longrightarrow> ?thesis" by simp
next
  case (Cons w ws)
  assume "bn_norm a" "1 < length a"
  with Cons have "1 \<le> unat w"
    by (auto simp: bn_norm_def Suc_le_eq unat_gt_0)
  then have "1 * limb_base ^ length ws \<le> unat w * limb_base ^ length ws"
    by (rule mult_le_mono1)
  with Cons show ?thesis by (simp add: bn_val_Cons trans_le_add1)
qed

lemma bn_val_length_less:
  assumes "bn_norm b" "length a < length b" "a \<noteq> []"
  shows "bn_val a < bn_val b"
proof -
  from assms have b: "1 < length b" by (cases a) auto
  have "bn_val a < limb_base ^ length a" by (rule bn_val_less)
  also have "\<dots> \<le> limb_base ^ (length b - 1)"
    using assms(2) by (intro power_increasing) (auto simp: Suc_le_eq)
  also have "\<dots> \<le> bn_val b"
    using assms(1) b by (rule bn_val_lower)
  finally show ?thesis .
qed

lemma bn_lt_correct: "bn_norm a \<Longrightarrow> bn_norm b \<Longrightarrow> bn_lt a b \<longleftrightarrow> bn_val a < bn_val b"
  using bn_val_length_less [of a b] bn_val_length_less [of b a]
  by (auto simp: bn_lt_def bn_lt_loop_iff bn_norm_def)

lemma bn_le_correct: "bn_norm a \<Longrightarrow> bn_norm b \<Longrightarrow> bn_le a b \<longleftrightarrow> bn_val a \<le> bn_val b"
  using bn_val_length_less [of a b] bn_val_length_less [of b a]
  by (auto simp: bn_le_def bn_lt_loop_iff bn_norm_def)

lemma bn_gt_bn_lt: "bn_gt a b \<longleftrightarrow> bn_lt b a" and bn_ge_bn_le: "bn_ge a b \<longleftrightarrow> bn_le b a"
  by (simp_all add: bn_gt_def bn_lt_def bn_ge_def bn_le_def bn_gt_loop_iff)

lemma bn_norm_eq_iff: "bn_norm a \<Longrightarrow> bn_norm b \<Longrightarrow> a = b \<longleftrightarrow> bn_val a = bn_val b"
proof
  assume n: "bn_norm a" "bn_norm b" and v: "bn_val a = bn_val b"
  then have len: "length a = length b"
    using bn_val_length_less [of a b] bn_val_length_less [of b a]
    by (auto simp: bn_norm_def intro: linorder_neqE_nat)
  have inj: "length a = length b \<Longrightarrow> bn_val a = bn_val b \<Longrightarrow> a = b" for a b :: bignum
  proof (induction a b rule: list_induct2')
    case (4 x xs y ys)
    have "\<not> unat x < unat y" "\<not> unat y < unat x"
      using bn_val_Cons_less [of x y xs ys] bn_val_Cons_less [of y x ys xs] 4 by auto
    then have "x = y" by (simp add: word_unat_eq_iff)
    with 4 show ?case by (simp add: bn_val_Cons)
  qed auto
  from len v show "a = b" by (rule inj)
qed simp

text \<open>
  On vectors without leading zero limbs, the six comparison operators order the numbers.
\<close>
theorem bn_compare_correct:
  assumes "bn_norm a" "bn_norm b"
  shows "(bn_lt a b \<longleftrightarrow> bn_val a < bn_val b) \<and> (bn_le a b \<longleftrightarrow> bn_val a \<le> bn_val b) \<and>
         (bn_gt a b \<longleftrightarrow> bn_val b < bn_val a) \<and> (bn_ge a b \<longleftrightarrow> bn_val b \<le> bn_val a) \<and>
         (bn_eq a b \<longleftrightarrow> bn_val a = bn_val b) \<and> (bn_ne a b \<longleftrightarrow> bn_val a \<noteq> bn_val b)"
  using assms bn_norm_eq_iff [OF assms]
  by (simp add: bn_lt_correct bn_le_correct bn_gt_bn_lt bn_ge_bn_le)

theorem bn_compare_correct_witness:
  "(bn_lt [1, 2] [3, 0] \<longleftrightarrow> bn_val [1, 2] < bn_val [3, 0]) \<and> (bn_le [1, 2] [3, 0] \<longleftrightarrow> bn_val [1, 2] \<le> bn_val [3, 0]) \<and>
   (bn_gt [1, 2] [3, 0] \<longleftrightarrow> bn_val [3, 0] < bn_val [1, 2]) \<and> (bn_ge [1, 2] [3, 0] \<longleftrightarrow> bn_val [3, 0] \<le> bn_val [1, 2]) \<and>
   (bn_eq [1, 2] [3, 0] \<longleftrightarrow> bn_val [1, 2] = bn_val [3, 0]) \<and> (bn_ne [1, 2] [3, 0] \<longleftrightarrow> bn_val [1, 2] \<noteq> bn_val [3, 0])"
  by (rule bn_compare_correct) (simp_all add: bn_norm_def)

section \<open>Increment and decrement\<close>

lemma incr_loop_all_max:
  "incr_loop ws = (r, c) \<Longrightarrow> c \<longleftrightarrow> (\<forall>w \<in> set ws. w = limb_max)"
  by (induction ws arbitrary: r c) (auto split: if_splits prod.splits)

lemma bn_incr_not_Nil [simp]: "bn_incr ws \<noteq> []"
proof -
  obtain r c where "incr_loop (rev ws) = (r, c)" by fastforce
  with incr_loop_val [OF this] incr_loop_all_max [OF this] show ?thesis
    by (auto simp: bn_incr_def)
qed

lemma incr_loop_last:
  "incr_loop ws = (r, False) \<Longrightarrow> last ws \<noteq> 0 \<Longrightarrow> ws \<noteq> [] \<Longrightarrow> last r \<noteq> 0"
proof (induction ws arbitrary: r)
  case Nil
  then show ?case by simp
next
  case (Cons w ws)
  show ?case
  proof (cases "w = limb_max")
    case True
    with Cons.prems obtain r' where r': "incr_loop ws = (r', False)" "r = 0 # r'" "ws \<noteq> []"
      by (cases ws) (auto split: prod.splits)
    with Cons have "last r' \<noteq> 0" by auto
    moreover have "r' \<noteq> []" using r' incr_loop_val by fastforce
    ultimately show ?thesis using r' by simp
  next
    case False
    with Cons.prems have r: "r = (w + 1) # ws" by auto
    have "w + 1 \<noteq> 0" using unat_limb_succ [OF False] by auto
    with r Cons.prems show ?thesis by auto
  qed
qed

lemma bn_incr_norm: "bn_norm ws \<Longrightarrow> bn_norm (bn_incr ws)"
proof -
  assume n: "bn_norm ws"
  obtain r c where rc: "incr_loop (rev ws) = (r, c)" by fastforce
  have len: "length r = length ws" using incr_loop_val [OF rc] by simp
  show ?thesis
  proof (cases c)
    case True
    with rc show ?thesis by (simp add: bn_incr_def bn_norm_def)
  next
    case False
    with rc have r: "bn_incr ws = rev r" "incr_loop (rev ws) = (r, False)"
      by (auto simp: bn_incr_def)
    have "1 < length ws \<Longrightarrow> last r \<noteq> 0"
      using n incr_loop_last [OF r(2)] by (auto simp: bn_norm_def last_rev)
    moreover have "ws \<noteq> []" using n by (simp add: bn_norm_def)
    ultimately show ?thesis
      using len r(1) by (auto simp: bn_norm_def hd_rev)
  qed
qed

lemma bn_incr_small: "Suc n < limb_base \<Longrightarrow> bn_incr [of_nat n] = [of_nat (Suc n)]"
proof -
  assume n: "Suc n < limb_base"
  then have "unat (of_nat n :: limb) = n"
    by (simp add: unat_of_nat limb_base_def)
  with n have "(of_nat n :: limb) \<noteq> limb_max"
    by (simp add: limb_max_iff)
  then show ?thesis by (simp add: bn_incr_def add.commute)
qed

text \<open>\<open>++\<close> adds one, at every length and across every carry.\<close>
theorem bn_incr_correct:
  "bn_val (bn_incr ws) = bn_val ws + 1 \<and> (bn_norm ws \<longrightarrow> bn_norm (bn_incr ws))"
  by (simp add: bn_incr_val bn_incr_norm)

theorem bn_incr_correct_witness:
  "bn_val (bn_incr [7, limb_max]) = bn_val [7, limb_max] + 1 \<and> bn_norm (bn_incr [7, limb_max])"
  using bn_incr_correct [of "[7, limb_max]"] by (simp add: bn_norm_def)

lemma decr_loop_val:
  "decr_loop ws = (r, e) \<Longrightarrow> le_val ws \<noteq> 0 \<Longrightarrow>
   length r = length ws \<and> Suc (le_val r) = le_val ws"
proof (induction ws arbitrary: r e)
  case Nil
  then show ?case by simp
next
  case (Cons w ws)
  show ?case
  proof (cases "w = 0")
    case True
    with Cons.prems obtain r' where r': "decr_loop ws = (r', e)" "r = limb_max # r'"
      by (auto split: prod.splits)
    with Cons.IH [OF r'(1)] True Cons.prems(2)
    have "length r' = length ws" "Suc (le_val r') = le_val ws" by auto
    then have "limb_base * le_val ws = limb_base + limb_base * le_val r'"
      by (metis mult_Suc_right)
    with r' True \<open>length r' = length ws\<close> show ?thesis by (simp add: unat_limb_max)
  next
    case False
    with Cons.prems have r: "r = (w - 1) # ws" by auto
    have "0 < unat w" using False by (simp add: unat_gt_0)
    with False r show ?thesis by (simp add: unat_limb_pred)
  qed
qed

text \<open>\<open>--\<close> subtracts one from any number but zero; from one it leaves the empty vector.\<close>
theorem bn_decr_correct:
  assumes "0 < bn_val ws"
  shows "bn_val (bn_decr ws) = bn_val ws - 1 \<and> (ws = [1] \<longrightarrow> bn_decr ws = [])"
proof -
  obtain r e where re: "decr_loop (rev ws) = (r, e)" by fastforce
  with decr_loop_val [OF this] assms have v: "Suc (le_val r) = bn_val ws"
    by (auto simp: bn_val_def)
  have "bn_val (bn_decr ws) = le_val r"
  proof (cases "rev r")
    case Nil
    with re show ?thesis by (simp add: bn_decr_def bn_val_def)
  next
    case (Cons front rest)
    have "le_val r = bn_val (front # rest)"
      using Cons by (simp add: bn_val_def flip: Cons)
    with re Cons show ?thesis by (simp add: bn_decr_def bn_val_Cons)
  qed
  with v show ?thesis by (auto simp: bn_decr_def)
qed

section \<open>Hexadecimal text\<close>

lemma bn_val_Nil [simp]: "bn_val [] = 0"
  by (simp add: bn_val_def)

lemma bn_val_snoc: "bn_val (ws @ [w]) = bn_val ws * limb_base + unat w"
  by (simp add: bn_val_def)

lemma bn_val_inj: "length a = length b \<Longrightarrow> bn_val a = bn_val b \<Longrightarrow> a = b"
proof (induction a b rule: list_induct2')
  case (4 x xs y ys)
  have "\<not> unat x < unat y" "\<not> unat y < unat x"
    using bn_val_Cons_less [of x y xs ys] bn_val_Cons_less [of y x ys xs] 4 by auto
  then have "x = y" by (simp add: word_unat_eq_iff)
  with 4 show ?case by (simp add: bn_val_Cons)
qed auto

lemma unat_of_nat_limb [simp]: "n < limb_base \<Longrightarrow> unat (of_nat n :: limb) = n"
  by (simp add: unat_of_nat limb_base_def)

lemma of_nat_unat_limb [simp]: "of_nat (unat (w :: limb)) = w"
  by simp

lemma from_chars_hex_partition:
  assumes "list_all (is_digit 16) p" "p \<noteq> []" "length p \<le> 16"
  shows "from_chars 16 64 p = Inr (digits_val 16 p)" "digits_val 16 p < limb_base"
proof -
  have "digits_val 16 p < 16 ^ length p"
    using assms(1) by (rule digits_val_less)
  also have "\<dots> \<le> 16 ^ 16" using assms(3) by (intro power_increasing) auto
  finally show less: "digits_val 16 p < limb_base" by (simp add: limb_base_def)
  with from_chars_digits [OF assms(1,2), of 64 "[]"]
  show "from_chars 16 64 p = Inr (digits_val 16 p)" by (simp add: limb_base_def)
qed

lemma read_limbs_partitions:
  assumes "list_all (is_digit 16) s" "k * 16 \<le> length s"
    "bn_val acc = digits_val 16 (take (length s - k * 16) s)"
  shows "\<exists>ws. read_limbs (rev (map (\<lambda>offset. take 16 (drop (length s - (offset + 1) * 16) s)) [0..<k])) acc = Inr ws
    \<and> bn_val ws = digits_val 16 s \<and> length ws = length acc + k"
  using assms(2,3)
proof (induction k arbitrary: acc)
  case 0
  then show ?case by simp
next
  case (Suc k)
  let ?m = "length s - Suc k * 16"
  let ?p = "take 16 (drop ?m s)"
  have p: "list_all (is_digit 16) ?p" "?p \<noteq> []" "length ?p = 16"
    using assms(1) Suc.prems(1) by (auto simp: list_all_iff dest: in_set_takeD in_set_dropD)
  note fc = from_chars_hex_partition [OF p(1,2)]
  have split: "take (length s - k * 16) s = take ?m s @ ?p"
  proof -
    have "length s - k * 16 = ?m + 16" using Suc.prems(1) by simp
    then show ?thesis by (simp only: take_add)
  qed
  have base: "(16::nat) ^ 16 = limb_base" by (simp add: limb_base_def)
  have "bn_val (acc @ [of_nat (digits_val 16 ?p)]) = digits_val 16 (take (length s - k * 16) s)"
    using Suc.prems(2) p(3) fc(2)
    unfolding split digits_val_append bn_val_snoc by (simp only: base unat_of_nat_limb order.refl)
  then obtain ws where "read_limbs (rev (map (\<lambda>offset. take 16 (drop (length s - (offset + 1) * 16) s)) [0..<k]))
      (acc @ [of_nat (digits_val 16 ?p)]) = Inr ws"
      "bn_val ws = digits_val 16 s" "length ws = length (acc @ [of_nat (digits_val 16 ?p) :: limb]) + k"
    using Suc.IH Suc.prems(1) by fastforce
  with fc p(3) show ?case by simp
qed

lemma bn_hex_digits:
  assumes "list_all (is_digit 16) s" "length s mod 16 \<noteq> 0"
  shows "\<exists>ws. bn_hex s = Inr ws \<and> bn_val ws = digits_val 16 s \<and> length ws = length s div 16 + 1"
proof -
  let ?k = "length s div 16"
  let ?p = "take (length s - ?k * 16) s"
  have len: "length ?p = length s mod 16"
    by (simp add: minus_div_mult_eq_mod)
  have p: "list_all (is_digit 16) ?p" "?p \<noteq> []" "length ?p \<le> 16"
    using assms len by (auto simp: list_all_iff dest: in_set_takeD)
  note fc = from_chars_hex_partition [OF p]
  have "bn_val [of_nat (digits_val 16 ?p)] = digits_val 16 ?p"
    using fc(2) by simp
  then obtain ws where "read_limbs (rev (map (\<lambda>offset. take 16 (drop (length s - (offset + 1) * 16) s)) [0..<?k]))
      [of_nat (digits_val 16 ?p)] = Inr ws"
      "bn_val ws = digits_val 16 s" "length ws = 1 + ?k"
    using read_limbs_partitions [OF assms(1), of ?k] by fastforce
  with fc show ?thesis by (simp add: bn_hex_def hex_partitions_def Let_def)
qed

lemma bn_hex_full_width:
  "length s mod 16 = 0 \<Longrightarrow> bn_hex s = Inl (DomainError ''http-requests.cpp:32:std::from_chars failed.'')"
proof -
  assume "length s mod 16 = 0"
  then have "length s - length s div 16 * 16 = 0"
    by (simp add: minus_div_mult_eq_mod)
  then show ?thesis by (simp add: bn_hex_def hex_partitions_def Let_def)
qed

text \<open>
  The hexadecimal constructor reads every number whose digit count is not a multiple of 16,
  and throws on every text whose length is, a 16-digit number included.
\<close>
theorem bn_hex_correct:
  "(length s mod 16 = 0 \<longrightarrow> (\<exists>e. bn_hex s = Inl e)) \<and>
   (length s mod 16 \<noteq> 0 \<and> list_all (is_digit 16) s \<longrightarrow>
    (\<exists>ws. bn_hex s = Inr ws \<and> bn_val ws = digits_val 16 s \<and> length ws = length s div 16 + 1))"
  using bn_hex_digits [of s] bn_hex_full_width [of s] by auto

theorem bn_hex_correct_witness:
  "(\<exists>ws. bn_hex ''1f'' = Inr ws \<and> bn_val ws = digits_val 16 ''1f'' \<and> length ws = 1) \<and>
   (\<exists>e. bn_hex ''0123456789abcdef'' = Inl e)"
  using bn_hex_correct [of "''1f''"] bn_hex_correct [of "''0123456789abcdef''"]
  by (simp add: is_digit_def digit_val_def)

lemma bn_hex_short:
  assumes "list_all (is_digit 16) s" "s \<noteq> []" "length s < 16"
  shows "bn_hex s = Inr [of_nat (digits_val 16 s)]"
  using from_chars_hex_partition [OF assms(1,2)] assms(3)
  by (simp add: bn_hex_def hex_partitions_def Let_def)

subsection \<open>Printing and reading back\<close>

lemma unat_limb_hex: "unat (w :: limb) < 16 ^ 16"
  using unat_limb_less [of w] by (simp add: limb_base_def)

lemma pad_limb:
  "length (pad_zero 16 (show_nat 16 (unat (w :: limb)))) = 16"
  "list_all (is_digit 16) (pad_zero 16 (show_nat 16 (unat w)))"
  using show_nat_length [of 16 "unat w" 16] unat_limb_hex [of w]
  by (auto simp: length_pad_zero pad_zero_digits show_nat_digits)

lemma bn_show_limbs:
  "length (concat (map (\<lambda>v. pad_zero 16 (show_nat 16 (unat v))) ws)) = 16 * length ws \<and>
   list_all (is_digit 16) (concat (map (\<lambda>v. pad_zero 16 (show_nat 16 (unat (v::limb)))) ws)) \<and>
   digits_val 16 (concat (map (\<lambda>v. pad_zero 16 (show_nat 16 (unat v))) ws)) = bn_val ws"
proof (induction ws)
  case Nil
  then show ?case by simp
next
  case (Cons w ws)
  have "(16::nat) ^ (16 * length ws) = limb_base ^ length ws"
    by (simp add: power_mult limb_base_def)
  with Cons show ?case
    by (simp add: pad_limb digits_val_append digits_val_show_nat bn_val_Cons)
qed

lemma bn_show_digits:
  assumes "bn_show ws = Inr s"
  shows "list_all (is_digit 16) s" "digits_val 16 s = bn_val ws" "s \<noteq> []"
    "length s = length (show_nat 16 (unat (hd ws))) + 16 * (length ws - 1)"
proof -
  obtain w vs where ws: "ws = w # vs" using assms by (cases ws) auto
  have "(16::nat) ^ (16 * length vs) = limb_base ^ length vs"
    by (simp add: power_mult limb_base_def)
  with assms ws bn_show_limbs [of vs]
  show "list_all (is_digit 16) s" "digits_val 16 s = bn_val ws" "s \<noteq> []"
    "length s = length (show_nat 16 (unat (hd ws))) + 16 * (length ws - 1)"
    by (auto simp: show_nat_digits digits_val_append digits_val_show_nat bn_val_Cons)
qed

text \<open>
  Reading back what \<open><<\<close> writes gives the same number when its top limb is below 2^60, and
  throws for every other number.
\<close>
theorem bn_show_hex_roundtrip:
  assumes "bn_show ws = Inr s"
  shows "if unat (hd ws) < 2 ^ 60 then bn_hex s = Inr ws else (\<exists>e. bn_hex s = Inl e)"
proof -
  have ws: "ws \<noteq> []" using assms by (cases ws) auto
  note d = bn_show_digits [OF assms]
  let ?m = "length (show_nat 16 (unat (hd ws)))"
  have m16: "0 < ?m" "?m \<le> 16"
    using show_nat_length [of 16 "unat (hd ws)" 16] unat_limb_hex [of "hd ws"] by auto
  show ?thesis
  proof (cases "unat (hd ws) < 2 ^ 60")
    case True
    then have "unat (hd ws) < 16 ^ 15" by simp
    then have "?m \<le> 15" by (intro show_nat_length) auto
    with m16 d(4) ws have len: "length s mod 16 \<noteq> 0" "length s div 16 + 1 = length ws"
      by (simp_all add: Suc_le_eq)
    then obtain vs where "bn_hex s = Inr vs" "bn_val vs = bn_val ws" "length vs = length ws"
      using bn_hex_digits [OF d(1)] d(2) by auto
    then show ?thesis using True bn_val_inj by auto
  next
    case False
    have "\<not> ?m \<le> 15"
    proof
      assume "?m \<le> 15"
      have "unat (hd ws) < 16 ^ ?m"
        using digits_val_less [OF show_nat_digits [of 16 "unat (hd ws)"]]
        by (simp add: digits_val_show_nat)
      also have "\<dots> \<le> 16 ^ 15" using \<open>?m \<le> 15\<close> by (intro power_increasing) auto
      finally show False using False by simp
    qed
    with m16 have "?m = 16" by simp
    with d(4) have "length s mod 16 = 0" by simp
    with False show ?thesis using bn_hex_full_width by auto
  qed
qed

theorem bn_show_hex_roundtrip_witness:
  "bn_show [18, 255] = Inr ''1200000000000000ff'' \<and> bn_hex ''1200000000000000ff'' = Inr [18, 255]"
proof -
  have s: "bn_show [18, 255] = Inr ''1200000000000000ff''"
    by code_simp
  then show ?thesis using bn_show_hex_roundtrip [OF s] by simp
qed

section \<open>Decimal text\<close>

lemma add_carry_False [simp]: "add_carry False r = (r, False)"
  by (simp add: add_carry_def)

lemma bn_add_single: "unat a + unat b < limb_base \<Longrightarrow> bn_add [a] [b] = [a + b]"
proof -
  assume "unat a + unat b < limb_base"
  then have "\<not> limb_base - 1 - unat a < unat b" by linarith
  then have "\<not> limb_max - a < b" by (simp add: word_less_nat_alt unat_limb_max_sub)
  then show ?thesis by (simp add: bn_add_def add_limb_def)
qed

lemma bn_add_single_nat:
  "m + n < limb_base \<Longrightarrow> bn_add [of_nat m] [of_nat n] = [of_nat (m + n)]"
  by (simp add: bn_add_single)

lemma bn_times_ten:
  "Suc j * n < limb_base \<Longrightarrow> ((\<lambda>x. bn_add x [of_nat n]) ^^ j) [of_nat n] = [of_nat (Suc j * n)]"
proof (induction j)
  case 0
  then show ?case by simp
next
  case (Suc j)
  then have "((\<lambda>x. bn_add x [of_nat n]) ^^ Suc j) [of_nat n] = bn_add [of_nat (Suc j * n)] [of_nat n]"
    by simp
  also have "\<dots> = [of_nat (Suc j * n + n)]"
    using Suc.prems by (intro bn_add_single_nat) simp
  finally show ?case by (simp add: algebra_simps)
qed

lemma from_chars_digit: "is_digit 10 c \<Longrightarrow> from_chars 10 64 [c] = Inr (the_digit c)"
  using from_chars_digits [of 10 "[c]" 64 "[]"] the_digit_less [of 10 c]
  by (simp add: digits_val_def)

lemma from_chars_no_digit: "\<not> is_digit 10 c \<Longrightarrow> from_chars 10 64 [c] = Inl NoDigits"
  by (simp add: from_chars_def)

lemma digits_val_Cons: "digits_val b (c # s) = the_digit c * b ^ length s + digits_val b s"
  using digits_val_append [of b "[c]" s] by (simp add: digits_val_def)

lemma bn_dec_loop_small:
  "list_all (is_digit 10) s \<Longrightarrow> n * 10 ^ length s + digits_val 10 s < limb_base \<Longrightarrow>
   bn_dec_loop s [of_nat n] = Inr [of_nat (n * 10 ^ length s + digits_val 10 s)]"
proof (induction s arbitrary: n)
  case Nil
  then show ?case by simp
next
  case (Cons c s)
  let ?d = "the_digit c"
  have eq: "n * 10 ^ length (c # s) + digits_val 10 (c # s) = (10 * n + ?d) * 10 ^ length s + digits_val 10 s"
    by (simp add: digits_val_Cons algebra_simps)
  have "10 * n + ?d \<le> (10 * n + ?d) * 10 ^ length s"
    by simp
  then have "10 * n + ?d \<le> (10 * n + ?d) * 10 ^ length s + digits_val 10 s"
    by (rule trans_le_add1)
  then have small: "10 * n + ?d < limb_base"
    using Cons.prems(2) unfolding eq by (rule le_less_trans)
  have ten: "((\<lambda>x. bn_add x [of_nat n]) ^^ 9) [of_nat n] = [of_nat (10 * n)]"
    using bn_times_ten [of 9 n] small by simp
  have "bn_add_limb [of_nat (10 * n)] (of_nat ?d) = [of_nat (10 * n + ?d)]"
    unfolding bn_add_limb_def using small by (rule bn_add_single_nat)
  then have "bn_dec_loop (c # s) [of_nat n] = bn_dec_loop s [of_nat (10 * n + ?d)]"
    using Cons.prems(1) by (simp add: from_chars_digit ten Let_def)
  also have "\<dots> = Inr [of_nat ((10 * n + ?d) * 10 ^ length s + digits_val 10 s)]"
    using Cons.prems unfolding eq by (intro Cons.IH) simp_all
  finally show ?case unfolding eq .
qed

lemma bn_dec_small:
  "list_all (is_digit 10) s \<Longrightarrow> digits_val 10 s < limb_base \<Longrightarrow> bn_dec s = Inr [of_nat (digits_val 10 s)]"
  using bn_dec_loop_small [of s 0] by (simp add: bn_dec_def)

lemma bn_dec_loop_bad: "\<not> list_all (is_digit 10) s \<Longrightarrow> bn_dec_loop s acc = Inl (Thrown ''Char conversion failed.'')"
proof (induction s arbitrary: acc)
  case (Cons c s)
  then show ?case
    by (cases "is_digit 10 c") (simp_all add: from_chars_digit from_chars_no_digit Let_def)
qed simp

text \<open>
  The decimal constructor reads every number that fits one limb, and throws on any text
  with a character that is no digit, trailing white space included.
\<close>
theorem bn_dec_correct:
  "(list_all (is_digit 10) s \<and> digits_val 10 s < 2 ^ 64 \<longrightarrow> bn_dec s = Inr [of_nat (digits_val 10 s)]) \<and>
   (\<not> list_all (is_digit 10) s \<longrightarrow> (\<exists>e. bn_dec s = Inl e))"
  using bn_dec_small [of s] bn_dec_loop_bad [of s] by (auto simp: bn_dec_def limb_base_def)

theorem bn_dec_correct_witness:
  "bn_dec ''4096'' = Inr [4096] \<and> (\<exists>e. bn_dec ''12 '' = Inl e)"
  using bn_dec_correct [of "''4096''"] bn_dec_correct [of "''12 ''"]
  by (simp add: is_digit_def digit_val_def digits_val_def the_digit_def)

section \<open>Subtraction\<close>

lemma borrow_False [simp]: "borrow_loop False ws = ws"
  by (cases ws) auto

lemma sub_loop_no_borrow:
  "length rs \<le> length ls \<Longrightarrow> (\<And>i. i < length rs \<Longrightarrow> rs ! i \<le> ls ! i) \<Longrightarrow>
   le_val (sub_loop False ls rs) + le_val rs = le_val ls"
proof (induction rs arbitrary: ls)
  case Nil
  then show ?case by simp
next
  case (Cons r rs)
  then obtain l ls' where ls: "ls = l # ls'" by (cases ls) auto
  have r: "r \<le> l" using Cons.prems(2) [of 0] ls by simp
  then have s: "sub_limb False l r = (l - r, False)" by (auto simp: sub_limb_def)
  have "le_val (sub_loop False ls' rs) + le_val rs = le_val ls'"
  proof (rule Cons.IH)
    show "length rs \<le> length ls'" using Cons.prems(1) ls by simp
    show "rs ! i \<le> ls' ! i" if "i < length rs" for i
      using Cons.prems(2) [of "Suc i"] that ls by simp
  qed
  then have "limb_base * le_val (sub_loop False ls' rs) + limb_base * le_val rs = limb_base * le_val ls'"
    by (metis distrib_left)
  moreover have "unat (l - r) + unat r = unat l"
    using r by (simp add: unat_limb_sub word_le_nat_alt)
  ultimately show ?case using s ls by simp
qed

lemma strip_zeros_val:
  "0 < bn_val ws \<Longrightarrow> \<exists>vs. strip_zeros ws = Inr vs \<and> bn_val vs = bn_val ws \<and> bn_norm vs"
  by (induction ws) (auto simp: bn_val_Cons bn_norm_def unat_gt_0)

lemma strip_zeros_zero:
  "bn_val ws = 0 \<Longrightarrow> strip_zeros ws = Inl (Undefined ''read past the end of the limbs'')"
  by (induction ws) (auto simp: bn_val_Cons unat_eq_0)

lemma bn_val_rev: "bn_val (rev ws) = le_val ws"
  by (simp add: bn_val_def)

text \<open>
  \<open>-=\<close> of a smaller number with no limb that borrows gives the difference, and of a
  number at least as large gives zero.
\<close>
theorem bn_sub_correct:
  assumes "bn_norm a" "bn_norm b"
    and "\<And>i. i < length b \<Longrightarrow> bn_val b < bn_val a \<Longrightarrow> rev b ! i \<le> rev a ! i"
  shows "\<exists>d. bn_sub a b = Inr d \<and> bn_val d = bn_val a - bn_val b \<and> bn_norm d"
proof (cases "bn_val a \<le> bn_val b")
  case True
  with assms show ?thesis by (simp add: bn_sub_def bn_le_correct bn_norm_def)
next
  case False
  with assms(1,2) have le: "\<not> bn_le a b" by (simp add: bn_le_correct)
  then have "length b \<le> length a" by (auto simp: bn_le_def split: if_splits)
  then have "le_val (sub_loop False (rev a) (rev b)) + bn_val b = bn_val a"
    unfolding bn_val_def using False assms(3) by (intro sub_loop_no_borrow) auto
  with False have "bn_val (rev (sub_loop False (rev a) (rev b))) = bn_val a - bn_val b"
    "0 < bn_val (rev (sub_loop False (rev a) (rev b)))"
    by (simp_all add: bn_val_rev)
  with strip_zeros_val [OF this(2)] le show ?thesis by (auto simp: bn_sub_def)
qed

theorem bn_sub_correct_witness: "\<exists>d. bn_sub [3, 9] [2, 4] = Inr d \<and> bn_val d = bn_val [3, 9] - bn_val [2, 4] \<and> bn_norm d"
  by (rule bn_sub_correct) (auto simp: bn_norm_def less_Suc_eq nth_Cons split: nat.splits)

lemma borrow_loop_val:
  "0 < le_val ws \<Longrightarrow> Suc (le_val (borrow_loop True ws)) = le_val ws"
proof (induction ws)
  case Nil
  then show ?case by simp
next
  case (Cons w ws)
  show ?case
  proof (cases "w = 0")
    case True
    with Cons.prems have "0 < le_val ws" by auto
    with Cons.IH have "limb_base * le_val ws = limb_base + limb_base * le_val (borrow_loop True ws)"
      by (metis mult_Suc_right)
    with True show ?thesis by (simp add: unat_limb_max)
  next
    case False
    then have "0 < unat w" by (simp add: unat_gt_0)
    with False show ?thesis by (simp add: unat_limb_pred)
  qed
qed

text \<open>
  When \<open>-=\<close> of one limb has to borrow from the lowest limb, the result is one too small, and
  a true difference of one makes it read past the end of the limbs.
\<close>
theorem bn_sub_borrow_off_by_one:
  assumes "bn_norm a" "1 < length a" "last a < v"
  shows "if bn_val a - unat v = 1 then bn_sub_limb a v = Inl (Undefined ''read past the end of the limbs'')
         else (\<exists>d. bn_sub_limb a v = Inr d \<and> bn_val d = bn_val a - unat v - 1)"
proof -
  obtain hi l where a: "a = hi @ [l]" "hi \<noteq> []"
    using assms(2) by (cases a rule: rev_cases) auto
  with assms(3) have lv: "l < v" by simp
  have "limb_base ^ (length a - 1) \<le> bn_val a" using assms(1,2) by (rule bn_val_lower)
  moreover have "limb_base ^ 1 \<le> limb_base ^ (length a - 1)"
    using assms(2) by (intro power_increasing) (auto simp: Suc_le_eq)
  ultimately have "limb_base \<le> bn_val a" by simp
  with unat_limb_less [of v] have big: "unat v < bn_val a" by linarith
  then have le: "\<not> bn_le a [v]"
    using a assms(2) by (simp add: bn_le_def)
  let ?r = "sub_loop False (rev a) [v]"
  have r: "?r = (limb_max - (v - l)) # borrow_loop True (rev hi)"
    using a lv by (simp add: sub_limb_def)
  have va: "bn_val a = unat l + limb_base * le_val (rev hi)"
    using a by (simp add: bn_val_def)
  have "0 < le_val (rev hi)"
    using big va lv by (cases "le_val (rev hi)") (auto simp: word_less_nat_alt)
  note b = borrow_loop_val [OF this]
  have "unat (limb_max - (v - l)) = limb_base - 1 - (unat v - unat l)"
    using lv by (simp add: unat_limb_max_sub unat_limb_sub)
  then have "le_val ?r = limb_base - 1 - (unat v - unat l) + limb_base * le_val (borrow_loop True (rev hi))"
    by (simp add: r)
  moreover have "bn_val a = unat l + (limb_base + limb_base * le_val (borrow_loop True (rev hi)))"
    unfolding va by (metis b mult_Suc_right)
  moreover have "unat l < unat v" using lv by (simp add: word_less_nat_alt)
  ultimately have val: "Suc (le_val ?r) = bn_val a - unat v"
    using unat_limb_less [of v] by linarith
  have sub: "bn_sub_limb a v = strip_zeros (rev ?r)"
    using le by (simp add: bn_sub_limb_def bn_sub_def)
  show ?thesis
  proof (cases "bn_val a - unat v = 1")
    case True
    with val have "bn_val (rev ?r) = 0" by (simp add: bn_val_rev)
    with True sub show ?thesis by (simp add: strip_zeros_zero)
  next
    case False
    with val big have "0 < bn_val (rev ?r)" by (simp add: bn_val_rev)
    from strip_zeros_val [OF this] obtain d where
      "strip_zeros (rev ?r) = Inr d" "bn_val d = bn_val (rev ?r)" by auto
    with False sub val show ?thesis by (simp add: bn_val_rev)
  qed
qed

theorem bn_sub_borrow_off_by_one_witness:
  "\<exists>d. bn_sub_limb [1, 0] 1 = Inr d \<and> bn_val d = bn_val [1, 0] - unat (1 :: limb) - 1"
  using bn_sub_borrow_off_by_one [of "[1, 0]" 1]
  by (auto simp: bn_norm_def bn_val_Cons limb_base_def)

end
