(* ===== verification/HttpMessage.thy ===== *)
theory HttpMessage
  imports BigNum
begin

text \<open>
  The data of the HTTP layer (\<open>http-requests.hpp\<close>) and the interface its stream extraction
  operators share.  Requests and responses have the header list, the chunk list and the parse
  cursors in common; these fields are the record \<open>http_msg\<close>, which \<open>http_request\<close> and
  \<open>http_response\<close> extend, each in its theory.  A value-initialised structure (\<open>= {}\<close>) has every
  flag false, every count zero, every text empty, and the first enumerator of each enumeration.

  The locale \<open>byte_reader\<close> is the contract of an operator \<open>>>\<close> that takes one byte at a time until
  the object is complete or the stream is empty.  Its laws give what the message parsers rely on:
  the bytes may arrive in any segmentation, and bytes behind the end of the object stay in the
  stream.
\<close>

section \<open>Enumerations\<close>

datatype http_version = V1 | V1_1 | V2 | V3 | V0_9 | VersionUnknown

datatype http_verb = VerbUnknown | GET | POST | PATCH | PUT | TRACE | DELETE | CONNECT

text \<open>\<open>StatusZero\<close> is the status of a value-initialised response, which no enumerator names.\<close>

datatype http_status =
    StatusZero | OK | NO_CONTENT | NOT_FOUND | CONFLICT | METHOD_NOT_ALLOWED
  | INTERNAL_SERVER_ERROR | CREATED | ACCEPTED

datatype http_header_field =
    FieldUnknown | CONTENT_TYPE | CONTENT_LENGTH | ACCEPT | HOST | TRANSFER_ENCODING
  | END_OF_HEADERS | CONNECTION

section \<open>Structures\<close>

record http_chunk =
  chunk_size :: bignum
  chunk_data :: string
  received_bytes :: bignum
  chunk_header :: string
  chunk_size_started :: bool
  chunk_size_found :: bool
  chunk_body_start :: bool
  chunk_body_finished :: bool
  chunk_complete :: bool

definition empty_chunk :: http_chunk where
  "empty_chunk = \<lparr>chunk_size = [0], chunk_data = [], received_bytes = [0], chunk_header = [],
     chunk_size_started = False, chunk_size_found = False, chunk_body_start = False,
     chunk_body_finished = False, chunk_complete = False\<rparr>"

text \<open>A chunk filled by the controller before it is written: size and data only.\<close>

definition data_chunk :: "string \<Rightarrow> http_chunk" where
  "data_chunk d = empty_chunk\<lparr>chunk_size := [of_nat (length d)], chunk_data := d\<rparr>"

record http_header =
  field_name :: http_header_field
  field_value :: string
  header_buf :: string
  field_name_found :: bool
  field_delimiter_found :: bool
  field_value_started :: bool
  field_value_ended :: bool
  header_complete :: bool
  not_last :: bool

definition empty_header :: http_header where
  "empty_header = \<lparr>field_name = FieldUnknown, field_value = [], header_buf = [],
     field_name_found = False, field_delimiter_found = False, field_value_started = False,
     field_value_ended = False, header_complete = False, not_last = False\<rparr>"

definition mk_header :: "http_header_field \<Rightarrow> string \<Rightarrow> http_header" where
  "mk_header f v = empty_header\<lparr>field_name := f, field_value := v\<rparr>"

record http_msg =
  msg_version :: http_version
  msg_headers :: "http_header list"
  msg_chunks :: "http_chunk list"
  next_header :: nat
  num_headers :: nat
  next_chunk :: nat
  num_chunks :: nat
  msg_pos :: nat
  version_buf :: string
  find_version_state :: nat
  version_finished :: bool
  not_chunked_transfer :: bool

section \<open>The contract of a byte-wise extraction operator\<close>

locale byte_reader =
  fixes step :: "char \<Rightarrow> 's \<Rightarrow> 's result"
    and stop :: "'s \<Rightarrow> bool"
    and read :: "'s \<Rightarrow> string \<Rightarrow> ('s \<times> string) result"
  assumes read_Nil: "read s [] = Inr (s, [])"
    and read_Cons: "read s (c # cs) =
          (if stop s then Inr (s, c # cs) else rbind (step c s) (\<lambda>t. read t cs))"
begin

lemma read_stop: "stop s \<Longrightarrow> read s cs = Inr (s, cs)"
  by (cases cs) (simp_all add: read_Nil read_Cons)

lemma read_append: "read s (xs @ ys) = rbind (read s xs) (\<lambda>(t, rest). read t (rest @ ys))"
proof (induction xs arbitrary: s)
  case Nil
  then show ?case by (simp add: read_Nil)
next
  case (Cons c xs)
  show ?case
  proof (cases "stop s")
    case True
    then show ?thesis by (simp add: read_stop)
  next
    case False
    then show ?thesis by (cases "step c s") (simp_all add: read_Cons Cons.IH)
  qed
qed

lemma read_consumes:
  "read s xs = Inr (t, rest) \<Longrightarrow> (\<exists>used. xs = used @ rest) \<and> (rest = [] \<or> stop t)"
proof (induction xs arbitrary: s)
  case Nil
  then show ?case by (simp add: read_Nil)
next
  case (Cons c xs)
  show ?case
  proof (cases "stop s")
    case True
    with Cons.prems show ?thesis by (simp add: read_stop)
  next
    case False
    with Cons.prems obtain u where "step c s = Inr u" "read u xs = Inr (t, rest)"
      by (auto simp: read_Cons rbind_Inr_iff)
    from Cons.IH [OF this(2)] obtain used where "xs = used @ rest" "rest = [] \<or> stop t"
      by blast
    then have "c # xs = (c # used) @ rest" "rest = [] \<or> stop t" by simp_all
    then show ?thesis by blast
  qed
qed

lemma read_length: "read s xs = Inr (t, rest) \<Longrightarrow> length rest \<le> length xs"
  using read_consumes [of s xs t rest] by auto

lemma read_progress:
  "\<not> stop s \<Longrightarrow> read s (c # cs) = Inr (t, rest) \<Longrightarrow> length rest \<le> length cs"
  using read_length by (auto simp: read_Cons rbind_Inr_iff)

lemma read_invariant:
  assumes "\<And>c s t. P s \<Longrightarrow> \<not> stop s \<Longrightarrow> step c s = Inr t \<Longrightarrow> P t"
  shows "read s xs = Inr (t, rest) \<Longrightarrow> P s \<Longrightarrow> P t"
proof (induction xs arbitrary: s)
  case Nil
  then show ?case by (simp add: read_Nil)
next
  case (Cons c xs)
  then show ?case
    using assms by (cases "stop s") (auto simp: read_Cons rbind_Inr_iff)
qed

lemma read_segments:
  assumes "read s xs = Inr (t, rest)" "stop t"
  shows "read s (xs @ ys) = Inr (t, rest @ ys)"
  using assms by (subst read_append) (simp add: read_stop)

end

end
