(* ===== verification/HttpChunk.thy ===== *)
theory HttpChunk
  imports HttpMessage
begin

text \<open>
  \<open>operator>>\<close> and \<open>operator<<\<close> of \<open>HttpChunk\<close> (\<open>http-requests.cpp\<close>).  \<open>chunk_step\<close> is the body of
  the extraction loop for one byte, \<open>chunk_read\<close> the loop; the stream is the text still to be
  read, and the loop returns what it leaves in it.
\<close>

section \<open>Operations\<close>

definition chunk_step :: "char \<Rightarrow> http_chunk \<Rightarrow> http_chunk result" where
  "chunk_step c k =
     (if \<not> chunk_size_started k then
        Inr (if \<not> is_space c
             then k\<lparr>chunk_size_started := True, chunk_header := chunk_header k @ [c]\<rparr> else k)
      else if \<not> chunk_size_found k then
        (if \<not> is_space c then Inr (k\<lparr>chunk_header := chunk_header k @ [c]\<rparr>)
         else rbind (bn_hex (chunk_header k))
                (\<lambda>n. Inr (k\<lparr>chunk_size_found := True, chunk_size := n\<rparr>)))
      else if \<not> chunk_body_start k then
        Inr (if c = LF then k\<lparr>chunk_body_start := True, received_bytes := [0]\<rparr> else k)
      else if \<not> chunk_body_finished k \<and> bn_lt (received_bytes k) (chunk_size k) then
        Inr (k\<lparr>chunk_data := chunk_data k @ [c], received_bytes := bn_incr (received_bytes k)\<rparr>)
      else
        Inr (if c = LF then k\<lparr>chunk_complete := True\<rparr> else k))"

fun chunk_read :: "http_chunk \<Rightarrow> string \<Rightarrow> (http_chunk \<times> string) result" where
  "chunk_read k [] = Inr (k, [])"
| "chunk_read k (c # cs) =
     (if chunk_complete k then Inr (k, c # cs) else rbind (chunk_step c k) (\<lambda>k'. chunk_read k' cs))"

definition chunk_show :: "http_chunk \<Rightarrow> string result" where
  "chunk_show k = rbind (bn_show (chunk_size k)) (\<lambda>s. Inr (s @ CRLF @ chunk_data k @ CRLF))"

interpretation chunk_rd: byte_reader chunk_step chunk_complete chunk_read
  by unfold_locales simp_all

section \<open>The states a chunk goes through\<close>

text \<open>
  The invariant of a chunk that is being read: the flags are set in order, the vectors are
  never empty (so \<open>++\<close> is applied to a number), and the count of received bytes is the length of
  the data once the body has started.
\<close>

definition chunk_wf :: "http_chunk \<Rightarrow> bool" where
  "chunk_wf k \<longleftrightarrow>
     received_bytes k \<noteq> [] \<and> chunk_size k \<noteq> [] \<and> \<not> chunk_body_finished k \<and>
     (chunk_size_found k \<longrightarrow> chunk_size_started k) \<and>
     (chunk_body_start k \<longrightarrow> chunk_size_found k) \<and>
     (chunk_complete k \<longrightarrow> chunk_body_start k \<and> \<not> bn_lt (received_bytes k) (chunk_size k)) \<and>
     (if chunk_body_start k
      then bn_val (received_bytes k) = length (chunk_data k) \<and> bn_norm (received_bytes k)
      else chunk_data k = [] \<and> received_bytes k = [0])"

lemma chunk_wf_empty: "chunk_wf empty_chunk"
  by (simp add: chunk_wf_def empty_chunk_def)

lemma read_limbs_not_Nil: "read_limbs ps acc = Inr ws \<Longrightarrow> ps \<noteq> [] \<or> acc \<noteq> [] \<Longrightarrow> ws \<noteq> []"
  by (induction ps acc rule: read_limbs.induct) (auto split: sum.splits)

lemma bn_hex_not_Nil: "bn_hex s = Inr ws \<Longrightarrow> ws \<noteq> []"
  by (rule read_limbs_not_Nil [of "rev (hex_partitions s)" "[]"])
     (auto simp: bn_hex_def hex_partitions_def Let_def)

text \<open>The effect of one byte, by the phase the chunk is in.\<close>

lemma chunk_step_cases:
  assumes "chunk_step c k = Inr k'"
  obtains (skip) "\<not> chunk_size_started k" "k' = k"
  | (start) "\<not> chunk_size_started k" "k' = k\<lparr>chunk_size_started := True, chunk_header := chunk_header k @ [c]\<rparr>"
  | (digit) "chunk_size_started k" "\<not> chunk_size_found k" "k' = k\<lparr>chunk_header := chunk_header k @ [c]\<rparr>"
  | (found) n where "chunk_size_started k" "\<not> chunk_size_found k" "bn_hex (chunk_header k) = Inr n"
      "k' = k\<lparr>chunk_size_found := True, chunk_size := n\<rparr>"
  | (line) "chunk_size_started k" "chunk_size_found k" "\<not> chunk_body_start k" "k' = k"
  | (body) "chunk_size_started k" "chunk_size_found k" "\<not> chunk_body_start k"
      "k' = k\<lparr>chunk_body_start := True, received_bytes := [0]\<rparr>"
  | (data) "chunk_size_started k" "chunk_size_found k" "chunk_body_start k" "\<not> chunk_body_finished k"
      "bn_lt (received_bytes k) (chunk_size k)"
      "k' = k\<lparr>chunk_data := chunk_data k @ [c], received_bytes := bn_incr (received_bytes k)\<rparr>"
  | (trail) "chunk_size_started k" "chunk_size_found k" "chunk_body_start k"
      "\<not> (\<not> chunk_body_finished k \<and> bn_lt (received_bytes k) (chunk_size k))"
      "k' = k \<or> k' = k\<lparr>chunk_complete := True\<rparr>"
proof -
  consider "\<not> chunk_size_started k" | "chunk_size_started k" "\<not> chunk_size_found k"
    | "chunk_size_started k" "chunk_size_found k" "\<not> chunk_body_start k"
    | "chunk_size_started k" "chunk_size_found k" "chunk_body_start k"
    by blast
  then show thesis
  proof cases
    case 1
    with assms show thesis by (auto simp: chunk_step_def split: if_splits intro: skip start)
  next
    case 2
    with assms show thesis
      by (auto simp: chunk_step_def rbind_Inr_iff split: if_splits intro: digit found)
  next
    case 3
    with assms show thesis by (auto simp: chunk_step_def split: if_splits intro: line body)
  next
    case 4
    show thesis
    proof (cases "\<not> chunk_body_finished k \<and> bn_lt (received_bytes k) (chunk_size k)")
      case True
      with 4 assms show thesis by (intro data) (simp_all add: chunk_step_def)
    next
      case False
      with 4 assms show thesis
        by (intro trail) (auto simp: chunk_step_def split: if_splits)
    qed
  qed
qed

lemma chunk_step_wf: "chunk_wf k \<Longrightarrow> \<not> chunk_complete k \<Longrightarrow> chunk_step c k = Inr k' \<Longrightarrow> chunk_wf k'"
proof (erule chunk_step_cases)
  assume "chunk_wf k" "chunk_body_start k"
    "k' = k\<lparr>chunk_data := chunk_data k @ [c], received_bytes := bn_incr (received_bytes k)\<rparr>"
    "\<not> chunk_complete k"
  then show "chunk_wf k'" by (simp add: chunk_wf_def bn_incr_val bn_incr_norm)
next
  fix n
  assume "chunk_wf k" "bn_hex (chunk_header k) = Inr n" "\<not> chunk_complete k" "\<not> chunk_size_found k"
    "chunk_size_started k" "k' = k\<lparr>chunk_size_found := True, chunk_size := n\<rparr>"
  then show "chunk_wf k'" by (auto simp: chunk_wf_def dest: bn_hex_not_Nil)
qed (auto simp: chunk_wf_def bn_norm_def)

lemma chunk_read_wf: "chunk_read k s = Inr (k', rest) \<Longrightarrow> chunk_wf k \<Longrightarrow> chunk_wf k'"
  using chunk_rd.read_invariant [of chunk_wf] chunk_step_wf by blast

definition chunk_bounded :: "http_chunk \<Rightarrow> bool" where
  "chunk_bounded k \<longleftrightarrow> chunk_wf k \<and>
     (chunk_body_start k \<and> bn_norm (chunk_size k) \<longrightarrow> bn_val (received_bytes k) \<le> bn_val (chunk_size k))"

lemma chunk_step_bounded:
  assumes "chunk_bounded k" "\<not> chunk_complete k" "chunk_step c k = Inr k'"
  shows "chunk_bounded k'"
proof -
  have wf: "chunk_wf k" "chunk_wf k'"
    using assms chunk_step_wf by (auto simp: chunk_bounded_def)
  have "bn_val (received_bytes k') \<le> bn_val (chunk_size k')"
    if n: "chunk_body_start k'" "bn_norm (chunk_size k')"
    using assms(3)
  proof (cases rule: chunk_step_cases)
    case data
    with wf(1) n have "bn_val (received_bytes k) < bn_val (chunk_size k)"
      by (simp add: chunk_wf_def bn_lt_correct)
    with data show ?thesis by (simp add: bn_incr_val)
  qed (use n assms(1) wf in \<open>auto simp: chunk_bounded_def chunk_wf_def\<close>)
  with wf show ?thesis by (simp add: chunk_bounded_def)
qed

text \<open>
  Reading is independent of how the bytes are cut into segments, and a complete chunk
  takes nothing from the stream.
\<close>
theorem chunk_read_segmentation:
  "chunk_read k (xs @ ys) = rbind (chunk_read k xs) (\<lambda>(k', rest). chunk_read k' (rest @ ys)) \<and>
   (chunk_complete k \<longrightarrow> chunk_read k xs = Inr (k, xs))"
  using chunk_rd.read_append [of k xs ys] chunk_rd.read_stop [of k xs] by blast

text \<open>
  The size comes from the size line: the limbs of its sixteen-digit parts, the first part shorter
  than that.  The number has no superfluous leading limb when the line has fewer than sixteen
  characters, or the digits in front of the last multiple of sixteen are not all zero.
\<close>

definition tight_line :: "string \<Rightarrow> bool" where
  "tight_line h \<longleftrightarrow> length h < 16 \<or> from_chars 16 64 (take (length h mod 16) h) \<noteq> Inr 0"

lemma read_limbs_prefix: "read_limbs ps acc = Inr ws \<Longrightarrow> \<exists>vs. ws = acc @ vs \<and> length vs = length ps"
proof (induction ps arbitrary: acc)
  case (Cons p ps)
  then obtain num where "read_limbs ps (acc @ [of_nat num]) = Inr ws" by (auto split: sum.splits)
  from Cons.IH [OF this] show ?case by auto
qed simp

lemma bn_hex_norm:
  assumes "bn_hex h = Inr ws"
  shows "length ws = length h div 16 + 1" "bn_norm ws \<longleftrightarrow> tight_line h"
proof -
  let ?p = "take (length h mod 16) h"
  let ?ps = "rev (map (\<lambda>offset. take 16 (drop (length h - (offset + 1) * 16) h)) [0..<length h div 16])"
  have "read_limbs (?p # ?ps) [] = Inr ws"
    using assms by (simp add: bn_hex_def hex_partitions_def Let_def minus_div_mult_eq_mod)
  then obtain num where num: "from_chars 16 64 ?p = Inr num" and r: "read_limbs ?ps [of_nat num] = Inr ws"
    by (auto split: sum.splits)
  obtain vs where vs: "ws = of_nat num # vs" "length vs = length h div 16"
    using read_limbs_prefix [OF r] by auto
  have "num < 2 ^ 64" by (rule from_chars_bound [OF num])
  then have "(of_nat num :: limb) = 0 \<longleftrightarrow> num = 0"
    by (simp add: word_of_nat_eq_0_iff) (metis mod_greater_zero_iff_not_dvd mod_less neq0_conv dvd_0_right)
  moreover have "0 < length vs \<longleftrightarrow> \<not> length h < 16" using vs(2) by (simp add: div_greater_zero_iff not_less)
  ultimately show "length ws = length h div 16 + 1" "bn_norm ws \<longleftrightarrow> tight_line h"
    using vs num by (auto simp: bn_norm_def tight_line_def)
qed

definition chunk_sized :: "http_chunk \<Rightarrow> bool" where
  "chunk_sized k \<longleftrightarrow> (chunk_size_found k \<longrightarrow> chunk_size_started k \<and> bn_hex (chunk_header k) = Inr (chunk_size k))"

lemma chunk_step_line: "chunk_sized k \<Longrightarrow> chunk_step c k = Inr k' \<Longrightarrow> chunk_sized k'"
  by (erule chunk_step_cases) (auto simp: chunk_sized_def)

lemma chunk_untight_open:
  assumes "chunk_wf k" "chunk_body_start k" "\<not> bn_norm (chunk_size k)" "length (chunk_data k) < limb_base"
  shows "\<not> chunk_complete k"
proof -
  have r: "bn_norm (received_bytes k)" "bn_val (received_bytes k) < limb_base"
    using assms(1,2,4) by (simp_all add: chunk_wf_def)
  have "length (received_bytes k) \<le> 1"
  proof (rule ccontr)
    assume "\<not> length (received_bytes k) \<le> 1"
    then have l: "1 < length (received_bytes k)" by simp
    then have "limb_base ^ 1 \<le> limb_base ^ (length (received_bytes k) - 1)"
      by (intro power_increasing) (auto simp: limb_base_def)
    also have "\<dots> \<le> bn_val (received_bytes k)" by (rule bn_val_lower [OF r(1) l])
    finally show False using r(2) by simp
  qed
  moreover have "1 < length (chunk_size k)"
    using assms(1,3) by (auto simp: chunk_wf_def bn_norm_def)
  ultimately have "bn_lt (received_bytes k) (chunk_size k)" by (simp add: bn_lt_def)
  with assms(1) show ?thesis by (auto simp: chunk_wf_def)
qed

text \<open>
  C13: Whatever bytes arrive, the count of a chunk is the number of its data bytes.  If its size
  line has fewer than sixteen characters, or does not begin with superfluous zeros (the digits in
  front of the last multiple of sixteen are not all zero), the chunk never holds more data than its
  size, and exactly as much when it is complete.  With superfluous zeros the size has a leading zero
  limb, the comparison goes by the number of limbs, and the chunk takes whatever comes, past its
  size, and is not complete before 2^64 bytes.
\<close>
theorem chunk_read_counts:
  assumes "chunk_read empty_chunk s = Inr (k, rest)" "chunk_body_start k"
  shows "bn_val (received_bytes k) = length (chunk_data k) \<and>
         bn_hex (chunk_header k) = Inr (chunk_size k) \<and>
         (tight_line (chunk_header k) \<longrightarrow> length (chunk_data k) \<le> bn_val (chunk_size k)) \<and>
         (tight_line (chunk_header k) \<and> chunk_complete k \<longrightarrow> length (chunk_data k) = bn_val (chunk_size k)) \<and>
         (\<not> tight_line (chunk_header k) \<and> length (chunk_data k) < 2 ^ 64 \<longrightarrow> \<not> chunk_complete k)"
proof -
  have P: "chunk_bounded k"
    using chunk_rd.read_invariant [of chunk_bounded, OF chunk_step_bounded assms(1)]
    by (simp add: chunk_bounded_def chunk_wf_empty) (simp add: empty_chunk_def)
  have "chunk_sized k"
  proof (rule chunk_rd.read_invariant [OF _ assms(1)])
    show "chunk_sized t" if "chunk_sized s" "chunk_step c s = Inr t" for c s t
      using that by (rule chunk_step_line)
  qed (simp add: chunk_sized_def empty_chunk_def)
  with P assms(2) have h: "bn_hex (chunk_header k) = Inr (chunk_size k)"
    by (simp add: chunk_bounded_def chunk_wf_def chunk_sized_def)
  note n = bn_hex_norm(2) [OF h]
  have "length (chunk_data k) = bn_val (chunk_size k)" if "chunk_complete k" "bn_norm (chunk_size k)"
    using P that assms(2) bn_lt_correct [of "received_bytes k" "chunk_size k"]
    by (auto simp: chunk_wf_def chunk_bounded_def)
  moreover have "\<not> chunk_complete k" if "\<not> bn_norm (chunk_size k)" "length (chunk_data k) < 2 ^ 64"
    using chunk_untight_open [of k] P assms(2) that by (simp add: chunk_bounded_def limb_base_def)
  moreover have "bn_val (received_bytes k) = length (chunk_data k)"
    "bn_norm (chunk_size k) \<longrightarrow> length (chunk_data k) \<le> bn_val (chunk_size k)"
    using P assms(2) by (auto simp: chunk_wf_def chunk_bounded_def)
  ultimately show ?thesis using h unfolding n [symmetric] by (intro conjI) blast+
qed

section \<open>Writing a chunk and reading it back\<close>

definition parsed_chunk :: "string \<Rightarrow> http_chunk" where
  "parsed_chunk d = \<lparr>chunk_size = [of_nat (length d)], chunk_data = d,
     received_bytes = [of_nat (length d)], chunk_header = show_nat 16 (length d),
     chunk_size_started = True, chunk_size_found = True, chunk_body_start = True,
     chunk_body_finished = False, chunk_complete = True\<rparr>"

lemma chunk_read_header:
  "chunk_size_started k \<Longrightarrow> \<not> chunk_size_found k \<Longrightarrow> \<not> chunk_complete k \<Longrightarrow>
   \<forall>c \<in> set h. \<not> is_space c \<Longrightarrow>
   chunk_read k (h @ cs) = chunk_read (k\<lparr>chunk_header := chunk_header k @ h\<rparr>) cs"
  by (induction h arbitrary: k) (simp_all add: chunk_step_def)

lemma bn_lt_single:
  "m < limb_base \<Longrightarrow> n < limb_base \<Longrightarrow> bn_lt [of_nat m] [of_nat n] \<longleftrightarrow> m < n"
  by (simp add: bn_lt_correct bn_norm_def)

lemma chunk_read_data:
  "chunk_size_started k \<Longrightarrow> chunk_size_found k \<Longrightarrow> chunk_body_start k \<Longrightarrow>
   \<not> chunk_body_finished k \<Longrightarrow> \<not> chunk_complete k \<Longrightarrow>
   chunk_size k = [of_nat m] \<Longrightarrow> received_bytes k = [of_nat n] \<Longrightarrow>
   n + length d \<le> m \<Longrightarrow> m < limb_base \<Longrightarrow>
   chunk_read k (d @ cs) =
   chunk_read (k\<lparr>chunk_data := chunk_data k @ d, received_bytes := [of_nat (n + length d)]\<rparr>) cs"
proof (induction d arbitrary: k n)
  case Nil
  then have "k\<lparr>received_bytes := [of_nat n]\<rparr> = k" by (cases k) simp
  then show ?case by simp
next
  case (Cons c d)
  let ?k = "k\<lparr>chunk_data := chunk_data k @ [c], received_bytes := [of_nat (Suc n)]\<rparr>"
  have "bn_lt [of_nat n] [of_nat m]" using Cons.prems by (simp add: bn_lt_single)
  moreover have "bn_incr [of_nat n] = [of_nat (Suc n)]" using Cons.prems by (intro bn_incr_small) simp
  ultimately have "chunk_read k ((c # d) @ cs) = chunk_read ?k (d @ cs)"
    using Cons.prems by (simp add: chunk_step_def)
  also have "\<dots> = chunk_read (?k\<lparr>chunk_data := chunk_data ?k @ d, received_bytes := [of_nat (Suc n + length d)]\<rparr>) cs"
    using Cons.prems by (intro Cons.IH) simp_all
  finally show ?case by simp
qed

lemma length_hex: "length (d :: string) < 2 ^ 60 \<Longrightarrow>
   bn_hex (show_nat 16 (length d)) = Inr [of_nat (length d)] \<and> length d < limb_base"
  using bn_hex_short [OF show_nat_digits [of 16 "length d"]] show_nat_length [of 16 "length d" 15]
  by (simp add: digits_val_show_nat limb_base_def)

lemma chunk_show_data:
  "length d < limb_base \<Longrightarrow> chunk_show (data_chunk d) = Inr (show_nat 16 (length d) @ CRLF @ d @ CRLF)"
  by (simp add: chunk_show_def data_chunk_def empty_chunk_def)

lemma chunk_read_show:
  assumes "length d < 2 ^ 60"
  shows "chunk_read empty_chunk (show_nat 16 (length d) @ CRLF @ d @ CRLF @ rest) =
         Inr (parsed_chunk d, rest)"
proof -
  let ?h = "show_nat 16 (length d)"
  have hex: "bn_hex ?h = Inr [of_nat (length d)]" and lt: "length d < limb_base"
    using length_hex [OF assms] by auto
  have ns: "\<not> is_space c" if "c \<in> set ?h" for c
    using list_all_digit_not_space [OF show_nat_digits [of 16 "length d"] _ that] by simp
  obtain c h where h: "?h = c # h" by (cases ?h) auto
  let ?k1 = "empty_chunk\<lparr>chunk_size_started := True, chunk_header := ?h\<rparr>"
  let ?k2 = "?k1\<lparr>chunk_size_found := True, chunk_size := [of_nat (length d)],
                  chunk_body_start := True, received_bytes := [of_nat 0]\<rparr>"
  have "chunk_read empty_chunk (?h @ CRLF @ d @ CRLF @ rest) =
      chunk_read (empty_chunk\<lparr>chunk_size_started := True, chunk_header := [c]\<rparr>) (h @ CRLF @ d @ CRLF @ rest)"
    using ns [of c] unfolding h by (simp add: chunk_step_def empty_chunk_def)
  also have "\<dots> = chunk_read ?k1 (CRLF @ d @ CRLF @ rest)"
    using ns by (subst chunk_read_header) (simp_all add: empty_chunk_def h)
  also have "\<dots> = chunk_read ?k2 (d @ CRLF @ rest)"
    using hex by (simp add: chunk_step_def empty_chunk_def)
  also have "\<dots> = chunk_read (?k2\<lparr>chunk_data := chunk_data ?k2 @ d,
      received_bytes := [of_nat (0 + length d)]\<rparr>) (CRLF @ rest)"
    using lt by (intro chunk_read_data) (simp_all add: empty_chunk_def)
  also have "\<dots> = Inr (parsed_chunk d, rest)"
    using lt by (simp add: chunk_step_def empty_chunk_def parsed_chunk_def bn_lt_single chunk_rd.read_stop)
  finally show ?thesis .
qed

theorem chunk_read_counts_witness:
  "length (chunk_data (parsed_chunk ''{}'')) = bn_val (chunk_size (parsed_chunk ''{}''))"
  using chunk_read_counts [OF chunk_read_show [of "''{}''" "[]"]] by (simp add: parsed_chunk_def tight_line_def)

text \<open>
  A size line of seventeen characters that means one byte: the chunk takes the line end after its
  byte as data, and goes on.
\<close>
lemma padded_size: "bn_hex ''00000000000000001'' = Inr [0, 1]"
  by (simp add: bn_hex_def hex_partitions_def from_chars_def is_digit_def digits_val_def upt_rec digit_val_def the_digit_def)

theorem padded_size_overruns:
  "(case chunk_read empty_chunk (''00000000000000001'' @ CRLF @ ''x'' @ CRLF @ ''0'' @ CRLF @ CRLF) of
      Inl _ \<Rightarrow> False
    | Inr (k, rest) \<Rightarrow> rest = [] \<and> bn_val (chunk_size k) = 1 \<and> \<not> chunk_complete k \<and>
        chunk_data k = ''x'' @ CRLF @ ''0'' @ CRLF @ CRLF)"
  by (simp add: chunk_step_def empty_chunk_def is_space_def padded_size bn_lt_def bn_incr_def bn_val_def limb_max_def)

text \<open>
  A chunk of fewer than 2^60 bytes is written as one text, and reading that text takes
  exactly its bytes from the stream and gives back the same data, whatever follows.
\<close>
theorem chunk_roundtrip:
  assumes "length d < 2 ^ 60"
  shows "\<exists>s. chunk_show (data_chunk d) = Inr s \<and>
             chunk_read empty_chunk (s @ rest) = Inr (parsed_chunk d, rest)"
  using chunk_show_data [of d] chunk_read_show [OF assms, of rest] length_hex [OF assms] by auto

theorem chunk_roundtrip_witness:
  "\<exists>s. chunk_show (data_chunk ''{}'') = Inr s \<and>
       chunk_read empty_chunk (s @ ''x'') = Inr (parsed_chunk ''{}'', ''x'')"
  by (rule chunk_roundtrip) simp

text \<open>
  A size line whose digit count is a multiple of 16 makes the reader throw, whatever the
  digits say; the writer produces such a line for a chunk of 2^60 bytes or more.
\<close>
theorem chunk_full_width_size_throws:
  assumes "length h mod 16 = 0" "h \<noteq> []" "\<forall>c \<in> set h. \<not> is_space c"
  shows "\<exists>e. chunk_read empty_chunk (h @ CRLF @ rest) = Inl e"
proof -
  obtain c h' where h: "h = c # h'" using assms(2) by (cases h) auto
  let ?k = "empty_chunk\<lparr>chunk_size_started := True, chunk_header := [c]\<rparr>"
  have "chunk_read empty_chunk (h @ CRLF @ rest) = chunk_read ?k (h' @ CRLF @ rest)"
    using assms(3) by (simp add: h chunk_step_def empty_chunk_def)
  also have "\<dots> = chunk_read (?k\<lparr>chunk_header := chunk_header ?k @ h'\<rparr>) (CRLF @ rest)"
    using assms(3) by (intro chunk_read_header) (simp_all add: empty_chunk_def h)
  finally show ?thesis
    using bn_hex_full_width [OF assms(1)] by (simp add: chunk_step_def empty_chunk_def h)
qed

theorem chunk_full_width_size_throws_witness:
  "\<exists>e. chunk_read empty_chunk (''0000000000000001'' @ CRLF @ ''x'') = Inl e"
  by (rule chunk_full_width_size_throws) (simp_all add: is_space_def)

end
