(* ===== verification/JsonScan.thy ===== *)
theory JsonScan
  imports HttpChunk
begin

text \<open>
  \<open>find_next_json_object\<close> (\<open>controller-app.cpp\<close>) and the loop that takes a chunk apart with it.
  The peers of an execution context stream their results as one JSON array, cut into HTTP chunks
  at will; the scanner finds the next top-level object by counting braces, or the bracket that
  ends the array.  The brace counter is unsigned and is decremented only when it is positive.
  The positions are below the size of the text, so neither they nor the counters wrap.
\<close>

section \<open>The scanner\<close>

text \<open>How the loop ends: at \<open>exit_loop\<close> with the two brace positions, or at the closing bracket.\<close>

datatype scan_exit =
    ObjectExit nat nat nat
  | BracketExit nat

fun scan :: "string \<Rightarrow> nat \<Rightarrow> nat \<Rightarrow> int \<Rightarrow> nat \<Rightarrow> nat \<Rightarrow> scan_exit" where
  "scan [] pos braces brackets op cl = ObjectExit op cl pos"
| "scan (c # cs) pos braces brackets op cl =
     (if c = CHR ''}'' then
        (if braces = 0 then scan cs (pos + 1) braces brackets op cl
         else if braces - 1 = 0 then ObjectExit op pos (pos + 1)
         else scan cs (pos + 1) (braces - 1) brackets op cl)
      else if c = CHR ''{'' then
        scan cs (pos + 1) (braces + 1) brackets (if braces = 0 then pos else op) cl
      else if c = CHR '','' then
        (if op < cl then ObjectExit op cl (pos + 1) else scan cs (pos + 1) braces brackets op cl)
      else if c = CHR '']'' then
        (if op \<le> cl \<and> braces = 0 \<and> brackets - 1 \<le> 0 then BracketExit (pos + 1)
         else scan cs (pos + 1) braces (brackets - 1) op cl)
      else if c = CHR ''['' then scan cs (pos + 1) braces (brackets + 1) op cl
      else scan cs (pos + 1) braces brackets op cl)"

text \<open>The view that is returned, and the new value of \<open>pos\<close>.\<close>

definition find_next_json_object :: "string \<Rightarrow> nat \<Rightarrow> string \<times> nat" where
  "find_next_json_object data pos =
     (case scan (drop pos data) pos 0 0 0 0 of
        BracketExit p \<Rightarrow> ('']'', p)
      | ObjectExit op cl p \<Rightarrow>
          (if op < cl then (take (cl - op + 1) (drop op data), p) else ([], p)))"

text \<open>
  The loop over one chunk: the objects found, in order, and whether the end of the array was
  reached.  What the controller does with each object is not part of it.
\<close>

fun chunk_objects :: "nat \<Rightarrow> bignum \<Rightarrow> string \<Rightarrow> nat \<Rightarrow> (string list \<times> bool) result" where
  "chunk_objects 0 sz data next_comma = Inl NoReturn"
| "chunk_objects (Suc n) sz data next_comma =
     (if bn_lt [of_nat next_comma] sz then
        (case find_next_json_object data next_comma of (view, p) \<Rightarrow>
           if view = [] then chunk_objects n sz data p
           else if hd view = CHR '']'' then Inr ([], True)
           else rbind (chunk_objects n sz data p) (\<lambda>(os, fin). Inr (view # os, fin)))
      else Inr ([], False))"

section \<open>What the scanner returns\<close>

text \<open>
  The closing position is set only on the way out, so throughout the loop it is not above the
  opening one: the branch on a comma is never taken.
\<close>

definition scan_inv :: "string \<Rightarrow> nat \<Rightarrow> nat \<Rightarrow> nat \<Rightarrow> nat \<Rightarrow> nat \<Rightarrow> bool" where
  "scan_inv data start pos b op cl \<longleftrightarrow> start \<le> pos \<and> pos \<le> length data \<and> cl \<le> op \<and> cl \<le> start \<and>
     (0 < b \<longrightarrow> op < pos \<and> start \<le> op \<and> data ! op = CHR ''{'')"

definition scan_post :: "string \<Rightarrow> nat \<Rightarrow> nat \<Rightarrow> scan_exit \<Rightarrow> bool" where
  "scan_post data start pos x = (case x of
      BracketExit p \<Rightarrow> pos < p \<and> p \<le> length data \<and> data ! (p - 1) = CHR '']''
    | ObjectExit op cl p \<Rightarrow>
        p = length data \<and> cl \<le> op \<or>
        pos < p \<and> p \<le> length data \<and> cl = p - 1 \<and> op < cl \<and> start \<le> op \<and>
        data ! op = CHR ''{'' \<and> data ! cl = CHR ''}'')"

lemma scan_post_Suc: "scan_post data start (pos + 1) x \<Longrightarrow> scan_post data start pos x"
  by (auto simp: scan_post_def split: scan_exit.splits)

lemma scan_view:
  "s = drop pos data \<Longrightarrow> scan_inv data start pos b op cl \<Longrightarrow>
   scan_post data start pos (scan s pos b k op cl)"
proof (induction s arbitrary: pos b k op)
  case Nil
  then show ?case by (simp add: scan_inv_def scan_post_def)
next
  case (Cons c cs)
  have pos: "pos < length data" using Cons.prems(1) by (cases "pos < length data") auto
  then have c: "c = data ! pos" "cs = drop (pos + 1) data"
    using Cons.prems(1) by (simp_all add: Cons_nth_drop_Suc [symmetric])
  have IH: "scan_post data start pos (scan cs (pos + 1) b' k' op' cl)"
    if "scan_inv data start (pos + 1) b' op' cl" for b' k' op'
    by (rule scan_post_Suc) (rule Cons.IH [OF c(2) that])
  consider "c = CHR ''}''" "b = 1" | "c = CHR ''}''" "b \<noteq> 1" | "c = CHR ''{''"
    | "c = CHR '',''" | "c = CHR '']''"
    | "c \<noteq> CHR ''}''" "c \<noteq> CHR ''{''" "c \<noteq> CHR '',''" "c \<noteq> CHR '']''" by blast
  then show ?case
  proof cases
    case 1
    with c pos Cons.prems(2) show ?thesis by (auto simp: scan_inv_def scan_post_def)
  next
    case 2
    with pos Cons.prems(2) IH [of "if b = 0 then 0 else b - 1" op k] show ?thesis
      by (auto simp: scan_inv_def)
  next
    case 3
    with c pos Cons.prems(2) IH [of "b + 1" "if b = 0 then pos else op" k] show ?thesis
      by (auto simp: scan_inv_def)
  next
    case 4
    with pos Cons.prems(2) IH [of b op k] show ?thesis by (auto simp: scan_inv_def)
  next
    case 5
    with c pos Cons.prems(2) IH [of b op "k - 1"] show ?thesis
      by (auto simp: scan_inv_def scan_post_def)
  next
    case 6
    with pos Cons.prems(2) IH [of b op "if c = CHR ''['' then k + 1 else k"] show ?thesis
      by (auto simp: scan_inv_def)
  qed
qed

lemma find_progress:
  assumes "pos < length data" "find_next_json_object data pos = (view, p)"
  shows "pos < p \<and> p \<le> length data \<and> (view = [] \<longrightarrow> p = length data)"
proof -
  have "scan_inv data pos pos 0 0 0" using assms(1) by (simp add: scan_inv_def)
  then have "scan_post data pos pos (scan (drop pos data) pos 0 0 0 0)" by (intro scan_view) simp_all
  with assms show ?thesis
    by (auto simp: find_next_json_object_def scan_post_def split: scan_exit.splits if_splits)
qed

text \<open>
  Every call of the scanner moves forward and stays inside the text, and what it returns is
  nothing (only at the end of the text), the closing bracket, or a piece of the text behind the
  starting position that begins with an opening brace and ends, just before the new position,
  with a closing one.
\<close>
theorem find_next_json_object_view:
  assumes "pos < length data" "find_next_json_object data pos = (view, p)"
  shows "pos < p \<and> p \<le> length data \<and>
    (view = [] \<and> p = length data \<or>
     view = '']'' \<and> data ! (p - 1) = CHR '']'' \<or>
     (\<exists>i. pos \<le> i \<and> i < p \<and> view = take (p - i) (drop i data) \<and> hd view = CHR ''{'' \<and> last view = CHR ''}''))"
proof -
  have "scan_inv data pos pos 0 0 0" using assms(1) by (simp add: scan_inv_def)
  then have post: "scan_post data pos pos (scan (drop pos data) pos 0 0 0 0)" by (intro scan_view) simp_all
  show ?thesis
  proof (cases "scan (drop pos data) pos 0 0 0 0")
    case (BracketExit q)
    with assms(2) post show ?thesis by (auto simp: find_next_json_object_def scan_post_def)
  next
    case (ObjectExit op cl q)
    show ?thesis
    proof (cases "op < cl")
      case False
      with ObjectExit assms post show ?thesis by (auto simp: find_next_json_object_def scan_post_def)
    next
      case True
      with ObjectExit assms(2) have v: "view = take (cl - op + 1) (drop op data)" "p = q"
        by (auto simp: find_next_json_object_def)
      from post ObjectExit True have q: "pos < q" "q \<le> length data" "cl = q - 1" "pos \<le> op"
        "data ! op = CHR ''{''" "data ! cl = CHR ''}''" by (auto simp: scan_post_def)
      have view: "view = take (p - op) (drop op data)" using v q True by (simp add: Suc_diff_Suc)
      then have "view ! 0 = data ! op" "view ! (cl - op) = data ! cl" "length view = cl - op + 1"
        using q v True by auto
      moreover from \<open>length view = cl - op + 1\<close> have "view \<noteq> []" by auto
      ultimately have "hd view = CHR ''{''" "last view = CHR ''}''"
        using q(5,6) by (simp_all add: hd_conv_nth last_conv_nth)
      moreover have "op < p" using q(3) v(2) True by simp
      ultimately show ?thesis using q(1,2,4) v(2) view by blast
    qed
  qed
qed

theorem find_next_json_object_view_witness:
  "(1::nat) < 3 \<and> (3::nat) \<le> length '',{},'' \<and>
    (''{}'' = [] \<and> 3 = length '',{},'' \<or>
     ''{}'' = '']'' \<and> '',{},'' ! (3 - 1) = CHR '']'' \<or>
     (\<exists>i. 1 \<le> i \<and> i < 3 \<and> ''{}'' = take (3 - i) (drop i '',{},'') \<and> hd ''{}'' = CHR ''{'' \<and> last ''{}'' = CHR ''}''))"
  by (rule find_next_json_object_view) (simp_all add: find_next_json_object_def)

section \<open>Streams of objects\<close>

text \<open>
  A text in which braces are balanced for the first time at its last character, counting every
  brace, and a separator: a text without braces and closing brackets.
\<close>

fun closes :: "nat \<Rightarrow> string \<Rightarrow> bool" where
  "closes d [] = False"
| "closes d (c # cs) =
     (let d' = (if c = CHR ''{'' then d + 1 else if c = CHR ''}'' then d - 1 else d)
      in if d' = 0 then cs = [] else closes d' cs)"

definition object_text :: "string \<Rightarrow> bool" where
  "object_text s \<longleftrightarrow> s \<noteq> [] \<and> hd s = CHR ''{'' \<and> closes 1 (tl s)"

definition sep_text :: "string \<Rightarrow> bool" where
  "sep_text s \<longleftrightarrow> (\<forall>c \<in> set s. c \<notin> {CHR ''{'', CHR ''}'', CHR '']''})"

lemma scan_closes:
  "closes d s \<Longrightarrow> 0 < d \<Longrightarrow> cl \<le> op \<Longrightarrow>
   scan (s @ t) pos d k op cl = ObjectExit op (pos + length s - 1) (pos + length s)"
proof (induction s arbitrary: pos d k)
  case Nil
  then show ?case by simp
next
  case (Cons c s)
  then show ?case
    by (auto simp: Let_def split: if_splits)
qed

lemma scan_sep:
  "sep_text s \<Longrightarrow> cl \<le> op \<Longrightarrow>
   scan (s @ t) pos 0 k op cl = scan t (pos + length s) 0 (k + int (count_list s CHR ''['')) op cl"
  by (induction s arbitrary: pos k) (auto simp: sep_text_def add.assoc)

lemma find_object:
  assumes "sep_text s" "object_text ob" "drop pos data = s @ ob @ t"
  shows "find_next_json_object data pos = (ob, pos + length s + length ob)"
proof -
  obtain r where ob: "ob = CHR ''{'' # r" "closes 1 r"
    using assms(2) by (cases ob) (auto simp: object_text_def)
  then have r: "r \<noteq> []" by auto
  let ?p = "pos + length s"
  have "scan (drop pos data) pos 0 0 0 0 = scan (r @ t) (?p + 1) 1 (int (count_list s CHR ''['')) ?p 0"
    unfolding assms(3) scan_sep [OF assms(1) order_refl] by (simp add: ob)
  also have "\<dots> = ObjectExit ?p (?p + 1 + length r - 1) (?p + 1 + length r)"
    using ob(2) by (intro scan_closes) simp_all
  finally have sc: "scan (drop pos data) pos 0 0 0 0 = ObjectExit ?p (?p + length r) (?p + 1 + length r)" by simp
  have "drop ?p data = ob @ t"
    using arg_cong [OF assms(3), of "drop (length s)"] by (simp add: add.commute)
  with sc r show ?thesis by (simp add: find_next_json_object_def ob)
qed

lemma find_none:
  assumes "sep_text s" "drop pos data = s" "pos \<le> length data"
  shows "find_next_json_object data pos = ([], length data)"
proof -
  have "scan (drop pos data) pos 0 0 0 0 = ObjectExit 0 0 (pos + length s)"
    using scan_sep [OF assms(1) order_refl, of "[]" pos 0] assms(2) by simp
  moreover have "pos + length s = length data" using arg_cong [OF assms(2), of length] assms(3) by simp
  ultimately show ?thesis by (simp add: find_next_json_object_def)
qed

lemma find_bracket:
  assumes "sep_text s" "drop pos data = s @ CHR '']'' # t" "count_list s CHR ''['' \<le> 1"
  shows "find_next_json_object data pos = ('']'', pos + length s + 1)"
  using scan_sep [OF assms(1) order_refl, of "CHR '']'' # t" pos 0] assms(2,3)
  by (simp add: find_next_json_object_def)

section \<open>Taking a chunk apart\<close>

lemma bn_lt_nat: "n < 2 ^ 64 \<Longrightarrow> m < 2 ^ 64 \<Longrightarrow> bn_lt [of_nat m] [of_nat n] \<longleftrightarrow> m < n"
  using bn_lt_single [of m n] by (simp add: limb_base_def)

lemma chunk_objects_returns:
  "length data < 2 ^ 64 \<Longrightarrow> pos \<le> length data \<Longrightarrow> length data - pos < n \<Longrightarrow>
   chunk_objects n [of_nat (length data)] data pos \<noteq> Inl NoReturn"
proof (induction n arbitrary: pos)
  case 0
  then show ?case by simp
next
  case (Suc n)
  show ?case
  proof (cases "pos < length data")
    case False
    with Suc.prems show ?thesis by (simp add: bn_lt_nat)
  next
    case True
    obtain v p where v: "find_next_json_object data pos = (v, p)" by fastforce
    from find_progress [OF True v] have p: "pos < p" "p \<le> length data" by simp_all
    with Suc.IH [of p] Suc.prems True have "chunk_objects n [of_nat (length data)] data p \<noteq> Inl NoReturn" by simp
    with v True Suc.prems show ?thesis by (simp add: bn_lt_nat rbind_Inl_iff)
  qed
qed

definition stream_text :: "(string \<times> string) list \<Rightarrow> string \<Rightarrow> string" where
  "stream_text items tail = concat (map (\<lambda>(s, ob). s @ ob) items) @ tail"

lemma chunk_objects_items:
  assumes "length data < 2 ^ 64" "length data - pos < n" "pos \<le> length data"
    "drop pos data = stream_text items tail"
    "\<forall>(s, ob) \<in> set items. sep_text s \<and> object_text ob"
    "sep_text tail \<or> (\<exists>s t. tail = s @ CHR '']'' # t \<and> sep_text s \<and> count_list s CHR ''['' \<le> 1)"
  shows "chunk_objects n [of_nat (length data)] data pos = Inr (map snd items, \<not> sep_text tail)"
  using assms
proof (induction items arbitrary: pos n)
  case Nil
  then obtain m where n: "n = Suc m" by (cases n) auto
  show ?case
  proof (cases "sep_text tail")
    case True
    have none: "find_next_json_object data pos = ([], length data)"
      using find_none [OF True] Nil.prems(3,4) by (simp add: stream_text_def)
    have "chunk_objects m [of_nat (length data)] data (length data) = Inr ([], False)" if "pos < length data"
      using Nil.prems(1,2) that n by (cases m) (simp_all add: bn_lt_nat)
    with none True Nil.prems(1,3) n show ?thesis by (simp add: bn_lt_nat)
  next
    case False
    with Nil.prems(6) obtain s t where t: "tail = s @ CHR '']'' # t" "sep_text s" "count_list s CHR ''['' \<le> 1"
      by blast
    have br: "find_next_json_object data pos = ('']'', pos + length s + 1)"
      using find_bracket [OF t(2) _ t(3)] Nil.prems(4) t(1) by (simp add: stream_text_def)
    have "pos < length data"
      using arg_cong [OF Nil.prems(4), of length] t(1) by (simp add: stream_text_def)
    with br False Nil.prems(1) n show ?thesis by (simp add: bn_lt_nat)
  qed
next
  case (Cons x items)
  obtain s ob where x: "x = (s, ob)" by fastforce
  from Cons.prems(5) have so: "sep_text s" "object_text ob" by (auto simp: x)
  let ?p = "pos + length s + length ob"
  have d: "drop pos data = s @ ob @ stream_text items tail"
    using Cons.prems(4) by (simp add: stream_text_def x)
  have f: "find_next_json_object data pos = (ob, ?p)" using find_object [OF so d] .
  have dp: "drop ?p data = stream_text items tail"
    using arg_cong [OF d, of "drop (length s + length ob)"] by (simp add: add.commute add.left_commute)
  have ob: "ob \<noteq> []" "hd ob \<noteq> CHR '']''" using so(2) by (auto simp: object_text_def)
  have lt: "pos < length data"
    using arg_cong [OF d, of length] ob(1) by (cases "pos < length data") auto
  obtain m where n: "n = Suc m" using Cons.prems(2) by (cases n) auto
  have pl: "pos < ?p \<and> ?p \<le> length data" using find_progress [OF lt f] by simp
  have "length data - ?p < m" using pl lt Cons.prems(2) n by linarith
  moreover have "\<forall>(s, ob) \<in> set items. sep_text s \<and> object_text ob" using Cons.prems(5) by simp
  ultimately have "chunk_objects m [of_nat (length data)] data ?p = Inr (map snd items, \<not> sep_text tail)"
    using pl dp by (intro Cons.IH [OF Cons.prems(1) _ _ _ _ Cons.prems(6)]) simp_all
  with f ob lt Cons.prems(1) n show ?case by (simp add: bn_lt_nat x)
qed

section \<open>Which objects the scanner takes whole\<close>

text \<open>
  How JSON delimits an object: braces count outside strings only, and a backslash in a string
  hides the next character.  The flags say whether the position is in a string and hidden.
\<close>

fun json_closes :: "nat \<Rightarrow> bool \<Rightarrow> bool \<Rightarrow> string \<Rightarrow> bool" where
  "json_closes d quoted hidden [] = False"
| "json_closes d quoted hidden (c # cs) =
     (if quoted then json_closes d (hidden \<or> c \<noteq> CHR 0x22) (\<not> hidden \<and> c = CHR 0x5C) cs
      else if c = CHR 0x22 then json_closes d True False cs
      else (let d' = (if c = CHR ''{'' then d + 1 else if c = CHR ''}'' then d - 1 else d)
        in if d' = 0 then cs = [] else json_closes d' False False cs))"

definition json_object_text :: "string \<Rightarrow> bool" where
  "json_object_text s \<longleftrightarrow> s \<noteq> [] \<and> hd s = CHR ''{'' \<and> json_closes 1 False False (tl s)"

text \<open>No string has a brace in it.\<close>

fun plain_strings :: "bool \<Rightarrow> bool \<Rightarrow> string \<Rightarrow> bool" where
  "plain_strings quoted hidden [] = True"
| "plain_strings quoted hidden (c # cs) =
     (if quoted then c \<noteq> CHR ''{'' \<and> c \<noteq> CHR ''}'' \<and> plain_strings (hidden \<or> c \<noteq> CHR 0x22) (\<not> hidden \<and> c = CHR 0x5C) cs
      else plain_strings (c = CHR 0x22) False cs)"

lemma json_closes_plain:
  "json_closes d quoted hidden s \<Longrightarrow> plain_strings quoted hidden s \<Longrightarrow> 0 < d \<Longrightarrow> closes d s"
  by (induction d quoted hidden s rule: json_closes.induct) (auto simp: Let_def split: if_splits)

lemma json_object_plain:
  assumes "json_object_text s" "plain_strings False False s"
  shows "object_text s"
proof -
  from assms(1) obtain r where s: "s = CHR ''{'' # r" "json_closes 1 False False r"
    by (cases s) (auto simp: json_object_text_def)
  moreover have "plain_strings False False r" using assms(2) s(1) by simp
  ultimately show ?thesis using json_closes_plain [of 1 False False r] by (simp add: object_text_def)
qed

lemma scan_whole:
  "scan s pos d k op cl = ObjectExit op' q (pos + length s) \<Longrightarrow> cl \<le> op \<Longrightarrow> op < pos \<Longrightarrow> op' < q \<Longrightarrow> 0 < d \<Longrightarrow> closes d s"
proof (induction s arbitrary: pos d k)
  case (Cons c s)
  have IH: "0 < d' \<Longrightarrow> scan s (pos + 1) d' k' op cl = ObjectExit op' q (pos + length (c # s)) \<Longrightarrow> closes d' s" for d' k'
    using Cons.IH [of "pos + 1" d' k'] Cons.prems(2-4) by simp
  show ?case
    using Cons.prems IH by (auto simp: Let_def split: if_splits)
qed simp

text \<open>The texts that the scanner takes whole are the ones of \<open>object_text\<close>.\<close>

lemma object_text_iff:
  assumes "hd ob = CHR ''{''" "ob \<noteq> []"
  shows "object_text ob \<longleftrightarrow> find_next_json_object ob 0 = (ob, length ob)"
proof
  assume "object_text ob"
  with find_object [of "[]" ob 0 ob "[]"] show "find_next_json_object ob 0 = (ob, length ob)" by (simp add: sep_text_def)
next
  assume f: "find_next_json_object ob 0 = (ob, length ob)"
  obtain r where ob: "ob = CHR ''{'' # r" using assms by (cases ob) auto
  with f obtain op q where "scan r 1 1 0 0 0 = ObjectExit op q (1 + length r)" "op < q"
    by (auto simp: find_next_json_object_def split: scan_exit.splits if_splits)
  from scan_whole [OF this(1) _ _ this(2)] ob show "object_text ob" by (simp add: object_text_def)
qed

text \<open>
  C37: the loop over a complete chunk always ends, and on a piece of a JSON array (objects
  between separators, then perhaps the closing bracket) it delivers exactly the objects of the
  piece, in order, and says whether the array was closed, provided that the text of every object is
  one whose braces, those inside JSON strings counted as well, balance for the first time at its end.
  These are exactly the texts that the scanner takes whole; every JSON object is one when no string
  in it has a brace, but an object with an unbalanced brace in a string is cut elsewhere.
\<close>
theorem chunk_objects_correct:
  assumes "length data < 2 ^ 64" "data = stream_text items tail"
    "\<forall>(s, ob) \<in> set items. sep_text s \<and> object_text ob"
    "sep_text tail \<or> (\<exists>s t. tail = s @ CHR '']'' # t \<and> sep_text s \<and> count_list s CHR ''['' \<le> 1)"
  shows "chunk_objects (Suc (length data)) [of_nat (length data)] data 0 = Inr (map snd items, \<not> sep_text tail) \<and>
    (\<forall>d. length d < 2 ^ 64 \<longrightarrow> chunk_objects (Suc (length d)) [of_nat (length d)] d 0 \<noteq> Inl NoReturn) \<and>
    (\<forall>ob. ob \<noteq> [] \<and> hd ob = CHR ''{'' \<longrightarrow> (object_text ob \<longleftrightarrow> find_next_json_object ob 0 = (ob, length ob))) \<and>
    (\<forall>ob. json_object_text ob \<and> plain_strings False False ob \<longrightarrow> object_text ob)"
proof (intro conjI)
  show "chunk_objects (Suc (length data)) [of_nat (length data)] data 0 = Inr (map snd items, \<not> sep_text tail)"
    by (rule chunk_objects_items [OF assms(1) _ _ _ assms(3,4)]) (simp_all add: assms(2))
  show "\<forall>d. length d < 2 ^ 64 \<longrightarrow> chunk_objects (Suc (length d)) [of_nat (length d)] d 0 \<noteq> Inl NoReturn"
    by (intro allI impI chunk_objects_returns) simp_all
  show "\<forall>ob. ob \<noteq> [] \<and> hd ob = CHR ''{'' \<longrightarrow> (object_text ob \<longleftrightarrow> find_next_json_object ob 0 = (ob, length ob))"
    using object_text_iff by blast
  show "\<forall>ob. json_object_text ob \<and> plain_strings False False ob \<longrightarrow> object_text ob"
    using json_object_plain by blast
qed

theorem chunk_objects_correct_witness:
  "chunk_objects (Suc (length ''[{a},{b{}}]'')) [of_nat (length ''[{a},{b{}}]'')] ''[{a},{b{}}]'' 0 =
     Inr ([''{a}'', ''{b{}}''], True)"
proof -
  have "chunk_objects (Suc (length ''[{a},{b{}}]'')) [of_nat (length ''[{a},{b{}}]'')] ''[{a},{b{}}]'' 0 =
      Inr (map snd [(''['', ''{a}''), ('','', ''{b{}}'')], \<not> sep_text '']'')"
    by (rule conjunct1 [OF chunk_objects_correct])
       (simp_all add: stream_text_def sep_text_def object_text_def exI [of _ "[]"])
  then show ?thesis by (simp add: sep_text_def)
qed

text \<open>
  Braces inside a JSON string are counted like any others, so a result that contains a
  closing brace in a string is cut off in the middle of the string, and the parser behind the
  scanner gets a text that is not JSON.
\<close>
theorem find_next_json_object_ignores_strings:
  "find_next_json_object ''{:'' 0 = ([], 2) \<and>
   find_next_json_object (''{'' @ [CHR 0x22] @ ''a}'' @ [CHR 0x22] @ '':1}'') 0 =
     (''{'' @ [CHR 0x22] @ ''a}'', 4)"
  by (simp add: find_next_json_object_def)

end
