(* ===== verification/Scheduler.thy ===== *)
theory Scheduler
  imports ExecutionContext JsonScan
begin

text \<open>
  The scheduling of actions in \<open>controller-app.cpp\<close>: the start of a run, the results that peers
  send, the pass over the contexts after a thread has finished, and the requests for the
  secondary contexts.  \<open>nxt\<close> is \<open>ActionManifest::next\<close>, with its fuel fixed.  A peer session is
  kept as the chunks of the message that is being written to it; \<open>parse\<close> and \<open>serialize key j\<close>
  are the JSON library's, the latter for \<open>{"result":{key:j}}\<close>.
\<close>

section \<open>Requests for the secondary contexts\<close>

definition populate_indices :: "nat \<Rightarrow> nat \<Rightarrow> nat list" where
  "populate_indices manifest_size cc =
     (if manifest_size < cc then [1..<cc]
      else map (\<lambda>i. i * (manifest_size div cc)) [1..<cc])"

text \<open>\<open>ntop\<close> is \<open>inet_ntop\<close>; the buffer for the port has five characters.\<close>

definition rtostr :: "(32 word \<Rightarrow> string) \<Rightarrow> peer \<Rightarrow> string result" where
  "rtostr ntop p =
     (if 5 < length (show_nat 10 (peer_port p)) then Inl (Thrown ''This shouldn't be possible.'')
      else Inr (ntop (peer_addr p) @ '':'' @ show_nat 10 (peer_port p)))"

fun rtostrs :: "(32 word \<Rightarrow> string) \<Rightarrow> peer list \<Rightarrow> string list result" where
  "rtostrs ntop [] = Inr []"
| "rtostrs ntop (p # ps) = rbind (rtostr ntop p) (\<lambda>s. rbind (rtostrs ntop ps) (\<lambda>ss. Inr (s # ss)))"

record 'j request_data =
  rd_uuid :: string
  rd_peers :: "string list"
  rd_value :: 'j
  rd_idx :: nat

text \<open>\<open>val\<close> is the member \<open>value\<close> of the request, if it is there.\<close>

definition populate_request_data ::
  "(32 word \<Rightarrow> string) \<Rightarrow> exec_context \<Rightarrow> 'j option \<Rightarrow> nat list \<Rightarrow> 'j request_data result" where
  "populate_request_data ntop c val indices =
     rbind (rtostrs ntop (ec_peers c)) (\<lambda>ps.
     rbind (case val of None \<Rightarrow> Inl (Thrown ''out_of_range'') | Some v \<Rightarrow> Inr v) (\<lambda>v.
     rbind (vec_at indices 1) (\<lambda>i.
       Inr \<lparr>rd_uuid = uuid_show (ec_id c), rd_peers = ps, rd_value = v, rd_idx = i\<rparr>)))"

text \<open>
  The bodies posted, in order.  \<open>curl_ok i\<close> says that the calls into libcurl for the \<open>i\<close>-th handle
  succeed, \<open>reuse\<close> that a finished handle was found, \<open>genv\<close> is \<open>getenv\<close>.
\<close>

definition api_url :: "string \<Rightarrow> string \<Rightarrow> string result" where
  "api_url host name =
     (let rel = dropWhile (\<lambda>c. c = CHR ''/'') name in
      if rel = [] then Inl (Undefined ''*end()'')
      else Inr (host @ ''/api/v1/namespaces/'' @ takeWhile (\<lambda>c. c \<noteq> CHR ''/'') rel @ ''/actions/'' @ path_filename name))"

fun api_loop :: "(nat \<Rightarrow> bool) \<Rightarrow> nat list \<Rightarrow> 'j request_data \<Rightarrow> nat list \<Rightarrow> 'j request_data list result" where
  "api_loop curl_ok indices d [] = Inr []"
| "api_loop curl_ok indices d (i # is) =
     (if \<not> curl_ok i then what
      else rbind (vec_at indices i) (\<lambda>x.
           rbind (api_loop curl_ok indices d is) (\<lambda>ds. Inr (d\<lparr>rd_idx := x\<rparr> # ds))))"

definition make_api_requests ::
  "(32 word \<Rightarrow> string) \<Rightarrow> environment \<Rightarrow> bool \<Rightarrow> (nat \<Rightarrow> bool) \<Rightarrow> exec_context \<Rightarrow> 'j option \<Rightarrow>
   (string \<times> 'j request_data list) result" where
  "make_api_requests ntop genv reuse curl_ok c val =
     (let cc = concurrency (ec_manifest c) in
      if cc \<le> 1 then Inr ([], [])
      else case genv ''__OW_ACTION_NAME'' of None \<Rightarrow> what | Some name \<Rightarrow>
        (case genv ''__OW_API_HOST'' of None \<Rightarrow> what | Some host \<Rightarrow>
        (case ec_env c ''__OW_API_KEY'' of None \<Rightarrow> what | Some key \<Rightarrow>
           if key = [] then what
           else
             (let indices = populate_indices (length (index (ec_manifest c))) cc in
              rbind (populate_request_data ntop c val indices) (\<lambda>d.
              rbind (api_url host name) (\<lambda>url.
                if \<not> reuse \<and> find_char CHR '':'' key = None then what
                else rbind (api_loop curl_ok indices d [0..<cc - 1]) (\<lambda>ds. Inr (url, ds))))))))"

section \<open>The state\<close>

record sched_env =
  se_ctx :: exec_context
  se_box :: "16 word"
  se_queue :: sched
  se_peers :: "http_chunk list list"

abbreviation "threads s \<equiv> ec_threads (se_ctx s)"
abbreviation "graph s \<equiv> ec_manifest (se_ctx s)"

definition set_threads :: "thread_controls list \<Rightarrow> sched_env \<Rightarrow> sched_env" where
  "set_threads ts s = s\<lparr>se_ctx := (se_ctx s)\<lparr>ec_threads := ts\<rparr>\<rparr>"

definition set_graph :: "manifest \<Rightarrow> sched_env \<Rightarrow> sched_env" where
  "set_graph m s = s\<lparr>se_ctx := (se_ctx s)\<lparr>ec_manifest := m\<rparr>\<rparr>"

definition sched_end :: "sched_env \<Rightarrow> sched_env" where
  "sched_end s = s\<lparr>se_box := se_box s OR ctl_end_event\<rparr>"

definition yield_queue :: "sched_env \<Rightarrow> sched_env" where
  "yield_queue s = s\<lparr>se_queue := fst (thread_sched_yield False (se_queue s))\<rparr>"

text \<open>The key of the relation that \<open>next\<close> returned.\<close>

definition next_key :: "manifest \<Rightarrow> nat option \<Rightarrow> string" where
  "next_key m nx = (case nx of None \<Rightarrow> rel_key default_relation | Some a \<Rightarrow> key_at m a)"

text \<open>\<open>thread_controls[j].notify(i)\<close>, which also gives the turn to the next initializer.\<close>

definition notify_at :: "nat \<Rightarrow> nat \<Rightarrow> sched_env \<Rightarrow> sched_env result" where
  "notify_at j i s = rbind (vec_at (threads s) j) (\<lambda>t. Inr (yield_queue (set_threads ((threads s)[j := notify i t]) s)))"

definition start_at :: "manifest \<Rightarrow> nat \<Rightarrow> string result" where
  "start_at m i = (if index m = [] then Inl (Undefined ''i % 0'')
     else Inr (key_at m (index m ! (i mod length (index m)))))"

section \<open>Rescheduling after a result has arrived\<close>

type_synonym chooser = "string \<Rightarrow> nat \<Rightarrow> manifest \<Rightarrow> nat option result"

definition stop_all :: "sched_env \<Rightarrow> sched_env" where
  "stop_all s = set_threads (map (\<lambda>t. snd (stop_thread t)) (threads s)) s"

fun resched_loop :: "chooser \<Rightarrow> nat list \<Rightarrow> sched_env \<Rightarrow> sched_env result" where
  "resched_loop nxt [] s = Inr s"
| "resched_loop nxt (i # is) s =
     (let m = graph s in
      rbind (start_at m i) (\<lambda>key.
      rbind (nxt key i m) (\<lambda>nx.
        if next_key m nx = [] then Inr (yield_queue (stop_all s))
        else
          (let j = find_key m (next_key m nx) in
           if j = length (index m) then what
           else rbind (notify_at j i s) (resched_loop nxt is)))))"

definition reschedule_actions :: "chooser \<Rightarrow> nat \<Rightarrow> sched_env \<Rightarrow> sched_env result" where
  "reschedule_actions nxt k s =
     rbind (vec_at (threads s) k) (\<lambda>t. case stop_thread t of (idxs, t') \<Rightarrow>
       resched_loop nxt idxs (sched_end (set_threads ((threads s)[k := t']) s)))"

text \<open>
  The members of a \<open>result\<close> object, with their values as text.  \<open>may_set\<close> tells which values are
  replaced: the two routes differ.
\<close>

fun result_loop :: "chooser \<Rightarrow> string \<Rightarrow> (string \<Rightarrow> bool) \<Rightarrow> (string \<times> string) list \<Rightarrow> sched_env \<Rightarrow> sched_env result" where
  "result_loop nxt msg may_set [] s = Inr s"
| "result_loop nxt msg may_set ((k, d) # kvps) s =
     (let m = graph s; j = find_key m k in
      if j = length (index m) then Inl (Thrown msg)
      else if d = ''null'' then result_loop nxt msg may_set kvps s
      else
        (let a = index m ! j;
             m1 = (if may_set (rel_value (rel_at m a)) then set_value a d m else m)
         in rbind (reschedule_actions nxt j (set_graph m1 s)) (result_loop nxt msg may_set kvps)))"

definition request_results :: "chooser \<Rightarrow> (string \<times> string) list \<Rightarrow> sched_env \<Rightarrow> sched_env result" where
  "request_results nxt = result_loop nxt ''This should never happen.'' (\<lambda>v. v = [] \<or> v = ''null'')"

definition response_results :: "chooser \<Rightarrow> (string \<times> string) list \<Rightarrow> sched_env \<Rightarrow> sched_env result" where
  "response_results nxt = result_loop nxt ''This shouldn't be possible'' (\<lambda>v. v = [])"

section \<open>The pass over the contexts\<close>

definition unhandled :: "thread_controls \<Rightarrow> bool" where
  "unhandled t \<longleftrightarrow> is_stopped t \<and> has_pending_idxs t"

definition result_text :: "(string \<Rightarrow> 'j result) \<Rightarrow> (string \<Rightarrow> 'j \<Rightarrow> string) \<Rightarrow> relation \<Rightarrow> string result" where
  "result_text parse serialize r =
     (if rel_value r \<noteq> [] \<and> rel_value r \<noteq> ''null''
      then rbind (parse (rel_value r)) (\<lambda>j. Inr ('','' @ serialize (rel_key r) j))
      else Inr [])"

definition tell_peers :: "string \<Rightarrow> sched_env \<Rightarrow> sched_env" where
  "tell_peers data s = s\<lparr>se_peers := map (\<lambda>cs. cs @ [data_chunk data]) (se_peers s)\<rparr>"

definition update_peers ::
  "(string \<Rightarrow> 'j result) \<Rightarrow> (string \<Rightarrow> 'j \<Rightarrow> string) \<Rightarrow> nat \<Rightarrow> sched_env \<Rightarrow> sched_env result" where
  "update_peers parse serialize k s =
     (if 0 < length (se_peers s) then
        rbind (vec_at (index (graph s)) k) (\<lambda>a.
        rbind (result_text parse serialize (rel_at (graph s) a)) (\<lambda>data.
          Inr (if data = [] then s else tell_peers data s)))
      else Inr s)"

fun update_loop :: "chooser \<Rightarrow> string \<Rightarrow> nat list \<Rightarrow> sched_env \<Rightarrow> sched_env result" where
  "update_loop nxt key [] s = Inr s"
| "update_loop nxt key (i # is) s =
     rbind (nxt key i (graph s)) (\<lambda>nx.
     rbind (notify_at (find_key (graph s) (next_key (graph s) nx)) i s) (update_loop nxt key is))"

text \<open>One turn of the loop over the contexts with a stopped thread that has indices pending.\<close>

definition handle_updated ::
  "chooser \<Rightarrow> (string \<Rightarrow> 'j result) \<Rightarrow> (string \<Rightarrow> 'j \<Rightarrow> string) \<Rightarrow> sched_env \<Rightarrow> sched_env result" where
  "handle_updated nxt parse serialize s =
     (let k = find_if unhandled (threads s) in
      rbind (vec_at (threads s) k) (\<lambda>t. case pop_idxs t of (idxs, t') \<Rightarrow>
      rbind (update_peers parse serialize k (set_threads ((threads s)[k := t']) s)) (\<lambda>s1.
      rbind (vec_at (index (graph s1)) ((k + 1) mod length (threads s1))) (\<lambda>a.
        update_loop nxt (key_at (graph s1) a) idxs s1))))"

text \<open>The text for the peers of a stopped context; its pending indices are dropped.\<close>

fun stopped_text ::
  "(string \<Rightarrow> 'j result) \<Rightarrow> (string \<Rightarrow> 'j \<Rightarrow> string) \<Rightarrow> manifest \<Rightarrow> nat \<Rightarrow> thread_controls list \<Rightarrow> string \<Rightarrow>
   (thread_controls list \<times> string) result" where
  "stopped_text parse serialize m i [] data = Inr ([], data)"
| "stopped_text parse serialize m i (t # ts) data =
     rbind (vec_at (index m) i) (\<lambda>a.
     rbind (result_text parse serialize (rel_at m a)) (\<lambda>x.
     rbind (stopped_text parse serialize m (Suc i) ts (data @ x)) (\<lambda>(ts', data').
       Inr ((if has_pending_idxs t then snd (pop_idxs t) else t) # ts', data'))))"

text \<open>The peers get the text, the end of the array and an empty chunk; then their list is empty.\<close>

definition handle_stopped ::
  "(string \<Rightarrow> 'j result) \<Rightarrow> (string \<Rightarrow> 'j \<Rightarrow> string) \<Rightarrow> sched_env \<Rightarrow> (http_chunk list list \<times> sched_env) result" where
  "handle_stopped parse serialize s =
     rbind (stopped_text parse serialize (graph s) 0 (threads s) []) (\<lambda>(ts, data).
       Inr (map (\<lambda>cs. cs @ [data_chunk (data @ '']''), empty_chunk]) (se_peers s),
            (set_threads ts s)\<lparr>se_peers := []\<rparr>))"

text \<open>The loop that handles and erases the stopped contexts, searching from the start each time.\<close>

fun stopped_loop :: "nat \<Rightarrow> ('c \<Rightarrow> bool) \<Rightarrow> ('c \<Rightarrow> 'd result) \<Rightarrow> 'c list \<Rightarrow> 'd list \<Rightarrow> ('d list \<times> 'c list) result" where
  "stopped_loop 0 stopped handle cs out = Inl NoReturn"
| "stopped_loop (Suc n) stopped handle cs out =
     (let i = find_if stopped cs in
      if i < length cs then
        rbind (handle (cs ! i)) (\<lambda>d. stopped_loop n stopped handle (take i cs @ drop (Suc i) cs) (out @ [d]))
      else Inr (out, cs))"

section \<open>The start of a run\<close>

text \<open>What \<open>route_request\<close> does with a new context once its peers have been told.\<close>

definition start_run :: "chooser \<Rightarrow> sched_env \<Rightarrow> sched_env result" where
  "start_run nxt s =
     rbind (pop_execution_idx (se_ctx s)) (\<lambda>(i, c).
       let s1 = s\<lparr>se_ctx := c\<rparr>; m = graph s1 in
       rbind (start_at m i) (\<lambda>key.
       rbind (nxt key i m) (\<lambda>nx.
         let j = find_key m (next_key m nx) in
         if j = length (index m) then Inr (sched_end s1)
         else notify_at j i (s1\<lparr>se_queue := snd (thread_sched_push (se_queue s1))\<rparr>))))"

text \<open>A peer answered with an error and there are fewer than three peers: the context is given up.\<close>

fun null_values :: "nat list \<Rightarrow> manifest \<Rightarrow> manifest" where
  "null_values [] m = m"
| "null_values (a # as) m =
     null_values as (if rel_value (rel_at m a) = [] then set_value a ''null'' m else m)"

definition peer_failed :: "sched_env \<Rightarrow> sched_env result" where
  "peer_failed s =
     (if length (ec_peers (se_ctx s)) < 3 then
        (if length (threads s) \<le> length (index (graph s))
         then Inr (sched_end (stop_all (set_graph (null_values (take (length (threads s)) (index (graph s))) (graph s)) s)))
         else Inl (Undefined ''operator[]''))
      else Inr s)"

text \<open>The end of an executor: the value it read, if any, and its end event.\<close>

definition executor_end :: "nat \<Rightarrow> string \<Rightarrow> sched_env \<Rightarrow> sched_env" where
  "executor_end k v s =
     (let t = threads s ! k; m = graph s in
      sched_end (set_threads ((threads s)[k := t\<lparr>tc_signal := tc_signal t OR ctl_end_event\<rparr>])
        (set_graph (if v = [] \<or> v = ''null'' then m else set_value (tc_relation t) v m) s)))"

section \<open>What the operations keep\<close>

definition pending :: "sched_env \<Rightarrow> nat multiset" where
  "pending s = mset (concat (map tc_idxs (threads s)))"

definition all_stopped :: "sched_env \<Rightarrow> bool" where
  "all_stopped s \<longleftrightarrow> (\<forall>t \<in> set (threads s). is_stopped t)"

text \<open>The threads are those of the relations, in their order.\<close>

definition threads_match :: "sched_env \<Rightarrow> bool" where
  "threads_match s \<longleftrightarrow> map tc_relation (threads s) = index (graph s)"

definition all_valued :: "manifest \<Rightarrow> bool" where
  "all_valued m \<longleftrightarrow> (\<forall>a \<in> set (index m). rel_value (rel_at m a) \<noteq> [])"

named_theorems thread_simps "what the operations on one thread do to its fields"

lemma notify_fields [thread_simps]:
  "tc_idxs (notify i t) = tc_idxs t @ [i]" "tc_relation (notify i t) = tc_relation t"
  "is_stopped (notify i t) = is_stopped t" "tc_state (notify i t) = tc_state t"
proof -
  have "ctl_start_event AND ctl_end_event = 0" by (simp add: ctl_start_event_def ctl_end_event_def)
  then have "(tc_signal t OR ctl_start_event) AND ctl_end_event = tc_signal t AND ctl_end_event"
    by (metis bit.conj_disj_distrib2 or.right_neutral)
  then show "is_stopped (notify i t) = is_stopped t" by (simp add: is_stopped_def notify_def)
qed (simp_all add: notify_def)

lemma or_end_stopped: "(w OR ctl_end_event) AND ctl_end_event \<noteq> 0"
proof
  assume "(w OR ctl_end_event) AND ctl_end_event = 0"
  then have "(w AND ctl_end_event) OR ctl_end_event = 0" by (metis bit.conj_disj_distrib2 and.idem)
  then show False by (simp add: or_eq_0_iff ctl_end_event_def)
qed

lemma stop_fields [thread_simps]:
  "fst (stop_thread t) = tc_idxs t" "tc_idxs (snd (stop_thread t)) = []"
  "tc_relation (snd (stop_thread t)) = tc_relation t" "is_stopped (snd (stop_thread t))"
proof -
  show "is_stopped (snd (stop_thread t))"
    using or_end_stopped [of "tc_signal t OR ctl_start_event"]
    by (simp add: stop_thread_def Let_def is_stopped_def or.assoc)
qed (simp_all add: stop_thread_def Let_def)

lemma end_fields [thread_simps]:
  "is_stopped (t\<lparr>tc_signal := tc_signal t OR ctl_end_event\<rparr>)"
  using or_end_stopped by (simp add: is_stopped_def)

lemma pop_fields [thread_simps]:
  "fst (pop_idxs t) = tc_idxs t" "tc_idxs (snd (pop_idxs t)) = []"
  "tc_relation (snd (pop_idxs t)) = tc_relation t" "is_stopped (snd (pop_idxs t)) = is_stopped t"
  by (simp_all add: pop_idxs_def is_stopped_def)

lemma set_threads_simps [simp]:
  "threads (set_threads ts s) = ts" "graph (set_threads ts s) = graph s"
  "se_peers (set_threads ts s) = se_peers s" "se_box (set_threads ts s) = se_box s"
  "se_queue (set_threads ts s) = se_queue s"
  by (simp_all add: set_threads_def)

lemma set_graph_simps [simp]:
  "threads (set_graph m s) = threads s" "graph (set_graph m s) = m"
  "se_peers (set_graph m s) = se_peers s" "se_queue (set_graph m s) = se_queue s"
  by (simp_all add: set_graph_def)

lemma sched_end_simps [simp]:
  "threads (sched_end s) = threads s" "graph (sched_end s) = graph s" "se_peers (sched_end s) = se_peers s"
  by (simp_all add: sched_end_def)

lemma stop_all_simps [simp]: "graph (stop_all s) = graph s" "se_peers (stop_all s) = se_peers s"
  by (simp_all add: stop_all_def)

lemma yield_queue_simps [simp]:
  "se_ctx (yield_queue s) = se_ctx s" "se_peers (yield_queue s) = se_peers s" "se_box (yield_queue s) = se_box s"
  by (simp_all add: yield_queue_def)

lemma concat_update:
  assumes "k < length ts"
  shows "mset (concat (map f (ts[k := t]))) + mset (f (ts ! k)) = mset (concat (map f ts)) + mset (f t)"
proof -
  have "mset (concat (map f ts)) = mset (concat (map f (take k ts))) + mset (f (ts ! k)) + mset (concat (map f (drop (Suc k) ts)))"
    using arg_cong [OF id_take_nth_drop [OF assms], of "\<lambda>ts. mset (concat (map f ts))"] by simp
  then show ?thesis by (simp add: upd_conv_take_nth_drop assms)
qed

lemma pending_set:
  assumes "k < length (threads s)"
  shows "pending (set_threads ((threads s)[k := t]) s) + mset (tc_idxs (threads s ! k)) = pending s + mset (tc_idxs t)"
  using concat_update [OF assms] by (simp add: pending_def)

lemma notify_at_iff:
  "notify_at j i s = Inr s' \<longleftrightarrow> j < length (threads s) \<and>
     s' = yield_queue (set_threads ((threads s)[j := notify i (threads s ! j)]) s)"
  by (auto simp: notify_at_def rbind_Inr_iff vec_at_Inr_iff)

lemma notify_at_pending:
  assumes "notify_at j i s = Inr s'"
  shows "pending s' = add_mset i (pending s)"
proof -
  from assms have j: "j < length (threads s)" and s': "s' = yield_queue (set_threads ((threads s)[j := notify i (threads s ! j)]) s)"
    by (simp_all add: notify_at_iff)
  have "pending s' + mset (tc_idxs (threads s ! j)) = add_mset i (pending s) + mset (tc_idxs (threads s ! j))"
    using pending_set [OF j, of "notify i (threads s ! j)"] by (simp add: s' thread_simps pending_def)
  then show ?thesis by (rule add_right_imp_eq)
qed

lemma update_same:
  assumes "k < length ts" "f t = f (ts ! k)"
  shows "map f (ts[k := t]) = map f ts"
  using assms by (simp add: map_update list_update_same_conv)

lemma notify_at_frame:
  assumes "notify_at j i s = Inr s'"
  shows "graph s' = graph s" "map tc_relation (threads s') = map tc_relation (threads s)"
    "map is_stopped (threads s') = map is_stopped (threads s)" "se_peers s' = se_peers s"
  using assms by (auto simp: notify_at_iff thread_simps update_same)

lemma stop_all_pending: "pending (stop_all s) = {#}" "all_stopped (stop_all s)"
  "map tc_relation (threads (stop_all s)) = map tc_relation (threads s)"
  by (auto simp: pending_def stop_all_def all_stopped_def thread_simps comp_def)

lemma all_stopped_map: "map is_stopped (threads s') = map is_stopped (threads s) \<Longrightarrow> all_stopped s' = all_stopped s"
  unfolding all_stopped_def by (metis (no_types, lifting) in_set_conv_nth length_map nth_map)

text \<open>The position that the chooser picks, when it picks one.\<close>

definition pick :: "chooser \<Rightarrow> manifest \<Rightarrow> string \<Rightarrow> nat \<Rightarrow> nat" where
  "pick nxt m key i = (case nxt key i m of Inr (Some a) \<Rightarrow> find_key m (key_at m a) | _ \<Rightarrow> 0)"

text \<open>The state after the indices \<open>is\<close> were handed to the threads, \<open>i\<close> to thread \<open>p i\<close>, in order.\<close>

definition handed :: "(nat \<Rightarrow> nat) \<Rightarrow> nat list \<Rightarrow> sched_env \<Rightarrow> sched_env \<Rightarrow> bool" where
  "handed p is s s' \<longleftrightarrow> graph s' = graph s \<and> length (threads s') = length (threads s) \<and>
     (\<forall>j < length (threads s). threads s' ! j = fold notify (filter (\<lambda>i. p i = j) is) (threads s ! j))"

lemma handed_Nil: "handed p [] s s"
  by (simp add: handed_def)

lemma handed_Cons:
  assumes "notify_at (p i) i s = Inr s1" "handed p is s1 s'"
  shows "handed p (i # is) s s'"
  using assms by (auto simp: handed_def notify_at_iff nth_list_update)

lemma fold_notify_fields [thread_simps]:
  "tc_idxs (fold notify is t) = tc_idxs t @ is" "tc_relation (fold notify is t) = tc_relation t"
  "is_stopped (fold notify is t) = is_stopped t"
  by (induction "is" arbitrary: t) (simp_all add: thread_simps)

lemma resched_loop_frame:
  "resched_loop nxt is s = Inr s' \<Longrightarrow> graph s' = graph s \<and> map tc_relation (threads s') = map tc_relation (threads s) \<and>
   (all_stopped s \<longrightarrow> all_stopped s') \<and> se_peers s' = se_peers s"
proof (induction "is" arbitrary: s)
  case Nil
  then show ?case by simp
next
  case (Cons i "is")
  let ?m = "graph s"
  from Cons.prems obtain key nx where "start_at ?m i = Inr key" "nxt key i ?m = Inr nx"
    and r: "(if next_key ?m nx = [] then Inr (yield_queue (stop_all s))
        else (let j = find_key ?m (next_key ?m nx) in if j = length (index ?m) then what
           else rbind (notify_at j i s) (resched_loop nxt is))) = Inr s'"
    by (auto simp: rbind_Inr_iff Let_def)
  show ?case
  proof (cases "next_key ?m nx = []")
    case True
    with r have "s' = yield_queue (stop_all s)" by simp
    with stop_all_pending [of s] show ?thesis by (simp add: all_stopped_def)
  next
    case False
    with r obtain s1 where s1: "notify_at (find_key ?m (next_key ?m nx)) i s = Inr s1" "resched_loop nxt is s1 = Inr s'"
      by (auto simp: Let_def rbind_Inr_iff split: if_splits)
    with Cons.IH [OF s1(2)] notify_at_frame [OF s1(1)] all_stopped_map show ?thesis by metis
  qed
qed

lemma update_loop_frame:
  "update_loop nxt key is s = Inr s' \<Longrightarrow> graph s' = graph s \<and> map tc_relation (threads s') = map tc_relation (threads s) \<and>
   (all_stopped s \<longrightarrow> all_stopped s') \<and> se_peers s' = se_peers s \<and> pending s' = pending s + mset is"
proof (induction "is" arbitrary: s)
  case Nil
  then show ?case by simp
next
  case (Cons i "is")
  from Cons.prems obtain nx s1 where s1: "notify_at (find_key (graph s) (next_key (graph s) nx)) i s = Inr s1"
    "update_loop nxt key is s1 = Inr s'"
    by (auto simp: rbind_Inr_iff)
  have "all_stopped s1 = all_stopped s" by (rule all_stopped_map [OF notify_at_frame(3) [OF s1(1)]])
  with Cons.IH [OF s1(2)] notify_at_frame [OF s1(1)] notify_at_pending [OF s1(1)] show ?case by simp
qed

section \<open>The contract of the chooser\<close>

text \<open>
  What scheduling needs of \<open>next\<close>: a relation it returns is ready, it returns one from every key
  while some relation has no value, and it says that all are complete only when they are.
\<close>

locale chooser_contract =
  fixes nxt :: chooser and good :: "manifest \<Rightarrow> bool"
  assumes good_keys: "good m \<Longrightarrow> [] \<notin> keys m \<and> distinct (map (key_at m) (index m))"
    and nxt_Some: "good m \<Longrightarrow> key \<in> keys m \<Longrightarrow> nxt key i m = Inr (Some a) \<Longrightarrow> ready m a"
    and nxt_None: "good m \<Longrightarrow> key \<in> keys m \<Longrightarrow> nxt key i m = Inr None \<Longrightarrow>
      \<forall>a \<in> set (index m). \<not> incomplete (rel_at m a)"
    and nxt_ready: "good m \<Longrightarrow> key \<in> keys m \<Longrightarrow> \<exists>a \<in> set (index m). rel_value (rel_at m a) = [] \<Longrightarrow>
      \<exists>a. nxt key i m = Inr (Some a)"
    and nxt_complete: "good m \<Longrightarrow> key \<in> keys m \<Longrightarrow> \<forall>a \<in> set (index m). \<not> incomplete (rel_at m a) \<Longrightarrow>
      nxt key i m = Inr None"
    and good_store: "good m \<Longrightarrow> a \<in> set (index m) \<Longrightarrow> a < length (store m)"
    and good_set_value: "good m \<Longrightarrow> a \<in> set (index m) \<Longrightarrow> good (set_value a v m)"
begin

lemma next_key_Some: "good m \<Longrightarrow> key \<in> keys m \<Longrightarrow> nxt key i m = Inr (Some a) \<Longrightarrow>
  next_key m (Some a) \<noteq> [] \<and> next_key m (Some a) \<in> keys m"
proof -
  assume a: "good m" "key \<in> keys m" "nxt key i m = Inr (Some a)"
  then have "ready m a" by (rule nxt_Some)
  then have "key_at m a \<in> keys m" by (simp add: ready_def)
  moreover have "[] \<notin> keys m" using good_keys [OF a(1)] by (rule conjunct1)
  ultimately show ?thesis unfolding next_key_def option.case by metis
qed

lemma start_key: 
  assumes "start_at m i = Inr key"
  shows "key \<in> keys m"
proof -
  from assms have "index m \<noteq> []" "key = key_at m (index m ! (i mod length (index m)))"
    by (simp_all add: start_at_def split: if_splits)
  moreover from this have "i mod length (index m) < length (index m)" by simp
  ultimately show ?thesis using nth_mem by blast
qed

lemma pick_ready:
  assumes "good m" "key \<in> keys m" "\<exists>a \<in> set (index m). rel_value (rel_at m a) = []"
  shows "\<exists>a. nxt key i m = Inr (Some a) \<and> next_key m (Some a) \<noteq> [] \<and>
    find_key m (next_key m (Some a)) = pick nxt m key i \<and> pick nxt m key i < length (index m) \<and>
    ready m (index m ! pick nxt m key i)"
proof -
  from nxt_ready [OF assms] obtain a where a: "nxt key i m = Inr (Some a)" by blast
  have r: "ready m a" by (rule nxt_Some [OF assms(1,2) a])
  then have am: "a \<in> set (index m)" by (simp add: ready_def)
  have p: "pick nxt m key i = find_key m (key_at m a)" by (simp add: pick_def a)
  have lt: "find_key m (key_at m a) < length (index m)" using am by (simp add: find_key_less)
  have "key_at m (index m ! find_key m (key_at m a)) = key_at m a" using am by (intro find_key_at) simp
  moreover have "inj_on (key_at m) (set (index m))" using good_keys [OF assms(1)] by (simp add: distinct_map)
  ultimately have "index m ! find_key m (key_at m a) = a" using lt am by (meson inj_on_contraD nth_mem)
  with r lt p a next_key_Some [OF assms(1,2) a] show ?thesis by (simp add: next_key_def)
qed

lemma resched_loop_pending:
  "good (graph s) \<Longrightarrow> resched_loop nxt is s = Inr s' \<Longrightarrow> pending s' = pending s + mset is \<or>
   pending s' = {#} \<and> all_stopped s' \<and> (\<forall>a \<in> set (index (graph s')). \<not> incomplete (rel_at (graph s') a))"
proof (induction "is" arbitrary: s)
  case Nil
  then show ?case by simp
next
  case (Cons i "is")
  let ?m = "graph s"
  from Cons.prems(2) obtain key nx where k: "start_at ?m i = Inr key" and n: "nxt key i ?m = Inr nx"
    and r: "(if next_key ?m nx = [] then Inr (yield_queue (stop_all s))
        else (let j = find_key ?m (next_key ?m nx) in if j = length (index ?m) then what
           else rbind (notify_at j i s) (resched_loop nxt is))) = Inr s'"
    by (auto simp: rbind_Inr_iff Let_def)
  show ?case
  proof (cases "next_key ?m nx = []")
    case True
    then have "nx = None" using next_key_Some [OF Cons.prems(1) start_key [OF k]] n by (cases nx) auto
    then have "\<forall>a \<in> set (index ?m). \<not> incomplete (rel_at ?m a)"
      using nxt_None [OF Cons.prems(1) start_key [OF k]] n by simp
    moreover have "s' = yield_queue (stop_all s)" using r True by simp
    ultimately show ?thesis using stop_all_pending [of s] by (simp add: all_stopped_def pending_def)
  next
    case False
    with r obtain s1 where s1: "notify_at (find_key ?m (next_key ?m nx)) i s = Inr s1" "resched_loop nxt is s1 = Inr s'"
      by (auto simp: Let_def rbind_Inr_iff split: if_splits)
    have "good (graph s1)" using Cons.prems(1) notify_at_frame(1) [OF s1(1)] by simp
    with Cons.IH [OF _ s1(2)] notify_at_pending [OF s1(1)] show ?thesis by auto
  qed
qed

lemma resched_loop_hands:
  "good (graph s) \<Longrightarrow> length (threads s) = length (index (graph s)) \<Longrightarrow> \<not> all_valued (graph s) \<Longrightarrow>
   \<exists>s'. resched_loop nxt is s = Inr s' \<and>
     handed (\<lambda>i. pick nxt (graph s) (key_at (graph s) (index (graph s) ! (i mod length (index (graph s))))) i) is s s'"
proof (induction "is" arbitrary: s)
  case Nil
  then show ?case by (simp add: handed_Nil)
next
  case (Cons i "is")
  let ?m = "graph s"
  let ?key = "key_at ?m (index ?m ! (i mod length (index ?m)))"
  from Cons.prems(3) have un: "\<exists>a \<in> set (index ?m). rel_value (rel_at ?m a) = []" by (simp add: all_valued_def)
  then have st: "start_at ?m i = Inr ?key" by (auto simp: start_at_def)
  from pick_ready [OF Cons.prems(1) start_key [OF st] un, of i] obtain a
    where a: "nxt ?key i ?m = Inr (Some a)" "next_key ?m (Some a) \<noteq> []"
      "find_key ?m (next_key ?m (Some a)) = pick nxt ?m ?key i" "pick nxt ?m ?key i < length (index ?m)" by blast
  then obtain s1 where s1: "notify_at (pick nxt ?m ?key i) i s = Inr s1"
    using Cons.prems(2) by (simp add: notify_at_iff)
  have g: "graph s1 = ?m" by (rule notify_at_frame(1) [OF s1])
  have "length (threads s1) = length (threads s)" using notify_at_frame(2) [OF s1] by (rule map_eq_imp_length_eq)
  with Cons.IH [of s1] Cons.prems g obtain s' where s': "resched_loop nxt is s1 = Inr s'"
    "handed (\<lambda>i. pick nxt ?m (key_at ?m (index ?m ! (i mod length (index ?m)))) i) is s1 s'" by auto
  have "resched_loop nxt (i # is) s = Inr s'"
    unfolding resched_loop.simps Let_def st rbind_simps a(1) using a(2-4) s1 s'(1) by simp
  moreover have "handed (\<lambda>i. pick nxt ?m (key_at ?m (index ?m ! (i mod length (index ?m)))) i) (i # is) s s'"
    by (rule handed_Cons [OF s1 s'(2)])
  ultimately show ?case by blast
qed

lemma update_loop_hands:
  "good (graph s) \<Longrightarrow> length (threads s) = length (index (graph s)) \<Longrightarrow> \<not> all_valued (graph s) \<Longrightarrow> key \<in> keys (graph s) \<Longrightarrow>
   \<exists>s'. update_loop nxt key is s = Inr s' \<and> handed (pick nxt (graph s) key) is s s'"
proof (induction "is" arbitrary: s)
  case Nil
  then show ?case by (simp add: handed_Nil)
next
  case (Cons i "is")
  let ?m = "graph s"
  from Cons.prems(3) have un: "\<exists>a \<in> set (index ?m). rel_value (rel_at ?m a) = []" by (simp add: all_valued_def)
  from pick_ready [OF Cons.prems(1,4) un, of i] obtain a
    where a: "nxt key i ?m = Inr (Some a)"
      "find_key ?m (next_key ?m (Some a)) = pick nxt ?m key i" "pick nxt ?m key i < length (index ?m)" by blast
  then obtain s1 where s1: "notify_at (pick nxt ?m key i) i s = Inr s1"
    using Cons.prems(2) by (simp add: notify_at_iff)
  have g: "graph s1 = ?m" by (rule notify_at_frame(1) [OF s1])
  have "length (threads s1) = length (threads s)" using notify_at_frame(2) [OF s1] by (rule map_eq_imp_length_eq)
  with Cons.IH [of s1] Cons.prems g obtain s' where s': "update_loop nxt key is s1 = Inr s'"
    "handed (pick nxt ?m key) is s1 s'" by auto
  have "update_loop nxt key (i # is) s = Inr s'"
    unfolding update_loop.simps a(1) rbind_simps a(2) s1 by (rule s'(1))
  with handed_Cons [OF s1 s'(2)] show ?case by blast
qed

lemma update_loop_complete:
  assumes "good (graph s)" "length (threads s) = length (index (graph s))" "key \<in> keys (graph s)"
    "\<forall>a \<in> set (index (graph s)). \<not> incomplete (rel_at (graph s) a)"
  shows "update_loop nxt key (i # is) s = Inl (Undefined ''operator[]'')"
proof -
  have "[] \<notin> keys (graph s)" using good_keys [OF assms(1)] by simp
  then have "find_key (graph s) [] = length (index (graph s))" unfolding find_key_eq .
  moreover have "nxt key i (graph s) = Inr None" by (rule nxt_complete [OF assms(1,3,4)])
  ultimately show ?thesis
    using assms(2) by (simp add: next_key_def default_relation_def notify_at_def vec_at_def)
qed

end

lemma set_value_store [simp]: "length (store (set_value a v m)) = length (store m)"
  by (simp add: set_value_def)

lemma set_value_graph [simp]:
  "index (set_value a v m) = index m" "rel_key (rel_at (set_value a v m) b) = rel_key (rel_at m b)"
  "rel_deps (rel_at (set_value a v m) b) = rel_deps (rel_at m b)"
  "rel_depth (rel_at (set_value a v m) b) = rel_depth (rel_at m b)"
  by (auto simp: set_value_def rel_at_def list_update_beyond nth_list_update split: if_splits)
    (metis (no_types, lifting) list_update_beyond not_le_imp_less nth_list_update_eq nth_list_update_neq
      relation.ext_inject relation.surjective relation.update_convs(2))+

lemma set_value_value:
  "rel_value (rel_at (set_value a v m) b) = (if b = a \<and> a < length (store m) then v else rel_value (rel_at m b))"
  by (cases "a < length (store m)") (auto simp: set_value_def rel_at_def nth_list_update list_update_beyond)

section \<open>Runs\<close>

text \<open>
  The steps of one context.  An executor ends with some value, or without one; the pass over the
  contexts takes its updated turn, or, when all threads are stopped, its stopped turn, which drops
  what is pending and takes the context away; results arrive from peers, each a text with at least
  one character (a serialised JSON value); or a peer fails.
\<close>

inductive sched_step :: "chooser \<Rightarrow> (string \<Rightarrow> 'j result) \<Rightarrow> (string \<Rightarrow> 'j \<Rightarrow> string) \<Rightarrow> sched_env \<Rightarrow> sched_env \<Rightarrow> bool"
  for nxt parse serialize where
  finish: "k < length (threads s) \<Longrightarrow> sched_step nxt parse serialize s (executor_end k v s)"
| updated: "handle_updated nxt parse serialize s = Inr s' \<Longrightarrow> sched_step nxt parse serialize s s'"
| stopped: "context_stopped (se_ctx s) \<Longrightarrow> handle_stopped parse serialize s = Inr (out, s') \<Longrightarrow>
     sched_step nxt parse serialize s s'"
| request: "request_results nxt kvps s = Inr s' \<Longrightarrow> [] \<notin> snd ` set kvps \<Longrightarrow> sched_step nxt parse serialize s s'"
| response: "response_results nxt kvps s = Inr s' \<Longrightarrow> [] \<notin> snd ` set kvps \<Longrightarrow> sched_step nxt parse serialize s s'"
| failed: "peer_failed s = Inr s' \<Longrightarrow> sched_step nxt parse serialize s s'"

inductive_cases sched_stepE: "sched_step nxt parse serialize s s'"

text \<open>
  What one step keeps, other than the stopped turn: no index is lost until every relation has a
  value.  And what every step keeps.
\<close>

definition conserves :: "sched_env \<Rightarrow> sched_env \<Rightarrow> bool" where
  "conserves s s' \<longleftrightarrow> index (graph s') = index (graph s) \<and>
     map tc_relation (threads s') = map tc_relation (threads s) \<and>
     (all_stopped s \<longrightarrow> all_stopped s') \<and> (all_valued (graph s) \<longrightarrow> all_valued (graph s')) \<and>
     (pending s' = pending s \<or> pending s' = {#} \<and> all_stopped s' \<and> all_valued (graph s'))"

definition keeps :: "sched_env \<Rightarrow> sched_env \<Rightarrow> bool" where
  "keeps s s' \<longleftrightarrow> index (graph s') = index (graph s) \<and>
     map tc_relation (threads s') = map tc_relation (threads s) \<and>
     (all_stopped s \<longrightarrow> all_stopped s') \<and> (all_valued (graph s) \<longrightarrow> all_valued (graph s'))"

lemma conserves_keeps: "conserves s s' \<Longrightarrow> keeps s s'"
  by (simp add: conserves_def keeps_def)

lemma keeps_refl: "keeps s s"
  by (simp add: keeps_def)

lemma keeps_trans: "keeps s s1 \<Longrightarrow> keeps s1 s2 \<Longrightarrow> keeps s s2"
  unfolding keeps_def by auto

lemma threads_match_keeps: "keeps s s' \<Longrightarrow> threads_match s \<Longrightarrow> threads_match s'"
  by (simp add: keeps_def threads_match_def)

lemma conserves_refl: "conserves s s"
  by (simp add: conserves_def)

lemma conserves_trans: "conserves s s1 \<Longrightarrow> conserves s1 s2 \<Longrightarrow> conserves s s2"
  unfolding conserves_def by auto

lemma threads_match_conserves: "conserves s s' \<Longrightarrow> threads_match s \<Longrightarrow> threads_match s'"
  by (simp add: conserves_def threads_match_def)

lemma update_peers_ctx: "update_peers parse serialize k s = Inr s' \<Longrightarrow> se_ctx s' = se_ctx s"
  by (auto simp: update_peers_def rbind_Inr_iff tell_peers_def split: if_splits)

lemma popped_pending:
  assumes "k < length (threads s)"
  shows "pending (set_threads ((threads s)[k := snd (pop_idxs (threads s ! k))]) s) + mset (tc_idxs (threads s ! k)) = pending s"
  using pending_set [OF assms] by (simp add: thread_simps)

lemma handle_updated_conserves:
  assumes "handle_updated nxt parse serialize s = Inr s'"
  shows "conserves s s' \<and> graph s' = graph s"
proof -
  let ?k = "find_if unhandled (threads s)"
  let ?s0 = "set_threads ((threads s)[?k := snd (pop_idxs (threads s ! ?k))]) s"
  from assms obtain s1 a where k: "?k < length (threads s)" and s1: "update_peers parse serialize ?k ?s0 = Inr s1"
    and u: "update_loop nxt (key_at (graph s1) a) (tc_idxs (threads s ! ?k)) s1 = Inr s'"
    by (auto simp: handle_updated_def Let_def rbind_Inr_iff vec_at_Inr_iff pop_idxs_def)
  have c: "se_ctx s1 = se_ctx ?s0" by (rule update_peers_ctx [OF s1])
  then have g: "graph s1 = graph s" and ts: "threads s1 = threads ?s0" by simp_all
  have "map tc_relation (threads s1) = map tc_relation (threads s)"
    "map is_stopped (threads s1) = map is_stopped (threads s)"
    using k by (simp_all add: ts update_same thread_simps)
  moreover have "pending s1 + mset (tc_idxs (threads s ! ?k)) = pending s"
    using popped_pending [OF k] by (simp add: pending_def ts)
  ultimately show ?thesis
    using update_loop_frame [OF u] all_stopped_map [of s1 s] g by (simp add: conserves_def)
qed

lemma stopped_text_frame:
  "stopped_text parse serialize m i ts data = Inr (ts', data') \<Longrightarrow>
   map tc_relation ts' = map tc_relation ts \<and> map is_stopped ts' = map is_stopped ts \<and> (\<forall>t \<in> set ts'. tc_idxs t = [])"
proof (induction ts arbitrary: i data ts')
  case Nil
  then show ?case by simp
next
  case (Cons t ts)
  let ?t = "if has_pending_idxs t then snd (pop_idxs t) else t"
  from Cons.prems obtain x ts'' where "stopped_text parse serialize m (Suc i) ts x = Inr (ts'', data')" "ts' = ?t # ts''"
    by (auto elim!: rbind_InrE)
  moreover have "tc_relation ?t = tc_relation t" "is_stopped ?t = is_stopped t" by (simp_all add: thread_simps)
  moreover have "tc_idxs ?t = []"
    by (simp add: thread_simps) (simp add: has_pending_idxs_def)
  ultimately show ?case using Cons.IH by simp
qed

lemma context_stopped_all: "context_stopped (se_ctx s) \<longleftrightarrow> all_stopped s"
  by (simp add: context_stopped_def all_stopped_def list_all_iff)

text \<open>The stopped turn drops what is pending, and keeps the rest.\<close>

lemma handle_stopped_drops:
  assumes "handle_stopped parse serialize s = Inr (out, s')"
  shows "graph s' = graph s \<and> keeps s s' \<and> pending s' = {#}"
proof -
  from assms obtain ts data where ts: "stopped_text parse serialize (graph s) 0 (threads s) [] = Inr (ts, data)"
    and s': "s' = (set_threads ts s)\<lparr>se_peers := []\<rparr>"
    by (auto simp: handle_stopped_def elim!: rbind_InrE)
  have c: "graph s' = graph s" "threads s' = ts" by (simp_all add: s' set_threads_def)
  note f = stopped_text_frame [OF ts]
  have "concat (map tc_idxs ts) = []" using f by simp
  moreover have "all_stopped s' \<longleftrightarrow> all_stopped s" using f by (intro all_stopped_map) (simp add: c)
  ultimately show ?thesis using f by (simp add: c keeps_def pending_def)
qed

lemma executor_end_conserves:
  assumes "k < length (threads s)"
  shows "conserves s (executor_end k v s)"
proof -
  let ?t = "threads s ! k"
  let ?t' = "?t\<lparr>tc_signal := tc_signal ?t OR ctl_end_event\<rparr>"
  let ?s = "executor_end k v s"
  have ts: "threads ?s = (threads s)[k := ?t']" by (simp add: executor_end_def Let_def)
  have g: "graph ?s = (if v = [] \<or> v = ''null'' then graph s else set_value (tc_relation ?t) v (graph s))"
    by (simp add: executor_end_def Let_def)
  have "pending ?s + mset (tc_idxs ?t) = pending s + mset (tc_idxs ?t)"
    using concat_update [OF assms, of tc_idxs ?t'] by (simp add: pending_def ts)
  moreover have "all_stopped s \<longrightarrow> all_stopped ?s"
    using end_fields [of ?t] unfolding all_stopped_def ts by (metis insertE set_update_subset_insert subsetD)
  moreover have "map tc_relation (threads ?s) = map tc_relation (threads s)"
    using assms by (simp add: ts update_same)
  moreover have "all_valued (graph s) \<longrightarrow> all_valued (graph ?s)"
    by (simp add: g all_valued_def set_value_value)
  ultimately show ?thesis by (simp add: conserves_def g)
qed

lemma null_values_keeps:
  "index (null_values as m) = index m \<and> length (store (null_values as m)) = length (store m) \<and>
   (rel_value (rel_at m b) \<noteq> [] \<longrightarrow> rel_value (rel_at (null_values as m) b) \<noteq> []) \<and>
   (b \<in> set as \<and> b < length (store m) \<longrightarrow> rel_value (rel_at (null_values as m) b) \<noteq> [])"
proof (induction "as" arbitrary: m)
  case Nil
  then show ?case by simp
next
  case (Cons a "as")
  let ?m = "if rel_value (rel_at m a) = [] then set_value a ''null'' m else m"
  have "rel_value (rel_at m b) \<noteq> [] \<longrightarrow> rel_value (rel_at ?m b) \<noteq> []"
    "b = a \<and> b < length (store m) \<longrightarrow> rel_value (rel_at ?m b) \<noteq> []"
    "index ?m = index m" "length (store ?m) = length (store m)"
    by (simp_all add: set_value_value)
  then show ?case using Cons.IH [of ?m] by auto
qed

lemma reschedule_eq:
  "k < length (threads s) \<Longrightarrow> reschedule_actions nxt k s = resched_loop nxt (tc_idxs (threads s ! k))
     (sched_end (set_threads ((threads s)[k := snd (stop_thread (threads s ! k))]) s))"
  by (simp add: reschedule_actions_def split_beta thread_simps)

context chooser_contract
begin

lemma good_null_values: "good m \<Longrightarrow> set as \<subseteq> set (index m) \<Longrightarrow> good (null_values as m)"
  by (induction "as" arbitrary: m) (simp_all add: good_set_value)

lemma peer_failed_conserves:
  assumes "good (graph s)" "threads_match s" "peer_failed s = Inr s'"
  shows "conserves s s' \<and> good (graph s')"
proof (cases "length (ec_peers (se_ctx s)) < 3")
  case False
  with assms(1,3) show ?thesis by (simp add: peer_failed_def conserves_refl)
next
  case True
  let ?m = "null_values (index (graph s)) (graph s)"
  have "length (threads s) = length (index (graph s))"
    using assms(2) unfolding threads_match_def by (metis length_map)
  with assms(3) True have s': "s' = sched_end (stop_all (set_graph ?m s))"
    by (simp add: peer_failed_def)
  have "all_valued ?m"
    using null_values_keeps [of "index (graph s)" "graph s"] good_store [OF assms(1)] by (simp add: all_valued_def)
  moreover have "index ?m = index (graph s)" using null_values_keeps by blast
  ultimately show ?thesis
    using stop_all_pending [of "set_graph ?m s"] good_null_values [OF assms(1) subset_refl]
    by (simp add: s' conserves_def pending_def all_stopped_def)
qed

lemma stopped_pending:
  assumes "k < length (threads s)"
  shows "pending (set_threads ((threads s)[k := snd (stop_thread (threads s ! k))]) s) + mset (tc_idxs (threads s ! k)) = pending s"
  using pending_set [OF assms] by (simp add: thread_simps)

lemma reschedule_conserves:
  assumes "good (graph s)" "reschedule_actions nxt k s = Inr s'"
  shows "conserves s s' \<and> graph s' = graph s"
proof -
  let ?s0 = "sched_end (set_threads ((threads s)[k := snd (stop_thread (threads s ! k))]) s)"
  from assms(2) have k: "k < length (threads s)"
    by (auto simp: reschedule_actions_def rbind_Inr_iff vec_at_Inr_iff)
  then have r: "resched_loop nxt (tc_idxs (threads s ! k)) ?s0 = Inr s'"
    using assms(2) by (simp add: reschedule_eq)
  have rel: "map tc_relation (threads ?s0) = map tc_relation (threads s)"
    using k by (simp add: update_same thread_simps)
  have st: "all_stopped s \<longrightarrow> all_stopped ?s0"
    using stop_fields(4) [of "threads s ! k"] unfolding all_stopped_def sched_end_simps set_threads_simps
    by (metis insertE set_update_subset_insert subsetD)
  have p: "pending ?s0 + mset (tc_idxs (threads s ! k)) = pending s"
    using stopped_pending [OF k] by (simp add: pending_def)
  have "good (graph ?s0)" using assms(1) by simp
  from resched_loop_pending [OF this r] p
  have "pending s' = pending s \<or> pending s' = {#} \<and> all_stopped s' \<and> all_valued (graph s')"
    by (auto simp: all_valued_def incomplete_def)
  with resched_loop_frame [OF r] rel st show ?thesis by (simp add: conserves_def)
qed

lemma result_loop_conserves:
  "good (graph s) \<Longrightarrow> [] \<notin> snd ` set kvps \<Longrightarrow> result_loop nxt msg may_set kvps s = Inr s' \<Longrightarrow>
   conserves s s' \<and> good (graph s')"
proof (induction kvps arbitrary: s)
  case Nil
  then show ?case by (simp add: conserves_refl)
next
  case (Cons kv kvps)
  obtain k d where kv: "kv = (k, d)" by (cases kv)
  let ?m = "graph s"
  let ?j = "find_key ?m k"
  let ?a = "index ?m ! ?j"
  let ?m1 = "if may_set (rel_value (rel_at ?m ?a)) then set_value ?a d ?m else ?m"
  from Cons.prems(3) have j: "?j \<noteq> length (index ?m)" by (simp add: kv Let_def split: if_splits)
  show ?case
  proof (cases "d = ''null''")
    case True
    with Cons kv j show ?thesis by (simp add: Let_def)
  next
    case False
    with Cons.prems(3) j kv obtain s1 where s1: "reschedule_actions nxt ?j (set_graph ?m1 s) = Inr s1"
      "result_loop nxt msg may_set kvps s1 = Inr s'"
      by (auto simp: Let_def rbind_Inr_iff)
    have "k \<in> keys ?m" using j find_key_eq by blast
    then have "?j < length (index ?m)" by (simp only: find_key_less)
    then have "?a \<in> set (index ?m)" by simp
    then have g: "good ?m1" using Cons.prems(1) good_set_value by simp
    have "d \<noteq> []" using Cons.prems(2) kv by auto
    then have "conserves s (set_graph ?m1 s)"
      by (simp add: conserves_def all_stopped_def pending_def all_valued_def set_value_value)
    moreover have "conserves (set_graph ?m1 s) s1 \<and> graph s1 = ?m1"
      using reschedule_conserves [OF _ s1(1)] g by simp
    ultimately have "conserves s s1" "good (graph s1)" using g conserves_trans by auto
    with Cons.IH [OF _ _ s1(2)] Cons.prems(2) conserves_trans show ?thesis by auto
  qed
qed

lemma executor_end_good:
  "good (graph s) \<Longrightarrow> threads_match s \<Longrightarrow> k < length (threads s) \<Longrightarrow> good (graph (executor_end k v s))"
proof -
  assume "good (graph s)" "threads_match s" "k < length (threads s)"
  then have "tc_relation (threads s ! k) \<in> set (index (graph s))"
    unfolding threads_match_def by (metis nth_mem length_map nth_map)
  with \<open>good (graph s)\<close> show ?thesis by (simp add: executor_end_def Let_def good_set_value)
qed

lemma sched_step_conserves:
  assumes "sched_step nxt parse serialize s s'" "good (graph s)" "threads_match s"
  shows "good (graph s') \<and> keeps s s' \<and>
    (conserves s s' \<or> context_stopped (se_ctx s) \<and> (\<exists>out. handle_stopped parse serialize s = Inr (out, s')))"
  using assms(1)
proof (cases rule: sched_step.cases)
  case (finish k v)
  with executor_end_conserves executor_end_good assms(2,3) conserves_keeps show ?thesis by auto
next
  case updated
  with handle_updated_conserves [OF updated] assms(2) conserves_keeps show ?thesis by auto
next
  case (stopped out)
  with handle_stopped_drops [OF stopped(2)] assms(2) show ?thesis by auto
next
  case (request kvps)
  with result_loop_conserves [OF assms(2)] conserves_keeps show ?thesis unfolding request_results_def by blast
next
  case (response kvps)
  with result_loop_conserves [OF assms(2)] conserves_keeps show ?thesis unfolding response_results_def by blast
next
  case failed
  with peer_failed_conserves [OF assms(2,3)] conserves_keeps show ?thesis by blast
qed

text \<open>
  A run keeps the indices until every relation has a value, or until the stopped turn takes the
  context away at a moment when they are still the ones of the start.
\<close>

lemma sched_run_conserves:
  assumes "(sched_step nxt parse serialize)\<^sup>*\<^sup>* s0 s" "good (graph s0)" "threads_match s0"
  shows "good (graph s) \<and> keeps s0 s \<and>
    (pending s = pending s0 \<or> pending s = {#} \<and> all_stopped s \<and>
      (all_valued (graph s) \<or> (\<exists>s1 out s2. (sched_step nxt parse serialize)\<^sup>*\<^sup>* s0 s1 \<and> pending s1 = pending s0 \<and>
         context_stopped (se_ctx s1) \<and> handle_stopped parse serialize s1 = Inr (out, s2) \<and>
         (sched_step nxt parse serialize)\<^sup>*\<^sup>* s2 s)))"
    (is "_ \<and> _ \<and> (_ \<or> _ \<and> _ \<and> (_ \<or> ?taken s))")
  using assms(1)
proof (induction rule: rtranclp_induct)
  case base
  then show ?case using assms(2) by (simp add: keeps_refl)
next
  case (step s1 s2)
  from step.IH have g: "good (graph s1)" and k1: "keeps s0 s1" and
    p1: "pending s1 = pending s0 \<or> pending s1 = {#} \<and> all_stopped s1 \<and> (all_valued (graph s1) \<or> ?taken s1)" by blast+
  note st = sched_step_conserves [OF step.hyps(2) g threads_match_keeps [OF k1 assms(3)]]
  then have k2: "keeps s1 s2" by blast
  have mono: "?taken s1 \<longrightarrow> ?taken s2" using step.hyps(2) by (meson rtranclp.rtrancl_into_rtrancl)
  have "pending s2 = pending s0 \<or> pending s2 = {#} \<and> all_stopped s2 \<and> (all_valued (graph s2) \<or> ?taken s2)"
    using st
  proof (elim conjE disjE exE)
    assume "conserves s1 s2"
    then show ?thesis using p1 mono unfolding conserves_def by auto
  next
    fix out assume c: "context_stopped (se_ctx s1)" and h: "handle_stopped parse serialize s1 = Inr (out, s2)"
    note d = handle_stopped_drops [OF h]
    have "all_stopped s2" using c k2 by (simp add: context_stopped_all keeps_def)
    moreover have "all_valued (graph s2) \<or> ?taken s2"
      using p1
    proof (elim disjE conjE)
      assume "pending s1 = pending s0"
      then show ?thesis using step.hyps(1) c h by blast
    next
      assume "all_valued (graph s1)"
      then show ?thesis using d by simp
    next
      assume "?taken s1"
      then show ?thesis using mono by blast
    qed
    ultimately show ?thesis using d by simp
  qed
  with st k1 k2 keeps_trans show ?case by blast
qed

end

section \<open>The chooser of the program\<close>

text \<open>A manifest for which the fuel of \<open>next_relation\<close> is enough.\<close>

definition good_manifest :: "nat \<Rightarrow> manifest \<Rightarrow> bool" where
  "good_manifest fuel m \<longleftrightarrow> task_graph m \<and> [] \<notin> keys m \<and> (\<forall>a \<in> set (index m). a < length (store m)) \<and>
     (\<exists>D. (\<forall>a \<in> set (index m). depth_at m a < D) \<and> length (index m) + D \<le> fuel)"

abbreviation "next_at_fuel fuel \<equiv> (\<lambda>key i m. next_relation fuel key i m)"

lemma good_set_value: "good_manifest fuel m \<Longrightarrow> good_manifest fuel (set_value a v m)"
  by (simp add: good_manifest_def task_graph_def)

interpretation program: chooser_contract "next_at_fuel fuel" "good_manifest fuel"
proof
  show "[] \<notin> keys m \<and> distinct (map (key_at m) (index m))" if "good_manifest fuel m" for m
    using that by (simp add: good_manifest_def task_graph_def)
  show "ready m a" if "good_manifest fuel m" "next_relation fuel key i m = Inr (Some a)" for m key i a
    using that next_relation_Some by (simp add: good_manifest_def)
  show "\<forall>a \<in> set (index m). \<not> incomplete (rel_at m a)" if "next_relation fuel key i m = Inr None" for m key i
    using that by (rule next_relation_None)
  show "\<exists>a. next_relation fuel key i m = Inr (Some a)"
    if "good_manifest fuel m" "key \<in> keys m" "\<exists>a \<in> set (index m). rel_value (rel_at m a) = []" for m key i
    using that next_relation_returns [of m key _ fuel i] unfolding good_manifest_def by blast
  show "next_relation fuel key i m = Inr None"
    if "good_manifest fuel m" "key \<in> keys m" "\<forall>a \<in> set (index m). \<not> incomplete (rel_at m a)" for m key i
    using that next_relation_returns [of m key _ fuel i] unfolding good_manifest_def by blast
  show "a < length (store m)" if "good_manifest fuel m" "a \<in> set (index m)" for m a
    using that by (simp add: good_manifest_def)
  show "good_manifest fuel (set_value a v m)" if "good_manifest fuel m" for m a v
    using that by (rule good_set_value)
qed

section \<open>Properties of scheduling\<close>

definition demo_env :: sched_env where
  "demo_env = \<lparr>se_ctx = demo_context\<lparr>ec_threads := map (\<lambda>a. notify a (new_thread a ''{}'')) [2, 1, 0]\<rparr>, se_box = 0,
     se_queue = \<lparr>sched_handles = [0], sched_flags = (\<lambda>_. False), sched_fresh = 1\<rparr>, se_peers = []\<rparr>"

lemma demo_graph:
  "index (graph demo_env) = [2, 1, 0]" "store (graph demo_env) = store demo_manifest"
  by (simp_all add: demo_env_def demo_context_def sort_desc_def demo_manifest_def rel_at_def sort_key_def)

lemma demo_good: "good_manifest 7 (graph demo_env)"
  unfolding good_manifest_def task_graph_def
  by (intro conjI exI [of _ 4]) (simp_all add: demo_graph rel_at_def, simp_all add: demo_manifest_def)

lemma demo_match: "threads_match demo_env"
  by (simp add: threads_match_def demo_graph) (simp add: demo_env_def notify_def new_thread_def)

lemma demo_unvalued: "\<not> all_valued (graph demo_env)"
  by (simp add: all_valued_def demo_graph rel_at_def) (simp add: demo_manifest_def)

text \<open>
  C1: no work is lost.  Whatever ends of executors, updated and stopped turns of the pass, results
  of peers and failures of peers happen in a context, in any order, the execution indices that are
  pending on its threads stay the same multiset, until one of two moments.  Either every relation
  has a value; or the pass finds all threads stopped and takes the context away with its stopped
  turn, at which the pending indices were still the ones of the start (an executor whose value is
  \<open>null\<close> stops its thread without a value).  Afterwards all threads are stopped and no index is left.
\<close>
theorem sched_indices_conserved:
  assumes "(sched_step (next_at_fuel fuel) parse serialize)\<^sup>*\<^sup>* s0 s" "good_manifest fuel (graph s0)" "threads_match s0"
  shows "threads_match s \<and>
    (pending s = pending s0 \<or> pending s = {#} \<and> all_stopped s \<and>
      (all_valued (graph s) \<or> (\<exists>s1 out s2. (sched_step (next_at_fuel fuel) parse serialize)\<^sup>*\<^sup>* s0 s1 \<and>
         pending s1 = pending s0 \<and> context_stopped (se_ctx s1) \<and> handle_stopped parse serialize s1 = Inr (out, s2) \<and>
         (sched_step (next_at_fuel fuel) parse serialize)\<^sup>*\<^sup>* s2 s)))"
proof -
  note r = program.sched_run_conserves [OF assms]
  have "threads_match s" using threads_match_keeps [OF _ assms(3)] r by blast
  then show ?thesis using r by (intro conjI) blast+
qed

theorem sched_indices_conserved_witness:
  "\<exists>s. s = executor_end 2 ''{}'' demo_env \<and> threads_match s \<and>
    (pending s = pending demo_env \<or> pending s = {#} \<and> all_stopped s \<and>
      (all_valued (graph s) \<or> (\<exists>s1 out s2. (sched_step (next_at_fuel 7) Inr (\<lambda>_ _. []))\<^sup>*\<^sup>* demo_env s1 \<and>
         pending s1 = pending demo_env \<and> context_stopped (se_ctx s1) \<and> handle_stopped Inr (\<lambda>_ _. []) s1 = Inr (out, s2) \<and>
         (sched_step (next_at_fuel 7) Inr (\<lambda>_ _. []))\<^sup>*\<^sup>* s2 s)))"
proof -
  have "sched_step (next_at_fuel 7) Inr (\<lambda>_ _. []) demo_env (executor_end 2 ''{}'' demo_env)"
    by (rule sched_step.finish)
      (simp add: demo_env_def demo_context_def)
  then have "(sched_step (next_at_fuel 7) Inr (\<lambda>_ _. []))\<^sup>*\<^sup>* demo_env (executor_end 2 ''{}'' demo_env)" by simp
  from sched_indices_conserved [OF this demo_good demo_match] show ?thesis by blast
qed

lemma key_mod: "0 < length (index m) \<Longrightarrow> key_at m (index m ! (i mod length (index m))) \<in> keys m"
  by (intro imageI nth_mem) simp

lemma threads_match_length: "threads_match s \<Longrightarrow> length (threads s) = length (index (graph s))"
  unfolding threads_match_def by (metis length_map)

text \<open>
  C24: what a result from a peer causes.  When the relation of a thread is complete and another
  one is not, rescheduling stops the thread, raises the end event of the scheduler, and hands
  every index that was pending on the thread, in order, to the thread of a relation that is ready
  to run; nothing else changes.  When all relations are complete and an index was pending, all
  threads are stopped and no index is left.
\<close>
theorem reschedule_hands_over:
  assumes "good_manifest fuel (graph s)" "threads_match s" "k < length (threads s)"
  shows "(\<not> all_valued (graph s) \<longrightarrow>
      (\<exists>s' p. reschedule_actions (next_at_fuel fuel) k s = Inr s' \<and>
        (\<forall>i. p i < length (index (graph s)) \<and> ready (graph s) (index (graph s) ! p i)) \<and>
        handed p (tc_idxs (threads s ! k))
          (sched_end (set_threads ((threads s)[k := snd (stop_thread (threads s ! k))]) s)) s')) \<and>
    ((\<forall>a \<in> set (index (graph s)). \<not> incomplete (rel_at (graph s) a)) \<and> tc_idxs (threads s ! k) \<noteq> [] \<longrightarrow>
      (\<exists>s'. reschedule_actions (next_at_fuel fuel) k s = Inr s' \<and> all_stopped s' \<and> pending s' = {#}))"
proof (intro conjI impI)
  let ?m = "graph s"
  let ?s0 = "sched_end (set_threads ((threads s)[k := snd (stop_thread (threads s ! k))]) s)"
  { assume un: "\<not> all_valued ?m"
    let ?p = "\<lambda>i. pick (next_at_fuel fuel) ?m (key_at ?m (index ?m ! (i mod length (index ?m)))) i"
    from un have ex: "\<exists>a \<in> set (index ?m). rel_value (rel_at ?m a) = []" by (simp add: all_valued_def)
    then have "0 < length (index ?m)" by (cases "index ?m") auto
    then have key: "key_at ?m (index ?m ! (i mod length (index ?m))) \<in> keys ?m" for i by (rule key_mod)
    have "\<exists>s'. resched_loop (next_at_fuel fuel) (tc_idxs (threads s ! k)) ?s0 = Inr s' \<and>
        handed ?p (tc_idxs (threads s ! k)) ?s0 s'"
      using program.resched_loop_hands [of fuel ?s0 "tc_idxs (threads s ! k)"] assms(1) un
        threads_match_length [OF assms(2)] by simp
    then obtain s' where s': "resched_loop (next_at_fuel fuel) (tc_idxs (threads s ! k)) ?s0 = Inr s'"
      "handed ?p (tc_idxs (threads s ! k)) ?s0 s'" by blast
    have pr: "?p i < length (index ?m) \<and> ready ?m (index ?m ! ?p i)" for i
      using program.pick_ready [OF assms(1) key ex, of i i] by blast
    show "\<exists>s' p. reschedule_actions (next_at_fuel fuel) k s = Inr s' \<and>
        (\<forall>i. p i < length (index ?m) \<and> ready ?m (index ?m ! p i)) \<and> handed p (tc_idxs (threads s ! k)) ?s0 s'"
      unfolding reschedule_eq [OF assms(3)] by (intro exI [of _ s'] exI [of _ ?p] conjI allI pr [THEN conjunct1] pr [THEN conjunct2] s') }
  { assume c: "(\<forall>a \<in> set (index ?m). \<not> incomplete (rel_at ?m a)) \<and> tc_idxs (threads s ! k) \<noteq> []"
    then obtain i "is" where i: "tc_idxs (threads s ! k) = i # is" by (cases "tc_idxs (threads s ! k)") auto
    have ne: "0 < length (index ?m)" using assms(3) threads_match_length [OF assms(2)] by linarith
    then have st: "start_at ?m i = Inr (key_at ?m (index ?m ! (i mod length (index ?m))))" by (simp add: start_at_def)
    note key = key_mod [OF ne, of i]
    have "next_relation fuel (key_at ?m (index ?m ! (i mod length (index ?m)))) i ?m = Inr None"
      using program.nxt_complete [OF assms(1) key] c by blast
    then have "reschedule_actions (next_at_fuel fuel) k s = Inr (yield_queue (stop_all ?s0))"
      unfolding reschedule_eq [OF assms(3)] i
      by (simp add: st next_key_def default_relation_def)
    with stop_all_pending [of ?s0]
    show "\<exists>s'. reschedule_actions (next_at_fuel fuel) k s = Inr s' \<and> all_stopped s' \<and> pending s' = {#}"
      by (simp add: all_stopped_def pending_def) }
qed

theorem reschedule_hands_over_witness:
  "\<exists>s' p. reschedule_actions (next_at_fuel 7) 1 demo_env = Inr s' \<and>
      (\<forall>i. p i < length (index (graph demo_env)) \<and> ready (graph demo_env) (index (graph demo_env) ! p i)) \<and>
      handed p (tc_idxs (threads demo_env ! 1))
        (sched_end (set_threads ((threads demo_env)[1 := snd (stop_thread (threads demo_env ! 1))]) demo_env)) s'"
proof -
  have "1 < length (threads demo_env)" using threads_match_length [OF demo_match] by (simp add: demo_graph)
  from reschedule_hands_over [OF demo_good demo_match this] demo_unvalued show ?thesis by blast
qed

lemma handle_updated_eq:
  assumes "k = find_if unhandled (threads s)" "k < length (threads s)"
    "update_peers parse serialize k (set_threads ((threads s)[k := snd (pop_idxs (threads s ! k))]) s) = Inr s1"
    "length (threads s) = length (index (graph s))"
  shows "handle_updated nxt parse serialize s =
    update_loop nxt (key_at (graph s) (index (graph s) ! ((k + 1) mod length (index (graph s))))) (tc_idxs (threads s ! k)) s1"
proof -
  have c: "graph s1 = graph s" "length (threads s1) = length (index (graph s))"
    using update_peers_ctx [OF assms(3)] assms(4) by simp_all
  have "0 < length (index (graph s))" using assms(2,4) by linarith
  then have "(k + 1) mod length (index (graph s)) < length (index (graph s))" by simp
  then show ?thesis
    using assms(2,3) unfolding handle_updated_def assms(1) [symmetric] Let_def
    by (simp add: split_beta thread_simps c)
qed

text \<open>
  C25: the pass over the contexts makes progress.  When a stopped thread has indices pending and
  some relation has no value, one turn takes the indices from the first such thread and hands
  them to threads of relations that are ready to run, if the values that are to be told to the
  peers are JSON texts.
\<close>
theorem updated_hands_over:
  assumes "good_manifest fuel (graph s)" "threads_match s" "\<not> all_valued (graph s)"
    "t \<in> set (threads s)" "unhandled t"
    "\<forall>a \<in> set (index (graph s)). incomplete (rel_at (graph s) a) \<or> (\<exists>j. parse (rel_value (rel_at (graph s) a)) = Inr j)"
  shows "\<exists>k s1 s' p. k = find_if unhandled (threads s) \<and> k < length (threads s) \<and>
    update_peers parse serialize k (set_threads ((threads s)[k := snd (pop_idxs (threads s ! k))]) s) = Inr s1 \<and>
    handle_updated (next_at_fuel fuel) parse serialize s = Inr s' \<and>
    (\<forall>i. p i < length (index (graph s)) \<and> ready (graph s) (index (graph s) ! p i)) \<and>
    handed p (tc_idxs (threads s ! k)) s1 s'"
proof -
  let ?m = "graph s"
  let ?k = "find_if unhandled (threads s)"
  let ?s0 = "set_threads ((threads s)[?k := snd (pop_idxs (threads s ! ?k))]) s"
  let ?key = "key_at ?m (index ?m ! ((?k + 1) mod length (index ?m)))"
  have len: "length (threads s) = length (index ?m)" by (rule threads_match_length [OF assms(2)])
  have k: "?k < length (threads s)" using assms(4,5) by (auto simp: find_if_less_iff)
  have "\<exists>x. result_text parse serialize (rel_at ?m (index ?m ! ?k)) = Inr x"
    using assms(6) k len unfolding result_text_def incomplete_def by (metis nth_mem rbind_simps(2))
  then have "\<exists>s1. update_peers parse serialize ?k ?s0 = Inr s1"
    using k len by (auto simp: update_peers_def)
  then obtain s1 where s1: "update_peers parse serialize ?k ?s0 = Inr s1" by blast
  then have c: "graph s1 = ?m" "length (threads s1) = length (index ?m)"
    using update_peers_ctx [OF s1] len by simp_all
  from assms(3) have ex: "\<exists>a \<in> set (index ?m). rel_value (rel_at ?m a) = []" by (simp add: all_valued_def)
  have ne: "0 < length (index ?m)" using k len by linarith
  then have key: "?key \<in> keys ?m" by (rule key_mod)
  obtain s' where "update_loop (next_at_fuel fuel) ?key (tc_idxs (threads s ! ?k)) s1 = Inr s'"
    "handed (pick (next_at_fuel fuel) ?m ?key) (tc_idxs (threads s ! ?k)) s1 s'"
    using program.update_loop_hands [of fuel s1 ?key "tc_idxs (threads s ! ?k)"] assms(1,3) key c by auto
  note u = this
  have pr: "pick (next_at_fuel fuel) ?m ?key i < length (index ?m) \<and> ready ?m (index ?m ! pick (next_at_fuel fuel) ?m ?key i)" for i
    using program.pick_ready [OF assms(1) key ex, of i] by blast
  have "handle_updated (next_at_fuel fuel) parse serialize s = Inr s'"
    unfolding handle_updated_eq [OF refl k s1 len] by (rule u(1))
  then show ?thesis
    by (intro exI [of _ ?k] exI [of _ s1] exI [of _ s'] exI [of _ "pick (next_at_fuel fuel) ?m ?key"] conjI allI
        pr [THEN conjunct1] pr [THEN conjunct2] refl k s1 u(2))
qed

definition demo_stopped :: sched_env where
  "demo_stopped = executor_end 2 ''{}'' demo_env"

lemma demo_stopped_simps:
  "graph demo_stopped = set_value 0 ''{}'' (graph demo_env)"
  "threads demo_stopped = (threads demo_env)[2 := (threads demo_env ! 2)\<lparr>tc_signal := tc_signal (threads demo_env ! 2) OR ctl_end_event\<rparr>]"
  by (simp_all add: demo_stopped_def executor_end_def Let_def) (simp add: demo_env_def notify_def new_thread_def)

lemma demo_stopped_ok: "good_manifest 7 (graph demo_stopped)" "threads_match demo_stopped" "\<not> all_valued (graph demo_stopped)"
proof -
  show "good_manifest 7 (graph demo_stopped)" unfolding demo_stopped_simps by (rule good_set_value [OF demo_good])
  show "threads_match demo_stopped"
    unfolding demo_stopped_def
    by (rule threads_match_conserves [OF executor_end_conserves demo_match])
      (simp add: threads_match_length [OF demo_match] demo_graph)
  show "\<not> all_valued (graph demo_stopped)"
    by (simp add: demo_stopped_simps all_valued_def demo_graph set_value_value)
      (simp add: rel_at_def demo_graph demo_manifest_def)
qed

lemma demo_stopped_unhandled: "\<exists>t \<in> set (threads demo_stopped). unhandled t"
proof -
  let ?t = "(threads demo_env ! 2)\<lparr>tc_signal := tc_signal (threads demo_env ! 2) OR ctl_end_event\<rparr>"
  have "unhandled ?t"
    using end_fields [of "threads demo_env ! 2"] unfolding unhandled_def has_pending_idxs_def
    by (simp add: demo_env_def notify_def new_thread_def)
  moreover have "?t \<in> set (threads demo_stopped)"
    unfolding demo_stopped_simps
    by (rule set_update_memI) (simp add: threads_match_length [OF demo_match] demo_graph)
  ultimately show ?thesis by blast
qed

theorem updated_hands_over_witness:
  "\<exists>k s1 s' p. k = find_if unhandled (threads demo_stopped) \<and> k < length (threads demo_stopped) \<and>
    update_peers Inr (\<lambda>_ _. []) k (set_threads ((threads demo_stopped)[k := snd (pop_idxs (threads demo_stopped ! k))]) demo_stopped) = Inr s1 \<and>
    handle_updated (next_at_fuel 7) Inr (\<lambda>_ _. []) demo_stopped = Inr s' \<and>
    (\<forall>i. p i < length (index (graph demo_stopped)) \<and> ready (graph demo_stopped) (index (graph demo_stopped) ! p i)) \<and>
    handed p (tc_idxs (threads demo_stopped ! k)) s1 s'"
proof -
  obtain t where "t \<in> set (threads demo_stopped)" "unhandled t" using demo_stopped_unhandled by blast
  then show ?thesis by (rule updated_hands_over [OF demo_stopped_ok]) simp
qed

text \<open>
  The pass has no test for the end.  When every relation is complete while a stopped thread
  still has an index pending and the context is not stopped as a whole, \<open>next\<close> returns the default
  relation, whose key is not in the manifest, and the pass indexes the threads out of range.
\<close>
theorem updated_all_complete_undefined:
  assumes "good_manifest fuel (graph s)" "threads_match s" "t \<in> set (threads s)" "unhandled t"
    "\<forall>a \<in> set (index (graph s)). \<not> incomplete (rel_at (graph s) a)"
  shows "handle_updated (next_at_fuel fuel) Inr serialize s = Inl (Undefined ''operator[]'')"
proof -
  let ?m = "graph s"
  let ?k = "find_if unhandled (threads s)"
  let ?s0 = "set_threads ((threads s)[?k := snd (pop_idxs (threads s ! ?k))]) s"
  have len: "length (threads s) = length (index ?m)" by (rule threads_match_length [OF assms(2)])
  have k: "?k < length (threads s)" using assms(3,4) by (auto simp: find_if_less_iff)
  have "unhandled (threads s ! ?k)" using find_if_nth [OF k] .
  then obtain i "is" where i: "tc_idxs (threads s ! ?k) = i # is"
    by (cases "tc_idxs (threads s ! ?k)") (auto simp: unhandled_def has_pending_idxs_def)
  have "\<exists>s1. update_peers Inr serialize ?k ?s0 = Inr s1"
    using k len by (auto simp: update_peers_def result_text_def)
  then obtain s1 where s1: "update_peers Inr serialize ?k ?s0 = Inr s1" by blast
  then have c: "graph s1 = ?m" "length (threads s1) = length (index ?m)"
    using update_peers_ctx [OF s1] len by simp_all
  have "0 < length (index ?m)" using k len by linarith
  then have key: "key_at ?m (index ?m ! ((?k + 1) mod length (index ?m))) \<in> keys ?m" by (rule key_mod)
  show ?thesis
    using program.update_loop_complete [of fuel s1] assms(1,5) key c
    unfolding handle_updated_eq [OF refl k s1 len] i by simp
qed

definition demo_complete :: sched_env where
  "demo_complete = set_graph (set_value 2 ''1'' (set_value 1 ''1'' (graph demo_stopped))) demo_stopped"

theorem updated_all_complete_undefined_witness:
  "handle_updated (next_at_fuel 7) Inr (\<lambda>_ _. []) demo_complete = Inl (Undefined ''operator[]'')"
proof -
  obtain t where "t \<in> set (threads demo_stopped)" "unhandled t" using demo_stopped_unhandled by blast
  then have "t \<in> set (threads demo_complete)" "unhandled t" by (simp_all add: demo_complete_def)
  then show ?thesis
  proof (rule updated_all_complete_undefined [rotated 2])
    show "good_manifest 7 (graph demo_complete)"
      using demo_stopped_ok(1) by (simp add: demo_complete_def good_set_value)
    show "threads_match demo_complete"
      using demo_stopped_ok(2) by (simp add: demo_complete_def threads_match_def)
    show "\<forall>a \<in> set (index (graph demo_complete)). \<not> incomplete (rel_at (graph demo_complete) a)"
      by (simp add: demo_complete_def demo_stopped_simps demo_graph incomplete_def set_value_value)
        (simp add: demo_manifest_def)
  qed
qed

text \<open>
  The start of a run.  The index on top of the stack is taken off; if some relation has no
  value, it becomes pending on the thread of a relation that is ready to run, and otherwise only
  the end event of the scheduler is raised.
\<close>
theorem start_run_notifies:
  assumes "good_manifest fuel (graph s)" "threads_match s" "index (graph s) \<noteq> []" "ec_stack (se_ctx s) = is @ [i]"
  shows "(\<not> all_valued (graph s) \<longrightarrow>
      (\<exists>s' j. start_run (next_at_fuel fuel) s = Inr s' \<and> ec_stack (se_ctx s') = is \<and>
        j < length (index (graph s)) \<and> ready (graph s) (index (graph s) ! j) \<and>
        threads s' = (threads s)[j := notify i (threads s ! j)] \<and> pending s' = add_mset i (pending s))) \<and>
    ((\<forall>a \<in> set (index (graph s)). \<not> incomplete (rel_at (graph s) a)) \<longrightarrow>
      (\<exists>s'. start_run (next_at_fuel fuel) s = Inr s' \<and> ec_stack (se_ctx s') = is \<and> threads s' = threads s \<and>
        se_box s' = se_box s OR ctl_end_event))"
proof (intro conjI impI)
  let ?m = "graph s"
  let ?c = "(se_ctx s)\<lparr>ec_stack := is\<rparr>"
  let ?key = "key_at ?m (index ?m ! (i mod length (index ?m)))"
  have pop: "pop_execution_idx (se_ctx s) = Inr (i, ?c)" using assms(4) by (simp add: pop_execution_idx_def)
  have st: "start_at ?m i = Inr ?key" using assms(3) by (simp add: start_at_def)
  have key: "?key \<in> keys ?m" using assms(3) by (intro key_mod) simp
  { assume "\<not> all_valued ?m"
    then have ex: "\<exists>a \<in> set (index ?m). rel_value (rel_at ?m a) = []" by (simp add: all_valued_def)
    from program.pick_ready [OF assms(1) key ex, of i] obtain a j where
      a: "next_relation fuel ?key i ?m = Inr (Some a)" "find_key ?m (next_key ?m (Some a)) = j"
      and j: "j < length (index ?m)" "ready ?m (index ?m ! j)" by blast
    let ?s1 = "s\<lparr>se_ctx := ?c, se_queue := snd (thread_sched_push (se_queue s))\<rparr>"
    let ?s2 = "yield_queue (set_threads ((threads s)[j := notify i (threads s ! j)]) ?s1)"
    have "j < length (threads ?s1)" using j(1) threads_match_length [OF assms(2)] by simp
    then have n: "notify_at j i ?s1 = Inr ?s2" by (simp add: notify_at_iff)
    have "start_run (next_at_fuel fuel) s = Inr ?s2"
      using j(1) n by (simp add: start_run_def pop st a Let_def)
    moreover have "pending ?s2 = add_mset i (pending s)"
      using notify_at_pending [OF n] by (simp add: pending_def)
    ultimately show "\<exists>s' j. start_run (next_at_fuel fuel) s = Inr s' \<and> ec_stack (se_ctx s') = is \<and>
        j < length (index ?m) \<and> ready ?m (index ?m ! j) \<and>
        threads s' = (threads s)[j := notify i (threads s ! j)] \<and> pending s' = add_mset i (pending s)"
      using j by (intro exI [of _ ?s2] exI [of _ j]) (simp add: set_threads_def) }
  { assume "\<forall>a \<in> set (index ?m). \<not> incomplete (rel_at ?m a)"
    then have n: "next_relation fuel ?key i ?m = Inr None" by (rule program.nxt_complete [OF assms(1) key])
    have "[] \<notin> keys ?m" using assms(1) by (simp add: good_manifest_def)
    then have "find_key ?m [] = length (index ?m)" unfolding find_key_eq .
    then have "start_run (next_at_fuel fuel) s = Inr (sched_end (s\<lparr>se_ctx := ?c\<rparr>))"
      by (simp add: start_run_def pop st n Let_def next_key_def default_relation_def)
    then show "\<exists>s'. start_run (next_at_fuel fuel) s = Inr s' \<and> ec_stack (se_ctx s') = is \<and> threads s' = threads s \<and>
        se_box s' = se_box s OR ctl_end_event" by (simp add: sched_end_def) }
qed

theorem start_run_notifies_witness:
  "\<exists>s' j. start_run (next_at_fuel 7) demo_env = Inr s' \<and> ec_stack (se_ctx s') = [] \<and>
     j < length (index (graph demo_env)) \<and> ready (graph demo_env) (index (graph demo_env) ! j) \<and>
     threads s' = (threads demo_env)[j := notify 0 (threads demo_env ! j)] \<and> pending s' = add_mset 0 (pending demo_env)"
proof -
  have "ec_stack (se_ctx demo_env) = [] @ [0]" by (simp add: demo_env_def demo_context_def)
  with start_run_notifies [OF demo_good demo_match _ this] demo_unvalued show ?thesis by (simp add: demo_graph)
qed

section \<open>Stopped contexts\<close>

lemma stopped_loop_filter:
  assumes "\<forall>c \<in> set cs. stopped c \<longrightarrow> handle c = Inr (h c)" "length (filter stopped cs) < n"
  shows "stopped_loop n stopped handle cs out = Inr (out @ map h (filter stopped cs), filter (\<lambda>c. \<not> stopped c) cs)"
  using assms
proof (induction n arbitrary: cs out)
  case 0
  then show ?case by simp
next
  case (Suc n)
  let ?i = "find_if stopped cs"
  show ?case
  proof (cases "?i < length cs")
    case False
    then have none: "\<forall>c \<in> set cs. \<not> stopped c" by (simp add: find_if_less_iff)
    then have "filter stopped cs = []" "filter (\<lambda>c. \<not> stopped c) cs = cs" by (simp_all add: filter_empty_conv)
    with False show ?thesis by (simp add: Let_def)
  next
    case True
    have s: "stopped (cs ! ?i)" by (rule find_if_nth [OF True])
    have "\<not> stopped c" if c: "c \<in> set (take ?i cs)" for c
    proof -
      from c obtain j where j: "j < length (take ?i cs)" "c = take ?i cs ! j" by (metis in_set_conv_nth)
      then show ?thesis using find_if_before [of j stopped cs] by simp
    qed
    then have b: "filter stopped (take ?i cs) = []" "filter (\<lambda>c. \<not> stopped c) (take ?i cs) = take ?i cs"
      by (simp_all add: filter_empty_conv)
    have cs: "cs = take ?i cs @ cs ! ?i # drop (Suc ?i) cs" by (rule id_take_nth_drop [OF True])
    let ?r = "take ?i cs @ drop (Suc ?i) cs"
    have f: "filter stopped cs = cs ! ?i # filter stopped ?r" "filter (\<lambda>c. \<not> stopped c) cs = filter (\<lambda>c. \<not> stopped c) ?r"
      using b s by (subst cs, simp)+
    have h: "handle (cs ! ?i) = Inr (h (cs ! ?i))" using Suc.prems(1) s True nth_mem by blast
    have "set ?r \<subseteq> set cs" by (auto dest: in_set_takeD in_set_dropD)
    then have "stopped_loop n stopped handle ?r (out @ [h (cs ! ?i)]) =
        Inr ((out @ [h (cs ! ?i)]) @ map h (filter stopped ?r), filter (\<lambda>c. \<not> stopped c) ?r)"
      using Suc.prems f(1) by (intro Suc.IH) auto
    with True h f show ?thesis by (simp add: Let_def)
  qed
qed

text \<open>
  Erasing while searching.  The loop, which erases each stopped context and searches again
  from the start, handles every stopped context exactly once, in order, and leaves the others in
  their order; one turn per context is enough.
\<close>
theorem stopped_contexts_handled:
  assumes "\<forall>s \<in> set cs. context_stopped (se_ctx s) \<longrightarrow> handle_stopped parse serialize s = Inr (h s)"
  shows "stopped_loop (Suc (length cs)) (\<lambda>s. context_stopped (se_ctx s)) (handle_stopped parse serialize) cs [] =
    Inr (map h (filter (\<lambda>s. context_stopped (se_ctx s)) cs), filter (\<lambda>s. \<not> context_stopped (se_ctx s)) cs)"
  using stopped_loop_filter [OF assms, of "Suc (length cs)" "[]"] by (simp add: le_imp_less_Suc)

theorem stopped_contexts_handled_witness:
  "stopped_loop (Suc (length [demo_env])) (\<lambda>s. context_stopped (se_ctx s)) (handle_stopped Inr (\<lambda>_ _. [])) [demo_env] [] =
    Inr (map undefined (filter (\<lambda>s. context_stopped (se_ctx s)) [demo_env]), filter (\<lambda>s. \<not> context_stopped (se_ctx s)) [demo_env])"
proof (rule stopped_contexts_handled)
  have "\<not> context_stopped (se_ctx demo_env)"
    unfolding context_stopped_def demo_env_def
    by (simp add: thread_simps) (simp add: is_stopped_def new_thread_def)
  then show "\<forall>s \<in> set [demo_env]. context_stopped (se_ctx s) \<longrightarrow> handle_stopped Inr (\<lambda>_ _. []) s = Inr (undefined s)"
    by simp
qed

section \<open>What the peers receive\<close>

lemma stopped_text_results:
  assumes "\<forall>a \<in> set (index m). incomplete (rel_at m a) \<or> parse (rel_value (rel_at m a)) = Inr (val a)"
    "i + length ts \<le> length (index m)"
  shows "\<exists>ts'. stopped_text parse serialize m i ts data = Inr (ts', data @
    concat (map (\<lambda>a. '','' @ serialize (key_at m a) (val a))
      (filter (\<lambda>a. \<not> incomplete (rel_at m a)) (take (length ts) (drop i (index m)))))) \<and> (\<forall>t \<in> set ts'. tc_idxs t = [])"
  using assms(2)
proof (induction ts arbitrary: i data)
  case Nil
  then show ?case by simp
next
  case (Cons t ts)
  let ?a = "index m ! i"
  let ?x = "if incomplete (rel_at m ?a) then [] else '','' @ serialize (key_at m ?a) (val ?a)"
  have i: "i < length (index m)" using Cons.prems by simp
  then have "result_text parse serialize (rel_at m ?a) = Inr ?x"
    using assms(1) nth_mem by (auto simp: result_text_def incomplete_def)
  moreover obtain ts' where "stopped_text parse serialize m (Suc i) ts (data @ ?x) = Inr (ts', (data @ ?x) @
      concat (map (\<lambda>a. '','' @ serialize (key_at m a) (val a))
        (filter (\<lambda>a. \<not> incomplete (rel_at m a)) (take (length ts) (drop (Suc i) (index m))))))"
      "\<forall>t \<in> set ts'. tc_idxs t = []"
    using Cons.IH [of "Suc i" "data @ ?x"] Cons.prems by auto
  moreover have "take (length (t # ts)) (drop i (index m)) = ?a # take (length ts) (drop (Suc i) (index m))"
    using i by (simp add: Cons_nth_drop_Suc [symmetric])
  moreover have "tc_idxs (if has_pending_idxs t then snd (pop_idxs t) else t) = []"
    by (simp add: thread_simps) (simp add: has_pending_idxs_def)
  ultimately show ?case using i by simp
qed

text \<open>
  C34: the end of a context, seen by a peer.  When a context has stopped, each peer session gets
  one chunk and then the empty chunk, all pending indices are dropped, and the peer's scanner
  takes from that chunk exactly the results of the relations that have one, in the order of the
  manifest, and then the end of the array.  The results must be texts that the scanner takes whole
  (\<open>object_text\<close>): their braces, those inside strings counted too, balance for the first time at
  the end, as they do when no string in them has a brace.  A result with an unbalanced brace in a
  string is cut in two by the receiver.
\<close>
theorem stopped_results_received:
  assumes "threads_match s"
    "\<forall>a \<in> set (index (graph s)). incomplete (rel_at (graph s) a) \<or>
       parse (rel_value (rel_at (graph s) a)) = Inr (val a) \<and> object_text (serialize (key_at (graph s) a) (val a))"
    "length (concat (map (\<lambda>a. '','' @ serialize (key_at (graph s) a) (val a)) (index (graph s)))) + 1 < 2 ^ 64"
  shows "\<exists>s' data. handle_stopped parse serialize s =
      Inr (map (\<lambda>cs. cs @ [data_chunk data, empty_chunk]) (se_peers s), s') \<and>
    pending s' = {#} \<and> se_peers s' = [] \<and>
    chunk_objects (Suc (length data)) (chunk_size (data_chunk data)) (chunk_data (data_chunk data)) 0 =
      Inr (map (\<lambda>a. serialize (key_at (graph s) a) (val a))
             (filter (\<lambda>a. \<not> incomplete (rel_at (graph s) a)) (index (graph s))), True)"
proof -
  let ?m = "graph s"
  let ?as = "filter (\<lambda>a. \<not> incomplete (rel_at ?m a)) (index ?m)"
  let ?t = "\<lambda>a. '','' @ serialize (key_at ?m a) (val a)"
  let ?data = "concat (map ?t ?as) @ '']''"
  have len: "length (threads s) = length (index ?m)" by (rule threads_match_length [OF assms(1)])
  then obtain ts' where ts': "stopped_text parse serialize ?m 0 (threads s) [] = Inr (ts', concat (map ?t ?as))"
    "\<forall>t \<in> set ts'. tc_idxs t = []"
    using stopped_text_results [of ?m parse val 0 "threads s" serialize "[]"] assms(2) by auto
  let ?s' = "(set_threads ts' s)\<lparr>se_peers := []\<rparr>"
  have h: "handle_stopped parse serialize s = Inr (map (\<lambda>cs. cs @ [data_chunk ?data, empty_chunk]) (se_peers s), ?s')"
    by (simp add: handle_stopped_def ts'(1))
  have "concat (map tc_idxs ts') = []" using ts'(2) by simp
  then have p: "pending ?s' = {#}" by (simp add: pending_def set_threads_def)
  let ?items = "map (\<lambda>a. ('','', serialize (key_at ?m a) (val a))) ?as"
  have short: "length (concat (map f (filter P xs))) \<le> length (concat (map f xs))" for f :: "nat \<Rightarrow> string" and P xs
    by (induction xs) auto
  have A: "length ?data < 2 ^ 64" using assms(3) short [of ?t "\<lambda>a. \<not> incomplete (rel_at ?m a)" "index ?m"] by simp
  have B: "drop 0 ?data = stream_text ?items '']''" by (simp add: stream_text_def comp_def)
  have C: "\<forall>(x, ob) \<in> set ?items. sep_text x \<and> object_text ob" using assms(2) by (auto simp: sep_text_def)
  have D: "sep_text '']'' \<or> (\<exists>x t. '']'' = x @ CHR '']'' # t \<and> sep_text x \<and> count_list x CHR ''['' \<le> 1)"
    by (intro disjI2 exI [of _ "[]"]) (simp add: sep_text_def)
  have "chunk_objects (Suc (length ?data)) [of_nat (length ?data)] ?data 0 = Inr (map snd ?items, \<not> sep_text '']'')"
    by (rule chunk_objects_items [OF A _ _ B C D]) simp_all
  then have "chunk_objects (Suc (length ?data)) (chunk_size (data_chunk ?data)) (chunk_data (data_chunk ?data)) 0 =
      Inr (map (\<lambda>a. serialize (key_at ?m a) (val a)) ?as, True)"
    by (simp add: data_chunk_def sep_text_def comp_def)
  with h p show ?thesis by (intro exI [of _ ?s'] exI [of _ ?data]) simp
qed

theorem stopped_results_received_witness:
  "\<exists>s' data. handle_stopped Inr (\<lambda>_ _. ''{}'') demo_stopped =
      Inr (map (\<lambda>cs. cs @ [data_chunk data, empty_chunk]) (se_peers demo_stopped), s') \<and>
    pending s' = {#} \<and> se_peers s' = [] \<and>
    chunk_objects (Suc (length data)) (chunk_size (data_chunk data)) (chunk_data (data_chunk data)) 0 =
      Inr (map (\<lambda>a. ''{}'') (filter (\<lambda>a. \<not> incomplete (rel_at (graph demo_stopped) a)) (index (graph demo_stopped))), True)"
  by (rule stopped_results_received [where val = "\<lambda>a. rel_value (rel_at (graph demo_stopped) a)"])
    (simp_all add: demo_stopped_ok demo_stopped_simps demo_graph object_text_def)

section \<open>Secondary contexts\<close>

lemma populate_indices_length: "length (populate_indices n cc) = cc - 1"
  by (simp add: populate_indices_def)

lemma api_loop_indices:
  "api_loop curl_ok indices d is = Inr ds \<Longrightarrow>
   length ds = length is \<and> (\<forall>j < length is. is ! j < length indices \<and> ds ! j = d\<lparr>rd_idx := indices ! (is ! j)\<rparr>)"
proof (induction "is" arbitrary: ds)
  case Nil
  then show ?case by simp
next
  case (Cons i "is")
  from Cons.prems obtain ds' where "i < length indices" "api_loop curl_ok indices d is = Inr ds'"
    "ds = d\<lparr>rd_idx := indices ! i\<rparr> # ds'"
    by (auto simp: rbind_Inr_iff vec_at_Inr_iff split: if_splits)
  with Cons.IH show ?case by (auto simp: nth_Cons split: nat.splits)
qed

lemma make_api_requests_data:
  assumes "make_api_requests ntop genv reuse curl_ok c val = Inr (url, ds)" "1 < concurrency (ec_manifest c)"
  obtains d where "populate_request_data ntop c val
      (populate_indices (length (index (ec_manifest c))) (concurrency (ec_manifest c))) = Inr d"
    "api_loop curl_ok (populate_indices (length (index (ec_manifest c))) (concurrency (ec_manifest c))) d
      [0..<concurrency (ec_manifest c) - 1] = Inr ds"
  using assms by (auto simp: make_api_requests_def Let_def rbind_Inr_iff split: option.splits if_splits)

text \<open>
  The requests for the secondary contexts.  When they are made, there is one less than the
  concurrency, each carries the id of the context and the value of the request, and their indices
  are those of \<open>populate_indices\<close>: distinct, never that of the primary context, and, if the
  manifest is not smaller than the concurrency, positions of the manifest.
\<close>
theorem api_requests_partition:
  assumes "make_api_requests ntop genv reuse curl_ok c val = Inr (url, ds)" "1 < concurrency (ec_manifest c)"
  shows "length ds = concurrency (ec_manifest c) - 1 \<and>
    map rd_idx ds = populate_indices (length (index (ec_manifest c))) (concurrency (ec_manifest c)) \<and>
    (\<forall>d \<in> set ds. rd_uuid d = uuid_show (ec_id c) \<and> Some (rd_value d) = val) \<and>
    distinct (0 # map rd_idx ds) \<and>
    (concurrency (ec_manifest c) \<le> length (index (ec_manifest c)) \<longrightarrow>
       (\<forall>d \<in> set ds. rd_idx d < length (index (ec_manifest c))))"
proof -
  let ?cc = "concurrency (ec_manifest c)"
  let ?n = "length (index (ec_manifest c))"
  let ?is = "populate_indices ?n ?cc"
  obtain d where d: "populate_request_data ntop c val ?is = Inr d" and l: "api_loop curl_ok ?is d [0..<?cc - 1] = Inr ds"
    by (rule make_api_requests_data [OF assms])
  from api_loop_indices [OF l] have len: "length ds = ?cc - 1"
    and nth: "j < ?cc - 1 \<Longrightarrow> ds ! j = d\<lparr>rd_idx := ?is ! j\<rparr>" for j by simp_all
  have idx: "map rd_idx ds = ?is"
    by (rule nth_equalityI) (simp_all add: len populate_indices_length nth)
  have common: "\<forall>e \<in> set ds. rd_uuid e = rd_uuid d \<and> rd_value e = rd_value d"
    using nth len by (auto simp: in_set_conv_nth)
  have "rd_uuid d = uuid_show (ec_id c) \<and> Some (rd_value d) = val"
    using d by (auto simp: populate_request_data_def rbind_Inr_iff split: option.splits)
  moreover have "distinct (0 # ?is)"
  proof (cases "?n < ?cc")
    case True
    then show ?thesis by (simp add: populate_indices_def)
  next
    case False
    then have "0 < ?n div ?cc" using assms(2) by (simp add: div_greater_zero_iff)
    with False show ?thesis by (auto simp: populate_indices_def distinct_map inj_on_def)
  qed
  moreover have "e < ?n" if "?cc \<le> ?n" "e \<in> set ?is" for e
  proof -
    from that obtain i where i: "1 \<le> i" "i < ?cc" "e = i * (?n div ?cc)" by (auto simp: populate_indices_def)
    have "0 < ?n div ?cc" using that(1) assms(2) by (simp add: div_greater_zero_iff)
    then have "e < ?cc * (?n div ?cc)" using i by simp
    also have "\<dots> \<le> ?n" by simp
    finally show ?thesis .
  qed
  ultimately show ?thesis using len idx common by (metis image_eqI list.set_map)
qed

definition demo_api_env :: environment where
  "demo_api_env = (\<lambda>_. None)(''__OW_ACTION_NAME'' := Some ''/guest/pi'', ''__OW_API_HOST'' := Some ''http://h'',
     ''__OW_API_KEY'' := Some ''u:p'')"

definition demo_api :: "nat \<Rightarrow> exec_context" where
  "demo_api cc = demo_context\<lparr>ec_env := demo_api_env, ec_manifest := demo_manifest\<lparr>concurrency := cc\<rparr>\<rparr>"

lemma demo_api_requests:
  "make_api_requests (\<lambda>_. ''10.0.0.1'') demo_api_env True (\<lambda>_. True) (demo_api 3) (Some ''{}'') =
     Inr (''http://h/api/v1/namespaces/guest/actions/pi'',
       map (\<lambda>i. \<lparr>rd_uuid = uuid_show (replicate 16 1), rd_peers = [''10.0.0.1:5200''], rd_value = ''{}'', rd_idx = i\<rparr>) [1, 2])"
  by (simp add: make_api_requests_def demo_api_def demo_context_def demo_api_env_def populate_indices_def Let_def
      demo_manifest_def populate_request_data_def rtostr_def show_nat.simps digit_char_def api_url_def path_filename_def
      upt_rec)

theorem api_requests_partition_witness: "[1, 2] = populate_indices 3 3"
  using api_requests_partition [OF demo_api_requests]
  by (simp add: demo_api_def demo_manifest_def comp_def numeral_3_eq_3)

text \<open>
  Two contexts.  The first body takes its index from position 1 of the indices, but with a
  concurrency of two there is only position 0: the vector is read out of range, whatever the
  manifest and however well everything else goes.
\<close>
theorem api_requests_two_undefined:
  assumes "concurrency (ec_manifest c) = 2" "genv ''__OW_ACTION_NAME'' = Some name" "genv ''__OW_API_HOST'' = Some host"
    "ec_env c ''__OW_API_KEY'' = Some key" "key \<noteq> []" "rtostrs ntop (ec_peers c) = Inr ps" "val = Some v"
  shows "make_api_requests ntop genv reuse curl_ok c val = Inl (Undefined ''operator[]'')"
proof -
  have "vec_at (populate_indices n 2) 1 = Inl (Undefined ''operator[]'')" for n
    by (simp add: vec_at_def populate_indices_length)
  with assms show ?thesis by (simp add: make_api_requests_def populate_request_data_def)
qed

theorem api_requests_two_undefined_witness:
  "make_api_requests (\<lambda>_. ''10.0.0.1'') demo_api_env True (\<lambda>_. True) (demo_api 2) (Some ''{}'') = Inl (Undefined ''operator[]'')"
  by (rule api_requests_two_undefined [where key = "''u:p''"])
    (simp_all add: demo_api_def demo_api_env_def demo_context_def demo_manifest_def rtostr_def show_nat.simps digit_char_def)

section \<open>Addresses of peers\<close>

lemma find_char_append: "c \<notin> set s \<Longrightarrow> find_char c (s @ c # t) = Some (length s)"
  by (auto simp: find_char_def find_if_append Let_def find_if_eq_length_iff)

lemma merge_shown_peer:
  assumes "rtostr ntop p = Inr s" "aton (ntop (peer_addr p)) = Some (peer_addr p)" "CHR '':'' \<notin> set (ntop (peer_addr p))"
    "peer_port p < 2 ^ 16"
  shows "merge_peer aton s ps = Inr (if p \<in> set ps then ps else ps @ [p])"
proof -
  let ?a = "ntop (peer_addr p)"
  have s: "s = ?a @ CHR '':'' # show_nat 10 (peer_port p)"
    using assms(1) by (simp add: rtostr_def split: if_splits)
  have f: "find_char CHR '':'' s = Some (length ?a)" unfolding s by (rule find_char_append [OF assms(3)])
  have "from_chars 10 16 (show_nat 10 (peer_port p) @ []) = Inr (digits_val 10 (show_nat 10 (peer_port p)))"
    using assms(4) by (intro from_chars_digits) (simp_all add: show_nat_digits digits_val_show_nat)
  then have "from_chars 10 16 (drop (length ?a + 1) s) = Inr (peer_port p)" by (simp add: s digits_val_show_nat)
  moreover have "take (length ?a) s = ?a" by (simp add: s)
  moreover have "peer_port q = peer_port p \<and> peer_addr q = peer_addr p \<longleftrightarrow> q = p" for q :: peer by (cases p; cases q) auto
  ultimately show ?thesis
    using assms(2) by (auto simp: merge_peer_def f find_if_eq_length_iff)
qed

text \<open>
  Peers understand each other's tables.  When the strings that one controller writes for its
  peers are merged by another one, the other one has in its table, after what it had, exactly the
  peers that it did not have: the library's \<open>inet_ntop\<close> and \<open>inet_aton\<close> must be inverse to each
  other on these addresses, without a colon in the text.
\<close>
theorem peer_table_roundtrip:
  assumes "rtostrs ntop ps = Inr texts" "distinct ps" "\<forall>p \<in> set ps. aton (ntop (peer_addr p)) = Some (peer_addr p) \<and>
      CHR '':'' \<notin> set (ntop (peer_addr p)) \<and> peer_port p < 2 ^ 16"
  shows "merge_peer_addresses aton texts c = Inr (c\<lparr>ec_peers := ec_peers c @ filter (\<lambda>p. p \<notin> set (ec_peers c)) ps\<rparr>)"
proof -
  have "rfold (merge_peer aton) texts qs = Inr (qs @ filter (\<lambda>p. p \<notin> set qs) ps)" for qs
    using assms
  proof (induction ps arbitrary: texts qs)
    case Nil
    then show ?case by simp
  next
    case (Cons p ps)
    then obtain s ss where s: "rtostr ntop p = Inr s" "rtostrs ntop ps = Inr ss" "texts = s # ss"
      by (auto simp: rbind_Inr_iff)
    have "merge_peer aton s qs = Inr (if p \<in> set qs then qs else qs @ [p])"
      using Cons.prems(3) by (intro merge_shown_peer [OF s(1)]) simp_all
    moreover have "filter (\<lambda>q. q \<noteq> p \<and> q \<notin> set qs) ps = filter (\<lambda>q. q \<notin> set qs) ps"
      using Cons.prems(2) by (intro filter_cong) auto
    ultimately show ?case using Cons.IH [OF s(2)] Cons.prems(2,3) s(3) by auto
  qed
  then show ?thesis by (simp add: merge_peer_addresses_def)
qed

theorem peer_table_roundtrip_witness:
  "merge_peer_addresses demo_aton [''127.0.0.1:5200''] demo_context = Inr (demo_context\<lparr>ec_peers := ec_peers demo_context @
     filter (\<lambda>p. p \<notin> set (ec_peers demo_context)) [\<lparr>peer_addr = 0x7F000001, peer_port = 5200\<rparr>]\<rparr>)"
  by (rule peer_table_roundtrip [of "\<lambda>_. ''127.0.0.1''"])
    (simp_all add: rtostr_def show_nat.simps digit_char_def demo_aton_def)

end
