(* ===== verification/HttpHeader.thy ===== *)
theory HttpHeader
  imports HttpChunk
begin

text \<open>
  \<open>operator>>\<close> and \<open>operator<<\<close> of \<open>HttpHeader\<close> (\<open>http-requests.cpp\<close>).  \<open>header_step\<close> is the
  body of the extraction loop for one byte; no byte makes it fail, so it returns the header
  itself, and the interface \<open>byte_reader\<close> is interpreted on \<open>Inr\<close> of it.
\<close>

section \<open>Operations\<close>

definition field_of :: "string \<Rightarrow> http_header_field" where
  "field_of s =
     (if s = ''CONTENT-TYPE'' then CONTENT_TYPE
      else if s = ''CONTENT-LENGTH'' then CONTENT_LENGTH
      else if s = ''ACCEPT'' then ACCEPT
      else if s = ''HOST'' then HOST
      else if s = ''TRANSFER-ENCODING'' then TRANSFER_ENCODING
      else if s = ''CONNECTION'' then CONNECTION
      else FieldUnknown)"

definition header_step :: "char \<Rightarrow> http_header \<Rightarrow> http_header" where
  "header_step c h =
     (if \<not> field_name_found h then
        (if \<not> not_last h then
           (if c = LF then
              h\<lparr>field_name_found := True, field_name := END_OF_HEADERS, header_complete := True\<rparr>
            else if \<not> is_space c then h\<lparr>not_last := True, header_buf := header_buf h @ [c]\<rparr>
            else h)
         else if \<not> (is_space c \<or> c = CHR '':'') then h\<lparr>header_buf := header_buf h @ [c]\<rparr>
         else
           (let h1 = (if c = CHR '':'' then h\<lparr>field_delimiter_found := True\<rparr> else h);
                b = map to_upper (header_buf h)
            in h1\<lparr>field_name_found := True, header_buf := b, field_name := field_of b\<rparr>))
      else if \<not> field_delimiter_found h \<and> c = CHR '':'' then h\<lparr>field_delimiter_found := True\<rparr>
      else if c = LF then h\<lparr>header_complete := True\<rparr>
      else if \<not> is_space c \<and> \<not> field_value_started h then
        h\<lparr>field_value_started := True, field_value := field_value h @ [c]\<rparr>
      else if field_value_started h \<and> \<not> field_value_ended h then
        (if \<not> is_space c \<or> c = SP \<or> c = HT then h\<lparr>field_value := field_value h @ [c]\<rparr>
         else h\<lparr>field_value_ended := True\<rparr>)
      else h)"

fun header_read :: "http_header \<Rightarrow> string \<Rightarrow> http_header \<times> string" where
  "header_read h [] = (h, [])"
| "header_read h (c # cs) =
     (if header_complete h then (h, c # cs) else header_read (header_step c h) cs)"

definition field_text :: "http_header_field \<Rightarrow> string option" where
  "field_text f = (case f of
     CONTENT_TYPE \<Rightarrow> Some ''Content-Type: ''
   | CONTENT_LENGTH \<Rightarrow> Some ''Content-Length: ''
   | ACCEPT \<Rightarrow> Some ''Accept: ''
   | HOST \<Rightarrow> Some ''Host: ''
   | TRANSFER_ENCODING \<Rightarrow> Some ''Transfer-Encoding: ''
   | CONNECTION \<Rightarrow> Some ''Connection: ''
   | FieldUnknown \<Rightarrow> None
   | END_OF_HEADERS \<Rightarrow> None)"

definition header_show :: "http_header \<Rightarrow> string" where
  "header_show h = (case field_text (field_name h) of
     None \<Rightarrow> [] | Some t \<Rightarrow> t @ field_value h @ CRLF)"

interpretation header_rd:
  byte_reader "\<lambda>c h. Inr (header_step c h)" header_complete "\<lambda>h s. Inr (header_read h s)"
  by unfold_locales simp_all

section \<open>The states a header goes through\<close>

definition header_wf :: "http_header \<Rightarrow> bool" where
  "header_wf h \<longleftrightarrow>
     (header_complete h \<longrightarrow> field_name_found h) \<and>
     (field_delimiter_found h \<longrightarrow> field_name_found h) \<and>
     (field_value_started h \<longrightarrow> field_name_found h \<and> field_value h \<noteq> []) \<and>
     (\<not> field_value_started h \<longrightarrow> field_value h = []) \<and>
     (field_value_ended h \<longrightarrow> field_value_started h) \<and>
     (not_last h \<longleftrightarrow> header_buf h \<noteq> []) \<and>
     (field_name_found h \<longrightarrow>
        (if not_last h then field_name h = field_of (header_buf h)
         else field_name h = END_OF_HEADERS \<and> header_complete h))"

lemma header_wf_empty: "header_wf empty_header"
  by (simp add: header_wf_def empty_header_def)

lemma header_step_wf: "header_wf h \<Longrightarrow> \<not> header_complete h \<Longrightarrow> header_wf (header_step c h)"
  by (cases "field_name_found h"; cases "not_last h"; cases "field_delimiter_found h";
      cases "field_value_started h"; cases "field_value_ended h")
     (simp_all add: header_wf_def header_step_def Let_def)

lemma header_read_wf: "header_wf h \<Longrightarrow> header_read h s = (h', rest) \<Longrightarrow> header_wf h'"
  using header_rd.read_invariant [of header_wf h s h' rest] header_step_wf by auto

lemma header_read_append:
  "header_read h (xs @ ys) = (case header_read h xs of (h', rest) \<Rightarrow> header_read h' (rest @ ys))"
  using header_rd.read_append [of h xs ys] by (simp add: case_prod_beta)

lemma header_read_stop: "header_complete h \<Longrightarrow> header_read h cs = (h, cs)"
  using header_rd.read_stop [of h cs] by simp

lemma field_of_not_end: "field_of s \<noteq> END_OF_HEADERS"
  by (simp add: field_of_def)

text \<open>The end of the header block is recognised by an empty buffer, not by the name alone.\<close>

lemma header_wf_end:
  "header_wf h \<Longrightarrow> field_name_found h \<Longrightarrow> field_name h = END_OF_HEADERS \<longleftrightarrow> \<not> not_last h"
  by (auto simp: header_wf_def field_of_not_end split: if_splits)

section \<open>Properties\<close>

lemma header_read_line:
  "\<forall>c \<in> set w. is_space c \<and> c \<noteq> LF \<Longrightarrow> header_read empty_header (w @ s) = header_read empty_header s"
proof (induction w)
  case Nil
  then show ?case by simp
next
  case (Cons c w)
  then have "header_step c empty_header = empty_header"
    by (auto simp: header_step_def empty_header_def)
  with Cons show ?case by (simp add: empty_header_def)
qed

lemma header_read_name:
  "not_last h \<Longrightarrow> \<not> field_name_found h \<Longrightarrow> \<not> header_complete h \<Longrightarrow>
   \<forall>c \<in> set n. \<not> is_space c \<and> c \<noteq> CHR '':'' \<Longrightarrow>
   header_read h (n @ s) = header_read (h\<lparr>header_buf := header_buf h @ n\<rparr>) s"
  by (induction n arbitrary: h) (simp_all add: header_step_def)

lemma header_read_value:
  "field_name_found h \<Longrightarrow> field_delimiter_found h \<Longrightarrow> field_value_started h \<Longrightarrow>
   \<not> field_value_ended h \<Longrightarrow> \<not> header_complete h \<Longrightarrow>
   \<forall>c \<in> set v. \<not> is_space c \<or> c = SP \<or> c = HT \<Longrightarrow>
   header_read h (v @ s) = header_read (h\<lparr>field_value := field_value h @ v\<rparr>) s"
proof (induction v arbitrary: h)
  case Nil
  then show ?case by simp
next
  case (Cons c v)
  then have "c \<noteq> LF" by auto
  with Cons show ?case by (simp add: header_step_def)
qed

lemma header_step_first:
  "\<not> is_space c \<Longrightarrow> header_step c empty_header = empty_header\<lparr>not_last := True, header_buf := [c]\<rparr>"
  by (cases "c = LF") (simp_all add: header_step_def empty_header_def)

lemma header_read_colon:
  "not_last h \<Longrightarrow> \<not> field_name_found h \<Longrightarrow> \<not> header_complete h \<Longrightarrow> \<not> field_value_started h \<Longrightarrow>
   header_read h (CHR '':'' # SP # s) = header_read
     (h\<lparr>field_delimiter_found := True, field_name_found := True, header_buf := map to_upper (header_buf h),
        field_name := field_of (map to_upper (header_buf h))\<rparr>) s"
  by (simp add: header_step_def Let_def)

lemma header_read_first:
  "\<not> is_space c \<Longrightarrow> header_read empty_header (c # s) =
     header_read (empty_header\<lparr>not_last := True, header_buf := [c]\<rparr>) s"
  using header_step_first [of c] by (simp add: empty_header_def)

text \<open>The header a reader holds after a line with the given name and value.\<close>

definition parsed_header :: "string \<Rightarrow> string \<Rightarrow> http_header" where
  "parsed_header n v = \<lparr>field_name = field_of (map to_upper n), field_value = v,
     header_buf = map to_upper n, field_name_found = True, field_delimiter_found = True,
     field_value_started = (v \<noteq> []), field_value_ended = (v \<noteq> []), header_complete = True,
     not_last = True\<rparr>"

definition name_text :: "string \<Rightarrow> bool" where
  "name_text n \<longleftrightarrow> n \<noteq> [] \<and> (\<forall>c \<in> set n. \<not> is_space c \<and> c \<noteq> CHR '':'')"

definition value_text :: "string \<Rightarrow> bool" where
  "value_text v \<longleftrightarrow> (\<forall>c \<in> set v. \<not> is_space c \<or> c = SP \<or> c = HT) \<and> (v \<noteq> [] \<longrightarrow> \<not> is_space (hd v))"

lemma header_read_field:
  assumes n: "name_text n" and v: "value_text v"
  shows "header_read empty_header (n @ '': '' @ v @ CRLF @ rest) = (parsed_header n v, rest)"
proof -
  obtain c m where nc: "n = c # m" using n by (cases n) (auto simp: name_text_def)
  let ?h1 = "empty_header\<lparr>not_last := True, header_buf := [c]\<rparr>"
  let ?h2 = "empty_header\<lparr>not_last := True, header_buf := map to_upper n, field_name_found := True,
               field_delimiter_found := True, field_name := field_of (map to_upper n)\<rparr>"
  have c: "\<not> is_space c" using n unfolding nc name_text_def by simp
  then have "c \<noteq> LF" by (auto simp: is_space_def)
  have "header_read empty_header (n @ '': '' @ v @ CRLF @ rest) = header_read ?h1 (m @ '': '' @ v @ CRLF @ rest)"
    unfolding nc append_Cons by (rule header_read_first [OF c(1)])
  also have "\<dots> = header_read (?h1\<lparr>header_buf := header_buf ?h1 @ m\<rparr>) ('': '' @ v @ CRLF @ rest)"
    using n by (intro header_read_name) (simp_all add: empty_header_def name_text_def nc)
  also have "\<dots> = header_read ?h2 (v @ CRLF @ rest)"
    using header_read_colon [of "?h1\<lparr>header_buf := header_buf ?h1 @ m\<rparr>" "v @ CRLF @ rest"]
    unfolding nc empty_header_def by simp
  also have "\<dots> = (parsed_header n v, rest)"
  proof (cases v)
    case Nil
    then show ?thesis
      by (simp add: header_step_def empty_header_def parsed_header_def header_read_stop)
  next
    case (Cons d w)
    let ?h3 = "?h2\<lparr>field_value_started := True, field_value := [d]\<rparr>"
    have d: "\<not> is_space d" "d \<noteq> LF" using v by (auto simp: value_text_def Cons)
    then have "header_read ?h2 (v @ CRLF @ rest) = header_read ?h3 (w @ CRLF @ rest)"
      by (simp add: Cons header_step_def empty_header_def)
    also have "\<dots> = header_read (?h3\<lparr>field_value := field_value ?h3 @ w\<rparr>) (CRLF @ rest)"
      using v by (intro header_read_value) (simp_all add: empty_header_def value_text_def Cons)
    also have "\<dots> = (parsed_header n v, rest)"
      by (simp add: Cons header_step_def empty_header_def parsed_header_def header_read_stop)
    finally show ?thesis .
  qed
  finally show ?thesis .
qed

lemma header_read_end:
  "header_read empty_header (CRLF @ rest) =
     (empty_header\<lparr>field_name_found := True, field_name := END_OF_HEADERS, header_complete := True\<rparr>, rest)"
  by (simp add: header_step_def empty_header_def header_read_stop)

lemma to_upper_names:
  "map to_upper ''Content-Type'' = ''CONTENT-TYPE''"
  "map to_upper ''Content-Length'' = ''CONTENT-LENGTH''"
  "map to_upper ''Accept'' = ''ACCEPT''"
  "map to_upper ''Host'' = ''HOST''"
  "map to_upper ''Transfer-Encoding'' = ''TRANSFER-ENCODING''"
  "map to_upper ''Connection'' = ''CONNECTION''"
  by code_simp+

lemma name_texts:
  "name_text ''Content-Type''" "name_text ''Content-Length''" "name_text ''Accept''"
  "name_text ''Host''" "name_text ''Transfer-Encoding''" "name_text ''Connection''"
  by (simp_all add: name_text_def is_space_def)

lemma field_text_name:
  assumes "field_text f = Some t"
  shows "\<exists>n. t = n @ '': '' \<and> name_text n \<and> field_of (map to_upper n) = f"
proof -
  have "f \<noteq> FieldUnknown \<and> f \<noteq> END_OF_HEADERS" using assms by (auto simp: field_text_def)
  then consider "f = CONTENT_TYPE" | "f = CONTENT_LENGTH" | "f = ACCEPT" | "f = HOST"
    | "f = TRANSFER_ENCODING" | "f = CONNECTION"
    by (cases f) auto
  then show ?thesis
  proof cases
    case 1
    then show ?thesis using assms name_texts(1) to_upper_names(1)
      by (intro exI [of _ "''Content-Type''"]) (simp add: field_text_def field_of_def)
  next
    case 2
    then show ?thesis using assms name_texts(2) to_upper_names(2)
      by (intro exI [of _ "''Content-Length''"]) (simp add: field_text_def field_of_def)
  next
    case 3
    then show ?thesis using assms name_texts(3) to_upper_names(3)
      by (intro exI [of _ "''Accept''"]) (simp add: field_text_def field_of_def)
  next
    case 4
    then show ?thesis using assms name_texts(4) to_upper_names(4)
      by (intro exI [of _ "''Host''"]) (simp add: field_text_def field_of_def)
  next
    case 5
    then show ?thesis using assms name_texts(5) to_upper_names(5)
      by (intro exI [of _ "''Transfer-Encoding''"]) (simp add: field_text_def field_of_def)
  next
    case 6
    then show ?thesis using assms name_texts(6) to_upper_names(6)
      by (intro exI [of _ "''Connection''"]) (simp add: field_text_def field_of_def)
  qed
qed

definition shown_header :: "http_header_field \<Rightarrow> string \<Rightarrow> http_header" where
  "shown_header f v = parsed_header (butlast (butlast (the (field_text f)))) v"

lemma header_read_show:
  assumes "field_text f \<noteq> None" "value_text v"
  shows "header_read empty_header (header_show (mk_header f v) @ rest) = (shown_header f v, rest)"
    and "field_name (shown_header f v) = f"
proof -
  obtain t where t: "field_text f = Some t" using assms(1) by blast
  then obtain n where n: "t = n @ '': ''" "name_text n" "field_of (map to_upper n) = f"
    using field_text_name by blast
  then have sh: "shown_header f v = parsed_header n v"
    using t by (simp add: shown_header_def butlast_append)
  show "header_read empty_header (header_show (mk_header f v) @ rest) = (shown_header f v, rest)"
    using header_read_field [OF n(2) assms(2), of rest] t n(1)
    by (simp add: header_show_def mk_header_def empty_header_def sh)
  show "field_name (shown_header f v) = f" using n(3) by (simp add: sh parsed_header_def)
qed

lemma shown_header_simps [simp]:
  "field_value (shown_header f v) = v" "header_complete (shown_header f v)" "not_last (shown_header f v)"
  by (simp_all add: shown_header_def parsed_header_def)

text \<open>
  A header with a named field and a value that starts with a visible character and has no
  line end is written as one line, and reading that line takes exactly it and gives back the
  field and the value.
\<close>
theorem header_roundtrip:
  assumes "field_text f \<noteq> None" "value_text v"
  shows "\<exists>h. header_read empty_header (header_show (mk_header f v) @ rest) = (h, rest) \<and>
             header_complete h \<and> field_name h = f \<and> field_value h = v"
  using header_read_show [OF assms] by simp

theorem header_roundtrip_witness:
  "\<exists>h. header_read empty_header (header_show (mk_header HOST ''localhost'') @ ''x'') = (h, ''x'') \<and>
       header_complete h \<and> field_name h = HOST \<and> field_value h = ''localhost''"
  by (rule header_roundtrip) (simp_all add: field_text_def value_text_def is_space_def)

text \<open>
  Header field names are read without regard to case: two lines whose names agree in upper
  case give the same header, buffer included.
\<close>
theorem header_name_case_insensitive:
  assumes "name_text n" "name_text m" "map to_upper n = map to_upper m" "value_text v"
  shows "header_read empty_header (n @ '': '' @ v @ CRLF @ rest) =
         header_read empty_header (m @ '': '' @ v @ CRLF @ rest)"
  using assms by (simp add: header_read_field [simplified] parsed_header_def)

theorem header_name_case_insensitive_witness:
  "header_read empty_header (''hOsT'' @ '': '' @ ''a'' @ CRLF @ ''x'') =
   header_read empty_header (''Host'' @ '': '' @ ''a'' @ CRLF @ ''x'')"
  by (rule header_name_case_insensitive)
     (simp_all add: name_text_def value_text_def is_space_def to_upper_def)

end
