(* ===== verification/MessageLoop.thy ===== *)
theory MessageLoop
  imports HttpHeader
begin

text \<open>
  The loop that the extraction operators of \<open>HttpRequest\<close> and \<open>HttpResponse\<close> share
  (\<open>http-requests.cpp\<close>).  Both parse a first line, then the headers, then the chunks, one turn
  of the \<open>while\<close> loop at a time; they differ in the first line and in the test that decides
  when a chunk takes its size from \<open>Content-Length\<close>.  These three are the parameters of
  \<open>msg_turn\<close> and \<open>msg_loop\<close>, and the locale \<open>message_reader\<close> says what the loop relies on.

  The loop runs on fuel.  A turn on a well-formed message consumes at least one byte, so
  \<open>Suc (length s)\<close> turns are enough for the bytes \<open>s\<close>, and \<open>NoReturn\<close> is never the result.
\<close>

section \<open>One turn\<close>

definition msg_more :: "'a http_msg_scheme \<Rightarrow> bool" where
  "msg_more m \<longleftrightarrow> next_header m < num_headers m \<or> next_chunk m < num_chunks m"

definition header_turn :: "'a http_msg_scheme \<Rightarrow> string \<Rightarrow> ('a http_msg_scheme \<times> string) result" where
  "header_turn m s =
     rbind (vec_at (msg_headers m) (next_header m)) (\<lambda>h.
       (case header_read h s of (h', rest) \<Rightarrow>
         let m1 = m\<lparr>msg_headers := (msg_headers m)[next_header m := h']\<rparr> in
         if \<not> header_complete h' then Inr (m1, rest)
         else
           (let m2 = (if field_name h' = CONTENT_LENGTH then m1\<lparr>not_chunked_transfer := True\<rparr> else m1);
                m3 = (if not_last h'
                      then m2\<lparr>num_headers := num_headers m2 + 1, msg_headers := msg_headers m2 @ [empty_header]\<rparr>
                      else m2)
            in Inr (m3\<lparr>next_header := next_header m3 + 1\<rparr>, rest))))"

definition content_length_of :: "http_header list \<Rightarrow> string result" where
  "content_length_of hs =
     rbind (vec_at hs (find_if (\<lambda>h. field_name h = CONTENT_LENGTH) hs)) (\<lambda>h. Inr (field_value h))"

definition sized_chunk :: "http_header list \<Rightarrow> http_chunk \<Rightarrow> http_chunk result" where
  "sized_chunk hs k =
     rbind (content_length_of hs) (\<lambda>v. rbind (bn_dec v) (\<lambda>n.
       Inr (k\<lparr>chunk_size := n, chunk_size_started := True, chunk_size_found := True,
              chunk_body_start := True\<rparr>)))"

definition chunk_turn ::
  "(http_chunk \<Rightarrow> bool) \<Rightarrow> 'a http_msg_scheme \<Rightarrow> string \<Rightarrow> ('a http_msg_scheme \<times> string) result" where
  "chunk_turn unsized m s =
     rbind (vec_at (msg_chunks m) (next_chunk m)) (\<lambda>k.
       if not_chunked_transfer m then
         rbind (if unsized k then sized_chunk (msg_headers m) k else Inr k) (\<lambda>k0.
         rbind (chunk_read k0 s) (\<lambda>(k', rest).
           let m1 = m\<lparr>msg_chunks := (msg_chunks m)[next_chunk m := k']\<rparr> in
           Inr (if bn_eq (chunk_size k') (received_bytes k')
                then m1\<lparr>next_chunk := num_chunks m1\<rparr> else m1, rest)))
       else
         rbind (chunk_read k s) (\<lambda>(k', rest).
           let m1 = m\<lparr>msg_chunks := (msg_chunks m)[next_chunk m := k']\<rparr> in
           if \<not> chunk_complete k' then Inr (m1, rest)
           else
             (let m2 = (if bn_ne (chunk_size k') [0]
                        then m1\<lparr>num_chunks := num_chunks m1 + 1, msg_chunks := msg_chunks m1 @ [empty_chunk]\<rparr>
                        else m1)
              in Inr (m2\<lparr>next_chunk := next_chunk m2 + 1\<rparr>, rest))))"

text \<open>
  The body of the loop on a stream with bytes in it.  The flag of the result says that the
  operator returns from inside the loop.
\<close>

definition msg_turn ::
  "('a http_msg_scheme \<Rightarrow> bool) \<Rightarrow> (char \<Rightarrow> 'a http_msg_scheme \<Rightarrow> 'a http_msg_scheme option) \<Rightarrow>
   (http_chunk \<Rightarrow> bool) \<Rightarrow> 'a http_msg_scheme \<Rightarrow> string \<Rightarrow> (bool \<times> 'a http_msg_scheme \<times> string) result" where
  "msg_turn line_done line_step unsized m s =
     (if \<not> line_done m then
        (case line_step (hd s) m of
           None \<Rightarrow> Inr (True, m, tl s)
         | Some m' \<Rightarrow> Inr (False, m', tl s))
      else if next_header m < num_headers m then
        rbind (header_turn m s) (\<lambda>(m', rest). Inr (False, m', rest))
      else if next_chunk m < num_chunks m then
        rbind (chunk_turn unsized m s) (\<lambda>(m', rest). Inr (False, m', rest))
      else Inr (False, m, s))"

fun msg_loop ::
  "('a http_msg_scheme \<Rightarrow> bool) \<Rightarrow> (char \<Rightarrow> 'a http_msg_scheme \<Rightarrow> 'a http_msg_scheme option) \<Rightarrow>
   (http_chunk \<Rightarrow> bool) \<Rightarrow> nat \<Rightarrow> 'a http_msg_scheme \<Rightarrow> string \<Rightarrow> ('a http_msg_scheme \<times> string) result" where
  "msg_loop line_done line_step unsized 0 m s = Inl NoReturn"
| "msg_loop line_done line_step unsized (Suc n) m s =
     (if s = [] \<or> \<not> (msg_more m \<or> \<not> line_done m) then Inr (m, s)
      else rbind (msg_turn line_done line_step unsized m s) (\<lambda>(stop, m', rest).
        if stop then Inr (m', rest) else msg_loop line_done line_step unsized n m' rest))"

text \<open>What both operators do to a message that has not been touched.\<close>

definition msg_open :: "'a http_msg_scheme \<Rightarrow> 'a http_msg_scheme" where
  "msg_open m = m\<lparr>num_headers := 1, num_chunks := 1, msg_headers := msg_headers m @ [empty_header],
                  msg_chunks := msg_chunks m @ [empty_chunk], next_header := 0, next_chunk := 0\<rparr>"

text \<open>What the first-line parser makes of a text, when the line is not complete before its end.\<close>

fun line_fold ::
  "('m \<Rightarrow> bool) \<Rightarrow> (char \<Rightarrow> 'm \<Rightarrow> 'm option) \<Rightarrow> string \<Rightarrow> 'm \<Rightarrow> 'm option" where
  "line_fold line_done line_step [] m = Some m"
| "line_fold line_done line_step (c # cs) m =
     (if line_done m then None
      else case line_step c m of None \<Rightarrow> None | Some m' \<Rightarrow> line_fold line_done line_step cs m')"

lemma line_fold_append:
  "line_fold d st (xs @ ys) m = (case line_fold d st xs m of None \<Rightarrow> None | Some m' \<Rightarrow> line_fold d st ys m')"
  by (induction xs arbitrary: m) (auto split: option.splits)

lemma line_fold_trans:
  "line_fold d st xs m = Some m1 \<Longrightarrow> line_fold d st ys m1 = Some m2 \<Longrightarrow> line_fold d st (xs @ ys) m = Some m2"
  by (simp add: line_fold_append)

section \<open>Writing\<close>

text \<open>What the two operators \<open><<\<close> share: the headers and the body.\<close>

definition headers_show :: "http_header list \<Rightarrow> string" where
  "headers_show hs = concat (map (\<lambda>h. if field_name h = END_OF_HEADERS then CRLF else header_show h) hs)"

fun chunks_show :: "http_chunk list \<Rightarrow> string result" where
  "chunks_show [] = Inr []"
| "chunks_show (k # ks) = rbind (chunk_show k) (\<lambda>s. rbind (chunks_show ks) (\<lambda>t. Inr (s @ t)))"

text \<open>The body: the first chunk only when there is a \<open>Content-Length\<close> header, all the chunks otherwise.\<close>

definition body_show :: "'a http_msg_scheme \<Rightarrow> string result" where
  "body_show m =
     (if \<exists>h \<in> set (msg_headers m). field_name h = CONTENT_LENGTH
      then rbind (vec_at (msg_chunks m) 0) (\<lambda>k. Inr (chunk_data k))
      else chunks_show (drop (next_chunk m) (msg_chunks m)))"

definition chunk_text :: "string \<Rightarrow> string" where
  "chunk_text d = show_nat 16 (length d) @ CRLF @ d @ CRLF"

lemma chunk_read_text:
  "length d < 2 ^ 60 \<Longrightarrow> chunk_read empty_chunk (chunk_text d @ rest) = Inr (parsed_chunk d, rest)"
  using chunk_read_show [of d rest] by (simp add: chunk_text_def)

lemma chunks_show_data:
  "\<forall>d \<in> set ds. length d < 2 ^ 60 \<Longrightarrow> chunks_show (map data_chunk ds) = Inr (concat (map chunk_text ds))"
  by (induction ds) (simp_all add: chunk_show_data length_hex chunk_text_def)

lemma headers_show_length:
  "\<forall>(f, v) \<in> set fvs. field_text f \<noteq> None \<and> f \<noteq> CONTENT_LENGTH \<and> value_text v \<Longrightarrow>
   length fvs \<le> length (headers_show (map (\<lambda>(f, v). mk_header f v) fvs))"
  by (induction fvs)
     (auto simp: headers_show_def mk_header_def header_show_def split: option.splits)

lemma chunk_texts_length: "length ds \<le> length (concat (map chunk_text ds))"
  by (induction ds) (simp_all add: chunk_text_def)

definition end_header :: http_header where
  "end_header = empty_header\<lparr>field_name_found := True, field_name := END_OF_HEADERS, header_complete := True\<rparr>"

section \<open>The invariant of a message that is being read\<close>

subsection \<open>A chunk whose size comes from a header\<close>

lemma bn_lt_loop_total: "length a = length b \<Longrightarrow> \<not> bn_lt_loop False a b \<Longrightarrow> \<not> bn_lt_loop False b a \<Longrightarrow> a = b"
  by (induction a b rule: list_induct2) (auto split: if_splits)

lemma bn_lt_total: "\<not> bn_lt a b \<Longrightarrow> \<not> bn_lt b a \<Longrightarrow> a = b"
  using bn_lt_loop_total [of a b] by (auto simp: bn_lt_def split: if_splits)

lemma bn_norm_small: "bn_norm r \<Longrightarrow> r \<noteq> [] \<Longrightarrow> bn_val r < limb_base \<Longrightarrow> r = [of_nat (bn_val r)]"
  by (rule bn_norm_eq_iff [THEN iffD2]) (simp_all add: bn_norm_def)

lemma add_loop_not_Nil: "ls \<noteq> [] \<Longrightarrow> fst (add_loop c ls rs) \<noteq> []"
  by (cases "(c, ls, rs)" rule: add_loop.cases) (auto simp: case_prod_beta Let_def)

lemma bn_add_not_Nil: "a \<noteq> [] \<Longrightarrow> bn_add a b \<noteq> []"
  using add_loop_not_Nil [of "rev a" False "rev b"] by (simp add: bn_add_def case_prod_beta)

lemma bn_dec_not_Nil: "bn_dec s = Inr n \<Longrightarrow> n \<noteq> []"
proof -
  have "bn_dec_loop s acc = Inr n \<Longrightarrow> acc \<noteq> [] \<Longrightarrow> n \<noteq> []" for acc
  proof (induction s arbitrary: acc)
    case Nil
    then show ?case by simp
  next
    case (Cons c s)
    have "((\<lambda>x. bn_add x acc) ^^ j) acc \<noteq> []" for j
      using Cons.prems(2) by (induction j) (simp_all add: bn_add_not_Nil)
    then show ?case
      using Cons by (auto simp: Let_def bn_add_limb_def bn_add_not_Nil split: sum.splits)
  qed
  then show "bn_dec s = Inr n \<Longrightarrow> n \<noteq> []" by (simp add: bn_dec_def)
qed

definition sized_wf :: "http_chunk \<Rightarrow> bool" where
  "sized_wf k \<longleftrightarrow> chunk_wf k \<and> chunk_body_start k \<and> \<not> bn_lt (chunk_size k) (received_bytes k)"

lemma sized_wf_incr:
  assumes "bn_norm r" "r \<noteq> []" "Suc (bn_val r) < limb_base" "bn_lt r s"
  shows "\<not> bn_lt s (bn_incr r)"
proof -
  have r: "r = [of_nat (bn_val r)]" using bn_norm_small assms by simp
  then have i: "bn_incr r = [of_nat (Suc (bn_val r))]"
    using bn_incr_small [OF assms(3)] by simp
  show ?thesis
  proof (cases "length s = 1")
    case True
    then obtain w where "s = [w]" by (cases s) auto
    with assms(3,4) r i show ?thesis
      using bn_lt_single [of "bn_val r" "unat w"] bn_lt_single [of "unat w" "Suc (bn_val r)"]
      by simp
  next
    case False
    with assms(4) r have "1 < length s" by (cases s) (auto simp: bn_lt_def split: if_splits)
    then have "s \<noteq> []" by auto
    with i \<open>1 < length s\<close> show ?thesis unfolding bn_lt_def by simp
  qed
qed

lemma chunk_step_sized:
  assumes "sized_wf k" "\<not> chunk_complete k" "Suc (length (chunk_data k)) < limb_base"
  obtains k' where "chunk_step c k = Inr k'" "sized_wf k'"
    "length (chunk_data k') \<le> Suc (length (chunk_data k))"
proof -
  obtain k' where k': "chunk_step c k = Inr k'"
  proof -
    have "\<exists>k'. chunk_step c k = Inr k'"
      using assms(1) by (simp add: chunk_step_def sized_wf_def chunk_wf_def)
    then show thesis using that by blast
  qed
  have wf: "chunk_wf k'" using assms k' chunk_step_wf by (auto simp: sized_wf_def)
  from k' have "sized_wf k' \<and> length (chunk_data k') \<le> Suc (length (chunk_data k))"
  proof (cases rule: chunk_step_cases)
    case data
    with assms have "\<not> bn_lt (chunk_size k) (bn_incr (received_bytes k))"
      by (intro sized_wf_incr) (auto simp: sized_wf_def chunk_wf_def)
    with data wf show ?thesis by (simp add: sized_wf_def)
  qed (use assms wf in \<open>auto simp: sized_wf_def chunk_wf_def\<close>)
  with k' show thesis using that by blast
qed

lemma chunk_read_sized:
  "sized_wf k \<Longrightarrow> length (chunk_data k) + length s < limb_base \<Longrightarrow>
   \<exists>k' rest. chunk_read k s = Inr (k', rest) \<and> sized_wf k' \<and>
     length (chunk_data k') + length rest \<le> length (chunk_data k) + length s"
proof (induction s arbitrary: k)
  case Nil
  then show ?case by simp
next
  case (Cons c s)
  show ?case
  proof (cases "chunk_complete k")
    case True
    with Cons.prems show ?thesis by simp
  next
    case False
    have "Suc (length (chunk_data k)) < limb_base" using Cons.prems(2) by simp
    from chunk_step_sized [OF Cons.prems(1) False this, of c]
    obtain k' where k': "chunk_step c k = Inr k'" "sized_wf k'"
      "length (chunk_data k') \<le> Suc (length (chunk_data k))" by blast
    with Cons.prems have "length (chunk_data k') + length s < limb_base" by simp
    from Cons.IH [OF k'(2) this] obtain j rest where j: "chunk_read k' s = Inr (j, rest)" "sized_wf j"
      "length (chunk_data j) + length rest \<le> length (chunk_data k') + length s" by blast
    moreover from j(1) k'(1) False have "chunk_read k (c # s) = Inr (j, rest)" by simp
    ultimately show ?thesis using k'(3) by (intro exI [of _ j] exI [of _ rest]) simp
  qed
qed

lemma chunk_step_bytes: "chunk_step c k = Inr k' \<Longrightarrow> length (chunk_data k') \<le> Suc (length (chunk_data k))"
  by (auto simp: chunk_step_def rbind_Inr_iff split: if_splits)

lemma chunk_read_bytes:
  "chunk_read k s = Inr (k', rest) \<Longrightarrow>
   length (chunk_data k') + length rest \<le> length (chunk_data k) + length s"
proof (induction s arbitrary: k)
  case Nil
  then show ?case by simp
next
  case (Cons c s)
  show ?case
  proof (cases "chunk_complete k")
    case True
    with Cons.prems show ?thesis by simp
  next
    case False
    with Cons.prems obtain j where "chunk_step c k = Inr j" "chunk_read j s = Inr (k', rest)"
      by (auto simp: rbind_Inr_iff)
    with Cons.IH [of j] chunk_step_bytes [of c k j] show ?thesis by simp
  qed
qed

subsection \<open>The message\<close>

text \<open>
  The cursors stay inside the vectors, only the last header and the last chunk can be
  incomplete, and \<open>not_chunked_transfer\<close> is set only when there is a \<open>Content-Length\<close> header
  to find.  In a message with \<open>Content-Length\<close> the count of received bytes never passes the
  size, so a chunk marked complete is one whose size is reached.
\<close>

definition open_chunk :: "bool \<Rightarrow> http_chunk \<Rightarrow> bool" where
  "open_chunk cl k \<longleftrightarrow> \<not> chunk_complete k \<and>
     (if cl then k = empty_chunk \<or> sized_wf k else chunk_wf k)"

definition msg_wf :: "'a http_msg_scheme \<Rightarrow> bool" where
  "msg_wf m \<longleftrightarrow>
     length (msg_headers m) = num_headers m \<and> length (msg_chunks m) = num_chunks m \<and>
     next_header m \<le> num_headers m \<and> next_chunk m \<le> num_chunks m \<and>
     (next_header m < num_headers m \<longrightarrow>
        Suc (next_header m) = num_headers m \<and> header_wf (msg_headers m ! next_header m) \<and>
        \<not> header_complete (msg_headers m ! next_header m) \<and>
        next_chunk m = 0 \<and> msg_chunks m = [empty_chunk]) \<and>
     (next_chunk m < num_chunks m \<longrightarrow>
        Suc (next_chunk m) = num_chunks m \<and>
        open_chunk (not_chunked_transfer m) (msg_chunks m ! next_chunk m)) \<and>
     (not_chunked_transfer m \<longrightarrow>
        (\<exists>j < next_header m. field_name (msg_headers m ! j) = CONTENT_LENGTH))"

definition msg_bytes :: "'a http_msg_scheme \<Rightarrow> nat" where
  "msg_bytes m = sum_list (map (\<lambda>k. length (chunk_data k)) (msg_chunks m))"

lemma open_chunk_empty: "open_chunk cl empty_chunk"
  by (simp add: open_chunk_def chunk_wf_empty) (simp add: empty_chunk_def)

lemma msg_wf_open: "msg_headers m = [] \<Longrightarrow> msg_chunks m = [] \<Longrightarrow> \<not> not_chunked_transfer m \<Longrightarrow> msg_wf (msg_open m)"
  by (simp add: msg_wf_def msg_open_def header_wf_empty open_chunk_empty)
     (simp add: empty_header_def)

lemma header_read_progress:
  "\<not> header_complete h \<Longrightarrow> s \<noteq> [] \<Longrightarrow> header_read h s = (h', rest) \<Longrightarrow>
   length rest < length s \<and> (header_complete h' \<or> rest = [])"
  using header_rd.read_progress [of h "hd s" "tl s" h' rest] header_rd.read_consumes [of h s h' rest]
  by (cases s) auto

lemma header_turn_wf:
  assumes "msg_wf m" "next_header m < num_headers m" "s \<noteq> []"
  shows "\<exists>m' rest. header_turn m s = Inr (m', rest) \<and> msg_wf m' \<and> length rest < length s \<and>
           msg_bytes m' = msg_bytes m \<and> (rest = [] \<or> next_header m < next_header m')"
proof -
  let ?i = "next_header m"
  obtain h r where hr: "header_read (msg_headers m ! ?i) s = (h, r)" by fastforce
  from assms(1,2) have wf: "header_wf (msg_headers m ! ?i)" "\<not> header_complete (msg_headers m ! ?i)"
    and i: "length (msg_headers m) = Suc ?i"
    and rest: "num_headers m = Suc ?i" "next_chunk m = 0" "msg_chunks m = [empty_chunk]" "num_chunks m = 1"
    by (auto simp: msg_wf_def)
  have h: "header_wf h" using header_read_wf [OF wf(1) hr] .
  have pr: "length r < length s" "header_complete h \<or> r = []"
    using header_read_progress [OF wf(2) assms(3) hr] by simp_all
  have cl: "\<exists>j < ?i. field_name ((msg_headers m)[?i := h] ! j) = CONTENT_LENGTH" if "not_chunked_transfer m"
    using assms(1) that by (auto simp: msg_wf_def)
  show ?thesis
  proof (cases "header_complete h")
    case False
    let ?m = "m\<lparr>msg_headers := (msg_headers m)[?i := h]\<rparr>"
    have "header_turn m s = Inr (?m, r)" using False hr i by (simp add: header_turn_def)
    moreover have "msg_wf ?m" using assms(1) cl h False i rest by (auto simp: msg_wf_def open_chunk_empty)
    ultimately show ?thesis using pr False by (auto simp: msg_bytes_def)
  next
    case True
    let ?m1 = "m\<lparr>msg_headers := (msg_headers m)[?i := h] @ (if not_last h then [empty_header] else []),
                num_headers := num_headers m + (if not_last h then 1 else 0),
                next_header := ?i + 1,
                not_chunked_transfer := (not_chunked_transfer m \<or> field_name h = CONTENT_LENGTH)\<rparr>"
    have eq: "header_turn m s = Inr (?m1, r)"
      using True hr i by (cases m) (simp add: header_turn_def Let_def)
    have "\<exists>j < Suc ?i. field_name (((msg_headers m)[?i := h] @ xs) ! j) = CONTENT_LENGTH"
      if "not_chunked_transfer m \<or> field_name h = CONTENT_LENGTH" for xs
    proof (cases "field_name h = CONTENT_LENGTH")
      case True
      then show ?thesis using i by (intro exI [of _ ?i]) (simp add: nth_append)
    next
      case False
      with that cl obtain j where "j < ?i" "field_name ((msg_headers m)[?i := h] ! j) = CONTENT_LENGTH" by blast
      then show ?thesis using i by (intro exI [of _ j]) (simp add: nth_append)
    qed
    then have "msg_wf ?m1"
      using assms(1) h True i rest
      by (auto simp: msg_wf_def open_chunk_empty header_wf_empty nth_append) (auto simp: empty_header_def)
    with eq pr show ?thesis by (auto simp: msg_bytes_def)
  qed
qed

lemma vec_at_returns [simp]: "vec_at xs i \<noteq> Inl NoReturn"
  by (simp add: vec_at_def)

lemma bn_hex_returns [simp]: "bn_hex s \<noteq> Inl NoReturn"
proof -
  have "read_limbs ps acc \<noteq> Inl NoReturn" for ps acc
    by (induction ps acc rule: read_limbs.induct) (auto split: sum.splits)
  then show ?thesis by (simp add: bn_hex_def)
qed

lemma bn_dec_returns [simp]: "bn_dec s \<noteq> Inl NoReturn"
proof -
  have "bn_dec_loop s acc \<noteq> Inl NoReturn" for acc
    by (induction s arbitrary: acc) (auto simp: Let_def split: sum.splits)
  then show ?thesis by (simp add: bn_dec_def)
qed

lemma content_length_found:
  assumes "j < length hs" "field_name (hs ! j) = CONTENT_LENGTH"
  shows "\<exists>h \<in> set hs. field_name h = CONTENT_LENGTH \<and> content_length_of hs = Inr (field_value h)"
proof -
  have "find_if (\<lambda>h. field_name h = CONTENT_LENGTH) hs < length hs"
    using assms by (auto simp: find_if_less_iff)
  then show ?thesis
    using find_if_nth [of "\<lambda>h. field_name h = CONTENT_LENGTH" hs]
    by (auto simp: content_length_of_def)
qed

lemma sized_chunk_wf:
  assumes "sized_chunk hs empty_chunk = Inr k"
  shows "sized_wf k \<and> \<not> chunk_complete k \<and> chunk_data k = []"
proof -
  from assms obtain v n where n: "bn_dec v = Inr n" and k: "k = empty_chunk\<lparr>chunk_size := n,
      chunk_size_started := True, chunk_size_found := True, chunk_body_start := True\<rparr>"
    by (auto simp: sized_chunk_def rbind_Inr_iff)
  have "n \<noteq> []" using bn_dec_not_Nil [OF n] .
  then have "\<not> bn_lt n [0]" by (cases n) (auto simp: bn_lt_def split: if_splits)
  with \<open>n \<noteq> []\<close> show ?thesis
    by (simp add: k sized_wf_def chunk_wf_def empty_chunk_def bn_norm_def)
qed

lemma chunk_read_rest: "chunk_read k s = Inr (k', rest) \<Longrightarrow> rest = [] \<or> chunk_complete k'"
  using chunk_rd.read_consumes by blast

lemma chunk_read_less:
  assumes "\<not> chunk_complete k" "s \<noteq> []" "chunk_read k s = Inr (k', rest)"
  shows "length rest < length s"
  using assms chunk_rd.read_progress [of k "hd s" "tl s" k' rest] by (cases s) auto

lemma sized_complete: "sized_wf k \<Longrightarrow> chunk_complete k \<Longrightarrow> chunk_size k = received_bytes k"
  using bn_lt_total [of "chunk_size k" "received_bytes k"] by (simp add: sized_wf_def chunk_wf_def)

lemma msg_bytes_update:
  assumes "i < length (msg_chunks m)" "length (chunk_data k) + a \<le> length (chunk_data (msg_chunks m ! i)) + b"
  shows "sum_list (map (\<lambda>k. length (chunk_data k)) ((msg_chunks m)[i := k])) + a \<le> msg_bytes m + b"
proof -
  have "length (chunk_data (msg_chunks m ! i)) \<le> sum_list (map (\<lambda>k. length (chunk_data k)) (msg_chunks m))"
    using assms(1) by (intro member_le_sum_list) auto
  with assms show ?thesis by (simp add: msg_bytes_def map_update sum_list_update)
qed

text \<open>
  The two ways a chunk turn ends on a well-formed message: it throws (the size is not a number),
  or it consumes bytes and keeps the invariant.
\<close>

lemma chunk_turn_chunked:
  assumes "msg_wf m" "next_chunk m < num_chunks m" "next_header m = num_headers m" "s \<noteq> []"
    "\<not> not_chunked_transfer m" "chunk_turn unsized m s = Inr (m', rest)"
  shows "msg_wf m' \<and> length rest < length s \<and> msg_bytes m' + length rest \<le> msg_bytes m + length s \<and>
         (rest = [] \<or> next_chunk m < next_chunk m')"
proof -
  let ?i = "next_chunk m" and ?k = "msg_chunks m ! next_chunk m"
  from assms(1,2) have i: "length (msg_chunks m) = Suc ?i" "num_chunks m = Suc ?i"
    and open_k: "chunk_wf ?k" "\<not> chunk_complete ?k"
    using assms(5) by (auto simp: msg_wf_def open_chunk_def)
  from assms(5,6) i obtain k r where kr: "chunk_read ?k s = Inr (k, r)"
    by (auto simp: chunk_turn_def rbind_Inr_iff)
  have wf: "chunk_wf k" using chunk_read_wf [OF kr open_k(1)] .
  have pr: "length r < length s" using chunk_read_less [OF open_k(2) assms(4) kr] .
  have bb: "sum_list (map (\<lambda>k. length (chunk_data k)) ((msg_chunks m)[?i := k])) + length r \<le> msg_bytes m + length s"
    using chunk_read_bytes [OF kr] i by (intro msg_bytes_update) simp_all
  show ?thesis
  proof (cases "chunk_complete k")
    case False
    then have "m' = m\<lparr>msg_chunks := (msg_chunks m)[?i := k]\<rparr>" "rest = r"
      using assms(5,6) i kr by (simp_all add: chunk_turn_def)
    moreover have "r = []" using chunk_read_rest [OF kr] False by simp
    ultimately show ?thesis
      using assms(1,3,5) pr bb wf False i by (simp add: msg_wf_def open_chunk_def msg_bytes_def)
  next
    case True
    let ?more = "bn_ne (chunk_size k) [0]"
    have m': "m' = m\<lparr>msg_chunks := (msg_chunks m)[?i := k] @ (if ?more then [empty_chunk] else []),
        num_chunks := num_chunks m + (if ?more then 1 else 0), next_chunk := ?i + 1\<rparr>" "rest = r"
      using assms(5,6) i kr True by (cases m; simp add: chunk_turn_def Let_def split: if_splits)+
    have "msg_wf m'"
      using assms(1,3,5) i m'(1) by (auto simp: msg_wf_def open_chunk_def nth_append chunk_wf_empty)
        (auto simp: empty_chunk_def)
    moreover have "msg_bytes m' = sum_list (map (\<lambda>k. length (chunk_data k)) ((msg_chunks m)[?i := k]))"
      using m'(1) by (simp add: msg_bytes_def) (simp add: empty_chunk_def)
    ultimately show ?thesis using pr bb m' by simp
  qed
qed

lemma chunk_turn_sized:
  assumes "msg_wf m" "next_chunk m < num_chunks m" "next_header m = num_headers m" "s \<noteq> []"
    "not_chunked_transfer m" "msg_bytes m + length s < limb_base"
    and unsized: "unsized empty_chunk" "\<And>k. sized_wf k \<Longrightarrow> \<not> unsized k"
    and turn: "chunk_turn unsized m s = Inr (m', rest)"
  shows "msg_wf m' \<and> length rest < length s \<and> msg_bytes m' + length rest \<le> msg_bytes m + length s"
proof -
  let ?i = "next_chunk m" and ?k = "msg_chunks m ! next_chunk m"
  from assms(1,2) have i: "length (msg_chunks m) = Suc ?i" "num_chunks m = Suc ?i"
    and open_k: "?k = empty_chunk \<or> sized_wf ?k" "\<not> chunk_complete ?k"
    using assms(5) by (auto simp: msg_wf_def open_chunk_def)
  from turn assms(5) i obtain k0 k r
    where k0: "(if unsized ?k then sized_chunk (msg_headers m) ?k else Inr ?k) = Inr k0"
      and kr: "chunk_read k0 s = Inr (k, r)"
      and m': "m' = (let m1 = m\<lparr>msg_chunks := (msg_chunks m)[?i := k]\<rparr> in
        if chunk_size k = received_bytes k then m1\<lparr>next_chunk := num_chunks m1\<rparr> else m1)" "rest = r"
    by (auto simp: chunk_turn_def rbind_Inr_iff Let_def)
  have wf0: "sized_wf k0 \<and> \<not> chunk_complete k0 \<and> length (chunk_data k0) \<le> length (chunk_data ?k)"
  proof (cases "?k = empty_chunk")
    case True
    with k0 unsized(1) sized_chunk_wf [of "msg_headers m" k0] show ?thesis by simp
  next
    case False
    with open_k k0 unsized(2) [of ?k] show ?thesis by simp
  qed
  have le: "length (chunk_data ?k) \<le> msg_bytes m"
    using i by (auto simp: msg_bytes_def intro!: member_le_sum_list)
  have k: "sized_wf k" "length (chunk_data k) + length r \<le> length (chunk_data ?k) + length s"
    using chunk_read_sized [of k0 s] wf0 kr assms(6) le by auto
  have pr: "length r < length s" using chunk_read_less [OF _ assms(4) kr] wf0 by simp
  have bb: "sum_list (map (\<lambda>k. length (chunk_data k)) ((msg_chunks m)[?i := k])) + length r \<le> msg_bytes m + length s"
    using k(2) i by (intro msg_bytes_update) simp_all
  have "msg_wf m'"
    using assms(1,3,5) i m'(1) k(1) sized_complete [OF k(1)]
    by (auto simp: msg_wf_def open_chunk_def Let_def)
  moreover have "msg_bytes m' = sum_list (map (\<lambda>k. length (chunk_data k)) ((msg_chunks m)[?i := k]))"
    using m'(1) by (simp add: msg_bytes_def Let_def)
  ultimately show ?thesis using pr bb m'(2) by simp
qed


lemma chunk_step_returns [simp]: "chunk_step c k \<noteq> Inl NoReturn"
  by (auto simp: chunk_step_def rbind_Inl_iff split: if_splits)

lemma chunk_read_returns [simp]: "chunk_read k s \<noteq> Inl NoReturn"
  by (induction s arbitrary: k) (auto simp: rbind_Inl_iff)

lemma header_turn_returns [simp]: "header_turn m s \<noteq> Inl NoReturn"
  by (auto simp: header_turn_def Let_def rbind_Inl_iff split: prod.splits if_splits)

lemma chunk_turn_returns [simp]: "chunk_turn unsized m s \<noteq> Inl NoReturn"
  by (auto simp: chunk_turn_def sized_chunk_def content_length_of_def Let_def rbind_Inl_iff
      split: prod.splits if_splits)

text \<open>The message after a header or a chunk has been read up to \<open>h\<close> or \<open>k\<close>.\<close>

definition header_after :: "'a http_msg_scheme \<Rightarrow> http_header \<Rightarrow> 'a http_msg_scheme" where
  "header_after m h = m\<lparr>
     msg_headers := (msg_headers m)[next_header m := h] @
       (if header_complete h \<and> not_last h then [empty_header] else []),
     num_headers := num_headers m + (if header_complete h \<and> not_last h then 1 else 0),
     next_header := next_header m + (if header_complete h then 1 else 0),
     not_chunked_transfer := (not_chunked_transfer m \<or> header_complete h \<and> field_name h = CONTENT_LENGTH)\<rparr>"

definition chunk_after :: "'a http_msg_scheme \<Rightarrow> http_chunk \<Rightarrow> 'a http_msg_scheme" where
  "chunk_after m k =
     (if not_chunked_transfer m then
        m\<lparr>msg_chunks := (msg_chunks m)[next_chunk m := k],
          next_chunk := (if chunk_size k = received_bytes k then num_chunks m else next_chunk m)\<rparr>
      else
        m\<lparr>msg_chunks := (msg_chunks m)[next_chunk m := k] @
            (if chunk_complete k \<and> chunk_size k \<noteq> [0] then [empty_chunk] else []),
          num_chunks := num_chunks m + (if chunk_complete k \<and> chunk_size k \<noteq> [0] then 1 else 0),
          next_chunk := next_chunk m + (if chunk_complete k then 1 else 0)\<rparr>)"

lemma header_turn_eq:
  "header_turn m s = rbind (vec_at (msg_headers m) (next_header m))
     (\<lambda>h0. case header_read h0 s of (h, r) \<Rightarrow> Inr (header_after m h, r))"
  unfolding header_turn_def
  by (rule arg_cong [of _ _ "rbind _"], rule ext, cases m)
     (simp add: header_after_def Let_def split: prod.split)

lemma chunk_turn_eq:
  "chunk_turn unsized m s = rbind (vec_at (msg_chunks m) (next_chunk m))
     (\<lambda>k. rbind (if not_chunked_transfer m \<and> unsized k then sized_chunk (msg_headers m) k else Inr k)
       (\<lambda>k0. rbind (chunk_read k0 s) (\<lambda>(k', r). Inr (chunk_after m k', r))))"
  unfolding chunk_turn_def
  by (rule arg_cong [of _ _ "rbind _"], rule ext, cases m)
     (auto simp: chunk_after_def Let_def intro!: rbind_cong split: prod.split)

lemma header_turn_cases:
  assumes "header_turn m s = Inr (m', rest)"
  obtains h where "next_header m < length (msg_headers m)"
    "header_read (msg_headers m ! next_header m) s = (h, rest)" "m' = header_after m h"
proof -
  obtain h r where "header_read (msg_headers m ! next_header m) s = (h, r)" by fastforce
  with assms that show thesis
    by (auto simp: header_turn_eq rbind_Inr_iff vec_at_Inr_iff)
qed

lemma chunk_turn_cases:
  assumes "chunk_turn unsized m s = Inr (m', rest)"
  obtains k0 k where "next_chunk m < length (msg_chunks m)"
    "(if not_chunked_transfer m \<and> unsized (msg_chunks m ! next_chunk m)
      then sized_chunk (msg_headers m) (msg_chunks m ! next_chunk m)
      else Inr (msg_chunks m ! next_chunk m)) = Inr k0"
    "chunk_read k0 s = Inr (k, rest)" "m' = chunk_after m k"
  using assms by (auto simp: chunk_turn_eq rbind_Inr_iff vec_at_Inr_iff)

section \<open>The interface of the loop and its laws\<close>

locale message_reader =
  fixes line_done :: "'a http_msg_scheme \<Rightarrow> bool"
    and line_step :: "char \<Rightarrow> 'a http_msg_scheme \<Rightarrow> 'a http_msg_scheme option"
    and unsized :: "http_chunk \<Rightarrow> bool"
    and ready :: "'a http_msg_scheme \<Rightarrow> bool"
  assumes line_frame: "line_step c m = Some m' \<Longrightarrow>
        msg_headers m' = msg_headers m \<and> msg_chunks m' = msg_chunks m \<and>
        next_header m' = next_header m \<and> num_headers m' = num_headers m \<and>
        next_chunk m' = next_chunk m \<and> num_chunks m' = num_chunks m \<and>
        not_chunked_transfer m' = not_chunked_transfer m"
    and done_frame: "line_done (m\<lparr>msg_headers := hs, msg_chunks := ks, next_header := i, num_headers := n,
        next_chunk := j, num_chunks := l, not_chunked_transfer := b\<rparr>) = line_done m"
    and unsized_fresh: "unsized empty_chunk"
    and ready_step: "ready m \<Longrightarrow> \<not> line_done m \<Longrightarrow> \<exists>m'. line_step c m = Some m' \<and> ready m'"
    and ready_frame: "ready (m\<lparr>msg_headers := hs, msg_chunks := ks, next_header := i, num_headers := n,
        next_chunk := j, num_chunks := l, not_chunked_transfer := b\<rparr>) = ready m"
    and unsized_sized: "chunk_size_started k \<Longrightarrow> chunk_size_found k \<Longrightarrow> chunk_body_start k \<Longrightarrow> \<not> unsized k"
begin

abbreviation "turn \<equiv> msg_turn line_done line_step unsized"
abbreviation "loop \<equiv> msg_loop line_done line_step unsized"
abbreviation "busy m \<equiv> msg_more m \<or> \<not> line_done m"

lemma frame_wf: "line_step c m = Some m' \<Longrightarrow> msg_wf m' = msg_wf m \<and> msg_bytes m' = msg_bytes m"
  using line_frame by (simp add: msg_wf_def msg_bytes_def)

lemma done_headers: "line_done (m\<lparr>msg_headers := hs\<rparr>) = line_done m"
  using done_frame [where m = m and hs = hs and ks = "msg_chunks m" and i = "next_header m"
    and n = "num_headers m" and j = "next_chunk m" and l = "num_chunks m" and b = "not_chunked_transfer m"]
  by simp

lemma done_chunks: "line_done (m\<lparr>msg_chunks := ks\<rparr>) = line_done m"
  using done_frame [where m = m and hs = "msg_headers m" and ks = ks and i = "next_header m"
    and n = "num_headers m" and j = "next_chunk m" and l = "num_chunks m" and b = "not_chunked_transfer m"]
  by simp

lemma sized_unsized: "sized_wf k \<Longrightarrow> \<not> unsized k"
  by (rule unsized_sized) (auto simp: sized_wf_def chunk_wf_def)

lemma turn_progress:
  assumes "msg_wf m" "s \<noteq> []" "busy m" "msg_bytes m + length s < limb_base"
    "turn m s = Inr (stop, m', rest)"
  shows "msg_wf m' \<and> length rest < length s \<and> msg_bytes m' + length rest \<le> msg_bytes m + length s"
proof -
  consider (line) "\<not> line_done m" | (header) "line_done m" "next_header m < num_headers m"
    | (chunk) "line_done m" "next_header m = num_headers m" "next_chunk m < num_chunks m"
  proof -
    have "next_header m \<le> num_headers m" using assms(1) by (simp add: msg_wf_def)
    with assms(3) show thesis
      using that by (cases "line_done m"; cases "next_header m < num_headers m") (auto simp: msg_more_def)
  qed
  then show ?thesis
  proof cases
    case line
    with assms show ?thesis
      using frame_wf by (auto simp: msg_turn_def split: option.splits)
  next
    case header
    with header_turn_wf [OF assms(1) header(2) assms(2)] assms(5) show ?thesis
      by (auto simp: msg_turn_def)
  next
    case chunk
    with assms(5) have turn: "chunk_turn unsized m s = Inr (m', rest)"
      by (auto simp: msg_turn_def rbind_Inr_iff)
    show ?thesis
    proof (cases "not_chunked_transfer m")
      case True
      with chunk_turn_sized [OF assms(1) chunk(3,2) assms(2) True assms(4) unsized_fresh sized_unsized turn]
      show ?thesis by simp
    next
      case False
      with chunk_turn_chunked [OF assms(1) chunk(3,2) assms(2) False turn] show ?thesis by simp
    qed
  qed
qed

lemma turn_NoReturn: "turn m s \<noteq> Inl NoReturn"
  unfolding msg_turn_def
  by (auto simp: rbind_Inl_iff split: option.splits if_splits prod.splits)

text \<open>Enough fuel: one turn for each byte and one more.\<close>

lemma loop_idle: "\<not> (s \<noteq> [] \<and> busy m) \<Longrightarrow> loop (Suc n) m s = Inr (m, s)"
  by auto

lemma loop_turn:
  "s \<noteq> [] \<Longrightarrow> busy m \<Longrightarrow> loop (Suc n) m s = rbind (turn m s) (\<lambda>(stop, m', rest).
     if stop then Inr (m', rest) else loop n m' rest)"
  by auto

lemma loop_turn_Inr:
  assumes "s \<noteq> []" "busy m" "loop (Suc n) m s = Inr x"
  obtains stop m' r where "turn m s = Inr (stop, m', r)"
    "(if stop then Inr (m', r) else loop n m' r) = Inr x"
proof -
  from assms(3) obtain t where t: "turn m s = Inr t"
    "(case t of (stop, m', r) \<Rightarrow> if stop then Inr (m', r) else loop n m' r) = Inr x"
    unfolding loop_turn [OF assms(1,2)] rbind_Inr_iff by blast
  obtain stop m' r where "t = (stop, m', r)" by (cases t) auto
  with t that show thesis by simp
qed

lemma loop_fuel:
  "msg_wf m \<Longrightarrow> msg_bytes m + length s < limb_base \<Longrightarrow> length s < n \<Longrightarrow>
   loop n m s \<noteq> Inl NoReturn \<and> (length s < k \<longrightarrow> loop k m s = loop n m s)"
proof (induction n arbitrary: m s k)
  case 0
  then show ?case by simp
next
  case (Suc n)
  show ?case
  proof (cases "s \<noteq> [] \<and> busy m")
    case False
    then show ?thesis by (cases k) (simp_all only: loop_idle, auto)
  next
    case True
    then have s: "s \<noteq> []" "busy m" by blast+
    have "loop n m' rest \<noteq> Inl NoReturn \<and> (length rest < j \<longrightarrow> loop j m' rest = loop n m' rest)
        \<and> length rest < length s"
      if "turn m s = Inr (stop, m', rest)" for stop m' rest j
      using turn_progress [OF Suc.prems(1) s Suc.prems(2) that] Suc.prems(2,3)
      by (intro conjI Suc.IH [THEN conjunct1] Suc.IH [THEN conjunct2]) auto
    note rec = this
    have "loop (Suc n) m s \<noteq> Inl NoReturn"
      using rec by (auto simp only: loop_turn [OF s] rbind_Inl_iff turn_NoReturn split: if_splits)
    moreover have "loop k m s = loop (Suc n) m s" if k: "length s < k"
    proof -
      obtain k' where k': "k = Suc k'" using k by (cases k) auto
      show ?thesis
      proof (cases "turn m s")
        case (Inr t)
        obtain stop m' rest where t: "t = (stop, m', rest)" by (cases t) auto
        have "loop k' m' rest = loop n m' rest" using rec [of stop m' rest k'] Inr t k k' by simp
        then show ?thesis unfolding k' loop_turn [OF s] by (simp add: Inr t)
      qed (simp only: k' loop_turn [OF s] rbind_simps)
    qed
    ultimately show ?thesis by blast
  qed
qed

lemma loop_wf:
  "msg_wf m \<Longrightarrow> msg_bytes m + length s < limb_base \<Longrightarrow> loop n m s = Inr (m', rest) \<Longrightarrow>
   msg_wf m' \<and> length rest \<le> length s \<and> msg_bytes m' + length rest \<le> msg_bytes m + length s"
proof (induction n arbitrary: m s)
  case 0
  then show ?case by simp
next
  case (Suc n)
  show ?case
  proof (cases "s \<noteq> [] \<and> busy m")
    case False
    with Suc.prems show ?thesis by auto
  next
    case True
    with Suc.prems(3) obtain stop m1 r where t: "turn m s = Inr (stop, m1, r)"
      and l: "(if stop then Inr (m1, r) else loop n m1 r) = Inr (m', rest)"
      by (auto simp: rbind_Inr_iff)
    have p: "msg_wf m1 \<and> length r < length s \<and> msg_bytes m1 + length r \<le> msg_bytes m + length s"
      using turn_progress [OF Suc.prems(1) _ _ Suc.prems(2) t] True by blast
    with Suc.IH [of m1 r] Suc.prems(2) l show ?thesis by (cases stop) auto
  qed
qed


text \<open>
  Reading in segments.  A turn on a stream that is cut either does what it does on the whole
  stream, or uses up the segment and leaves the rest of its work to the next turn.
\<close>

lemma frame_eq:
  assumes "msg_version m' = msg_version m" "msg_pos m' = msg_pos m" "version_buf m' = version_buf m"
    "find_version_state m' = find_version_state m" "version_finished m' = version_finished m"
    "http_msg.more m' = http_msg.more m"
  shows "line_done m' = line_done m \<and> ready m' = ready m"
proof -
  have "m' = m\<lparr>msg_headers := msg_headers m', msg_chunks := msg_chunks m', next_header := next_header m',
      num_headers := num_headers m', next_chunk := next_chunk m', num_chunks := num_chunks m',
      not_chunked_transfer := not_chunked_transfer m'\<rparr>"
    using assms by (cases m; cases m') simp
  then show ?thesis using done_frame ready_frame by metis
qed

lemma header_turn_frame:
  assumes "header_turn m s = Inr (m', rest)"
  shows "line_done m' = line_done m \<and> ready m' = ready m \<and> num_headers m \<le> num_headers m' \<and>
         (not_chunked_transfer m \<longrightarrow> not_chunked_transfer m')"
proof -
  from assms obtain h where "m' = header_after m h" by (rule header_turn_cases)
  then show ?thesis using frame_eq [of m' m] by (simp add: header_after_def)
qed

lemma chunk_turn_frame:
  assumes "chunk_turn unsized m s = Inr (m', rest)"
  shows "line_done m' = line_done m \<and> ready m' = ready m \<and> num_headers m' = num_headers m \<and>
         not_chunked_transfer m' = not_chunked_transfer m"
proof -
  from assms obtain k where "m' = chunk_after m k" by (rule chunk_turn_cases)
  then show ?thesis using frame_eq [of m' m] by (simp add: chunk_after_def)
qed

lemma turn_frame:
  assumes "ready m" "turn m s = Inr (stop, m', rest)"
  shows "\<not> stop \<and> ready m' \<and> num_headers m \<le> num_headers m' \<and>
         (not_chunked_transfer m \<longrightarrow> not_chunked_transfer m')"
proof -
  show ?thesis
  proof (cases "line_done m")
    case False
    then obtain m1 where "line_step (hd s) m = Some m1" "ready m1"
      using ready_step [OF assms(1)] by blast
    with False assms(2) line_frame [of "hd s" m m1] show ?thesis by (simp add: msg_turn_def)
  next
    case True
    with assms(2) have "\<not> stop \<and> (header_turn m s = Inr (m', rest) \<or> chunk_turn unsized m s = Inr (m', rest) \<or> m' = m)"
      by (auto simp: msg_turn_def rbind_Inr_iff split: if_splits)
    with assms(1) header_turn_frame chunk_turn_frame show ?thesis by (metis order_refl)
  qed
qed

lemma loop_mono:
  "ready m \<Longrightarrow> loop n m s = Inr (m', rest) \<Longrightarrow>
   num_headers m \<le> num_headers m' \<and> (not_chunked_transfer m \<longrightarrow> not_chunked_transfer m')"
proof (induction n arbitrary: m s)
  case 0
  then show ?case by simp
next
  case (Suc n)
  show ?case
  proof (cases "s \<noteq> [] \<and> busy m")
    case False
    with Suc.prems(2) show ?thesis unfolding loop_idle [OF False] by simp
  next
    case True
    then have s: "s \<noteq> []" "busy m" by blast+
    from Suc.prems(2) obtain stop m1 r where t: "turn m s = Inr (stop, m1, r)"
      and l: "(if stop then Inr (m1, r) else loop n m1 r) = Inr (m', rest)"
      by (rule loop_turn_Inr [OF s])
    with turn_frame [OF Suc.prems(1) t] Suc.IH [of m1 r] show ?thesis by (cases stop) auto
  qed
qed

lemma header_turn_append:
  assumes "header_turn m s = Inr (m', rest)"
  shows "header_turn m (s @ ys) = Inr (m', rest @ ys) \<or>
    rest = [] \<and> next_header m' = next_header m \<and> num_headers m' = num_headers m \<and>
    header_turn m (s @ ys) = header_turn m' ys"
proof -
  let ?i = "next_header m"
  from assms obtain h where i: "?i < length (msg_headers m)"
    and hr: "header_read (msg_headers m ! ?i) s = (h, rest)" and m': "m' = header_after m h"
    by (rule header_turn_cases)
  show ?thesis
  proof (cases "header_complete h")
    case True
    then have "header_read (msg_headers m ! ?i) (s @ ys) = (h, rest @ ys)"
      using hr by (subst header_read_append) (simp add: header_read_stop)
    then have "header_turn m (s @ ys) = Inr (m', rest @ ys)"
      using i m' unfolding header_turn_eq by simp
    then show ?thesis ..
  next
    case False
    then have r: "rest = []" using header_rd.read_consumes [of "msg_headers m ! ?i" s h rest] hr by simp
    with hr have "header_read (msg_headers m ! ?i) (s @ ys) = header_read h ys"
      by (subst header_read_append) simp
    moreover have "m' = m\<lparr>msg_headers := (msg_headers m)[?i := h]\<rparr>"
      using False unfolding m' by (cases m) (simp add: header_after_def)
    moreover have "header_after (m\<lparr>msg_headers := (msg_headers m)[?i := h]\<rparr>) g = header_after m g" for g
      by (simp add: header_after_def)
    ultimately show ?thesis using i r by (simp add: header_turn_eq)
  qed
qed

lemma chunk_turn_append:
  assumes "chunk_turn unsized m s = Inr (m', rest)" "\<not> not_chunked_transfer m"
  shows "chunk_turn unsized m (s @ ys) = Inr (m', rest @ ys) \<or>
    rest = [] \<and> next_chunk m' = next_chunk m \<and> num_chunks m' = num_chunks m \<and>
    next_header m' = next_header m \<and> num_headers m' = num_headers m \<and>
    chunk_turn unsized m (s @ ys) = chunk_turn unsized m' ys"
proof -
  let ?i = "next_chunk m"
  from assms(1) obtain k0 k where i: "?i < length (msg_chunks m)"
    and "(if not_chunked_transfer m \<and> unsized (msg_chunks m ! ?i)
      then sized_chunk (msg_headers m) (msg_chunks m ! ?i) else Inr (msg_chunks m ! ?i)) = Inr k0"
    and "chunk_read k0 s = Inr (k, rest)" and m': "m' = chunk_after m k"
    by (rule chunk_turn_cases)
  with assms(2) have kr: "chunk_read (msg_chunks m ! ?i) s = Inr (k, rest)" by simp
  show ?thesis
  proof (cases "chunk_complete k")
    case True
    then have "chunk_read (msg_chunks m ! ?i) (s @ ys) = Inr (k, rest @ ys)"
      using chunk_rd.read_segments [OF kr] by simp
    then have "chunk_turn unsized m (s @ ys) = Inr (m', rest @ ys)"
      using i m' assms(2) unfolding chunk_turn_eq by simp
    then show ?thesis ..
  next
    case False
    then have r: "rest = []" using chunk_read_rest [OF kr] by simp
    with kr have "chunk_read (msg_chunks m ! ?i) (s @ ys) = chunk_read k ys"
      by (subst chunk_rd.read_append) simp
    moreover have "m' = m\<lparr>msg_chunks := (msg_chunks m)[?i := k]\<rparr>"
      using False assms(2) unfolding m' by (cases m) (simp add: chunk_after_def)
    moreover have "chunk_after (m\<lparr>msg_chunks := (msg_chunks m)[?i := k]\<rparr>) g = chunk_after m g" for g
      by (simp add: chunk_after_def)
    ultimately show ?thesis using i r assms(2) by (simp add: chunk_turn_eq)
  qed
qed

lemma turn_append:
  assumes "msg_wf m" "ready m" "s \<noteq> []" "busy m" "turn m s = Inr (stop, m', rest)"
    "\<not> not_chunked_transfer m"
  shows "turn m (s @ ys) = Inr (stop, m', rest @ ys) \<or>
    rest = [] \<and> busy m' \<and> turn m (s @ ys) = turn m' ys"
proof -
  consider (line) "\<not> line_done m" | (header) "line_done m" "next_header m < num_headers m"
    | (chunk) "line_done m" "\<not> next_header m < num_headers m" "next_chunk m < num_chunks m"
    using assms(4) by (auto simp: msg_more_def)
  then show ?thesis
  proof cases
    case line
    with assms(3,5) show ?thesis by (auto simp: msg_turn_def split: option.splits)
  next
    case header
    with assms(5) have "header_turn m s = Inr (m', rest)" "\<not> stop" by (auto simp: msg_turn_def rbind_Inr_iff)
    with header_turn_append [of m s m' rest ys] header_turn_frame [of m s m' rest] header assms(3) show ?thesis
      by (auto simp: msg_turn_def msg_more_def)
  next
    case chunk
    with assms(5) have "chunk_turn unsized m s = Inr (m', rest)" "\<not> stop" by (auto simp: msg_turn_def rbind_Inr_iff)
    with chunk_turn_append [of m s m' rest ys] chunk_turn_frame [of m s m' rest] chunk assms(3,6) show ?thesis
      by (auto simp: msg_turn_def msg_more_def)
  qed
qed

lemma loop_append:
  "msg_wf m \<Longrightarrow> ready m \<Longrightarrow> msg_bytes m + length s + length ys < limb_base \<Longrightarrow>
   loop (Suc (length s)) m s = Inr (m1, rest) \<Longrightarrow> \<not> not_chunked_transfer m1 \<Longrightarrow>
   loop (Suc (length (s @ ys))) m (s @ ys) = loop (Suc (length (rest @ ys))) m1 (rest @ ys)"
proof (induction "length s" arbitrary: m s rule: less_induct)
  case less
  show ?case
  proof (cases "s \<noteq> [] \<and> busy m")
    case False
    then have "m1 = m" "rest = s" using less.prems(4) unfolding loop_idle [OF False] by simp_all
    then show ?thesis by simp
  next
    case True
    then have s: "s \<noteq> []" "busy m" and sy: "s @ ys \<noteq> []" by auto
    have nc: "\<not> not_chunked_transfer m" using loop_mono [OF less.prems(2,4)] less.prems(5) by blast
    from less.prems(4) obtain stop m' r where t: "turn m s = Inr (stop, m', r)"
      and l: "(if stop then Inr (m', r) else loop (length s) m' r) = Inr (m1, rest)"
      by (rule loop_turn_Inr [OF s])
    have f: "\<not> stop" "ready m'" using turn_frame [OF less.prems(2) t] by simp_all
    have p: "msg_wf m'" "length r < length s" "msg_bytes m' + length r \<le> msg_bytes m + length s"
      using turn_progress [OF less.prems(1) s _ t] less.prems(3) by simp_all
    have l': "loop (Suc (length r)) m' r = Inr (m1, rest)"
      using l f loop_fuel [OF p(1), of r "length s" "Suc (length r)"] p less.prems(3) by simp
    from turn_append [OF less.prems(1,2) s t nc, of ys] show ?thesis
    proof
      assume "turn m (s @ ys) = Inr (stop, m', r @ ys)"
      then have "loop (Suc (length (s @ ys))) m (s @ ys) = loop (length (s @ ys)) m' (r @ ys)"
        by (simp only: loop_turn [OF sy s(2)]) (simp add: f)
      also have "\<dots> = loop (Suc (length (r @ ys))) m' (r @ ys)"
        using loop_fuel [OF p(1), of "r @ ys" "Suc (length (r @ ys))" "length (s @ ys)"] p less.prems(3) by simp
      also have "\<dots> = loop (Suc (length (rest @ ys))) m1 (rest @ ys)"
        using less.hyps [OF p(2) p(1) f(2) _ l' less.prems(5)] p(3) less.prems(3) by simp
      finally show ?thesis .
    next
      assume a: "r = [] \<and> busy m' \<and> turn m (s @ ys) = turn m' ys"
      then have m1: "m1 = m'" "rest = []" using l' by simp_all
      show ?thesis
      proof (cases "ys = []")
        case True
        with less.prems(4) m1 show ?thesis by simp
      next
        case False
        have "loop (Suc (length (s @ ys))) m (s @ ys) = loop (Suc (length (s @ ys))) m' ys"
          using a by (simp only: loop_turn [OF sy s(2)] loop_turn [OF False])
        also have "\<dots> = loop (Suc (length ys)) m' ys"
          using loop_fuel [OF p(1), of ys "Suc (length ys)" "Suc (length (s @ ys))"] p less.prems(3) by simp
        finally show ?thesis using m1 by simp
      qed
    qed
  qed
qed

subsection \<open>Reading a whole message\<close>

text \<open>
  Each lemma takes one part of the text off the stream and the turns it needs off the fuel.
\<close>

lemma loop_line:
  "line_fold line_done line_step w m = Some m' \<Longrightarrow> loop (length w + n) m (w @ s) = loop n m' s"
proof (induction w arbitrary: m)
  case Nil
  then show ?case by simp
next
  case (Cons c w)
  then obtain m1 where "\<not> line_done m" "line_step c m = Some m1" "line_fold line_done line_step w m1 = Some m'"
    by (auto split: if_splits option.splits)
  with Cons.IH [of m1] show ?case by (simp add: msg_turn_def)
qed

lemma loop_header:
  assumes "line_done m" "next_header m < num_headers m" "next_header m < length (msg_headers m)"
    "header_read (msg_headers m ! next_header m) (w @ s) = (h, s)" "w \<noteq> []"
  shows "loop (Suc n) m (w @ s) = loop n (header_after m h) s"
  using assms by (simp add: msg_turn_def msg_more_def header_turn_eq)

lemma loop_chunk:
  assumes "line_done m" "num_headers m \<le> next_header m" "next_chunk m < num_chunks m"
    "next_chunk m < length (msg_chunks m)" "\<not> not_chunked_transfer m"
    "chunk_read (msg_chunks m ! next_chunk m) (w @ s) = Inr (k, s)" "w \<noteq> []"
  shows "loop (Suc n) m (w @ s) = loop n (chunk_after m k) s"
  using assms by (simp add: msg_turn_def msg_more_def chunk_turn_eq)

lemma done_after: "line_done (m\<lparr>msg_headers := hs, next_header := i, num_headers := n, not_chunked_transfer := b\<rparr>) = line_done m"
  "line_done (m\<lparr>msg_headers := hs, next_header := i, num_headers := n\<rparr>) = line_done m"
  using frame_eq [of "m\<lparr>msg_headers := hs, next_header := i, num_headers := n, not_chunked_transfer := b\<rparr>" m]
    frame_eq [of "m\<lparr>msg_headers := hs, next_header := i, num_headers := n\<rparr>" m] by simp_all

lemma loop_headers:
  assumes "line_done m" "msg_headers m = done @ [empty_header]" "next_header m = length done"
    "num_headers m = Suc (length done)"
    "\<forall>(f, v) \<in> set fvs. field_text f \<noteq> None \<and> value_text v"
  shows "loop (length fvs + n) m (headers_show (map (\<lambda>(f, v). mk_header f v) fvs) @ s) =
    loop n (m\<lparr>msg_headers := done @ map (\<lambda>(f, v). shown_header f v) fvs @ [empty_header],
              next_header := length done + length fvs,
              num_headers := Suc (length done + length fvs),
              not_chunked_transfer := (not_chunked_transfer m \<or> CONTENT_LENGTH \<in> fst ` set fvs)\<rparr>) s"
  using assms
proof (induction fvs arbitrary: m "done")
  case Nil
  then have "m\<lparr>msg_headers := done @ [empty_header], next_header := length done,
              num_headers := Suc (length done)\<rparr> = m" by (cases m) simp
  then show ?case by (simp add: headers_show_def)
next
  case (Cons x fvs)
  obtain f v where x: "x = (f, v)" by fastforce
  let ?t = "headers_show (map (\<lambda>(f, v). mk_header f v) fvs)"
  let ?m = "m\<lparr>msg_headers := (done @ [shown_header f v]) @ [empty_header],
              next_header := length (done @ [shown_header f v]),
              num_headers := Suc (length (done @ [shown_header f v])),
              not_chunked_transfer := (not_chunked_transfer m \<or> f = CONTENT_LENGTH)\<rparr>"
  from Cons.prems(5) have fv: "field_text f \<noteq> None" "value_text v" "f \<noteq> END_OF_HEADERS"
    by (auto simp: x field_text_def)
  have ne: "header_show (mk_header f v) \<noteq> []"
    using fv(1) by (auto simp: header_show_def mk_header_def split: option.splits)
  have after: "header_after m (shown_header f v) = ?m"
    using Cons.prems(2,3,4) header_read_show(2) [OF fv(1,2)]
    by (cases m) (simp add: header_after_def)
  have "loop (length (x # fvs) + n) m (headers_show (map (\<lambda>(f, v). mk_header f v) (x # fvs)) @ s) =
      loop (Suc (length fvs + n)) m (header_show (mk_header f v) @ (?t @ s))"
    using fv(3) by (simp add: headers_show_def x mk_header_def)
  also have "\<dots> = loop (length fvs + n) (header_after m (shown_header f v)) (?t @ s)"
    using Cons.prems(1-4) ne by (intro loop_header) (simp_all add: header_read_show [OF fv(1,2)])
  also have "\<dots> = loop (length fvs + n) ?m (?t @ s)" by (simp only: after)
  also have "\<dots> = loop n (?m\<lparr>msg_headers := (done @ [shown_header f v]) @ map (\<lambda>(f, v). shown_header f v) fvs @ [empty_header],
      next_header := length (done @ [shown_header f v]) + length fvs,
      num_headers := Suc (length (done @ [shown_header f v]) + length fvs),
      not_chunked_transfer := (not_chunked_transfer ?m \<or> CONTENT_LENGTH \<in> fst ` set fvs)\<rparr>) s"
    using Cons.prems(1,5) by (intro Cons.IH) (simp_all add: done_after)
  finally show ?case by (simp add: x eq_commute [of f CONTENT_LENGTH])
qed

lemma chunk_text_not_Nil: "chunk_text d \<noteq> []"
  by (simp add: chunk_text_def)

lemma done_after_chunks: "line_done (m\<lparr>msg_chunks := ks, next_chunk := i, num_chunks := n\<rparr>) = line_done m"
  using frame_eq [of "m\<lparr>msg_chunks := ks, next_chunk := i, num_chunks := n\<rparr>" m] by simp

lemma loop_chunks:
  assumes "line_done m" "num_headers m \<le> next_header m" "msg_chunks m = done @ [empty_chunk]"
    "next_chunk m = length done" "num_chunks m = Suc (length done)" "\<not> not_chunked_transfer m"
    "\<forall>d \<in> set ds. d \<noteq> [] \<and> length d < 2 ^ 60"
  shows "loop (length ds + n) m (concat (map chunk_text ds) @ s) =
    loop n (m\<lparr>msg_chunks := done @ map parsed_chunk ds @ [empty_chunk],
              next_chunk := length done + length ds, num_chunks := Suc (length done + length ds)\<rparr>) s"
  using assms
proof (induction ds arbitrary: m "done")
  case Nil
  then have "m\<lparr>msg_chunks := done @ [empty_chunk], next_chunk := length done,
              num_chunks := Suc (length done)\<rparr> = m" by (cases m) simp
  then show ?case by simp
next
  case (Cons d ds)
  let ?t = "concat (map chunk_text ds)"
  let ?m = "m\<lparr>msg_chunks := (done @ [parsed_chunk d]) @ [empty_chunk],
              next_chunk := length (done @ [parsed_chunk d]),
              num_chunks := Suc (length (done @ [parsed_chunk d]))\<rparr>"
  from Cons.prems(7) have d: "d \<noteq> []" "length d < 2 ^ 60" by auto
  have "unat (of_nat (length d) :: limb) = length d"
    using length_hex [OF d(2)] by (intro unat_of_nat_limb) simp
  with d(1) have "of_nat (length d) \<noteq> (0 :: limb)" by (metis length_0_conv unat_0)
  then have after: "chunk_after m (parsed_chunk d) = ?m"
    using Cons.prems(3-6) by (cases m) (simp add: chunk_after_def parsed_chunk_def)
  have "loop (length (d # ds) + n) m (concat (map chunk_text (d # ds)) @ s) =
      loop (Suc (length ds + n)) m (chunk_text d @ (?t @ s))" by simp
  also have "\<dots> = loop (length ds + n) (chunk_after m (parsed_chunk d)) (?t @ s)"
    using Cons.prems(1-6) by (intro loop_chunk) (simp_all add: chunk_read_text [OF d(2)] chunk_text_not_Nil)
  also have "\<dots> = loop (length ds + n) ?m (?t @ s)" by (simp only: after)
  also have "\<dots> = loop n (?m\<lparr>msg_chunks := (done @ [parsed_chunk d]) @ map parsed_chunk ds @ [empty_chunk],
      next_chunk := length (done @ [parsed_chunk d]) + length ds,
      num_chunks := Suc (length (done @ [parsed_chunk d]) + length ds)\<rparr>) s"
    using Cons.prems(1,2,6,7) by (intro Cons.IH) (simp_all add: done_after_chunks)
  finally show ?case by simp
qed

lemma loop_message:
  assumes "line_done m" "msg_headers m = [empty_header]" "next_header m = 0" "num_headers m = 1"
    "\<not> not_chunked_transfer m" "msg_chunks m = [empty_chunk]" "next_chunk m = 0" "num_chunks m = 1"
    and fvs: "\<forall>(f, v) \<in> set fvs. field_text f \<noteq> None \<and> f \<noteq> CONTENT_LENGTH \<and> value_text v"
    and ds: "\<forall>d \<in> set ds. d \<noteq> [] \<and> length d < 2 ^ 60"
    and n: "length fvs + length ds + 2 < n"
  shows "loop n m (headers_show (map (\<lambda>(f, v). mk_header f v) fvs) @ CRLF @
           concat (map chunk_text (ds @ [[]])) @ s) =
    Inr (m\<lparr>msg_headers := map (\<lambda>(f, v). shown_header f v) fvs @ [end_header],
           next_header := Suc (length fvs), num_headers := Suc (length fvs),
           msg_chunks := map parsed_chunk (ds @ [[]]),
           next_chunk := Suc (length ds), num_chunks := Suc (length ds)\<rparr>, s)"
proof -
  obtain k where k: "n = length fvs + (Suc (length ds + (Suc (Suc k))))"
    using n by (auto dest!: less_imp_Suc_add)
  have fvs0: "\<forall>(f, v) \<in> set fvs. field_text f \<noteq> None \<and> value_text v" using fvs by auto
  have no_cl: "CONTENT_LENGTH \<notin> fst ` set fvs" using fvs by auto
  have plain: "m\<lparr>msg_headers := hs, next_header := i, num_headers := j, not_chunked_transfer := (not_chunked_transfer m \<or>
      CONTENT_LENGTH \<in> fst ` set fvs)\<rparr> = m\<lparr>msg_headers := hs, next_header := i, num_headers := j\<rparr>" for hs i j
    using assms(5) no_cl by (cases m) simp
  let ?hs = "map (\<lambda>(f, v). shown_header f v) fvs"
  let ?m1 = "m\<lparr>msg_headers := ?hs @ [empty_header], next_header := length fvs, num_headers := Suc (length fvs)\<rparr>"
  let ?m2 = "m\<lparr>msg_headers := ?hs @ [end_header], next_header := Suc (length fvs), num_headers := Suc (length fvs)\<rparr>"
  let ?m3 = "?m2\<lparr>msg_chunks := map parsed_chunk ds @ [empty_chunk], next_chunk := length ds,
                num_chunks := Suc (length ds)\<rparr>"
  let ?c = "concat (map chunk_text (ds @ [[]])) @ s"
  have done2: "line_done ?m1" "line_done ?m2" "line_done ?m3"
    using done_after done_after_chunks assms(1) by simp_all
  have "loop n m (headers_show (map (\<lambda>(f, v). mk_header f v) fvs) @ CRLF @ ?c) =
      loop (Suc (length ds + Suc (Suc k))) ?m1 (CRLF @ ?c)"
    unfolding k using assms(1-5) fvs0 plain
      loop_headers [of m "[]" fvs "Suc (length ds + Suc (Suc k))" "CRLF @ ?c"] by simp
  also have "\<dots> = loop (length ds + Suc (Suc k)) (header_after ?m1 end_header) ?c"
  proof (rule loop_header [OF done2(1)])
    have nth: "msg_headers ?m1 ! next_header ?m1 = empty_header" by (simp add: nth_append)
    show "header_read (msg_headers ?m1 ! next_header ?m1) (CRLF @ ?c) = (end_header, ?c)"
      unfolding nth end_header_def by (rule header_read_end)
  qed simp_all
  also have "header_after ?m1 end_header = ?m2"
    using assms(5) by (cases m) (simp add: header_after_def end_header_def empty_header_def list_update_append)
  also have "loop (length ds + Suc (Suc k)) ?m2 ?c = loop (length ds + Suc (Suc k)) ?m2
      (concat (map chunk_text ds) @ (chunk_text [] @ s))" by simp
  also have "\<dots> = loop (Suc (Suc k)) ?m3 (chunk_text [] @ s)"
    using done2 assms(5-8) ds
      loop_chunks [of ?m2 "[]" ds "Suc (Suc k)" "chunk_text [] @ s"] by simp
  also have "\<dots> = loop (Suc k) (chunk_after ?m3 (parsed_chunk [])) s"
    using done2 assms(5) chunk_read_text [of "[]" s]
    by (intro loop_chunk) (simp_all add: chunk_text_not_Nil nth_append)
  also have "chunk_after ?m3 (parsed_chunk []) = ?m3\<lparr>msg_chunks := map parsed_chunk ds @ [parsed_chunk []],
      next_chunk := Suc (length ds)\<rparr>"
    using assms(5) by (cases m) (simp add: chunk_after_def parsed_chunk_def list_update_append)
  also have "loop (Suc k) \<dots> s = Inr (\<dots>, s)"
    using frame_eq [of "?m3\<lparr>msg_chunks := map parsed_chunk ds @ [parsed_chunk []],
      next_chunk := Suc (length ds)\<rparr>" m] assms(1)
    by (simp add: msg_more_def)
  finally show ?thesis by simp
qed

text \<open>A message whose body has the length of its \<open>Content-Length\<close> header, at the end of the stream.\<close>

lemma loop_sized_message:
  assumes "line_done m" "msg_headers m = [empty_header]" "next_header m = 0" "num_headers m = 1"
    "msg_chunks m = [empty_chunk]" "next_chunk m = 0" "num_chunks m = 1"
    and fvs: "\<forall>(f, v) \<in> set fvs. field_text f \<noteq> None \<and> value_text v"
    and cl: "fvs = (CONTENT_LENGTH, show_nat 10 (length d)) # gvs" and d: "length d < limb_base"
    and n: "length fvs + 2 < n"
  shows "\<exists>m'. loop n m (headers_show (map (\<lambda>(f, v). mk_header f v) fvs) @ CRLF @ d) = Inr (m', []) \<and>
    msg_version m' = msg_version m \<and> http_msg.more m' = http_msg.more m \<and>
    msg_headers m' = map (\<lambda>(f, v). shown_header f v) fvs @ [end_header] \<and>
    map chunk_data (msg_chunks m') = [d] \<and> next_header m' = num_headers m' \<and>
    next_chunk m' = (if d = [] then 0 else num_chunks m') \<and> num_chunks m' = 1"
proof -
  obtain k where k: "n = length fvs + Suc (Suc (Suc k))"
    using n by (auto dest!: less_imp_Suc_add)
  let ?hs = "map (\<lambda>(f, v). shown_header f v) fvs"
  let ?m1 = "m\<lparr>msg_headers := ?hs @ [empty_header], next_header := length fvs, num_headers := Suc (length fvs),
               not_chunked_transfer := True\<rparr>"
  let ?m2 = "m\<lparr>msg_headers := ?hs @ [end_header], next_header := Suc (length fvs), num_headers := Suc (length fvs),
               not_chunked_transfer := True\<rparr>"
  have done2: "line_done ?m1" "line_done ?m2"
    using done_after assms(1) by simp_all
  have "loop n m (headers_show (map (\<lambda>(f, v). mk_header f v) fvs) @ CRLF @ d) = loop (Suc (Suc (Suc k))) ?m1 (CRLF @ d)"
    unfolding k using assms(1-4) fvs
      loop_headers [of m "[]" fvs "Suc (Suc (Suc k))" "CRLF @ d"] by (simp add: cl)
  also have "\<dots> = loop (Suc (Suc k)) (header_after ?m1 end_header) d"
  proof (rule loop_header [OF done2(1)])
    have nth: "msg_headers ?m1 ! next_header ?m1 = empty_header" by (simp add: nth_append)
    show "header_read (msg_headers ?m1 ! next_header ?m1) (CRLF @ d) = (end_header, d)"
      unfolding nth end_header_def by (rule header_read_end)
  qed simp_all
  also have "header_after ?m1 end_header = ?m2"
    by (cases m) (simp add: header_after_def end_header_def empty_header_def list_update_append)
  finally have hd: "loop n m (headers_show (map (\<lambda>(f, v). mk_header f v) fvs) @ CRLF @ d) = loop (Suc (Suc k)) ?m2 d" .
  show ?thesis
  proof (cases "d = []")
    case True
    then have "loop (Suc (Suc k)) ?m2 d = Inr (?m2, [])" by simp
    with hd True assms(5-7) show ?thesis by (intro exI [of _ ?m2]) (simp add: empty_chunk_def)
  next
    case False
    let ?k0 = "empty_chunk\<lparr>chunk_size := [of_nat (length d)], chunk_size_started := True, chunk_size_found := True,
              chunk_body_start := True\<rparr>"
    let ?k1 = "?k0\<lparr>chunk_data := chunk_data ?k0 @ d, received_bytes := [of_nat (0 + length d)]\<rparr>"
    have "bn_dec (show_nat 10 (length d)) = Inr [of_nat (length d)]"
      using d by (simp add: bn_dec_small show_nat_digits digits_val_show_nat)
    then have sz: "sized_chunk (msg_headers ?m2) empty_chunk = Inr ?k0"
      using fvs by (simp add: sized_chunk_def content_length_of_def cl header_read_show(2))
    have "chunk_read ?k0 (d @ []) = chunk_read ?k1 []"
      using d by (intro chunk_read_data) (simp_all add: empty_chunk_def)
    then have "chunk_turn unsized ?m2 d = Inr (chunk_after ?m2 ?k1, [])"
      using assms(5-7) unsized_fresh sz by (simp add: chunk_turn_eq)
    then have "loop (Suc (Suc k)) ?m2 d = loop (Suc k) (chunk_after ?m2 ?k1) []"
      using False done2(2) assms(6,7) by (simp add: msg_turn_def msg_more_def)
    moreover have "chunk_after ?m2 ?k1 = ?m2\<lparr>msg_chunks := [?k1], next_chunk := 1\<rparr>"
      using assms(5-7) by (simp add: chunk_after_def)
    ultimately show ?thesis using hd False assms(6,7)
      by (intro exI [of _ "?m2\<lparr>msg_chunks := [?k1], next_chunk := 1\<rparr>"]) (simp add: empty_chunk_def)
  qed
qed

end

end
