(* ===== verification/HttpRequest.thy ===== *)
theory HttpRequest
  imports MessageLoop
begin

text \<open>
  \<open>HttpRequest\<close> with its operators \<open>>>\<close> and \<open><<\<close> (\<open>http-requests.cpp\<close>).  The request line is
  parsed by \<open>request_line_step\<close>, one byte at a time; headers and chunks are the business of
  \<open>MessageLoop\<close>, whose interface is interpreted here on the request.
\<close>

section \<open>Operations\<close>

record http_request = http_msg +
  req_verb :: http_verb
  req_route :: string
  route_started :: bool
  route_finished :: bool
  verb_buf :: string
  verb_started :: bool
  verb_finished :: bool
  http_request_line_complete :: bool

definition empty_request :: http_request where
  "empty_request = \<lparr>msg_version = V1, msg_headers = [], msg_chunks = [], next_header = 0,
     num_headers = 0, next_chunk = 0, num_chunks = 0, msg_pos = 0, version_buf = [],
     find_version_state = 0, version_finished = False, not_chunked_transfer = False,
     req_verb = VerbUnknown, req_route = [], route_started = False, route_finished = False,
     verb_buf = [], verb_started = False, verb_finished = False,
     http_request_line_complete = False\<rparr>"

definition verb_of :: "string \<Rightarrow> http_verb" where
  "verb_of s =
     (if s = ''GET'' then GET else if s = ''POST'' then POST else if s = ''PATCH'' then PATCH
      else if s = ''PUT'' then PUT else if s = ''TRACE'' then TRACE
      else if s = ''DELETE'' then DELETE else if s = ''CONNECT'' then CONNECT else VerbUnknown)"

definition version_of :: "string \<Rightarrow> http_version" where
  "version_of s =
     (if s = ''1.1'' then V1_1 else if s = ''1.0'' then V1 else if s = ''2'' then V2
      else if s = ''3'' then V3 else if s = ''0.9'' then V0_9 else VersionUnknown)"

definition max_find_state :: nat where
  "max_find_state = 5"

text \<open>The search for the text \<open>HTTP/\<close>: five states, and a mismatch goes back to the first.\<close>

definition version_seek :: "char \<Rightarrow> nat \<Rightarrow> nat" where
  "version_seek c st =
     (if st = 0 then (if c = CHR ''H'' then 1 else 0)
      else if st = 1 then (if c = CHR ''T'' then 2 else 0)
      else if st = 2 then (if c = CHR ''T'' then 3 else 0)
      else if st = 3 then (if c = CHR ''P'' then 4 else 0)
      else if st = 4 then (if c = CHR ''/'' then 5 else 0)
      else st)"

text \<open>\<open>None\<close>: the operator returns, because the first visible character starts no verb.\<close>

definition request_line_step :: "char \<Rightarrow> http_request \<Rightarrow> http_request option" where
  "request_line_step c r =
     (if \<not> verb_started r then
        (if \<not> is_space c then
           (if c \<in> {CHR ''G'', CHR ''P'', CHR ''T'', CHR ''D'', CHR ''C''}
            then Some (r\<lparr>verb_started := True, verb_buf := verb_buf r @ [c]\<rparr>)
            else None)
         else Some r)
      else if \<not> verb_finished r then
        Some (if \<not> is_space c then r\<lparr>verb_buf := verb_buf r @ [c]\<rparr>
              else r\<lparr>req_verb := verb_of (verb_buf r), verb_finished := True\<rparr>)
      else if \<not> route_started r then
        Some (if \<not> is_space c then r\<lparr>route_started := True, req_route := req_route r @ [c]\<rparr> else r)
      else if \<not> route_finished r then
        Some (if \<not> is_space c then r\<lparr>req_route := req_route r @ [c]\<rparr> else r\<lparr>route_finished := True\<rparr>)
      else if find_version_state r < max_find_state then
        Some (r\<lparr>find_version_state := version_seek c (find_version_state r)\<rparr>)
      else if \<not> version_finished r then
        Some (if \<not> is_space c then r\<lparr>version_buf := version_buf r @ [c]\<rparr>
              else r\<lparr>msg_version := version_of (version_buf r), version_finished := True\<rparr>)
      else
        Some (if c = LF then r\<lparr>http_request_line_complete := True\<rparr> else r))"

definition request_unsized :: "http_chunk \<Rightarrow> bool" where
  "request_unsized k \<longleftrightarrow> \<not> chunk_size_found k \<and> \<not> chunk_body_start k"

definition request_open :: "http_request \<Rightarrow> http_request" where
  "request_open r = (if num_headers r = 0 \<and> num_chunks r = 0 \<and> req_verb r = VerbUnknown then msg_open r else r)"

definition request_read :: "http_request \<Rightarrow> string \<Rightarrow> (http_request \<times> string) result" where
  "request_read r s =
     msg_loop http_request_line_complete request_line_step request_unsized (Suc (length s)) (request_open r) s"

definition verb_text :: "http_request \<Rightarrow> string" where
  "verb_text r = (case req_verb r of
     GET \<Rightarrow> ''GET '' | POST \<Rightarrow> ''POST '' | PATCH \<Rightarrow> ''PATCH '' | PUT \<Rightarrow> ''PUT ''
   | TRACE \<Rightarrow> ''TRACE '' | DELETE \<Rightarrow> ''DELETE '' | CONNECT \<Rightarrow> ''CONNECT '' | VerbUnknown \<Rightarrow> verb_buf r)"

definition version_text :: "http_version \<Rightarrow> string" where
  "version_text v = (case v of
     V1 \<Rightarrow> ''1.0'' | V1_1 \<Rightarrow> ''1.1'' | V2 \<Rightarrow> ''2'' | V3 \<Rightarrow> ''3'' | V0_9 \<Rightarrow> ''0.9''
   | VersionUnknown \<Rightarrow> ''1.0'')"

definition request_show :: "http_request \<Rightarrow> string result" where
  "request_show r =
     (let line = (if \<not> http_request_line_complete r
                  then verb_text r @ req_route r @ '' HTTP/'' @ version_text (msg_version r) @ CRLF
                  else []);
          hdrs = headers_show (drop (next_header r) (msg_headers r))
      in if req_verb r \<noteq> GET \<and> req_verb r \<noteq> DELETE \<and> req_verb r \<noteq> TRACE \<and>
            next_chunk r < length (msg_chunks r)
         then rbind (body_show r) (\<lambda>b. Inr (line @ hdrs @ b))
         else Inr (line @ hdrs))"

interpretation request_rd:
  message_reader http_request_line_complete request_line_step request_unsized verb_started
proof
  fix c and m m' :: http_request
  assume "request_line_step c m = Some m'"
  then show "msg_headers m' = msg_headers m \<and> msg_chunks m' = msg_chunks m \<and>
        next_header m' = next_header m \<and> num_headers m' = num_headers m \<and>
        next_chunk m' = next_chunk m \<and> num_chunks m' = num_chunks m \<and>
        not_chunked_transfer m' = not_chunked_transfer m"
    by (auto simp: request_line_step_def split: if_splits)
next
  fix c and m :: http_request
  assume "verb_started m" "\<not> http_request_line_complete m"
  then show "\<exists>m'. request_line_step c m = Some m' \<and> verb_started m'"
    by (simp add: request_line_step_def)
qed (simp_all add: request_unsized_def empty_chunk_def)


section \<open>Reading always returns\<close>

lemma request_open_wf:
  "msg_wf r \<Longrightarrow> msg_wf (request_open r) \<and> msg_bytes (request_open r) = msg_bytes r"
proof -
  assume r: "msg_wf r"
  have "msg_wf (msg_open r) \<and> msg_bytes (msg_open r) = msg_bytes r"
    if "num_headers r = 0" "num_chunks r = 0"
  proof -
    from that r have "msg_headers r = []" "msg_chunks r = []" "\<not> not_chunked_transfer r"
      by (auto simp: msg_wf_def)
    then show ?thesis
      by (simp add: msg_wf_open) (simp add: msg_bytes_def msg_open_def empty_chunk_def)
  qed
  with r show ?thesis by (simp add: request_open_def)
qed

lemma msg_wf_empty_request: "msg_wf empty_request"
  by (simp add: msg_wf_def empty_request_def)

text \<open>
  C32: extracting a request from fewer than 2^64 buffered bytes returns or throws, it never
  loops; the request it leaves is again one that can be read on (cursors inside the vectors,
  only the last header and chunk open), and nothing is invented: the body bytes kept and the
  bytes left in the stream are no more than there were.
\<close>
theorem request_read_returns:
  assumes "msg_wf r" "msg_bytes r + length s < 2 ^ 64"
  shows "request_read r s \<noteq> Inl NoReturn \<and>
         (\<forall>r' rest. request_read r s = Inr (r', rest) \<longrightarrow>
            msg_wf r' \<and> length rest \<le> length s \<and> msg_bytes r' + length rest \<le> msg_bytes r + length s)"
proof -
  have b: "msg_bytes (request_open r) + length s < limb_base" and wf: "msg_wf (request_open r)"
    and eq: "msg_bytes (request_open r) = msg_bytes r"
    using request_open_wf [OF assms(1)] assms(2) by (simp_all add: limb_base_def)
  show ?thesis
    using request_rd.loop_fuel [OF wf b lessI] request_rd.loop_wf [OF wf b, unfolded eq]
    unfolding request_read_def by blast
qed

theorem request_read_returns_witness: "request_read empty_request ''GET'' \<noteq> Inl NoReturn"
  by (rule conjunct1 [OF request_read_returns [OF msg_wf_empty_request]]) (simp add: msg_bytes_def empty_request_def)

text \<open>
  A request that can be read on: a new one, or one whose reading has begun, in whatever part.
  And the texts that do not make the operator return at the first visible character: only blanks,
  or a first visible character with which a verb can start.
\<close>

definition readable :: "http_request \<Rightarrow> bool" where
  "readable r \<longleftrightarrow> msg_wf r \<and>
     (r = empty_request \<or> 0 < num_headers r \<and> (http_request_line_complete r \<longrightarrow> verb_started r))"

definition starts_verb :: "string \<Rightarrow> bool" where
  "starts_verb s \<longleftrightarrow> (case dropWhile is_space s of [] \<Rightarrow> True
     | c # _ \<Rightarrow> c \<in> {CHR ''G'', CHR ''P'', CHR ''T'', CHR ''D'', CHR ''C''})"

lemma rq_fold_blanks:
  "\<not> verb_started r \<Longrightarrow> \<not> http_request_line_complete r \<Longrightarrow> \<forall>c \<in> set w. is_space c \<Longrightarrow>
   line_fold http_request_line_complete request_line_step w r = Some r"
  by (induction w) (simp_all add: request_line_step_def)

lemma request_open_readable:
  assumes "readable r"
  shows "0 < num_headers (request_open r)" "verb_started (request_open r) = verb_started r"
    "http_request_line_complete (request_open r) = http_request_line_complete r"
    "http_request_line_complete r \<longrightarrow> verb_started r"
  using assms by (auto simp: readable_def request_open_def msg_open_def empty_request_def)

lemma request_open_idle: "0 < num_headers r \<Longrightarrow> request_open r = r"
  by (simp add: request_open_def)

lemma loop_segments:
  assumes "msg_wf r" "verb_started r" "0 < num_headers r" "msg_bytes r + length (s @ t) < limb_base"
    "request_rd.loop (Suc (length s)) r s = Inr (r', rest)" "\<not> not_chunked_transfer r'"
  shows "request_rd.loop (Suc (length (s @ t))) r (s @ t) = request_read r' (rest @ t)"
proof -
  have "0 < num_headers r'" using request_rd.loop_mono [OF assms(2,5)] assms(3) by simp
  then show ?thesis
    using request_rd.loop_append [OF assms(1,2) _ assms(5,6), of t] assms(4)
    by (simp add: request_read_def request_open_idle)
qed

text \<open>
  C31: fragmentation.  A chunked request that arrives in two segments is read exactly as if it
  had arrived in one, wherever the cut is: in the blanks before the request line, in the request
  line, in a header or in a chunk, for a new request as for one whose reading has begun.  Two
  kinds are excluded: a request that \<open>Content-Length\<close> makes not chunked, and one whose first
  visible character starts no verb, at which the operator returns in the middle of the stream.
\<close>
theorem request_read_segments:
  assumes "readable r" "verb_started r \<or> starts_verb s" "msg_bytes r + length (s @ t) < 2 ^ 64"
    and "request_read r s = Inr (r', rest)" "\<not> not_chunked_transfer r'"
  shows "request_read r (s @ t) = request_read r' (rest @ t)"
proof -
  let ?r = "request_open r"
  note op = request_open_readable [OF assms(1)]
  have wf: "msg_wf ?r" and b: "msg_bytes ?r + length (s @ t) < limb_base"
    using request_open_wf [of r] assms(1,3) by (simp_all add: readable_def limb_base_def)
  have loop: "request_rd.loop (Suc (length s)) ?r s = Inr (r', rest)"
    using assms(4) by (simp add: request_read_def)
  show ?thesis
  proof (cases "verb_started r")
    case True
    with loop_segments [OF wf _ op(1) b loop assms(5)] op(2) show ?thesis by (simp add: request_read_def)
  next
    case False
    let ?w = "takeWhile is_space s"
    from False op have ns: "\<not> verb_started ?r" "\<not> http_request_line_complete ?r" by simp_all
    have w: "line_fold http_request_line_complete request_line_step ?w ?r = Some ?r"
      using ns by (intro rq_fold_blanks) (auto dest: set_takeWhileD)
    show ?thesis
    proof (cases "dropWhile is_space s")
      case Nil
      then have s: "s = ?w" by (metis append_Nil2 takeWhile_dropWhile_id)
      have "request_rd.loop (length ?w + Suc 0) ?r (?w @ []) = Inr (?r, [])"
        unfolding request_rd.loop_line [OF w] by simp
      then have r': "r' = ?r" "rest = []" using loop s [symmetric] by simp_all
      have "request_rd.loop (length ?w + Suc (length t)) ?r (?w @ t) = request_rd.loop (Suc (length t)) ?r t"
        by (rule request_rd.loop_line [OF w])
      then show ?thesis
        using s [symmetric] request_open_idle [OF op(1)] by (simp add: request_read_def r')
    next
      case (Cons c d)
      then have s: "s = (?w @ [c]) @ d" using takeWhile_dropWhile_id [of is_space s] by simp
      have c: "c \<in> {CHR ''G'', CHR ''P'', CHR ''T'', CHR ''D'', CHR ''C''}" "\<not> is_space c"
        using assms(2) False Cons by (auto simp: starts_verb_def dropWhile_eq_Cons_conv)
      let ?r1 = "?r\<lparr>verb_started := True, verb_buf := verb_buf ?r @ [c]\<rparr>"
      have st: "request_line_step c ?r = Some ?r1" unfolding request_line_step_def using ns c by simp
      have w1: "line_fold http_request_line_complete request_line_step (?w @ [c]) ?r = Some ?r1"
        using line_fold_trans [OF w, of "[c]" ?r1] ns st by simp
      have l: "request_rd.loop (Suc (length (d @ t'))) ?r1 (d @ t') = request_rd.loop (Suc (length (s @ t'))) ?r (s @ t')" for t'
      proof -
        have e: "(?w @ [c]) @ d @ t' = s @ t'" using s by simp
        from request_rd.loop_line [OF w1, of "Suc (length (d @ t'))" "d @ t'"]
        show ?thesis unfolding e add_Suc_right length_append [symmetric] by (rule sym)
      qed
      have "msg_wf ?r1" "msg_bytes ?r1 = msg_bytes ?r" using request_rd.frame_wf [OF st] wf by simp_all
      moreover have "length d \<le> length s" by (metis s le_add2 length_append)
      ultimately have "request_rd.loop (Suc (length (d @ t))) ?r1 (d @ t) = request_read r' (rest @ t)"
        using b loop l [of "[]"] op(1) assms(5) by (intro loop_segments) simp_all
      then show ?thesis unfolding l by (simp add: request_read_def)
    qed
  qed
qed

text \<open>A new request, cut in the middle of its verb.\<close>

theorem request_read_segments_witness:
  "\<exists>r' rest. request_read empty_request ''PU'' = Inr (r', rest) \<and>
     request_read empty_request (''PU'' @ ''T /init HTTP/1.1'') = request_read r' (rest @ ''T /init HTTP/1.1'')"
proof -
  let ?r = "(msg_open empty_request)\<lparr>verb_started := True, verb_buf := ''PU''\<rparr>"
  have "request_read empty_request ''PU'' = Inr (?r, [])"
    by (simp add: request_read_def request_open_def msg_open_def empty_request_def
        msg_more_def msg_turn_def request_line_step_def is_space_def)
  moreover from this have "request_read empty_request (''PU'' @ ''T /init HTTP/1.1'') = request_read ?r ([] @ ''T /init HTTP/1.1'')"
  proof (rule request_read_segments [rotated 3])
    show "readable empty_request" by (simp add: readable_def msg_wf_empty_request)
  qed (simp_all add: starts_verb_def is_space_def msg_bytes_def msg_open_def empty_request_def)
  ultimately show ?thesis by blast
qed

section \<open>The request the controller writes, read back\<close>

definition mk_request ::
  "http_verb \<Rightarrow> string \<Rightarrow> http_version \<Rightarrow> (http_header_field \<times> string) list \<Rightarrow> string list \<Rightarrow> http_request" where
  "mk_request verb route ver fvs ds = empty_request\<lparr>req_verb := verb, req_route := route,
     msg_version := ver, msg_headers := map (\<lambda>(f, v). mk_header f v) fvs @ [mk_header END_OF_HEADERS []],
     msg_chunks := map data_chunk (ds @ [[]])\<rparr>"

lemma request_show_mk:
  assumes "verb \<notin> {GET, DELETE, TRACE, VerbUnknown}"
    "\<forall>(f, v) \<in> set fvs. field_text f \<noteq> None \<and> f \<noteq> CONTENT_LENGTH \<and> value_text v"
    "\<forall>d \<in> set ds. d \<noteq> [] \<and> length d < 2 ^ 60"
  shows "request_show (mk_request verb route ver fvs ds) = Inr
    (verb_text (mk_request verb route ver fvs ds) @ route @ '' HTTP/'' @ version_text ver @ CRLF @
     headers_show (map (\<lambda>(f, v). mk_header f v) fvs) @ CRLF @ concat (map chunk_text (ds @ [[]])))"
proof -
  let ?r = "mk_request verb route ver fvs ds"
  have "field_name h \<noteq> CONTENT_LENGTH" if "h \<in> set (msg_headers ?r)" for h
    using that assms(2) by (auto simp: mk_request_def mk_header_def empty_header_def)
  moreover have "chunks_show (map data_chunk (ds @ [[]])) = Inr (concat (map chunk_text (ds @ [[]])))"
    using assms(3) by (intro chunks_show_data) auto
  ultimately have "body_show ?r = Inr (concat (map chunk_text (ds @ [[]])))"
    by (auto simp: body_show_def) (simp add: mk_request_def empty_request_def)
  moreover have "headers_show (msg_headers ?r) = headers_show (map (\<lambda>(f, v). mk_header f v) fvs) @ CRLF"
    by (simp add: mk_request_def headers_show_def mk_header_def)
  moreover have "req_verb ?r = verb" "req_route ?r = route" "msg_version ?r = ver" "next_header ?r = 0" "next_chunk ?r = 0"
    "\<not> http_request_line_complete ?r" "msg_chunks ?r \<noteq> []"
    by (simp_all add: mk_request_def empty_request_def)
  ultimately show ?thesis using assms(1) by (simp add: request_show_def)
qed

abbreviation "rq_fold \<equiv> line_fold http_request_line_complete request_line_step"

lemma rq_fold_route:
  "verb_started r \<Longrightarrow> verb_finished r \<Longrightarrow> route_started r \<Longrightarrow> \<not> route_finished r \<Longrightarrow>
   \<not> http_request_line_complete r \<Longrightarrow> \<forall>c \<in> set w. \<not> is_space c \<Longrightarrow>
   rq_fold w r = Some (r\<lparr>req_route := req_route r @ w\<rparr>)"
proof (induction w arbitrary: r)
  case Nil
  then show ?case by (cases r) simp
next
  case (Cons c w)
  then show ?case by (simp add: request_line_step_def)
qed

lemma rq_fold_verb:
  assumes "verb \<noteq> VerbUnknown"
  shows "\<exists>b. rq_fold (verb_text (mk_request verb route ver fvs ds)) (msg_open empty_request) =
    Some ((msg_open empty_request)\<lparr>verb_started := True, verb_finished := True, req_verb := verb, verb_buf := b\<rparr>)"
  using assms
  by (cases verb; simp add: verb_text_def mk_request_def request_line_step_def empty_request_def msg_open_def
      is_space_def verb_of_def)

lemma rq_fold_version:
  assumes "verb_started r" "verb_finished r" "route_started r" "\<not> route_finished r"
    "\<not> http_request_line_complete r" "find_version_state r = 0" "\<not> version_finished r" "version_buf r = []"
    "ver \<noteq> VersionUnknown"
  shows "rq_fold ('' HTTP/'' @ version_text ver @ CRLF) r = Some (r\<lparr>route_finished := True,
     find_version_state := 5, version_buf := version_text ver, msg_version := ver, version_finished := True,
     http_request_line_complete := True\<rparr>)"
  using assms
  by (cases ver; simp add: version_text_def request_line_step_def is_space_def version_seek_def
      max_find_state_def version_of_def)

lemma rq_fold_line:
  assumes "verb \<noteq> VerbUnknown" "ver \<noteq> VersionUnknown" "route \<noteq> []" "\<forall>c \<in> set route. \<not> is_space c"
  shows "\<exists>b. rq_fold (verb_text (mk_request verb route ver fvs ds) @ route @ '' HTTP/'' @ version_text ver @ CRLF)
     (msg_open empty_request) =
    Some ((msg_open empty_request)\<lparr>verb_started := True, verb_finished := True, req_verb := verb, verb_buf := b,
      route_started := True, req_route := route, route_finished := True, find_version_state := 5,
      version_buf := version_text ver, msg_version := ver, version_finished := True,
      http_request_line_complete := True\<rparr>)"
proof -
  obtain b where b: "rq_fold (verb_text (mk_request verb route ver fvs ds)) (msg_open empty_request) =
    Some ((msg_open empty_request)\<lparr>verb_started := True, verb_finished := True, req_verb := verb, verb_buf := b\<rparr>)"
    (is "_ = Some ?r1") using rq_fold_verb [OF assms(1)] by blast
  obtain c w where c: "route = c # w" using assms(3) by (cases route) auto
  let ?r2 = "?r1\<lparr>route_started := True, req_route := [c]\<rparr>"
  have "rq_fold route ?r1 = rq_fold w ?r2"
    using assms(4) by (simp add: c request_line_step_def empty_request_def msg_open_def)
  also have "\<dots> = Some (?r2\<lparr>req_route := req_route ?r2 @ w\<rparr>)"
    using assms(4) by (intro rq_fold_route) (simp_all add: c empty_request_def msg_open_def)
  finally have r: "rq_fold route ?r1 = Some (?r2\<lparr>req_route := route\<rparr>)" by (simp add: c)
  have v: "rq_fold ('' HTTP/'' @ version_text ver @ CRLF) (?r2\<lparr>req_route := route\<rparr>) =
    Some (?r2\<lparr>req_route := route, route_finished := True,
     find_version_state := 5, version_buf := version_text ver, msg_version := ver, version_finished := True,
     http_request_line_complete := True\<rparr>)"
    using assms(2) by (subst rq_fold_version) (simp_all add: empty_request_def msg_open_def)
  show ?thesis
    using line_fold_trans [OF b line_fold_trans [OF r v]] by (intro exI [of _ b]) simp
qed

lemma request_read_mk:
  assumes "verb \<notin> {GET, DELETE, TRACE, VerbUnknown}" "ver \<noteq> VersionUnknown"
    "route \<noteq> []" "\<forall>c \<in> set route. \<not> is_space c"
    "\<forall>(f, v) \<in> set fvs. field_text f \<noteq> None \<and> f \<noteq> CONTENT_LENGTH \<and> value_text v"
    "\<forall>d \<in> set ds. d \<noteq> [] \<and> length d < 2 ^ 60"
  shows "\<exists>s r. request_show (mk_request verb route ver fvs ds) = Inr s \<and>
    request_read empty_request (s @ rest) = Inr (r, rest) \<and>
    req_verb r = verb \<and> req_route r = route \<and> msg_version r = ver \<and>
    map (\<lambda>h. (field_name h, field_value h)) (msg_headers r) = fvs @ [(END_OF_HEADERS, [])] \<and>
    map chunk_data (msg_chunks r) = ds @ [[]] \<and>
    next_header r = num_headers r \<and> next_chunk r = num_chunks r"
proof -
  let ?l = "verb_text (mk_request verb route ver fvs ds) @ route @ '' HTTP/'' @ version_text ver @ CRLF"
  let ?b = "headers_show (map (\<lambda>(f, v). mk_header f v) fvs) @ CRLF @ concat (map chunk_text (ds @ [[]]))"
  obtain b where line: "rq_fold ?l (msg_open empty_request) =
    Some ((msg_open empty_request)\<lparr>verb_started := True, verb_finished := True, req_verb := verb, verb_buf := b,
      route_started := True, req_route := route, route_finished := True, find_version_state := 5,
      version_buf := version_text ver, msg_version := ver, version_finished := True,
      http_request_line_complete := True\<rparr>)" (is "_ = Some ?r1")
    using rq_fold_line [of verb ver route fvs ds] assms(1-4) by auto
  let ?r = "?r1\<lparr>msg_headers := map (\<lambda>(f, v). shown_header f v) fvs @ [end_header],
           next_header := Suc (length fvs), num_headers := Suc (length fvs),
           msg_chunks := map parsed_chunk (ds @ [[]]),
           next_chunk := Suc (length ds), num_chunks := Suc (length ds)\<rparr>"
  have op: "request_open empty_request = msg_open empty_request"
    by (simp add: request_open_def empty_request_def)
  have "length fvs + length ds + 2 < Suc (length (?b @ rest))"
    using headers_show_length [OF assms(5)] chunk_texts_length [of "ds @ [[]]"] by simp
  then have body: "request_rd.loop (Suc (length (?b @ rest))) ?r1 (?b @ rest) = Inr (?r, rest)"
    using assms(5,6) request_rd.loop_message [of ?r1 fvs ds "Suc (length (?b @ rest))" rest]
    by (simp add: msg_open_def empty_request_def)
  have "request_read empty_request ((?l @ ?b) @ rest) =
      request_rd.loop (length ?l + Suc (length (?b @ rest))) (msg_open empty_request) (?l @ (?b @ rest))"
    unfolding request_read_def op by (simp only: append_assoc length_append add_Suc_right add.assoc)
  also have "\<dots> = Inr (?r, rest)"
    using request_rd.loop_line [OF line, of "Suc (length (?b @ rest))" "?b @ rest"] body by (simp only:)
  finally have rd: "request_read empty_request ((?l @ ?b) @ rest) = Inr (?r, rest)" .
  have sh: "request_show (mk_request verb route ver fvs ds) = Inr (?l @ ?b)"
    using request_show_mk [OF assms(1,5,6)] by simp
  have fv: "map (\<lambda>h. (field_name h, field_value h)) (map (\<lambda>(f, v). shown_header f v) fvs) = fvs"
    using assms(5) by (induction fvs) (auto simp: header_read_show(2))
  have hs: "map (\<lambda>h. (field_name h, field_value h)) (msg_headers ?r) = fvs @ [(END_OF_HEADERS, [])]"
    using fv by (simp add: end_header_def) (simp add: empty_header_def)
  have cs: "map chunk_data (msg_chunks ?r) = ds @ [[]]"
    by (simp add: parsed_chunk_def comp_def)
  show ?thesis
    using sh rd hs cs by (intro exI [of _ "?l @ ?b"] exI [of _ ?r]) simp
qed

text \<open>
  C15: the round trip of a chunked request.  A request with a body-carrying verb, a route
  without blanks, headers that have a name and a value of one line and a body of chunks that
  ends with the empty chunk is written as one text; reading that text into a fresh request
  takes exactly it from the stream and gives the verb, the route, the version, the headers and
  the data of the chunks, all in order.
\<close>
theorem request_roundtrip:
  assumes "verb \<notin> {GET, DELETE, TRACE, VerbUnknown}" "ver \<noteq> VersionUnknown"
    "route \<noteq> []" "\<forall>c \<in> set route. \<not> is_space c"
    "\<forall>(f, v) \<in> set fvs. field_text f \<noteq> None \<and> f \<noteq> CONTENT_LENGTH \<and> value_text v"
    "\<forall>d \<in> set ds. d \<noteq> [] \<and> length d < 2 ^ 60"
  shows "\<exists>s r. request_show (mk_request verb route ver fvs ds) = Inr s \<and>
    request_read empty_request (s @ rest) = Inr (r, rest) \<and>
    req_verb r = verb \<and> req_route r = route \<and> msg_version r = ver \<and>
    map (\<lambda>h. (field_name h, field_value h)) (msg_headers r) = fvs @ [(END_OF_HEADERS, [])] \<and>
    map chunk_data (msg_chunks r) = ds @ [[]] \<and>
    next_header r = num_headers r \<and> next_chunk r = num_chunks r"
  by (rule request_read_mk [OF assms])

theorem request_roundtrip_witness:
  "\<exists>s r. request_show (mk_request PUT ''/run'' V1_1 [(HOST, ''localhost''), (TRANSFER_ENCODING, ''chunked'')] [''{}'']) = Inr s \<and>
    request_read empty_request (s @ ''x'') = Inr (r, ''x'') \<and>
    req_verb r = PUT \<and> req_route r = ''/run'' \<and> msg_version r = V1_1 \<and>
    map (\<lambda>h. (field_name h, field_value h)) (msg_headers r) =
      [(HOST, ''localhost''), (TRANSFER_ENCODING, ''chunked'')] @ [(END_OF_HEADERS, [])] \<and>
    map chunk_data (msg_chunks r) = [''{}''] @ [[]] \<and>
    next_header r = num_headers r \<and> next_chunk r = num_chunks r"
  by (rule request_roundtrip) (simp_all add: is_space_def field_text_def value_text_def)

text \<open>
  A request line whose first visible character starts no verb is refused at once: the
  character is consumed, nothing is recorded, and the rest stays in the stream.
\<close>
theorem request_bad_verb:
  assumes "\<forall>c \<in> set w. is_space c" "\<not> is_space c" "c \<notin> set ''GPTDC''"
  shows "request_read empty_request (w @ c # s) = Inr (msg_open empty_request, s)"
proof -
  let ?r = "msg_open empty_request"
  have op: "request_open empty_request = ?r"
    by (simp add: request_open_def empty_request_def)
  have "rq_fold w ?r = Some ?r"
    using assms(1) by (induction w) (simp_all add: request_line_step_def msg_open_def empty_request_def)
  then have "request_read empty_request (w @ c # s) = request_rd.loop (Suc (length (c # s))) ?r (c # s)"
    unfolding request_read_def op
    using request_rd.loop_line [of w ?r ?r "Suc (length (c # s))" "c # s"] by simp
  also have "\<dots> = Inr (?r, s)"
    using assms(2,3) by (simp add: msg_turn_def request_line_step_def msg_open_def empty_request_def)
  finally show ?thesis .
qed

theorem request_bad_verb_witness:
  "request_read empty_request (''  '' @ CHR ''x'' # ''yz'') = Inr (msg_open empty_request, ''yz'')"
  by (rule request_bad_verb) (simp_all add: is_space_def)

end
