(* ===== verification/HttpResponse.thy ===== *)
theory HttpResponse
  imports HttpRequest
begin

text \<open>
  \<open>HttpResponse\<close> with its operators \<open>>>\<close> and \<open><<\<close> (\<open>http-requests.cpp\<close>): the status line by
  \<open>status_line_step\<close>, headers and chunks by the shared loop, whose interface is interpreted on
  the response.
\<close>

section \<open>Operations\<close>

record http_response = http_msg +
  res_status :: http_status
  status_buf :: string
  status_started :: bool
  status_finished :: bool
  status_line_finished :: bool

definition empty_response :: http_response where
  "empty_response = \<lparr>msg_version = V1, msg_headers = [], msg_chunks = [], next_header = 0,
     num_headers = 0, next_chunk = 0, num_chunks = 0, msg_pos = 0, version_buf = [],
     find_version_state = 0, version_finished = False, not_chunked_transfer = False,
     res_status = StatusZero, status_buf = [], status_started = False, status_finished = False,
     status_line_finished = False\<rparr>"

definition status_of :: "string \<Rightarrow> http_status" where
  "status_of s =
     (if s = ''200'' then OK else if s = ''204'' then NO_CONTENT else if s = ''404'' then NOT_FOUND
      else if s = ''409'' then CONFLICT else if s = ''405'' then METHOD_NOT_ALLOWED
      else if s = ''500'' then INTERNAL_SERVER_ERROR else if s = ''201'' then CREATED
      else if s = ''202'' then ACCEPTED else INTERNAL_SERVER_ERROR)"

definition status_line_step :: "char \<Rightarrow> http_response \<Rightarrow> http_response option" where
  "status_line_step c r =
     Some (if find_version_state r < max_find_state then
        r\<lparr>find_version_state := version_seek c (find_version_state r)\<rparr>
      else if \<not> version_finished r then
        (if \<not> is_space c then r\<lparr>version_buf := version_buf r @ [c]\<rparr>
         else r\<lparr>msg_version := version_of (version_buf r), version_finished := True\<rparr>)
      else if \<not> status_started r then
        (if \<not> is_space c then r\<lparr>status_buf := status_buf r @ [c], status_started := True\<rparr> else r)
      else if \<not> status_finished r then
        (if \<not> is_space c then r\<lparr>status_buf := status_buf r @ [c]\<rparr>
         else r\<lparr>res_status := status_of (status_buf r), status_finished := True\<rparr>)
      else if \<not> status_line_finished r then
        (if c = LF then r\<lparr>status_line_finished := True\<rparr> else r)
      else r)"

definition response_unsized :: "http_chunk \<Rightarrow> bool" where
  "response_unsized k \<longleftrightarrow> \<not> chunk_size_started k \<or> \<not> chunk_size_found k \<or> \<not> chunk_body_start k"

definition response_open :: "http_response \<Rightarrow> http_response" where
  "response_open r =
     (if num_headers r = 0 \<and> num_chunks r = 0 \<and> find_version_state r = 0 then msg_open r else r)"

definition response_read :: "http_response \<Rightarrow> string \<Rightarrow> (http_response \<times> string) result" where
  "response_read r s =
     msg_loop status_line_finished status_line_step response_unsized (Suc (length s)) (response_open r) s"

definition response_version_text :: "http_version \<Rightarrow> string" where
  "response_version_text v = (case v of
     V1 \<Rightarrow> ''HTTP/1.0 '' | V1_1 \<Rightarrow> ''HTTP/1.1 '' | V2 \<Rightarrow> ''HTTP/2 '' | V3 \<Rightarrow> ''HTTP/3 ''
   | V0_9 \<Rightarrow> ''HTTP/0.9 '' | VersionUnknown \<Rightarrow> ''HTTP/1.0'')"

definition status_text :: "http_status \<Rightarrow> string" where
  "status_text st = (case st of
     OK \<Rightarrow> ''200 OK'' | NOT_FOUND \<Rightarrow> ''404 Not Found'' | CONFLICT \<Rightarrow> ''409 Conflict''
   | METHOD_NOT_ALLOWED \<Rightarrow> ''405 Method Not Allowed''
   | INTERNAL_SERVER_ERROR \<Rightarrow> ''500 Internal Server Error'' | CREATED \<Rightarrow> ''201 Created''
   | ACCEPTED \<Rightarrow> ''202 Accepted'' | NO_CONTENT \<Rightarrow> ''500 Internal Server Error''
   | StatusZero \<Rightarrow> ''500 Internal Server Error'') @ CRLF"

definition response_show :: "http_response \<Rightarrow> string result" where
  "response_show r =
     (let line = (if \<not> status_line_finished r
                  then response_version_text (msg_version r) @ status_text (res_status r) else []);
          hdrs = headers_show (drop (next_header r) (msg_headers r))
      in if next_chunk r \<noteq> length (msg_chunks r)
         then rbind (body_show r) (\<lambda>b. Inr (line @ hdrs @ b))
         else Inr (line @ hdrs))"

interpretation response_rd:
  message_reader status_line_finished status_line_step response_unsized "\<lambda>_. True"
proof
  fix c and m m' :: http_response
  assume "status_line_step c m = Some m'"
  then show "msg_headers m' = msg_headers m \<and> msg_chunks m' = msg_chunks m \<and>
        next_header m' = next_header m \<and> num_headers m' = num_headers m \<and>
        next_chunk m' = next_chunk m \<and> num_chunks m' = num_chunks m \<and>
        not_chunked_transfer m' = not_chunked_transfer m"
    by (auto simp: status_line_step_def split: if_splits)
next
  fix c and m :: http_response
  show "\<exists>m'. status_line_step c m = Some m' \<and> True"
    by (simp add: status_line_step_def)
qed (simp_all add: response_unsized_def empty_chunk_def)

section \<open>Reading always returns\<close>

lemma msg_wf_empty_response: "msg_wf empty_response"
  by (simp add: msg_wf_def empty_response_def)

lemma response_open_wf:
  "msg_wf r \<Longrightarrow> msg_wf (response_open r) \<and> msg_bytes (response_open r) = msg_bytes r"
proof -
  assume r: "msg_wf r"
  have "msg_wf (msg_open r) \<and> msg_bytes (msg_open r) = msg_bytes r"
    if "num_headers r = 0" "num_chunks r = 0"
  proof -
    from that r have "msg_headers r = []" "msg_chunks r = []" "\<not> not_chunked_transfer r"
      by (auto simp: msg_wf_def)
    then show ?thesis
      by (simp add: msg_wf_open) (simp add: msg_bytes_def msg_open_def empty_chunk_def)
  qed
  with r show ?thesis by (simp add: response_open_def)
qed

text \<open>
  Extracting a response from fewer than 2^64 buffered bytes returns or throws, it never
  loops, and leaves a response that can be read on.
\<close>
theorem response_read_returns:
  assumes "msg_wf r" "msg_bytes r + length s < 2 ^ 64"
  shows "response_read r s \<noteq> Inl NoReturn \<and>
         (\<forall>r' rest. response_read r s = Inr (r', rest) \<longrightarrow>
            msg_wf r' \<and> length rest \<le> length s \<and> msg_bytes r' + length rest \<le> msg_bytes r + length s)"
proof -
  have b: "msg_bytes (response_open r) + length s < limb_base" and wf: "msg_wf (response_open r)"
    and eq: "msg_bytes (response_open r) = msg_bytes r"
    using response_open_wf [OF assms(1)] assms(2) by (simp_all add: limb_base_def)
  show ?thesis
    using response_rd.loop_fuel [OF wf b lessI] response_rd.loop_wf [OF wf b, unfolded eq]
    unfolding response_read_def by blast
qed

theorem response_read_returns_witness: "response_read empty_response ''HTTP'' \<noteq> Inl NoReturn"
  by (rule conjunct1 [OF response_read_returns [OF msg_wf_empty_response]]) (simp add: msg_bytes_def empty_response_def)

text \<open>
  Fragmentation.  A chunked response that arrives in two segments is read exactly as if it
  had arrived in one, wherever the cut is; there is no condition on how far it has come.
\<close>
theorem response_read_segments:
  assumes "msg_wf r" "0 < num_headers r \<or> r = empty_response" "msg_bytes r + length (s @ t) < 2 ^ 64"
    and "response_read r s = Inr (r', rest)" "\<not> not_chunked_transfer r'"
  shows "response_read r (s @ t) = response_read r' (rest @ t)"
proof -
  have wf: "msg_wf (response_open r)" and b: "msg_bytes (response_open r) = msg_bytes r"
    using response_open_wf [OF assms(1)] by simp_all
  have loop: "response_rd.loop (Suc (length s)) (response_open r) s = Inr (r', rest)"
    using assms(4) by (simp add: response_read_def)
  have "0 < num_headers (response_open r)"
    using assms(2) by (auto simp: response_open_def msg_open_def empty_response_def)
  then have "0 < num_headers r'" using response_rd.loop_mono [OF _ loop] by simp
  then have op': "response_open r' = r'" by (simp add: response_open_def)
  show ?thesis
    using response_rd.loop_append [OF wf _ _ loop assms(5), of t] assms(3) b
    by (simp add: response_read_def op' limb_base_def)
qed

theorem response_read_segments_witness:
  "response_read empty_response (''HTTP/1.1 20'' @ ''0 OK'') =
   response_read ((msg_open empty_response)\<lparr>find_version_state := 5, version_buf := ''1.1'', msg_version := V1_1,
     version_finished := True, status_buf := ''20'', status_started := True\<rparr>) ([] @ ''0 OK'')"
proof (rule response_read_segments [OF msg_wf_empty_response])
  show "response_read empty_response ''HTTP/1.1 20'' = Inr ((msg_open empty_response)\<lparr>find_version_state := 5,
      version_buf := ''1.1'', msg_version := V1_1, version_finished := True, status_buf := ''20'',
      status_started := True\<rparr>, [])"
    by (simp add: response_read_def response_open_def msg_open_def empty_response_def msg_more_def
        msg_turn_def status_line_step_def version_seek_def max_find_state_def is_space_def version_of_def)
qed (simp_all add: msg_open_def empty_response_def msg_bytes_def)

section \<open>The response the controller writes, read back\<close>

definition mk_response ::
  "http_version \<Rightarrow> http_status \<Rightarrow> (http_header_field \<times> string) list \<Rightarrow> string list \<Rightarrow> http_response" where
  "mk_response ver st fvs ds = empty_response\<lparr>msg_version := ver, res_status := st,
     msg_headers := map (\<lambda>(f, v). mk_header f v) fvs @ [mk_header END_OF_HEADERS []],
     msg_chunks := map data_chunk (ds @ [[]])\<rparr>"

abbreviation "rs_fold \<equiv> line_fold status_line_finished status_line_step"

text \<open>The status a reader finds: \<open>204\<close> is never written, its place is taken by \<open>500\<close>.\<close>

definition shown_status :: "http_status \<Rightarrow> http_status" where
  "shown_status st = (if st \<in> {NO_CONTENT, StatusZero} then INTERNAL_SERVER_ERROR else st)"

lemma rs_fold_version:
  assumes "ver \<noteq> VersionUnknown"
  shows "rs_fold (response_version_text ver) (msg_open empty_response) =
    Some ((msg_open empty_response)\<lparr>find_version_state := 5, version_buf := version_text ver,
      msg_version := ver, version_finished := True\<rparr>)"
  using assms
  by (cases ver; simp add: response_version_text_def version_text_def msg_open_def empty_response_def
      status_line_step_def version_seek_def max_find_state_def is_space_def version_of_def)

lemma rs_fold_code:
  assumes "\<not> status_line_finished r" "find_version_state r = 5" "version_finished r" "\<not> status_started r"
    "\<not> status_finished r" "status_buf r = []" "\<not> is_space a" "\<not> is_space b" "\<not> is_space c"
  shows "rs_fold [a, b, c, SP] r = Some (r\<lparr>status_buf := [a, b, c], status_started := True,
      res_status := status_of [a, b, c], status_finished := True\<rparr>)"
  using assms by (simp add: status_line_step_def max_find_state_def)

lemma rs_fold_message:
  assumes "\<not> status_line_finished r" "find_version_state r = 5" "version_finished r" "status_started r"
    "status_finished r" "LF \<notin> set w"
  shows "rs_fold (w @ [LF]) r = Some (r\<lparr>status_line_finished := True\<rparr>)"
  using assms by (induction w) (auto simp: status_line_step_def max_find_state_def)

definition status_parts :: "string \<Rightarrow> http_status \<Rightarrow> bool" where
  "status_parts t s \<longleftrightarrow> (\<exists>a b c w. t = [a, b, c, SP] @ w @ [LF] \<and> LF \<notin> set w \<and>
     \<not> is_space a \<and> \<not> is_space b \<and> \<not> is_space c \<and> status_of [a, b, c] = s)"

lemma status_partsI:
  "t = [a, b, c, SP] @ w @ [LF] \<Longrightarrow> LF \<notin> set w \<Longrightarrow> \<not> is_space a \<Longrightarrow> \<not> is_space b \<Longrightarrow> \<not> is_space c \<Longrightarrow>
   status_of [a, b, c] = s \<Longrightarrow> status_parts t s"
  unfolding status_parts_def by blast

lemma status_text_parts: "status_parts (status_text st) (shown_status st)"
proof (cases st)
  case StatusZero
  then show ?thesis
    by (intro status_partsI [where a = "CHR ''5''" and b = "CHR ''0''" and c = "CHR ''0''"
          and w = "''Internal Server Error'' @ [CR]"])
       (simp_all add: status_text_def is_space_def status_of_def shown_status_def)
next
  case OK
  then show ?thesis
    by (intro status_partsI [where a = "CHR ''2''" and b = "CHR ''0''" and c = "CHR ''0''"
          and w = "''OK'' @ [CR]"])
       (simp_all add: status_text_def is_space_def status_of_def shown_status_def)
next
  case NO_CONTENT
  then show ?thesis
    by (intro status_partsI [where a = "CHR ''5''" and b = "CHR ''0''" and c = "CHR ''0''"
          and w = "''Internal Server Error'' @ [CR]"])
       (simp_all add: status_text_def is_space_def status_of_def shown_status_def)
next
  case NOT_FOUND
  then show ?thesis
    by (intro status_partsI [where a = "CHR ''4''" and b = "CHR ''0''" and c = "CHR ''4''"
          and w = "''Not Found'' @ [CR]"])
       (simp_all add: status_text_def is_space_def status_of_def shown_status_def)
next
  case CONFLICT
  then show ?thesis
    by (intro status_partsI [where a = "CHR ''4''" and b = "CHR ''0''" and c = "CHR ''9''"
          and w = "''Conflict'' @ [CR]"])
       (simp_all add: status_text_def is_space_def status_of_def shown_status_def)
next
  case METHOD_NOT_ALLOWED
  then show ?thesis
    by (intro status_partsI [where a = "CHR ''4''" and b = "CHR ''0''" and c = "CHR ''5''"
          and w = "''Method Not Allowed'' @ [CR]"])
       (simp_all add: status_text_def is_space_def status_of_def shown_status_def)
next
  case INTERNAL_SERVER_ERROR
  then show ?thesis
    by (intro status_partsI [where a = "CHR ''5''" and b = "CHR ''0''" and c = "CHR ''0''"
          and w = "''Internal Server Error'' @ [CR]"])
       (simp_all add: status_text_def is_space_def status_of_def shown_status_def)
next
  case CREATED
  then show ?thesis
    by (intro status_partsI [where a = "CHR ''2''" and b = "CHR ''0''" and c = "CHR ''1''"
          and w = "''Created'' @ [CR]"])
       (simp_all add: status_text_def is_space_def status_of_def shown_status_def)
next
  case ACCEPTED
  then show ?thesis
    by (intro status_partsI [where a = "CHR ''2''" and b = "CHR ''0''" and c = "CHR ''2''"
          and w = "''Accepted'' @ [CR]"])
       (simp_all add: status_text_def is_space_def status_of_def shown_status_def)
qed

lemma rs_fold_status:
  assumes "\<not> status_line_finished r" "find_version_state r = 5" "version_finished r" "\<not> status_started r"
    "\<not> status_finished r" "status_buf r = []"
  shows "\<exists>b. rs_fold (status_text st) r = Some (r\<lparr>res_status := shown_status st, status_buf := b,
      status_started := True, status_finished := True, status_line_finished := True\<rparr>)"
proof -
  obtain a b c w where t: "status_text st = [a, b, c, SP] @ w @ [LF]" "LF \<notin> set w"
    "\<not> is_space a" "\<not> is_space b" "\<not> is_space c" "status_of [a, b, c] = shown_status st"
    using status_text_parts [of st] unfolding status_parts_def by blast
  let ?r1 = "r\<lparr>status_buf := [a, b, c], status_started := True, res_status := shown_status st,
      status_finished := True\<rparr>"
  have "rs_fold [a, b, c, SP] r = Some ?r1"
    using rs_fold_code [OF assms t(3-5)] t(6) by simp
  moreover have "rs_fold (w @ [LF]) ?r1 = Some (?r1\<lparr>status_line_finished := True\<rparr>)"
    using assms t(2) by (intro rs_fold_message) simp_all
  ultimately have "rs_fold ([a, b, c, SP] @ w @ [LF]) r = Some (?r1\<lparr>status_line_finished := True\<rparr>)"
    by (rule line_fold_trans)
  moreover have "?r1\<lparr>status_line_finished := True\<rparr> = r\<lparr>res_status := shown_status st, status_buf := [a, b, c],
      status_started := True, status_finished := True, status_line_finished := True\<rparr>" by simp
  ultimately show ?thesis unfolding t(1) by (metis (no_types))
qed

lemma response_show_mk:
  assumes "\<forall>(f, v) \<in> set fvs. field_text f \<noteq> None \<and> f \<noteq> CONTENT_LENGTH \<and> value_text v"
    "\<forall>d \<in> set ds. d \<noteq> [] \<and> length d < 2 ^ 60"
  shows "response_show (mk_response ver st fvs ds) = Inr
    (response_version_text ver @ status_text st @
     headers_show (map (\<lambda>(f, v). mk_header f v) fvs) @ CRLF @ concat (map chunk_text (ds @ [[]])))"
proof -
  let ?r = "mk_response ver st fvs ds"
  have "field_name h \<noteq> CONTENT_LENGTH" if "h \<in> set (msg_headers ?r)" for h
    using that assms(1) by (auto simp: mk_response_def mk_header_def empty_header_def)
  moreover have "chunks_show (map data_chunk (ds @ [[]])) = Inr (concat (map chunk_text (ds @ [[]])))"
    using assms(2) by (intro chunks_show_data) auto
  ultimately have "body_show ?r = Inr (concat (map chunk_text (ds @ [[]])))"
    by (auto simp: body_show_def) (simp add: mk_response_def empty_response_def)
  moreover have "headers_show (msg_headers ?r) = headers_show (map (\<lambda>(f, v). mk_header f v) fvs) @ CRLF"
    by (simp add: mk_response_def headers_show_def mk_header_def)
  moreover have "res_status ?r = st" "msg_version ?r = ver" "next_header ?r = 0" "next_chunk ?r = 0"
    "\<not> status_line_finished ?r" "msg_chunks ?r \<noteq> []"
    by (simp_all add: mk_response_def empty_response_def)
  ultimately show ?thesis by (simp add: response_show_def)
qed

text \<open>
  C16: the round trip of a chunked response.  Whatever the status, the text of a response is
  read back completely; version, headers and chunk data come back as they were, and so does the
  status, except that \<open>NO_CONTENT\<close> comes back as \<open>INTERNAL_SERVER_ERROR\<close>, which the
  writer puts in its place.
\<close>
theorem response_roundtrip:
  assumes "ver \<noteq> VersionUnknown"
    "\<forall>(f, v) \<in> set fvs. field_text f \<noteq> None \<and> f \<noteq> CONTENT_LENGTH \<and> value_text v"
    "\<forall>d \<in> set ds. d \<noteq> [] \<and> length d < 2 ^ 60"
  shows "\<exists>s r. response_show (mk_response ver st fvs ds) = Inr s \<and>
    response_read empty_response (s @ rest) = Inr (r, rest) \<and>
    res_status r = (if st = NO_CONTENT \<or> st = StatusZero then INTERNAL_SERVER_ERROR else st) \<and>
    msg_version r = ver \<and>
    map (\<lambda>h. (field_name h, field_value h)) (msg_headers r) = fvs @ [(END_OF_HEADERS, [])] \<and>
    map chunk_data (msg_chunks r) = ds @ [[]] \<and>
    next_header r = num_headers r \<and> next_chunk r = num_chunks r"
proof -
  let ?l = "response_version_text ver @ status_text st"
  let ?b = "headers_show (map (\<lambda>(f, v). mk_header f v) fvs) @ CRLF @ concat (map chunk_text (ds @ [[]]))"
  let ?r0 = "(msg_open empty_response)\<lparr>find_version_state := 5, version_buf := version_text ver,
      msg_version := ver, version_finished := True\<rparr>"
  obtain b where st: "rs_fold (status_text st) ?r0 = Some (?r0\<lparr>res_status := shown_status st, status_buf := b,
      status_started := True, status_finished := True, status_line_finished := True\<rparr>)" (is "_ = Some ?r1")
    using rs_fold_status [of ?r0 st] by (auto simp: msg_open_def empty_response_def)
  have line: "rs_fold ?l (msg_open empty_response) = Some ?r1"
    by (rule line_fold_trans [OF rs_fold_version [OF assms(1)] st])
  let ?r = "?r1\<lparr>msg_headers := map (\<lambda>(f, v). shown_header f v) fvs @ [end_header],
           next_header := Suc (length fvs), num_headers := Suc (length fvs),
           msg_chunks := map parsed_chunk (ds @ [[]]),
           next_chunk := Suc (length ds), num_chunks := Suc (length ds)\<rparr>"
  have op: "response_open empty_response = msg_open empty_response"
    by (simp add: response_open_def empty_response_def)
  have "length fvs + length ds + 2 < Suc (length (?b @ rest))"
    using headers_show_length [OF assms(2)] chunk_texts_length [of "ds @ [[]]"] by simp
  then have body: "response_rd.loop (Suc (length (?b @ rest))) ?r1 (?b @ rest) = Inr (?r, rest)"
    using assms(2,3) response_rd.loop_message [of ?r1 fvs ds "Suc (length (?b @ rest))" rest]
    by (simp add: msg_open_def empty_response_def)
  have "response_read empty_response ((?l @ ?b) @ rest) =
      response_rd.loop (length ?l + Suc (length (?b @ rest))) (msg_open empty_response) (?l @ (?b @ rest))"
    unfolding response_read_def op by (simp only: append_assoc length_append add_Suc_right add.assoc)
  also have "\<dots> = Inr (?r, rest)"
    using response_rd.loop_line [OF line, of "Suc (length (?b @ rest))" "?b @ rest"] body by (simp only:)
  finally have rd: "response_read empty_response ((?l @ ?b) @ rest) = Inr (?r, rest)" .
  have sh: "response_show (mk_response ver st fvs ds) = Inr (?l @ ?b)"
    using response_show_mk [OF assms(2,3)] by simp
  have fv: "map (\<lambda>h. (field_name h, field_value h)) (map (\<lambda>(f, v). shown_header f v) fvs) = fvs"
    using assms(2) by (induction fvs) (auto simp: header_read_show(2))
  have hs: "map (\<lambda>h. (field_name h, field_value h)) (msg_headers ?r) = fvs @ [(END_OF_HEADERS, [])]"
    using fv by (simp add: end_header_def) (simp add: empty_header_def)
  have cs: "map chunk_data (msg_chunks ?r) = ds @ [[]]"
    by (simp add: parsed_chunk_def comp_def)
  show ?thesis
    using sh rd hs cs by (intro exI [of _ "?l @ ?b"] exI [of _ ?r]) (simp add: shown_status_def)
qed

theorem response_roundtrip_witness:
  "\<exists>s r. response_show (mk_response V1_1 NO_CONTENT [(CONNECTION, ''close'')] [''{}'']) = Inr s \<and>
    response_read empty_response (s @ ''x'') = Inr (r, ''x'') \<and>
    res_status r = (if NO_CONTENT = NO_CONTENT \<or> NO_CONTENT = StatusZero then INTERNAL_SERVER_ERROR else NO_CONTENT) \<and>
    msg_version r = V1_1 \<and>
    map (\<lambda>h. (field_name h, field_value h)) (msg_headers r) = [(CONNECTION, ''close'')] @ [(END_OF_HEADERS, [])] \<and>
    map chunk_data (msg_chunks r) = [''{}''] @ [[]] \<and>
    next_header r = num_headers r \<and> next_chunk r = num_chunks r"
  by (rule response_roundtrip) (simp_all add: is_space_def field_text_def value_text_def)

end
