(* ===== verification/HttpSession.thy ===== *)
theory HttpSession
  imports HttpResponse
begin

text \<open>
  \<open>http::HttpSession\<close> and \<open>http::HttpClientSession\<close> (\<open>http-session.cpp\<close>, \<open>app-session.hpp\<close>).  A
  session owns a request, a response and a transport session; of the transport it sees the
  text received and not yet read, and the text it has asked to be written.  Both the session
  and the stream have a mutex.  An operation that ends in an exception leaves the parsed object
  and the stream somewhere in the middle, so all that is modelled of it is the exception and
  which mutexes are held; a call that needs a mutex which is never released does not return.
\<close>

section \<open>State\<close>

record http_session =
  hs_request :: http_request
  hs_response :: http_response
  hs_in :: string
  hs_out :: string
  app_locked :: bool
  stream_locked :: bool

record locks =
  app_held :: bool
  stream_held :: bool

type_synonym session_result = "(cpp_error \<times> locks) + http_session"

definition new_session :: http_session where
  "new_session = \<lparr>hs_request = empty_request, hs_response = empty_response, hs_in = [], hs_out = [],
     app_locked = False, stream_locked = False\<rparr>"

text \<open>Which mutexes a result leaves held.\<close>

definition locks_of :: "session_result \<Rightarrow> locks" where
  "locks_of res = (case res of
     Inl (e, l) \<Rightarrow> l | Inr s \<Rightarrow> \<lparr>app_held = app_locked s, stream_held = stream_locked s\<rparr>)"

definition with_locks :: "locks \<Rightarrow> http_session \<Rightarrow> http_session" where
  "with_locks l s = s\<lparr>app_locked := app_held l, stream_locked := stream_held l\<rparr>"

section \<open>Operations\<close>

definition acquire_locks :: "http_session \<Rightarrow> session_result" where
  "acquire_locks s =
     (if app_locked s then Inl (NoReturn, \<lparr>app_held = True, stream_held = stream_locked s\<rparr>)
      else if stream_locked s then Inl (NoReturn, \<lparr>app_held = True, stream_held = True\<rparr>)
      else Inr (s\<lparr>app_locked := True, stream_locked := True\<rparr>))"

definition server_read :: "http_session \<Rightarrow> session_result" where
  "server_read s = (case acquire_locks s of
     Inl e \<Rightarrow> Inl e
   | Inr s1 \<Rightarrow> (case request_read (hs_request s1) (hs_in s1) of
       Inl NoReturn \<Rightarrow> Inl (NoReturn, \<lparr>app_held = True, stream_held = True\<rparr>)
     | Inl _ \<Rightarrow> Inl (Thrown ''what?'', \<lparr>app_held = True, stream_held = True\<rparr>)
     | Inr (r, rest) \<Rightarrow>
         Inr (s1\<lparr>hs_request := r, hs_in := rest, app_locked := False, stream_locked := False\<rparr>)))"

definition server_write :: "http_session \<Rightarrow> session_result" where
  "server_write s =
     (if app_locked s then Inl (NoReturn, \<lparr>app_held = True, stream_held = stream_locked s\<rparr>)
      else (case response_show (hs_response s) of
        Inl e \<Rightarrow> Inl (e, \<lparr>app_held = True, stream_held = stream_locked s\<rparr>)
      | Inr t \<Rightarrow>
          (let r = hs_response s in
           Inr (s\<lparr>hs_response := r\<lparr>status_line_finished := True, next_header := length (msg_headers r),
                  next_chunk := length (msg_chunks r)\<rparr>, hs_out := hs_out s @ t\<rparr>))))"

text \<open>\<open>write(req_res, fn)\<close>: another response, without the session's own state or lock.\<close>

definition server_write_other :: "http_response \<Rightarrow> http_session \<Rightarrow> session_result" where
  "server_write_other r s = (case response_show r of
     Inl e \<Rightarrow> Inl (e, \<lparr>app_held = app_locked s, stream_held = stream_locked s\<rparr>)
   | Inr t \<Rightarrow> Inr (s\<lparr>hs_out := hs_out s @ t\<rparr>))"

definition client_read :: "http_session \<Rightarrow> session_result" where
  "client_read s = (case acquire_locks s of
     Inl e \<Rightarrow> Inl e
   | Inr s1 \<Rightarrow> (case response_read (hs_response s1) (hs_in s1) of
       Inl NoReturn \<Rightarrow> Inl (NoReturn, \<lparr>app_held = True, stream_held = True\<rparr>)
     | Inl _ \<Rightarrow> Inl (DomainError ''http-session.cpp:98:HttpClientSession.read() failed.'',
                  \<lparr>app_held = False, stream_held = False\<rparr>)
     | Inr (r, rest) \<Rightarrow>
         Inr (s1\<lparr>hs_response := r, hs_in := rest, app_locked := False, stream_locked := False\<rparr>)))"

definition client_write :: "http_session \<Rightarrow> session_result" where
  "client_write s =
     (if app_locked s then Inl (NoReturn, \<lparr>app_held = True, stream_held = stream_locked s\<rparr>)
      else (case request_show (hs_request s) of
        Inl e \<Rightarrow> Inl (e, \<lparr>app_held = True, stream_held = stream_locked s\<rparr>)
      | Inr t \<Rightarrow>
          (let r = hs_request s in
           Inr (s\<lparr>hs_request := r\<lparr>http_request_line_complete := True, next_header := length (msg_headers r),
                  next_chunk := length (msg_chunks r)\<rparr>, hs_out := hs_out s @ t\<rparr>))))"

definition client_write_other :: "http_request \<Rightarrow> http_session \<Rightarrow> session_result" where
  "client_write_other r s = (case request_show r of
     Inl e \<Rightarrow> Inl (e, \<lparr>app_held = app_locked s, stream_held = stream_locked s\<rparr>)
   | Inr t \<Rightarrow> Inr (s\<lparr>hs_out := hs_out s @ t\<rparr>))"

text \<open>Bytes arriving on the transport, and what an application does between two writes.\<close>

definition receive :: "string \<Rightarrow> http_session \<Rightarrow> http_session" where
  "receive t s = s\<lparr>hs_in := hs_in s @ t\<rparr>"

definition add_chunks :: "http_chunk list \<Rightarrow> http_session \<Rightarrow> http_session" where
  "add_chunks ks s = s\<lparr>hs_response := (hs_response s)\<lparr>msg_chunks := msg_chunks (hs_response s) @ ks\<rparr>\<rparr>"

text \<open>\<open>erase()\<close>: the server's list of sessions without the first pointer to this one.\<close>

definition session_erase :: "'p \<Rightarrow> 'p list \<Rightarrow> 'p list" where
  "session_erase self sessions = erase_first (\<lambda>p. p = self) sessions"

section \<open>Properties\<close>

lemma chunks_show_append:
  "chunks_show (xs @ ys) = rbind (chunks_show xs) (\<lambda>s. rbind (chunks_show ys) (\<lambda>t. Inr (s @ t)))"
  by (induction xs) (auto simp: rbind_assoc intro!: rbind_cong)

lemma body_show_append:
  assumes "\<forall>h \<in> set (msg_headers r). field_name h \<noteq> CONTENT_LENGTH" "next_chunk r \<le> length (msg_chunks r)"
  shows "body_show (r\<lparr>msg_chunks := msg_chunks r @ ks\<rparr>) =
    rbind (body_show r) (\<lambda>s. rbind (chunks_show ks) (\<lambda>t. Inr (s @ t)))"
  using assms by (simp add: body_show_def chunks_show_append)

lemma response_show_body:
  assumes "\<forall>h \<in> set (msg_headers r). field_name h \<noteq> CONTENT_LENGTH" "next_chunk r \<le> length (msg_chunks r)"
  shows "response_show r = rbind (body_show r) (\<lambda>b. Inr
    ((if \<not> status_line_finished r then response_version_text (msg_version r) @ status_text (res_status r) else []) @
     headers_show (drop (next_header r) (msg_headers r)) @ b))"
proof (cases "next_chunk r = length (msg_chunks r)")
  case True
  then have "body_show r = Inr []" using assms(1) by (auto simp: body_show_def)
  with True show ?thesis by (simp add: response_show_def)
qed (simp add: response_show_def Let_def)

text \<open>
  C33: streaming a response.  A response that is written, given more chunks and written again
  puts on the wire exactly what one write of the whole response would have put there: nothing
  is sent twice and nothing is left out.
\<close>
theorem server_write_streams:
  assumes "server_write s = Inr s1" "server_write (add_chunks ks s1) = Inr s2"
    and "\<forall>h \<in> set (msg_headers (hs_response s)). field_name h \<noteq> CONTENT_LENGTH"
    and "next_chunk (hs_response s) \<le> length (msg_chunks (hs_response s))"
  shows "\<exists>s'. server_write (add_chunks ks s) = Inr s' \<and> hs_out s' = hs_out s2 \<and> hs_response s' = hs_response s2"
proof -
  let ?r = "hs_response s"
  let ?line = "(if \<not> status_line_finished ?r
     then response_version_text (msg_version ?r) @ status_text (res_status ?r) else []) @
     headers_show (drop (next_header ?r) (msg_headers ?r))"
  let ?r1 = "?r\<lparr>status_line_finished := True, next_header := length (msg_headers ?r),
                next_chunk := length (msg_chunks ?r)\<rparr>"
  let ?r2 = "?r1\<lparr>msg_chunks := msg_chunks ?r @ ks\<rparr>"
  from assms(1) obtain t1 where free: "\<not> app_locked s" and t1: "response_show ?r = Inr t1"
    and s1: "s1 = s\<lparr>hs_response := ?r1, hs_out := hs_out s @ t1\<rparr>"
    by (auto simp: server_write_def Let_def split: if_splits sum.splits)
  from t1 obtain b where b: "body_show ?r = Inr b" "t1 = ?line @ b"
    unfolding response_show_body [OF assms(3,4)] by (auto simp: rbind_Inr_iff)
  from assms(2) obtain t2 where t2: "response_show ?r2 = Inr t2"
    and s2: "s2 = s\<lparr>hs_response := ?r2\<lparr>next_chunk := length (msg_chunks ?r @ ks)\<rparr>, hs_out := (hs_out s @ t1) @ t2\<rparr>"
    by (auto simp: server_write_def Let_def s1 add_chunks_def split: if_splits sum.splits)
  have "response_show ?r2 = rbind (body_show ?r2) Inr"
    using assms(3) by (subst response_show_body) (simp_all add: headers_show_def)
  moreover have "body_show ?r2 = chunks_show ks" using assms(3) by (auto simp: body_show_def)
  ultimately have k: "chunks_show ks = Inr t2" using t2 by simp
  have "response_show (?r\<lparr>msg_chunks := msg_chunks ?r @ ks\<rparr>) = Inr (t1 @ t2)"
    using assms(3,4) by (subst response_show_body) (simp_all add: body_show_append b k)
  then show ?thesis
    using free by (simp add: server_write_def add_chunks_def s2 Let_def)
qed

theorem server_write_streams_witness:
  "\<exists>s'. server_write (add_chunks [data_chunk ''[]''] new_session) = Inr s' \<and>
     hs_out s' = ''HTTP/1.0 500 Internal Server Error'' @ CRLF @ ''2'' @ CRLF @ ''[]'' @ CRLF \<and>
     status_line_finished (hs_response s')"
proof -
  have sh: "chunks_show [data_chunk ''[]''] = Inr (''2'' @ CRLF @ ''[]'' @ CRLF)"
    using chunk_show_data [of "''[]''"] by (simp add: limb_base_def show_nat.simps digit_char_def)
  obtain s1 where s1: "server_write new_session = Inr s1"
    "hs_out s1 = ''HTTP/1.0 500 Internal Server Error'' @ CRLF"
    "hs_response s1 = empty_response\<lparr>status_line_finished := True\<rparr>" "\<not> app_locked s1"
    by (simp add: server_write_def new_session_def response_show_def empty_response_def
        response_version_text_def status_text_def headers_show_def Let_def)
  obtain s2 where s2: "server_write (add_chunks [data_chunk ''[]''] s1) = Inr s2"
    "hs_out s2 = hs_out s1 @ ''2'' @ CRLF @ ''[]'' @ CRLF" "status_line_finished (hs_response s2)"
    using s1 sh by (simp add: server_write_def add_chunks_def response_show_def empty_response_def
        headers_show_def Let_def body_show_def)
  show ?thesis
    using server_write_streams [OF s1(1) s2(1)] s1(2) s2(2,3)
    by (auto simp: new_session_def empty_response_def)
qed

text \<open>
  A failed read.  When the request in the stream cannot be parsed, a server session is left
  with both mutexes held, so that every later read or write of it never returns; a client
  session in the same position reports the error with both mutexes free.
\<close>
theorem session_read_failure:
  assumes "\<not> app_locked s" "\<not> stream_locked s"
    and "request_read (hs_request s) (hs_in s) = Inl e" "response_read (hs_response s) (hs_in s) = Inl e'"
    and "e \<noteq> NoReturn" "e' \<noteq> NoReturn"
  shows "(\<exists>l. server_read s = Inl (Thrown ''what?'', l) \<and> app_held l \<and> stream_held l \<and>
           (\<forall>s'. server_read (with_locks l s') = Inl (NoReturn, l) \<and>
                 server_write (with_locks l s') = Inl (NoReturn, l))) \<and>
         (\<exists>l m. client_read s = Inl (DomainError m, l) \<and> \<not> app_held l \<and> \<not> stream_held l)"
  using assms
  by (cases e; cases e')
     (auto simp: server_read_def client_read_def server_write_def acquire_locks_def with_locks_def)

theorem session_read_failure_witness:
  "\<exists>s l. server_read s = Inl (Thrown ''what?'', l) \<and> app_held l"
proof -
  let ?h = "empty_chunk\<lparr>chunk_size_started := True, chunk_header := ''x''\<rparr>"
  let ?rq = "empty_request\<lparr>http_request_line_complete := True, num_chunks := 1, msg_chunks := [?h]\<rparr>"
  let ?rs = "empty_response\<lparr>status_line_finished := True, num_chunks := 1, msg_chunks := [?h]\<rparr>"
  let ?s = "new_session\<lparr>hs_request := ?rq, hs_response := ?rs, hs_in := '' ''\<rparr>"
  have hex: "bn_hex ''x'' = Inl (DomainError ''http-requests.cpp:32:std::from_chars failed.'')"
    by (simp add: bn_hex_def hex_partitions_def from_chars_def is_digit_def digit_val_def Let_def)
  have chunk: "chunk_read ?h '' '' = Inl (DomainError ''http-requests.cpp:32:std::from_chars failed.'')"
    using hex by (simp add: chunk_step_def empty_chunk_def)
  have "request_read (hs_request ?s) (hs_in ?s) = Inl (DomainError ''http-requests.cpp:32:std::from_chars failed.'')"
    using chunk by (simp add: request_read_def request_open_def empty_request_def msg_more_def msg_turn_def
        chunk_turn_eq vec_at_def)
  moreover have "response_read (hs_response ?s) (hs_in ?s) = Inl (DomainError ''http-requests.cpp:32:std::from_chars failed.'')"
    using chunk by (simp add: response_read_def response_open_def empty_response_def msg_more_def msg_turn_def
        chunk_turn_eq vec_at_def)
  ultimately show ?thesis
    using session_read_failure [of ?s] by (auto simp: new_session_def)
qed

lemma exchange:
  assumes "verb \<notin> {GET, DELETE, TRACE, VerbUnknown}" "ver \<noteq> VersionUnknown"
    "route \<noteq> []" "\<forall>c \<in> set route. \<not> is_space c"
    "\<forall>(f, v) \<in> set fvs. field_text f \<noteq> None \<and> f \<noteq> CONTENT_LENGTH \<and> value_text v"
    "\<forall>d \<in> set ds. d \<noteq> [] \<and> length d < 2 ^ 60"
  shows "\<exists>c' s'. client_write (new_session\<lparr>hs_request := mk_request verb route ver fvs ds\<rparr>) = Inr c' \<and>
    server_read (receive (hs_out c') new_session) = Inr s' \<and>
    hs_in s' = [] \<and> \<not> app_locked s' \<and> \<not> stream_locked s' \<and>
    req_verb (hs_request s') = verb \<and> req_route (hs_request s') = route \<and>
    map (\<lambda>h. (field_name h, field_value h)) (msg_headers (hs_request s')) = fvs @ [(END_OF_HEADERS, [])] \<and>
    map chunk_data (msg_chunks (hs_request s')) = ds @ [[]]"
proof -
  obtain t r where t: "request_show (mk_request verb route ver fvs ds) = Inr t"
    and r: "request_read empty_request (t @ []) = Inr (r, [])" "req_verb r = verb" "req_route r = route"
      "map (\<lambda>h. (field_name h, field_value h)) (msg_headers r) = fvs @ [(END_OF_HEADERS, [])]"
      "map chunk_data (msg_chunks r) = ds @ [[]]"
    using request_read_mk [OF assms, of "[]"] by blast
  let ?q = "mk_request verb route ver fvs ds"
  let ?c = "new_session\<lparr>hs_request := ?q\<lparr>http_request_line_complete := True,
      next_header := length (msg_headers ?q), next_chunk := length (msg_chunks ?q)\<rparr>, hs_out := t\<rparr>"
  have "client_write (new_session\<lparr>hs_request := ?q\<rparr>) = Inr ?c"
    using t by (simp add: client_write_def new_session_def Let_def)
  moreover have "server_read (receive (hs_out ?c) new_session) = Inr (new_session\<lparr>hs_request := r\<rparr>)"
    using r(1) by (simp add: server_read_def acquire_locks_def receive_def new_session_def)
  ultimately show ?thesis
    using r(2-) by (intro exI [of _ ?c] exI [of _ "new_session\<lparr>hs_request := r\<rparr>"]) (simp add: new_session_def)
qed

text \<open>
  The exchange between two controllers.  What a client session writes for a chunked request
  is what the server session at the other end reads: the request arrives complete, nothing is
  left in the stream, and the mutexes are free.
\<close>
theorem session_exchange:
  assumes "verb \<notin> {GET, DELETE, TRACE, VerbUnknown}" "ver \<noteq> VersionUnknown"
    "route \<noteq> []" "\<forall>c \<in> set route. \<not> is_space c"
    "\<forall>(f, v) \<in> set fvs. field_text f \<noteq> None \<and> f \<noteq> CONTENT_LENGTH \<and> value_text v"
    "\<forall>d \<in> set ds. d \<noteq> [] \<and> length d < 2 ^ 60"
  shows "\<exists>c' s'. client_write (new_session\<lparr>hs_request := mk_request verb route ver fvs ds\<rparr>) = Inr c' \<and>
    server_read (receive (hs_out c') new_session) = Inr s' \<and>
    hs_in s' = [] \<and> \<not> app_locked s' \<and> \<not> stream_locked s' \<and>
    req_verb (hs_request s') = verb \<and> req_route (hs_request s') = route \<and>
    map (\<lambda>h. (field_name h, field_value h)) (msg_headers (hs_request s')) = fvs @ [(END_OF_HEADERS, [])] \<and>
    map chunk_data (msg_chunks (hs_request s')) = ds @ [[]]"
  using assms by (rule exchange)

theorem session_exchange_witness:
  "\<exists>c' s'. client_write (new_session\<lparr>hs_request := mk_request PUT ''/run'' V1_1 [(HOST, ''a'')] [''{}'']\<rparr>) = Inr c' \<and>
    server_read (receive (hs_out c') new_session) = Inr s' \<and>
    hs_in s' = [] \<and> \<not> app_locked s' \<and> \<not> stream_locked s' \<and>
    req_verb (hs_request s') = PUT \<and> req_route (hs_request s') = ''/run'' \<and>
    map (\<lambda>h. (field_name h, field_value h)) (msg_headers (hs_request s')) = [(HOST, ''a'')] @ [(END_OF_HEADERS, [])] \<and>
    map chunk_data (msg_chunks (hs_request s')) = [''{}''] @ [[]]"
  by (rule session_exchange) (simp_all add: is_space_def field_text_def value_text_def)

end
