(* ===== verification/Responses.thy ===== *)
theory Responses
  imports ExecutionContext HttpSession
begin

text \<open>
  \<open>Controller::create_response\<close> (\<open>controller-app.cpp\<close>): the response to a run or to an
  initialization, and the loop that gives it to every session that waits for a stopped context.
  The JSON library is the parameters \<open>parse\<close>, \<open>jnull\<close> (a default-constructed value) and \<open>serialize\<close>,
  which writes \<open>{"execution_context":{"result":rel,"uuid":u}}\<close>.  \<open>reqs\<close> are the requests of the
  context's sessions.
\<close>

section \<open>Operations\<close>

text \<open>\<open>boost::json::object::emplace\<close>: a key that is there is kept.\<close>

definition obj_emplace :: "string \<Rightarrow> 'j \<Rightarrow> (string \<times> 'j) list \<Rightarrow> (string \<times> 'j) list" where
  "obj_emplace k v ob = (if k \<in> fst ` set ob then ob else ob @ [(k, v)])"

definition has_value :: "relation \<Rightarrow> bool" where
  "has_value r \<longleftrightarrow> rel_value r \<noteq> [] \<and> rel_value r \<noteq> ''null''"

fun collect_results ::
  "(string \<Rightarrow> 'j result) \<Rightarrow> 'j \<Rightarrow> relation list \<Rightarrow> nat \<Rightarrow> (string \<times> 'j) list \<Rightarrow> bool \<Rightarrow> ((string \<times> 'j) list \<times> bool) result" where
  "collect_results parse jnull [] max_depth jrel all_null = Inr (jrel, all_null)"
| "collect_results parse jnull (r # rs) max_depth jrel all_null =
     (if rel_depth r < max_depth then collect_results parse jnull rs max_depth jrel all_null
      else
        (let jrel1 = (if max_depth < rel_depth r then [] else jrel);
             all_null1 = (max_depth < rel_depth r \<or> all_null)
         in if has_value r
            then rbind (parse (rel_value r)) (\<lambda>jv.
              collect_results parse jnull rs (rel_depth r) (obj_emplace (rel_key r) jv jrel1) False)
            else collect_results parse jnull rs (rel_depth r) (obj_emplace (rel_key r) jnull jrel1) all_null1))"

definition json_headers :: "string \<Rightarrow> http_header list" where
  "json_headers len = [mk_header CONTENT_LENGTH len, mk_header CONTENT_TYPE ''application/json'',
     mk_header CONNECTION ''close'', mk_header END_OF_HEADERS []]"

definition empty_reply :: "http_version \<Rightarrow> http_status \<Rightarrow> http_response" where
  "empty_reply ver st = empty_response\<lparr>msg_version := ver, res_status := st,
     msg_headers := json_headers ''0'', msg_chunks := [empty_chunk]\<rparr>"

definition text_reply :: "http_version \<Rightarrow> http_status \<Rightarrow> string \<Rightarrow> http_response" where
  "text_reply ver st body = empty_response\<lparr>msg_version := ver, res_status := st,
     msg_headers := json_headers (show_nat 10 (length body)), msg_chunks := [data_chunk body]\<rparr>"

definition internal_error :: "http_version \<Rightarrow> http_response" where
  "internal_error ver = empty_response\<lparr>msg_version := ver, res_status := INTERNAL_SERVER_ERROR,
     msg_headers := json_headers ''33'',
     msg_chunks := [empty_chunk\<lparr>chunk_size := [33], chunk_data := ''{\"error\":\"Internal Server Error\"}''\<rparr>]\<rparr>"

text \<open>The reply for a stopped context; when all results are null the version is not set.\<close>

definition stopped_reply ::
  "world \<Rightarrow> (string \<Rightarrow> 'j result) \<Rightarrow> 'j \<Rightarrow> ((string \<times> 'j) list \<Rightarrow> string \<Rightarrow> string) \<Rightarrow> http_version \<Rightarrow> exec_context \<Rightarrow> http_response result" where
  "stopped_reply w parse jnull serialize ver c =
     (let m = ec_manifest c in
      case w_env w ''__OW_ACTIONS'' of
        None \<Rightarrow> Inl (Thrown ''environment variable __OW_ACTIONS is not defined.'')
      | Some _ \<Rightarrow>
        (if w_doc w \<noteq> None then
           rbind (collect_results parse jnull (map (rel_at m) (index m)) 0 [] True) (\<lambda>(jrel, all_null).
             Inr (if \<not> all_null then text_reply ver OK (serialize jrel (uuid_show (ec_id c)))
                  else text_reply V1 OK ''{\"error\":\"preempted.\"}''))
         else (case index m of [] \<Rightarrow> Inl (Undefined ''front()'')
               | a # _ \<Rightarrow> Inr (text_reply ver OK (rel_value (rel_at m a))))))"

definition create_response ::
  "bool \<Rightarrow> world \<Rightarrow> (string \<Rightarrow> 'j result) \<Rightarrow> 'j \<Rightarrow> ((string \<times> 'j) list \<Rightarrow> string \<Rightarrow> string) \<Rightarrow> http_request list \<Rightarrow> exec_context \<Rightarrow>
   http_response result" where
  "create_response initialized w parse jnull serialize reqs c = (case ec_route c of
     RUN \<Rightarrow>
       (if reqs = [] then Inl (Undefined ''back()'')
        else
          (let ver = msg_version (last reqs) in
           if \<not> initialized then Inr (empty_reply ver NOT_FOUND)
           else if context_stopped c then stopped_reply w parse jnull serialize ver c
           else Inr (internal_error ver)))
   | INIT \<Rightarrow>
       (if reqs = [] then Inl (Undefined ''front()'')
        else Inr (empty_reply (msg_version (hd reqs)) (if initialized then CONFLICT else OK))))"

text \<open>
  \<open>set(rr)\<close>, \<open>write(fn)\<close> and \<open>pop_back()\<close> until no session is left; the last one is answered first.
\<close>

definition session_set :: "http_request \<Rightarrow> http_response \<Rightarrow> http_session \<Rightarrow> session_result" where
  "session_set req res s =
     (if app_locked s then Inl (NoReturn, \<lparr>app_held = True, stream_held = stream_locked s\<rparr>)
      else Inr (s\<lparr>hs_request := req, hs_response := res\<rparr>))"

fun answer_from_back :: "http_response \<Rightarrow> http_session list \<Rightarrow> http_session list \<Rightarrow> http_session list result" where
  "answer_from_back res [] answered = Inr answered"
| "answer_from_back res (s # ss) answered = (case session_set empty_request res s of
     Inl (e, _) \<Rightarrow> Inl e
   | Inr s1 \<Rightarrow> (case server_write s1 of
       Inl (e, _) \<Rightarrow> Inl e
     | Inr s2 \<Rightarrow> answer_from_back res ss (s2 # answered)))"

definition answer_sessions :: "http_response \<Rightarrow> http_session list \<Rightarrow> http_session list result" where
  "answer_sessions res sessions = answer_from_back res (rev sessions) []"

section \<open>The result object\<close>

lemma obj_emplace_fresh: "k \<notin> fst ` set ob \<Longrightarrow> obj_emplace k v ob = ob @ [(k, v)]"
  by (simp add: obj_emplace_def)

text \<open>The greatest depth of a list of relations that is at least \<open>d\<close>.\<close>

fun top_depth :: "nat \<Rightarrow> relation list \<Rightarrow> nat" where
  "top_depth d [] = d"
| "top_depth d (r # rs) = top_depth (max d (rel_depth r)) rs"

lemma top_depth_ge: "d \<le> top_depth d rs \<and> (\<forall>r \<in> set rs. rel_depth r \<le> top_depth d rs)"
proof (induction rs arbitrary: d)
  case (Cons r rs)
  from Cons.IH [of "max d (rel_depth r)"] show ?case by simp
qed simp

lemma top_depth_member: "top_depth d rs = d \<or> (\<exists>r \<in> set rs. rel_depth r = top_depth d rs)"
  by (induction rs arbitrary: d) (force simp: max_def split: if_splits)+

lemma top_depth_filter:
  "filter (\<lambda>r. rel_depth r = top_depth 0 rs) rs = filter (\<lambda>r. \<forall>x \<in> set rs. rel_depth x \<le> rel_depth r) rs"
proof (intro filter_cong refl iffI)
  fix r assume r: "r \<in> set rs" "\<forall>x \<in> set rs. rel_depth x \<le> rel_depth r"
  show "rel_depth r = top_depth 0 rs"
    using top_depth_member [of 0 rs] top_depth_ge [of 0 rs] r by (metis le_antisym le_zero_eq)
qed (use top_depth_ge [of 0 rs] in auto)

lemma collect_results_eq:
  assumes "\<forall>r \<in> set rs. has_value r \<longrightarrow> parse (rel_value r) = Inr (pv (rel_value r))"
    "distinct (map fst jrel @ map rel_key rs)"
  shows "collect_results parse jnull rs d jrel an =
    (let new = filter (\<lambda>r. rel_depth r = top_depth d rs) rs in
     Inr ((if top_depth d rs = d then jrel else []) @
            map (\<lambda>r. (rel_key r, if has_value r then pv (rel_value r) else jnull)) new,
          (top_depth d rs = d \<longrightarrow> an) \<and> (\<forall>r \<in> set new. \<not> has_value r)))"
  using assms
proof (induction rs arbitrary: d jrel an)
  case Nil
  then show ?case by simp
next
  case (Cons r rs)
  let ?v = "if has_value r then pv (rel_value r) else jnull"
  let ?top = "top_depth (rel_depth r) rs"
  have ge: "rel_depth r \<le> ?top" using top_depth_ge by blast
  show ?case
  proof (cases "rel_depth r < d")
    case True
    moreover have "d \<le> top_depth d rs" using top_depth_ge by blast
    ultimately show ?thesis using Cons.IH [of jrel d an] Cons.prems by simp
  next
    case False
    let ?jrel1 = "if d < rel_depth r then [] else jrel"
    let ?an1 = "(d < rel_depth r \<or> an) \<and> \<not> has_value r"
    have fresh: "rel_key r \<notin> fst ` set ?jrel1" using Cons.prems(2) by auto
    have "collect_results parse jnull (r # rs) d jrel an =
        collect_results parse jnull rs (rel_depth r) (?jrel1 @ [(rel_key r, ?v)]) ?an1"
      using False Cons.prems(1) obj_emplace_fresh [OF fresh] by (simp add: Let_def)
    also have "\<dots> = (let new = filter (\<lambda>r. rel_depth r = ?top) rs in
      Inr ((if ?top = rel_depth r then ?jrel1 @ [(rel_key r, ?v)] else []) @
            map (\<lambda>r. (rel_key r, if has_value r then pv (rel_value r) else jnull)) new,
          (?top = rel_depth r \<longrightarrow> ?an1) \<and> (\<forall>r \<in> set new. \<not> has_value r)))"
      using Cons.prems by (intro Cons.IH) auto
    also have "\<dots> = (let new = filter (\<lambda>x. rel_depth x = ?top) (r # rs) in
      Inr ((if ?top = d then jrel else []) @
            map (\<lambda>r. (rel_key r, if has_value r then pv (rel_value r) else jnull)) new,
          (?top = d \<longrightarrow> an) \<and> (\<forall>r \<in> set new. \<not> has_value r)))"
      using False ge by (cases "?top = rel_depth r") (auto simp: Let_def)
    also have "?top = top_depth d (r # rs)" using False by (simp add: max_def)
    finally show ?thesis .
  qed
qed

lemma stopped_reply_results:
  "w_env w ''__OW_ACTIONS'' = Some actions \<Longrightarrow> w_doc w \<noteq> None \<Longrightarrow>
   collect_results parse jnull (map (rel_at (ec_manifest c)) (index (ec_manifest c))) 0 [] True = Inr (jrel, all_null) \<Longrightarrow>
   stopped_reply w parse jnull serialize ver c =
     Inr (if \<not> all_null then text_reply ver OK (serialize jrel (uuid_show (ec_id c)))
          else text_reply V1 OK ''{\"error\":\"preempted.\"}'')"
  by (auto simp: stopped_reply_def Let_def)

text \<open>
  C35: the result of a run: when a context has stopped and the values of its relations are JSON
  texts, the response of a controller that has an \<open>action-manifest.json\<close> carries exactly the
  relations of maximal depth, in the order of the manifest, each with its value or null; when none
  of them has a value it says, in a response of HTTP 1.0 whatever the request was, that the run was
  preempted.  Without the file the response is the bare value of the first relation, empty when it
  has none.
\<close>
theorem stopped_reply_correct:
  assumes "w_env w ''__OW_ACTIONS'' = Some actions" "index (ec_manifest c) \<noteq> []"
    "distinct (map (key_at (ec_manifest c)) (index (ec_manifest c)))"
    "\<forall>a \<in> set (index (ec_manifest c)). has_value (rel_at (ec_manifest c) a) \<longrightarrow>
       parse (rel_value (rel_at (ec_manifest c) a)) = Inr (pv (rel_value (rel_at (ec_manifest c) a)))"
  shows "let rs = map (rel_at (ec_manifest c)) (index (ec_manifest c));
             last_ones = filter (\<lambda>r. \<forall>x \<in> set rs. rel_depth x \<le> rel_depth r) rs
         in stopped_reply w parse jnull serialize ver c = Inr
              (if w_doc w = None then text_reply ver OK (rel_value (hd rs))
               else if \<exists>r \<in> set last_ones. has_value r
               then text_reply ver OK (serialize
                      (map (\<lambda>r. (rel_key r, if has_value r then pv (rel_value r) else jnull)) last_ones) (uuid_show (ec_id c)))
               else text_reply V1 OK ''{\"error\":\"preempted.\"}'')"
proof (cases "w_doc w = None")
  case True
  with assms(1,2) show ?thesis by (cases "index (ec_manifest c)") (simp_all add: stopped_reply_def Let_def)
next
  case False
  let ?rs = "map (rel_at (ec_manifest c)) (index (ec_manifest c))"
  have "collect_results parse jnull ?rs 0 [] True =
    (let new = filter (\<lambda>r. rel_depth r = top_depth 0 ?rs) ?rs in
     Inr ((if top_depth 0 ?rs = 0 then [] else []) @
            map (\<lambda>r. (rel_key r, if has_value r then pv (rel_value r) else jnull)) new,
          (top_depth 0 ?rs = 0 \<longrightarrow> True) \<and> (\<forall>r \<in> set new. \<not> has_value r)))"
    using assms(3,4) by (intro collect_results_eq) (auto simp: comp_def)
  then have "collect_results parse jnull ?rs 0 [] True =
    Inr (map (\<lambda>r. (rel_key r, if has_value r then pv (rel_value r) else jnull))
          (filter (\<lambda>r. \<forall>x \<in> set ?rs. rel_depth x \<le> rel_depth r) ?rs),
         \<forall>r \<in> set (filter (\<lambda>r. \<forall>x \<in> set ?rs. rel_depth x \<le> rel_depth r) ?rs). \<not> has_value r)"
    unfolding top_depth_filter Let_def by simp
  note r = stopped_reply_results [OF assms(1) False this]
  have "(\<not> (\<forall>r \<in> set xs. \<not> has_value r)) = (\<exists>r \<in> set xs. has_value r)" for xs by blast
  then show ?thesis unfolding Let_def r using False by (simp only: if_False)
qed

definition demo_world :: world where
  "demo_world = \<lparr>w_env = [''__OW_ACTIONS'' \<mapsto> ''/actions''], w_doc = Some (Inl (Thrown [])), w_sort = sort_desc,
     w_aton = demo_aton, w_mkdir = True, w_draws = [], w_garbage = 0, w_fuel = 0\<rparr>"

lemma demo_index: "index (ec_manifest demo_context) = [2, 1, 0]" "store (ec_manifest demo_context) = store demo_manifest"
  by (simp_all add: demo_context_def sort_desc_def demo_manifest_def rel_at_def sort_key_def)

theorem stopped_reply_correct_witness:
  "let rs = map (rel_at (ec_manifest demo_context)) (index (ec_manifest demo_context));
       last_ones = filter (\<lambda>r. \<forall>x \<in> set rs. rel_depth x \<le> rel_depth r) rs
   in stopped_reply demo_world Inr ''null'' (\<lambda>rel u. u) V1_1 demo_context = Inr
        (if w_doc demo_world = None then text_reply V1_1 OK (rel_value (hd rs))
         else if \<exists>r \<in> set last_ones. has_value r
         then text_reply V1_1 OK (uuid_show (ec_id demo_context))
         else text_reply V1 OK ''{\"error\":\"preempted.\"}'')"
proof (rule stopped_reply_correct [where pv = "\<lambda>v. v" and actions = "''/actions''"])
  show "distinct (map (key_at (ec_manifest demo_context)) (index (ec_manifest demo_context)))"
    by (simp add: demo_index rel_at_def) (simp add: demo_manifest_def)
qed (simp_all add: demo_world_def demo_index)

section \<open>The response on the wire\<close>

text \<open>The responses this theory makes: one body, with its length in the first header.\<close>

definition sized_reply :: "http_version \<Rightarrow> http_status \<Rightarrow> string \<Rightarrow> http_response \<Rightarrow> bool" where
  "sized_reply ver st body res \<longleftrightarrow> (\<exists>k. chunk_data k = body \<and> res = empty_response\<lparr>msg_version := ver,
     res_status := st, msg_headers := json_headers (show_nat 10 (length body)), msg_chunks := [k]\<rparr>)"

lemma sized_reply_fields:
  "sized_reply ver st body res \<Longrightarrow> msg_version res = ver \<and> res_status res = st \<and> (\<exists>k. msg_chunks res = [k] \<and> chunk_data k = body)"
  by (auto simp: sized_reply_def)

lemma sized_text_reply: "sized_reply ver st body (text_reply ver st body)"
  unfolding sized_reply_def text_reply_def by (rule exI [of _ "data_chunk body"]) (simp add: data_chunk_def)

lemma sized_empty_reply: "sized_reply ver st [] (empty_reply ver st)"
  unfolding sized_reply_def empty_reply_def
  by (rule exI [of _ empty_chunk]) (simp add: empty_chunk_def show_nat.simps digit_char_def)

lemma sized_internal_error:
  "sized_reply ver INTERNAL_SERVER_ERROR ''{\"error\":\"Internal Server Error\"}'' (internal_error ver)"
  unfolding sized_reply_def internal_error_def
  by (intro exI conjI) (simp_all add: show_nat.simps digit_char_def)

abbreviation reply_fields :: "string \<Rightarrow> (http_header_field \<times> string) list" where
  "reply_fields body \<equiv> [(CONTENT_LENGTH, show_nat 10 (length body)), (CONTENT_TYPE, ''application/json''), (CONNECTION, ''close'')]"

lemma digits_value_text: "value_text (show_nat 10 n)"
proof -
  have "\<not> is_space c" if "c \<in> set (show_nat 10 n)" for c
    using list_all_digit_not_space [OF show_nat_digits [of 10 n] _ that] by simp
  then show ?thesis by (auto simp: value_text_def is_space_def)
qed

lemma reply_fields_ok: "\<forall>(f, v) \<in> set (reply_fields body). field_text f \<noteq> None \<and> value_text v"
  by (simp add: digits_value_text field_text_def) (simp add: value_text_def is_space_def)

lemma sized_reply_show:
  assumes "sized_reply ver st body res"
  shows "response_show res = Inr (response_version_text ver @ status_text st @
    headers_show (map (\<lambda>(f, v). mk_header f v) (reply_fields body)) @ CRLF @ body)"
proof -
  obtain k where r: "res = empty_response\<lparr>msg_version := ver, res_status := st,
     msg_headers := json_headers (show_nat 10 (length body)), msg_chunks := [k]\<rparr>" "chunk_data k = body"
    using assms by (auto simp: sized_reply_def)
  then show ?thesis
    by (simp add: response_show_def body_show_def json_headers_def empty_response_def headers_show_def mk_header_def
        empty_header_def)
qed

lemma sized_reply_read_line:
  assumes "sized_reply ver st body res" "length body < 2 ^ 64"
    and line: "rs_fold (response_version_text ver @ status_text st) (msg_open empty_response) =
      Some ((msg_open empty_response)\<lparr>find_version_state := 5, version_buf := vb, msg_version := ver, version_finished := True,
        res_status := st', status_buf := b, status_started := True, status_finished := True, status_line_finished := True\<rparr>)"
      (is "_ = Some ?r1")
  shows "\<exists>s r. response_show res = Inr s \<and> response_read empty_response s = Inr (r, []) \<and>
    res_status r = st' \<and> msg_version r = ver \<and>
    map (\<lambda>h. (field_name h, field_value h)) (msg_headers r) = reply_fields body @ [(END_OF_HEADERS, [])] \<and>
    map chunk_data (msg_chunks r) = [body]"
proof -
  let ?l = "response_version_text ver @ status_text st"
  let ?b = "headers_show (map (\<lambda>(f, v). mk_header f v) (reply_fields body)) @ CRLF @ body"
  have op: "response_open empty_response = msg_open empty_response"
    by (simp add: response_open_def empty_response_def)
  have "length (reply_fields body) + 2 < Suc (length ?b)"
    by (simp add: headers_show_def mk_header_def header_show_def empty_header_def field_text_def)
  then obtain m' where m': "response_rd.loop (Suc (length ?b)) ?r1 ?b = Inr (m', [])"
    "msg_version m' = ver" "http_msg.more m' = http_msg.more ?r1"
    "msg_headers m' = map (\<lambda>(f, v). shown_header f v) (reply_fields body) @ [end_header]"
    "map chunk_data (msg_chunks m') = [body]"
    using response_rd.loop_sized_message [of ?r1 "reply_fields body" body "tl (reply_fields body)" "Suc (length ?b)"]
      reply_fields_ok [of body] assms(2)
    by (auto simp: msg_open_def empty_response_def limb_base_def)
  have "response_read empty_response (?l @ ?b) =
      response_rd.loop (length ?l + Suc (length ?b)) (msg_open empty_response) (?l @ ?b)"
    unfolding response_read_def op by (simp only: length_append add_Suc_right)
  also have "\<dots> = Inr (m', [])"
    using response_rd.loop_line [OF line, of "Suc (length ?b)" ?b] m'(1) by (simp only:)
  finally have rd: "response_read empty_response (?l @ ?b) = Inr (m', [])" .
  have st': "res_status m' = st'"
    using m'(3) by (cases m') (simp add: msg_open_def empty_response_def)
  have hs: "map (\<lambda>h. (field_name h, field_value h)) (msg_headers m') = reply_fields body @ [(END_OF_HEADERS, [])]"
    unfolding m'(4) using reply_fields_ok [of body]
    by (simp add: header_read_show(2) end_header_def) (simp add: empty_header_def)
  have sh: "response_show res = Inr (?l @ ?b)" using sized_reply_show [OF assms(1)] by simp
  show ?thesis using sh rd m'(2,5) st' hs by (intro exI [of _ "?l @ ?b"] exI [of _ m']) simp
qed

lemma sized_reply_read:
  assumes "sized_reply ver st body res" "ver \<noteq> VersionUnknown" "length body < 2 ^ 64"
  shows "\<exists>s r. response_show res = Inr s \<and> response_read empty_response s = Inr (r, []) \<and>
    res_status r = shown_status st \<and> msg_version r = ver \<and>
    map (\<lambda>h. (field_name h, field_value h)) (msg_headers r) = reply_fields body @ [(END_OF_HEADERS, [])] \<and>
    map chunk_data (msg_chunks r) = [body]"
proof -
  let ?r0 = "(msg_open empty_response)\<lparr>find_version_state := 5, version_buf := version_text ver,
      msg_version := ver, version_finished := True\<rparr>"
  obtain b where st: "rs_fold (status_text st) ?r0 = Some (?r0\<lparr>res_status := shown_status st, status_buf := b,
      status_started := True, status_finished := True, status_line_finished := True\<rparr>)"
    using rs_fold_status [of ?r0 st] by (auto simp: msg_open_def empty_response_def)
  from sized_reply_read_line [OF assms(1,3) line_fold_trans [OF rs_fold_version [OF assms(2)] st]]
  show ?thesis .
qed

text \<open>
  A version that is not known is written without the blank behind it, so the code becomes part of
  the version, and the reader takes the first word of the reason for the code.
\<close>

lemma rs_fold_unknown:
  assumes "st \<in> {OK, NOT_FOUND, CONFLICT, INTERNAL_SERVER_ERROR}"
  shows "\<exists>vb b. rs_fold (response_version_text VersionUnknown @ status_text st) (msg_open empty_response) =
      Some ((msg_open empty_response)\<lparr>find_version_state := 5, version_buf := vb, msg_version := VersionUnknown,
        version_finished := True, res_status := INTERNAL_SERVER_ERROR, status_buf := b, status_started := True,
        status_finished := True, status_line_finished := True\<rparr>)"
  using assms
  by (elim insertE; simp add: response_version_text_def status_text_def msg_open_def empty_response_def status_line_step_def
      version_seek_def max_find_state_def is_space_def version_of_def status_of_def)

text \<open>
  C36: what a client reads of a response of \<open>create_response\<close>.  The response is read back from the
  wire, by a client that reads to the end of the stream, with the same version, headers and body,
  and the \<open>Content-Length\<close> it carries is the length of the body.  The status is the same too when the
  version, which is the one of the request, is known; when it is not, the status line lacks the
  blank between version and code, and the client reads the status 500, whatever it was.
\<close>
theorem create_response_wire:
  assumes "create_response initialized w parse jnull serialize reqs c = Inr res"
    "length (chunk_data (hd (msg_chunks res))) < 2 ^ 64"
  shows "\<exists>s r. response_show res = Inr s \<and> response_read empty_response s = Inr (r, []) \<and>
    res_status r = (if msg_version res = VersionUnknown then INTERNAL_SERVER_ERROR else res_status res) \<and>
    msg_version r = msg_version res \<and>
    map (\<lambda>h. (field_name h, field_value h)) (msg_headers r) =
      [(CONTENT_LENGTH, show_nat 10 (length (chunk_data (hd (msg_chunks res))))), (CONTENT_TYPE, ''application/json''),
       (CONNECTION, ''close''), (END_OF_HEADERS, [])] \<and>
    map chunk_data (msg_chunks r) = map chunk_data (msg_chunks res)"
proof -
  have ok: "\<exists>v body. sized_reply v OK body (text_reply ver OK b)" for ver b
    using sized_text_reply by blast
  have stopped: "\<exists>v body. sized_reply v OK body t"
    if "stopped_reply w parse jnull serialize ver c = Inr t" for ver t
    using that
    by (auto simp: ok stopped_reply_def Let_def rbind_Inr_iff split: option.splits if_splits list.splits)
  have "\<exists>ver st body. sized_reply ver st body res \<and> st \<in> {OK, NOT_FOUND, CONFLICT, INTERNAL_SERVER_ERROR}"
    using assms(1) sized_empty_reply sized_internal_error stopped
    by (auto simp: create_response_def Let_def split: routes.splits if_splits) blast+
  then obtain ver st body where r: "sized_reply ver st body res" "st \<in> {OK, NOT_FOUND, CONFLICT, INTERNAL_SERVER_ERROR}"
    by blast
  note f = sized_reply_fields [OF r(1)]
  have len: "length body < 2 ^ 64" using f assms(2) by auto
  show ?thesis
  proof (cases "ver = VersionUnknown")
    case True
    obtain vb b where "rs_fold (response_version_text ver @ status_text st) (msg_open empty_response) =
      Some ((msg_open empty_response)\<lparr>find_version_state := 5, version_buf := vb, msg_version := ver,
        version_finished := True, res_status := INTERNAL_SERVER_ERROR, status_buf := b, status_started := True,
        status_finished := True, status_line_finished := True\<rparr>)"
      using rs_fold_unknown [OF r(2)] True by auto
    from sized_reply_read_line [OF r(1) len this] f True show ?thesis by auto
  next
    case False
    from sized_reply_read [OF r(1) False len] f r(2) False show ?thesis by (auto simp: shown_status_def)
  qed
qed

theorem create_response_wire_witness:
  "\<exists>s r. response_show (empty_reply V1_1 NOT_FOUND) = Inr s \<and> response_read empty_response s = Inr (r, []) \<and>
    res_status r = NOT_FOUND"
proof -
  let ?reqs = "[empty_request\<lparr>msg_version := V1_1\<rparr>]"
  have c: "create_response False demo_world Inr ''null'' (\<lambda>rel u. u) ?reqs demo_context = Inr (empty_reply V1_1 NOT_FOUND)"
    by (simp add: create_response_def demo_context_def)
  have "length (chunk_data (hd (msg_chunks (empty_reply V1_1 NOT_FOUND)))) < 2 ^ 64"
    by (simp add: empty_reply_def empty_chunk_def)
  from create_response_wire [OF c this] show ?thesis by (auto simp: empty_reply_def)
qed

section \<open>The sessions that wait for a context\<close>

lemma answer_from_back_eq:
  assumes "\<forall>s \<in> set ss. \<not> app_locked s" "response_show res = Inr t"
  shows "answer_from_back res ss answered = Inr (rev (map (\<lambda>s. s\<lparr>hs_request := empty_request, hs_response :=
      res\<lparr>status_line_finished := True, next_header := length (msg_headers res), next_chunk := length (msg_chunks res)\<rparr>,
      hs_out := hs_out s @ t\<rparr>) ss) @ answered)"
  using assms by (induction ss arbitrary: answered) (simp_all add: session_set_def server_write_def)

text \<open>
  A finished run answers everyone: every session that waits for the context, none of them with
  its mutex held, gets the response exactly once, is marked as written to the end, and the
  sessions keep their order.
\<close>
theorem sessions_answered:
  assumes "\<forall>s \<in> set sessions. \<not> app_locked s" "response_show res = Inr t"
  shows "\<exists>answered. answer_sessions res sessions = Inr answered \<and> length answered = length sessions \<and>
    (\<forall>i < length sessions. hs_out (answered ! i) = hs_out (sessions ! i) @ t \<and>
       next_chunk (hs_response (answered ! i)) = length (msg_chunks res) \<and>
       msg_chunks (hs_response (answered ! i)) = msg_chunks res \<and> \<not> app_locked (answered ! i))"
  using assms answer_from_back_eq [of "rev sessions" res t "[]"]
  by (simp add: answer_sessions_def rev_map)

theorem sessions_answered_witness:
  "\<exists>answered. answer_sessions (empty_reply V1_1 OK) [new_session, new_session] = Inr answered \<and> length answered = 2"
proof -
  have t: "response_show (empty_reply V1_1 OK) = Inr (response_version_text V1_1 @ status_text OK @
    headers_show (map (\<lambda>(f, v). mk_header f v) (reply_fields [])) @ CRLF @ [])"
    by (rule sized_reply_show [OF sized_empty_reply])
  show ?thesis using sessions_answered [OF _ t, of "[new_session, new_session]"] by (auto simp: new_session_def)
qed

end
