(* ===== verification/SctpServer.thy ===== *)
theory SctpServer
  imports ExecutionContext
begin

text \<open>
  The SCTP transport (\<open>sctp-server.cpp\<close>, \<open>sctp-session.cpp\<close>, \<open>server.cpp\<close>, \<open>session.cpp\<close>).  One
  one-to-many socket carries all associations; a session is one stream of one association.
  Sessions are shared by pointer between the list of the server, the pending connects and the
  application, so there is a store of sessions and a pointer is its position in it.  What the
  operating system answers is an argument; what the server does besides changing its state (calls of
  completion functions, new waits on the socket) is the list of its actions, in order.  Each
  operation holds the mutex of the server while it changes the lists, so it is one step.
\<close>

section \<open>State\<close>

record stream_id =
  st_assoc :: "32 word"
  st_sid :: "16 word"

record sctp_session =
  ses_id :: stream_id
  ses_text :: string
  ses_cancelled :: bool

record pending_connect =
  pc_session :: nat
  pc_cb :: nat
  pc_addr :: peer

record sctp_server =
  sv_store :: "sctp_session list"
  sv_listed :: "nat list"
  sv_pending :: "pending_connect list"
  sv_next :: "16 word"

datatype transport_error = EADDRNOTAVAIL | ECONNREFUSED | ECONNRESET | EINVAL | OtherTransportError

datatype sctp_action =
    Callback nat "transport_error option" "nat option"
  | AwaitWritable nat peer nat
  | Received nat
  | ReadFailed
  | AwaitReadable

definition max_streams :: nat where
  "max_streams = 65535"

definition future_assoc :: "32 word" where "future_assoc = 0"
definition current_assoc :: "32 word" where "current_assoc = 1"
definition all_assoc :: "32 word" where "all_assoc = 2"

definition new_server :: sctp_server where
  "new_server = \<lparr>sv_store = [], sv_listed = [], sv_pending = [], sv_next = 0\<rparr>"

definition ses_at :: "sctp_server \<Rightarrow> nat \<Rightarrow> sctp_session" where
  "ses_at sv p = sv_store sv ! p"

definition sid_at :: "sctp_server \<Rightarrow> nat \<Rightarrow> 16 word" where
  "sid_at sv p = st_sid (ses_id (ses_at sv p))"

definition assoc_at :: "sctp_server \<Rightarrow> nat \<Rightarrow> 32 word" where
  "assoc_at sv p = st_assoc (ses_id (ses_at sv p))"

section \<open>The list of sessions\<close>

definition server_rm :: "nat \<Rightarrow> sctp_server \<Rightarrow> sctp_server" where
  "server_rm p sv = sv\<lparr>sv_listed := erase_first (\<lambda>q. q = p) (sv_listed sv)\<rparr>"

definition server_has :: "nat \<Rightarrow> sctp_server \<Rightarrow> bool" where
  "server_has p sv \<longleftrightarrow> find_if (\<lambda>q. q = p) (sv_listed sv) < length (sv_listed sv)"

definition erase_pending_connect :: "nat \<Rightarrow> sctp_server \<Rightarrow> sctp_server" where
  "erase_pending_connect p sv = sv\<lparr>sv_pending := erase_first (\<lambda>c. pc_session c = p) (sv_pending sv)\<rparr>"

definition set_assoc :: "nat \<Rightarrow> 32 word \<Rightarrow> sctp_server \<Rightarrow> sctp_server" where
  "set_assoc p a sv = sv\<lparr>sv_store := (sv_store sv)[p := (ses_at sv p)\<lparr>ses_id := (ses_id (ses_at sv p))\<lparr>st_assoc := a\<rparr>\<rparr>]\<rparr>"

definition push_session :: "nat \<Rightarrow> sctp_server \<Rightarrow> sctp_server" where
  "push_session p sv = sv\<lparr>sv_listed := sv_listed sv @ [p]\<rparr>"

text \<open>\<open>std::make_shared<SctpSession>\<close>: the pointer is the old length of the store.\<close>

definition make_session :: "stream_id \<Rightarrow> sctp_server \<Rightarrow> sctp_server" where
  "make_session i sv = sv\<lparr>sv_store := sv_store sv @ [\<lparr>ses_id = i, ses_text = [], ses_cancelled = False\<rparr>]\<rparr>"

definition stream_eq :: "sctp_session \<Rightarrow> stream_id \<Rightarrow> bool" where
  "stream_eq s i \<longleftrightarrow> st_assoc (ses_id s) = st_assoc i \<and> st_sid (ses_id s) = st_sid i"

definition stream_ne :: "sctp_session \<Rightarrow> stream_id \<Rightarrow> bool" where
  "stream_ne s i \<longleftrightarrow> st_assoc (ses_id s) \<noteq> st_assoc i \<and> st_sid (ses_id s) \<noteq> st_sid i"

section \<open>Connecting\<close>

text \<open>
  The search for a stream number.  The vector of used numbers is constructed with
  \<open>MAX_SCTP_STREAMS\<close> elements, which are zero, before the numbers in use are appended.
\<close>

definition used_streams :: "16 word list \<Rightarrow> 16 word list" where
  "used_streams sids = replicate max_streams 0 @ sids"

fun seek_stream :: "nat \<Rightarrow> 16 word list \<Rightarrow> nat \<Rightarrow> 16 word \<Rightarrow> nat \<times> 16 word" where
  "seek_stream 0 used s_offset next = (s_offset, next)"
| "seek_stream (Suc n) used s_offset next =
     (if next \<in> set used then seek_stream n used (s_offset + 1) (of_nat ((unat next + 1) mod max_streams))
      else (s_offset, next))"

definition pending_sids :: "peer \<Rightarrow> sctp_server \<Rightarrow> 16 word list" where
  "pending_sids rmt sv = map (\<lambda>c. sid_at sv (pc_session c)) (filter (\<lambda>c. pc_addr c = rmt) (sv_pending sv))"

definition assoc_sids :: "32 word \<Rightarrow> sctp_server \<Rightarrow> 16 word list" where
  "assoc_sids a sv = map (sid_at sv) (filter (\<lambda>p. assoc_at sv p = a) (sv_listed sv))"

definition connect_new :: "peer \<Rightarrow> nat \<Rightarrow> sctp_server \<Rightarrow> sctp_action list \<times> sctp_server" where
  "connect_new rmt cb sv =
     (case seek_stream max_streams (used_streams (pending_sids rmt sv)) 0 (sv_next sv) of (s_offset, sid) \<Rightarrow>
        let sv1 = sv\<lparr>sv_next := sid\<rparr> in
        if s_offset = max_streams then ([Callback cb (Some EADDRNOTAVAIL) None], sv1)
        else
          (let p = length (sv_store sv);
               sv2 = (make_session \<lparr>st_assoc = future_assoc, st_sid = sid\<rparr> sv1)
                       \<lparr>sv_pending := sv_pending sv @ [\<lparr>pc_session = p, pc_cb = cb, pc_addr = rmt\<rparr>]\<rparr>
           in (if s_offset = 0 then [AwaitWritable p rmt cb] else [], sv2)))"

definition connect_known :: "32 word \<Rightarrow> peer \<Rightarrow> nat \<Rightarrow> sctp_server \<Rightarrow> sctp_action list \<times> sctp_server" where
  "connect_known a rmt cb sv =
     (case seek_stream max_streams (used_streams (assoc_sids a sv @ pending_sids rmt sv)) 0 (sv_next sv) of (s_offset, sid) \<Rightarrow>
        let sv1 = sv\<lparr>sv_next := sid\<rparr> in
        if s_offset = max_streams then ([Callback cb (Some EADDRNOTAVAIL) None], sv1)
        else
          (let p = length (sv_store sv)
           in ([Callback cb None (Some p)], push_session p (make_session \<lparr>st_assoc = a, st_sid = sid\<rparr> sv1))))"

text \<open>What \<open>getsockopt(SCTP_GET_PEER_ADDR_INFO)\<close> says of the remote address.\<close>

datatype peer_info = PeerAssoc "32 word" | PeerUnknown | PeerInfoFailed

definition sctp_async_connect :: "peer_info \<Rightarrow> peer \<Rightarrow> nat \<Rightarrow> sctp_server \<Rightarrow> sctp_action list \<times> sctp_server" where
  "sctp_async_connect info rmt cb sv = (case info of
     PeerAssoc a \<Rightarrow> connect_known a rmt cb sv
   | PeerUnknown \<Rightarrow> connect_new rmt cb sv
   | PeerInfoFailed \<Rightarrow> ([], sv))"

text \<open>The handler of the wait for writability, with the outcome of \<open>connect\<close>.\<close>

datatype connect_ret =
    ConnectOk | ConnectInProgress | ConnectAlready | ConnectIsConn "32 word option" | ConnectFailed transport_error

definition connect_ready ::
  "transport_error option \<Rightarrow> connect_ret \<Rightarrow> nat \<Rightarrow> nat \<Rightarrow> sctp_server \<Rightarrow> (sctp_action list \<times> sctp_server) result" where
  "connect_ready ec ret p cb sv = (case ec of
     Some e \<Rightarrow> Inr ([Callback cb (Some e) (Some p)], erase_pending_connect p sv)
   | None \<Rightarrow> (case ret of
       ConnectOk \<Rightarrow> Inr ([], sv)
     | ConnectInProgress \<Rightarrow> Inr ([], sv)
     | ConnectAlready \<Rightarrow> Inr ([], sv)
     | ConnectIsConn None \<Rightarrow> what
     | ConnectIsConn (Some a) \<Rightarrow>
         Inr ([Callback cb None (Some p)], erase_pending_connect p (push_session p (set_assoc p a sv)))
     | ConnectFailed e \<Rightarrow> Inr ([Callback cb (Some e) (Some p)], erase_pending_connect p sv)))"

section \<open>Reading\<close>

text \<open>
  The loops over the pending connects and the sessions: find an element, act on it, erase it, and
  search again from the start.
\<close>

function drain :: "('x \<Rightarrow> bool) \<Rightarrow> ('x \<Rightarrow> 's \<Rightarrow> 's) \<Rightarrow> 'x list \<Rightarrow> 's \<Rightarrow> 'x list \<times> 's" where
  "drain P act xs s =
     (let i = find_if P xs in
      if i < length xs then drain P act (take i xs @ drop (Suc i) xs) (act (xs ! i) s) else (xs, s))"
  by pat_completeness auto
termination by (relation "measure (\<lambda>(P, act, xs, s). length xs)") auto

declare drain.simps [simp del]

datatype assoc_event = COMM_UP | COMM_LOST | RESTART | SHUTDOWN_COMP | CANT_STR_ASSOC

definition comm_up :: "peer \<Rightarrow> 32 word \<Rightarrow> sctp_server \<Rightarrow> sctp_action list \<times> sctp_server" where
  "comm_up addr a sv =
     (case drain (\<lambda>c. pc_addr c = addr)
        (\<lambda>c (out, s). (out @ [Callback (pc_cb c) None (Some (pc_session c))], push_session (pc_session c) (set_assoc (pc_session c) a s)))
        (sv_pending sv) ([], sv) of
      (pend, out, sv1) \<Rightarrow> (out, sv1\<lparr>sv_pending := pend\<rparr>))"

definition cancel_session :: "nat \<Rightarrow> sctp_server \<Rightarrow> sctp_server" where
  "cancel_session p sv = sv\<lparr>sv_store := (sv_store sv)[p := (ses_at sv p)\<lparr>ses_cancelled := True\<rparr>]\<rparr>"

text \<open>\<open>SCTP_COMM_LOST\<close>, \<open>SCTP_RESTART\<close> and \<open>SCTP_SHUTDOWN_COMP\<close> have the same code.\<close>

definition comm_gone :: "peer \<Rightarrow> 32 word \<Rightarrow> sctp_server \<Rightarrow> sctp_action list \<times> sctp_server" where
  "comm_gone addr a sv =
     (case drain (\<lambda>c. pc_addr c = addr) (\<lambda>c s. s) (sv_pending sv) () of
      (pend, _) \<Rightarrow>
        (case drain (\<lambda>p. assoc_at sv p = a) cancel_session (sv_listed sv) (sv\<lparr>sv_pending := pend\<rparr>) of
         (listed, sv1) \<Rightarrow> ([], sv1\<lparr>sv_listed := listed\<rparr>)))"

definition cant_start :: "peer \<Rightarrow> sctp_server \<Rightarrow> sctp_action list \<times> sctp_server" where
  "cant_start addr sv =
     (case drain (\<lambda>c. pc_addr c = addr)
        (\<lambda>c out. out @ [Callback (pc_cb c) (Some ECONNREFUSED) (Some (pc_session c))]) (sv_pending sv) [] of
      (pend, out) \<Rightarrow> (out, sv\<lparr>sv_pending := pend\<rparr>))"

definition assoc_change :: "assoc_event \<Rightarrow> peer \<Rightarrow> 32 word \<Rightarrow> sctp_server \<Rightarrow> sctp_action list \<times> sctp_server" where
  "assoc_change ev addr a sv = (case ev of
     COMM_UP \<Rightarrow> comm_up addr a sv
   | COMM_LOST \<Rightarrow> comm_gone addr a sv
   | RESTART \<Rightarrow> comm_gone addr a sv
   | SHUTDOWN_COMP \<Rightarrow> comm_gone addr a sv
   | CANT_STR_ASSOC \<Rightarrow> cant_start addr sv)"

definition append_text :: "nat \<Rightarrow> string \<Rightarrow> sctp_server \<Rightarrow> sctp_server" where
  "append_text p t sv = sv\<lparr>sv_store := (sv_store sv)[p := (ses_at sv p)\<lparr>ses_text := ses_text (ses_at sv p) @ t\<rparr>]\<rparr>"

definition receive_data :: "stream_id \<Rightarrow> string \<Rightarrow> sctp_server \<Rightarrow> (sctp_action list \<times> sctp_server) result" where
  "receive_data i t sv =
     (if st_assoc i \<in> {future_assoc, all_assoc, current_assoc} then what
      else
        (let k = find_if (\<lambda>p. stream_eq (ses_at sv p) i) (sv_listed sv) in
         if k = length (sv_listed sv) then
           (let p = length (sv_store sv)
            in Inr ([Received p], append_text p t (push_session p (make_session i sv))))
         else (let p = sv_listed sv ! k in Inr ([Received p], append_text p t sv))))"

text \<open>
  One turn of \<open>SctpServer::read\<close>: \<open>recvmsg\<close> fails, gives a notification, some data with its receive
  information (zeros when there is no control message), or nothing.  The wait for the next turn is
  started at the end of each.
\<close>

datatype recv_ret =
    RecvWouldBlock | RecvInterrupted | RecvFailed | RecvAssoc assoc_event peer "32 word" | RecvNotice
  | RecvData stream_id string | RecvNothing

definition sctp_read :: "bool \<Rightarrow> recv_ret \<Rightarrow> sctp_server \<Rightarrow> (sctp_action list \<times> sctp_server) result" where
  "sctp_read ec ret sv =
     (if ec then Inr ([ReadFailed, AwaitReadable], sv)
      else
        rbind (case ret of
          RecvWouldBlock \<Rightarrow> Inr ([], sv)
        | RecvInterrupted \<Rightarrow> Inr ([], sv)
        | RecvFailed \<Rightarrow> what
        | RecvAssoc ev addr a \<Rightarrow> Inr (assoc_change ev addr a sv)
        | RecvNotice \<Rightarrow> Inr ([], sv)
        | RecvData i t \<Rightarrow> receive_data i t sv
        | RecvNothing \<Rightarrow> Inr ([], sv)) (\<lambda>(out, sv1). Inr (out @ [AwaitReadable], sv1)))"

section \<open>What the loops do\<close>

lemma find_if_split:
  assumes "find_if P xs < length xs"
  shows "filter P xs = xs ! find_if P xs # filter P (drop (Suc (find_if P xs)) xs)"
    and "filter P (take (find_if P xs) xs) = []"
proof -
  show 2: "filter P (take (find_if P xs) xs) = []"
    using find_if_before [of _ P xs] by (auto simp: filter_empty_conv in_set_conv_nth)
  have "filter P xs = filter P (take (find_if P xs) xs @ xs ! find_if P xs # drop (Suc (find_if P xs)) xs)"
    using id_take_nth_drop [OF assms] by simp
  then show "filter P xs = xs ! find_if P xs # filter P (drop (Suc (find_if P xs)) xs)"
    using find_if_nth [OF assms] 2 by simp
qed

lemma drain_eq: "drain P act xs s = (filter (\<lambda>x. \<not> P x) xs, fold act (filter P xs) s)"
proof (induction P act xs s rule: drain.induct)
  case (1 P act xs s)
  let ?i = "find_if P xs"
  show ?case
  proof (cases "?i < length xs")
    case True
    have "filter (\<lambda>x. \<not> P x) xs = filter (\<lambda>x. \<not> P x) (take ?i xs @ xs ! ?i # drop (Suc ?i) xs)"
      using id_take_nth_drop [OF True] by simp
    also have "\<dots> = filter (\<lambda>x. \<not> P x) (take ?i xs @ drop (Suc ?i) xs)"
      using find_if_nth [OF True] by simp
    finally show ?thesis
      using "1.IH" [OF refl True] True find_if_split [OF True] by (subst drain.simps) (simp add: Let_def)
  next
    case False
    then have "\<forall>x \<in> set xs. \<not> P x" using find_if_less_iff by blast
    then show ?thesis using False by (subst drain.simps) (simp add: filter_id_conv [THEN iffD2] filter_empty_conv)
  qed
qed

lemma seek_stream_spec:
  "unat next < max_streams \<Longrightarrow> seek_stream n used s_offset next = (off, sid) \<Longrightarrow>
   \<exists>k \<le> n. off = s_offset + k \<and> unat sid = (unat next + k) mod max_streams \<and>
     (\<forall>j < k. of_nat ((unat next + j) mod max_streams) \<in> set used) \<and> (k < n \<longrightarrow> sid \<notin> set used)"
proof (induction n arbitrary: s_offset "next")
  case 0
  then show ?case by simp
next
  case (Suc n)
  show ?case
  proof (cases "next \<in> set used")
    case False
    with Suc.prems show ?thesis by (intro exI [of _ 0]) simp
  next
    case True
    let ?next = "of_nat ((unat next + 1) mod max_streams) :: 16 word"
    have lt: "(unat next + 1) mod max_streams < max_streams" by (simp add: max_streams_def)
    then have u: "unat ?next = (unat next + 1) mod max_streams"
      by (simp add: unat_of_nat max_streams_def)
    have "seek_stream n used (s_offset + 1) ?next = (off, sid)" using Suc.prems(2) True by simp
    from Suc.IH [OF _ this] lt u obtain k where k: "k \<le> n" "off = s_offset + 1 + k"
      "unat sid = (unat ?next + k) mod max_streams"
      "\<forall>j < k. of_nat ((unat ?next + j) mod max_streams) \<in> set used" "k < n \<longrightarrow> sid \<notin> set used"
      by auto
    have shift: "(unat ?next + j) mod max_streams = (unat next + Suc j) mod max_streams" for j
      unfolding u by (simp add: mod_simps)
    have "of_nat ((unat next + j) mod max_streams) \<in> set used" if "j < Suc k" for j
    proof (cases j)
      case 0
      then show ?thesis using True Suc.prems(1) by simp
    next
      case (Suc j')
      then show ?thesis using that k(4) shift [of j'] by auto
    qed
    then show ?thesis using k shift [of k] by (intro exI [of _ "Suc k"]) auto
  qed
qed

lemma rotate_cover:
  fixes m n s :: nat
  assumes "s < n" "m < n"
  shows "\<exists>j < n. (m + j) mod n = s"
proof (cases "m \<le> s")
  case True
  then show ?thesis using assms by (intro exI [of _ "s - m"]) auto
next
  case False
  then show ?thesis using assms by (intro exI [of _ "n + s - m"]) auto
qed

text \<open>The number found is free, or all are taken.\<close>

lemma seek_stream_free:
  assumes "unat next < max_streams" "seek_stream max_streams (used_streams sids) 0 next = (off, sid)"
  shows "unat sid < max_streams \<and>
    (if off = max_streams then sid = next \<and> (\<forall>w. unat w < max_streams \<longrightarrow> w \<in> insert 0 (set sids))
     else sid \<noteq> 0 \<and> sid \<notin> set sids \<and> (off = 0 \<longleftrightarrow> sid = next) \<and> (off = 0 \<longleftrightarrow> next \<notin> insert 0 (set sids)))"
proof -
  have u: "set (used_streams sids) = insert 0 (set sids)" by (simp add: used_streams_def max_streams_def)
  obtain k where k: "k \<le> max_streams" "off = k" "unat sid = (unat next + k) mod max_streams"
    "\<forall>j < k. of_nat ((unat next + j) mod max_streams) \<in> insert 0 (set sids)"
    "k < max_streams \<longrightarrow> sid \<notin> insert 0 (set sids)"
    using seek_stream_spec [OF assms] unfolding u by auto
  have lt: "unat sid < max_streams" unfolding k(3) by (simp add: max_streams_def)
  show ?thesis
  proof (cases "k = max_streams")
    case True
    have "w \<in> insert 0 (set sids)" if w: "unat w < max_streams" for w :: "16 word"
    proof -
      obtain j where "j < max_streams" "(unat next + j) mod max_streams = unat w"
        using rotate_cover [OF w assms(1)] by blast
      moreover have "of_nat (unat w) = w" by simp
      ultimately show ?thesis using k(4) True by metis
    qed
    moreover have "unat sid = unat next" using k(3) True assms(1) by simp
    then have "sid = next" by (simp only: word_unat_eq_iff)
    ultimately show ?thesis using lt True k(2) by simp
  next
    case False
    then have sid: "sid \<notin> insert 0 (set sids)" using k by simp
    have "sid = next" if "k = 0" using k(3) that assms(1) by (simp add: word_unat_eq_iff)
    moreover have "next \<in> insert 0 (set sids)" if "k \<noteq> 0"
      using k(4) [THEN spec, of 0] that assms(1) by simp
    ultimately show ?thesis using sid lt False k(2) by auto
  qed
qed

section \<open>What an operation does to the store\<close>

lemma store_simps [simp]:
  "sv_store (server_rm p sv) = sv_store sv" "sv_store (push_session p sv) = sv_store sv"
  "sv_store (erase_pending_connect p sv) = sv_store sv"
  "sv_listed (push_session p sv) = sv_listed sv @ [p]" "sv_pending (push_session p sv) = sv_pending sv"
  "sv_next (push_session p sv) = sv_next sv"
  "sv_listed (set_assoc p a sv) = sv_listed sv" "sv_pending (set_assoc p a sv) = sv_pending sv"
  "sv_next (set_assoc p a sv) = sv_next sv" "length (sv_store (set_assoc p a sv)) = length (sv_store sv)"
  "sv_listed (make_session i sv) = sv_listed sv" "sv_pending (make_session i sv) = sv_pending sv"
  "sv_next (make_session i sv) = sv_next sv" "length (sv_store (make_session i sv)) = Suc (length (sv_store sv))"
  "sv_listed (append_text p t sv) = sv_listed sv" "sv_pending (append_text p t sv) = sv_pending sv"
  "sv_next (append_text p t sv) = sv_next sv" "length (sv_store (append_text p t sv)) = length (sv_store sv)"
  "sv_listed (cancel_session p sv) = sv_listed sv" "sv_pending (cancel_session p sv) = sv_pending sv"
  "sv_next (cancel_session p sv) = sv_next sv" "length (sv_store (cancel_session p sv)) = length (sv_store sv)"
  by (simp_all add: server_rm_def push_session_def erase_pending_connect_def set_assoc_def make_session_def
      append_text_def cancel_session_def)

lemma ses_at_update [simp]:
  "ses_at (sv\<lparr>sv_listed := ls\<rparr>) q = ses_at sv q" "ses_at (sv\<lparr>sv_pending := cs\<rparr>) q = ses_at sv q"
  "ses_at (sv\<lparr>sv_next := n\<rparr>) q = ses_at sv q" "ses_at (push_session p sv) q = ses_at sv q"
  by (simp_all add: ses_at_def push_session_def)

lemma ses_at_make: "ses_at (make_session i sv) q =
  (if q = length (sv_store sv) then \<lparr>ses_id = i, ses_text = [], ses_cancelled = False\<rparr> else ses_at sv q)"
  if "q \<le> length (sv_store sv)"
  using that by (auto simp: ses_at_def make_session_def nth_append)

lemma ses_id_simps:
  "p < length (sv_store sv) \<Longrightarrow> ses_id (ses_at (set_assoc p a sv) q) =
     (if q = p then (ses_id (ses_at sv p))\<lparr>st_assoc := a\<rparr> else ses_id (ses_at sv q))"
  "ses_id (ses_at (append_text p t sv) q) = ses_id (ses_at sv q)"
  "ses_id (ses_at (cancel_session p sv) q) = ses_id (ses_at sv q)"
  by (cases "p < length (sv_store sv)";
      auto simp: ses_at_def set_assoc_def append_text_def cancel_session_def nth_list_update list_update_beyond)+

lemma ses_text_append:
  "p < length (sv_store sv) \<Longrightarrow>
   ses_text (ses_at (append_text p t sv) q) = ses_text (ses_at sv q) @ (if q = p then t else [])"
  by (auto simp: ses_at_def append_text_def nth_list_update)

text \<open>The body of the \<open>COMM_UP\<close> loop over several pending connects.\<close>

abbreviation "up_step a \<equiv> (\<lambda>c (out, s). (out @ [Callback (pc_cb c) None (Some (pc_session c))],
   push_session (pc_session c) (set_assoc (pc_session c) a s)))"

lemma fold_up:
  assumes "\<forall>c \<in> set cs. pc_session c < length (sv_store sv)" "distinct (map pc_session cs)"
  shows "\<exists>sv'. fold (up_step a) cs (out, sv) = (out @ map (\<lambda>c. Callback (pc_cb c) None (Some (pc_session c))) cs, sv') \<and>
    sv_listed sv' = sv_listed sv @ map pc_session cs \<and> sv_next sv' = sv_next sv \<and>
    length (sv_store sv') = length (sv_store sv) \<and>
    (\<forall>q. ses_id (ses_at sv' q) = (if q \<in> pc_session ` set cs then (ses_id (ses_at sv q))\<lparr>st_assoc := a\<rparr> else ses_id (ses_at sv q)))"
  using assms
proof (induction cs arbitrary: out sv)
  case Nil
  then show ?case by simp
next
  case (Cons c cs)
  let ?sv = "push_session (pc_session c) (set_assoc (pc_session c) a sv)"
  have "\<forall>c \<in> set cs. pc_session c < length (sv_store ?sv)" using Cons.prems(1) by simp
  from Cons.IH [OF this, of "out @ [Callback (pc_cb c) None (Some (pc_session c))]"] Cons.prems(2)
  obtain sv' where sv': "fold (up_step a) cs (out @ [Callback (pc_cb c) None (Some (pc_session c))], ?sv) =
      ((out @ [Callback (pc_cb c) None (Some (pc_session c))]) @ map (\<lambda>c. Callback (pc_cb c) None (Some (pc_session c))) cs, sv')"
    "sv_listed sv' = sv_listed ?sv @ map pc_session cs" "sv_next sv' = sv_next ?sv"
    "length (sv_store sv') = length (sv_store ?sv)"
    "\<forall>q. ses_id (ses_at sv' q) = (if q \<in> pc_session ` set cs then (ses_id (ses_at ?sv q))\<lparr>st_assoc := a\<rparr> else ses_id (ses_at ?sv q))"
    by auto
  have "\<forall>q. ses_id (ses_at sv' q) = (if q \<in> pc_session ` set (c # cs) then (ses_id (ses_at sv q))\<lparr>st_assoc := a\<rparr> else ses_id (ses_at sv q))"
    using sv'(5) Cons.prems by (auto simp: ses_id_simps)
  with sv' show ?case by (intro exI [of _ sv']) auto
qed

lemma fold_cancel:
  "sv_listed (fold cancel_session ps sv) = sv_listed sv \<and> sv_pending (fold cancel_session ps sv) = sv_pending sv \<and>
   sv_next (fold cancel_session ps sv) = sv_next sv \<and>
   length (sv_store (fold cancel_session ps sv)) = length (sv_store sv) \<and>
   ses_id (ses_at (fold cancel_session ps sv) q) = ses_id (ses_at sv q)"
  by (induction ps arbitrary: sv) (simp_all add: ses_id_simps)

lemma comm_gone_eq:
  "comm_gone addr a sv = ([], (fold cancel_session (filter (\<lambda>p. assoc_at sv p = a) (sv_listed sv))
      (sv\<lparr>sv_pending := filter (\<lambda>c. pc_addr c \<noteq> addr) (sv_pending sv)\<rparr>))
      \<lparr>sv_listed := filter (\<lambda>p. assoc_at sv p \<noteq> a) (sv_listed sv)\<rparr>)"
  by (simp add: comm_gone_def drain_eq)

section \<open>Streams are not shared\<close>

text \<open>
  The invariant: no two sessions of the server are the same stream, no two pending connects to one
  peer have the same stream number, and the next number is a stream number.
\<close>

definition ids_of :: "sctp_server \<Rightarrow> stream_id list" where
  "ids_of sv = map (\<lambda>p. ses_id (ses_at sv p)) (sv_listed sv)"

definition pending_keys :: "sctp_server \<Rightarrow> (peer \<times> 16 word) list" where
  "pending_keys sv = map (\<lambda>c. (pc_addr c, sid_at sv (pc_session c))) (sv_pending sv)"

definition sctp_inv :: "sctp_server \<Rightarrow> bool" where
  "sctp_inv sv \<longleftrightarrow>
     (\<forall>p \<in> set (sv_listed sv). p < length (sv_store sv)) \<and>
     (\<forall>c \<in> set (sv_pending sv). pc_session c < length (sv_store sv) \<and> pc_session c \<notin> set (sv_listed sv)) \<and>
     distinct (ids_of sv) \<and> distinct (map pc_session (sv_pending sv)) \<and>
     distinct (pending_keys sv) \<and>
     unat (sv_next sv) < max_streams"

text \<open>
  A session is made without an association and adopts one when \<open>connect\<close> completes, either by the
  notification that the association is up or by the error \<open>EISCONN\<close>.  It can then be a stream that
  a session of the server already is, or be in the list already; nothing in the code looks.
\<close>

definition up_clashes :: "peer \<Rightarrow> 32 word \<Rightarrow> sctp_server \<Rightarrow> bool" where
  "up_clashes addr a sv \<longleftrightarrow> (\<exists>c \<in> set (sv_pending sv). pc_addr c = addr \<and>
     \<lparr>st_assoc = a, st_sid = sid_at sv (pc_session c)\<rparr> \<in> set (ids_of sv))"

definition ready_clashes :: "transport_error option \<Rightarrow> connect_ret \<Rightarrow> nat \<Rightarrow> sctp_server \<Rightarrow> bool" where
  "ready_clashes ec ret p sv \<longleftrightarrow> ec = None \<and> (case ret of
     ConnectIsConn (Some a) \<Rightarrow> p \<in> set (sv_listed sv) \<or> \<lparr>st_assoc = a, st_sid = sid_at sv p\<rparr> \<in> set (ids_of sv)
   | _ \<Rightarrow> False)"

text \<open>The steps of the server; the flag says that a session adopted a stream that was taken.\<close>

inductive sctp_step :: "bool \<Rightarrow> sctp_server \<Rightarrow> sctp_server \<Rightarrow> bool" where
  connect: "sctp_async_connect info rmt cb sv = (out, sv') \<Longrightarrow> sctp_step False sv sv'"
| ready: "connect_ready ec ret p cb sv = Inr (out, sv') \<Longrightarrow> p < length (sv_store sv) \<Longrightarrow>
     sctp_step (ready_clashes ec ret p sv) sv sv'"
| up: "comm_up addr a sv = (out, sv') \<Longrightarrow> sctp_step (up_clashes addr a sv) sv sv'"
| gone: "comm_gone addr a sv = (out, sv') \<Longrightarrow> sctp_step False sv sv'"
| refused: "cant_start addr sv = (out, sv') \<Longrightarrow> sctp_step False sv sv'"
| data: "receive_data i t sv = Inr (out, sv') \<Longrightarrow> sctp_step False sv sv'"
| closed: "sctp_step False sv (server_rm p sv)"

inductive_cases sctp_stepE: "sctp_step taken sv sv'"

lemma ids_distinct_listed: "distinct (ids_of sv) \<Longrightarrow> distinct (sv_listed sv)"
  by (simp add: ids_of_def distinct_map)

lemma inv_new_listed:
  assumes "sctp_inv sv" "i \<notin> set (ids_of sv)" "unat n < max_streams"
  shows "sctp_inv (push_session (length (sv_store sv)) (make_session i (sv\<lparr>sv_next := n\<rparr>)))"
proof -
  let ?p = "length (sv_store sv)"
  let ?sv = "push_session ?p (make_session i (sv\<lparr>sv_next := n\<rparr>))"
  have old: "ses_at ?sv q = ses_at sv q" if "q < ?p" for q
    using that by (simp add: ses_at_make)
  have new: "ses_id (ses_at ?sv ?p) = i" by (simp add: ses_at_make)
  have "ids_of ?sv = ids_of sv @ [i]"
    using assms(1) old new by (auto simp: ids_of_def sctp_inv_def)
  moreover have "pending_keys ?sv = pending_keys sv"
    using assms(1) old by (auto simp: sctp_inv_def sid_at_def pending_keys_def)
  ultimately show ?thesis
    using assms by (auto simp: sctp_inv_def less_SucI)
qed

lemma inv_new_pending:
  assumes "sctp_inv sv" "sid \<notin> set (pending_sids rmt sv)" "unat n < max_streams"
  shows "sctp_inv ((make_session \<lparr>st_assoc = a, st_sid = sid\<rparr> (sv\<lparr>sv_next := n\<rparr>))
    \<lparr>sv_pending := sv_pending sv @ [\<lparr>pc_session = length (sv_store sv), pc_cb = cb, pc_addr = rmt\<rparr>]\<rparr>)"
proof -
  let ?p = "length (sv_store sv)"
  let ?sv = "(make_session \<lparr>st_assoc = a, st_sid = sid\<rparr> (sv\<lparr>sv_next := n\<rparr>))
    \<lparr>sv_pending := sv_pending sv @ [\<lparr>pc_session = ?p, pc_cb = cb, pc_addr = rmt\<rparr>]\<rparr>"
  have old: "ses_at ?sv q = ses_at sv q" if "q < ?p" for q
    using that by (simp add: ses_at_make)
  have new: "sid_at ?sv ?p = sid" by (simp add: sid_at_def ses_at_make)
  have "ids_of ?sv = ids_of sv"
    using assms(1) old by (auto simp: ids_of_def sctp_inv_def)
  moreover have "pending_keys ?sv = pending_keys sv @ [(rmt, sid)]"
    using assms(1) old new by (auto simp: sctp_inv_def sid_at_def pending_keys_def)
  moreover have "(rmt, sid) \<notin> set (pending_keys sv)"
    using assms(2) by (auto simp: pending_sids_def pending_keys_def)
  moreover have "?p \<notin> pc_session ` set (sv_pending sv)" "?p \<notin> set (sv_listed sv)"
    using assms(1) by (auto simp: sctp_inv_def)
  ultimately show ?thesis
    using assms by (auto simp: sctp_inv_def less_SucI)
qed

lemma inv_shrink:
  assumes "sctp_inv sv" "subseq (sv_listed sv') (sv_listed sv)" "subseq (sv_pending sv') (sv_pending sv)"
    "length (sv_store sv') = length (sv_store sv)" "sv_next sv' = sv_next sv"
    "\<And>q. ses_id (ses_at sv' q) = ses_id (ses_at sv q)"
  shows "sctp_inv sv'"
proof -
  have ids: "ids_of sv' = map (\<lambda>p. ses_id (ses_at sv p)) (sv_listed sv')" by (simp add: ids_of_def assms(6))
  have keys: "pending_keys sv' = map (\<lambda>c. (pc_addr c, sid_at sv (pc_session c))) (sv_pending sv')"
    by (simp add: pending_keys_def sid_at_def assms(6))
  have "set (sv_listed sv') \<subseteq> set (sv_listed sv)" "set (sv_pending sv') \<subseteq> set (sv_pending sv)"
    using subseq_distinct [of "sv_listed sv'" "sv_listed sv"] subseq_distinct [of "sv_pending sv'" "sv_pending sv"]
      assms(1-3) ids_distinct_listed by (auto simp: sctp_inv_def distinct_map)
  moreover have "distinct (ids_of sv')"
    unfolding ids by (rule subseq_distinct [OF subseq_map [OF assms(2)], THEN conjunct1])
      (use assms(1) in \<open>simp add: sctp_inv_def ids_of_def\<close>)
  moreover have "distinct (pending_keys sv')"
    unfolding keys by (rule subseq_distinct [OF subseq_map [OF assms(3)], THEN conjunct1])
      (use assms(1) in \<open>simp add: sctp_inv_def pending_keys_def\<close>)
  moreover have "distinct (map pc_session (sv_pending sv'))"
    using subseq_distinct [OF subseq_map [OF assms(3)]] assms(1) unfolding sctp_inv_def by blast
  ultimately show ?thesis using assms(1,4,5) unfolding sctp_inv_def by auto
qed

lemma inv_next: "sctp_inv sv \<Longrightarrow> unat n < max_streams \<Longrightarrow> sctp_inv (sv\<lparr>sv_next := n\<rparr>)"
  by (simp add: sctp_inv_def ids_of_def pending_keys_def sid_at_def)

lemma fresh_id:
  assumes "sid \<notin> set (assoc_sids a sv)"
  shows "\<lparr>st_assoc = a, st_sid = sid\<rparr> \<notin> set (ids_of sv)"
proof
  assume "\<lparr>st_assoc = a, st_sid = sid\<rparr> \<in> set (ids_of sv)"
  then obtain p where "p \<in> set (sv_listed sv)" and p: "ses_id (ses_at sv p) = \<lparr>st_assoc = a, st_sid = sid\<rparr>"
    unfolding ids_of_def by fastforce
  moreover have "assoc_at sv p = a" "sid_at sv p = sid" by (simp_all add: assoc_at_def sid_at_def p)
  ultimately show False using assms by (auto simp: assoc_sids_def)
qed

lemma inv_connect:
  assumes "sctp_inv sv" "sctp_async_connect info rmt cb sv = (out, sv')"
  shows "sctp_inv sv'"
proof (cases info)
  case (PeerAssoc a)
  let ?sids = "assoc_sids a sv @ pending_sids rmt sv"
  obtain off sid where s: "seek_stream max_streams (used_streams ?sids) 0 (sv_next sv) = (off, sid)" by fastforce
  have n: "unat (sv_next sv) < max_streams" using assms(1) by (simp add: sctp_inv_def)
  note free = seek_stream_free [OF n s]
  show ?thesis
  proof (cases "off = max_streams")
    case True
    with assms PeerAssoc s free show ?thesis by (auto simp: sctp_async_connect_def connect_known_def inv_next)
  next
    case False
    have "\<lparr>st_assoc = a, st_sid = sid\<rparr> \<notin> set (ids_of sv)"
      using free False by (intro fresh_id) simp
    from inv_new_listed [OF assms(1) this, of sid] show ?thesis
      using assms(2) PeerAssoc s free False by (auto simp: sctp_async_connect_def connect_known_def Let_def)
  qed
next
  case PeerUnknown
  obtain off sid where s: "seek_stream max_streams (used_streams (pending_sids rmt sv)) 0 (sv_next sv) = (off, sid)" by fastforce
  have n: "unat (sv_next sv) < max_streams" using assms(1) by (simp add: sctp_inv_def)
  note free = seek_stream_free [OF n s]
  show ?thesis
  proof (cases "off = max_streams")
    case True
    with assms PeerUnknown s free show ?thesis by (auto simp: sctp_async_connect_def connect_new_def inv_next)
  next
    case False
    with inv_new_pending [OF assms(1), where sid = sid and rmt = rmt and n = sid and a = future_assoc and cb = cb] free show ?thesis
      using assms(2) PeerUnknown s by (auto simp: sctp_async_connect_def connect_new_def Let_def)
  qed
next
  case PeerInfoFailed
  with assms show ?thesis by (simp add: sctp_async_connect_def)
qed

lemma comm_up_eq:
  assumes "sctp_inv sv" "comm_up addr a sv = (out, sv')"
  shows "let cs = filter (\<lambda>c. pc_addr c = addr) (sv_pending sv) in
    out = map (\<lambda>c. Callback (pc_cb c) None (Some (pc_session c))) cs \<and>
    sv_listed sv' = sv_listed sv @ map pc_session cs \<and> sv_pending sv' = filter (\<lambda>c. pc_addr c \<noteq> addr) (sv_pending sv) \<and>
    sv_next sv' = sv_next sv \<and> length (sv_store sv') = length (sv_store sv) \<and>
    (\<forall>q. ses_id (ses_at sv' q) = (if q \<in> pc_session ` set cs then (ses_id (ses_at sv q))\<lparr>st_assoc := a\<rparr> else ses_id (ses_at sv q)))"
proof -
  let ?cs = "filter (\<lambda>c. pc_addr c = addr) (sv_pending sv)"
  have "\<forall>c \<in> set ?cs. pc_session c < length (sv_store sv)" "distinct (map pc_session ?cs)"
    using assms(1) by (auto simp: sctp_inv_def distinct_map_filter)
  from fold_up [OF this, of a "[]"] assms(2) show ?thesis
    by (auto simp: comm_up_def drain_eq Let_def)
qed

lemma up_ids:
  assumes "sctp_inv sv" "comm_up addr a sv = (out, sv')"
  shows "ids_of sv' = ids_of sv @ map (\<lambda>c. \<lparr>st_assoc = a, st_sid = sid_at sv (pc_session c)\<rparr>)
    (filter (\<lambda>c. pc_addr c = addr) (sv_pending sv))"
  using comm_up_eq [OF assms, unfolded Let_def] assms(1) by (auto simp: sctp_inv_def ids_of_def sid_at_def image_iff)

lemma inv_up:
  assumes "sctp_inv sv" "comm_up addr a sv = (out, sv')"
  shows "if up_clashes addr a sv then \<not> distinct (ids_of sv') else sctp_inv sv'"
proof -
  let ?cs = "filter (\<lambda>c. pc_addr c = addr) (sv_pending sv)"
  let ?rest = "filter (\<lambda>c. pc_addr c \<noteq> addr) (sv_pending sv)"
  let ?i = "\<lambda>c. \<lparr>st_assoc = a, st_sid = sid_at sv (pc_session c)\<rparr>"
  note e = comm_up_eq [OF assms(1,2), unfolded Let_def]
  note ids = up_ids [OF assms]
  have inv: "\<forall>p \<in> set (sv_listed sv). p < length (sv_store sv)"
    "\<forall>c \<in> set (sv_pending sv). pc_session c < length (sv_store sv) \<and> pc_session c \<notin> set (sv_listed sv)"
    "distinct (ids_of sv)" "distinct (map pc_session (sv_pending sv))" "distinct (pending_keys sv)" "unat (sv_next sv) < max_streams"
    using assms(1) by (simp_all add: sctp_inv_def)
  show ?thesis
  proof (cases "up_clashes addr a sv")
    case True
    then obtain c where "c \<in> set ?cs" "?i c \<in> set (ids_of sv)" by (auto simp: up_clashes_def)
    then have "?i c \<in> set (ids_of sv) \<inter> set (map ?i ?cs)" by simp
    then have "\<not> distinct (ids_of sv')" unfolding ids distinct_append by blast
    with True show ?thesis by simp
  next
    case False
    then have disj: "set (ids_of sv) \<inter> set (map ?i ?cs) = {}" by (auto simp: up_clashes_def)
    have "distinct (map (\<lambda>c. (pc_addr c, sid_at sv (pc_session c))) ?cs)"
      using inv(5) by (simp add: pending_keys_def distinct_map_filter)
    then have "inj_on (\<lambda>c. sid_at sv (pc_session c)) (set ?cs)" and "distinct ?cs"
      by (auto simp: distinct_map inj_on_def)
    then have "distinct (map ?i ?cs)"
      by (auto simp: distinct_map inj_on_def)
    with inv(3) disj have "distinct (ids_of sv')" unfolding ids distinct_append by blast
    moreover have apart: "pc_session c \<notin> pc_session ` set ?cs" if "c \<in> set ?rest" for c
      using that inv(4) by (auto simp: distinct_map inj_on_def)
    then have "pending_keys sv' = filter (\<lambda>(x, _). x \<noteq> addr) (pending_keys sv)"
      using e by (auto simp: pending_keys_def sid_at_def filter_map comp_def)
    then have "distinct (pending_keys sv')" using inv(5) by simp
    moreover have "distinct (map pc_session (sv_pending sv'))" using e inv(4) by (simp add: distinct_map_filter)
    moreover have "\<forall>c \<in> set (sv_pending sv'). pc_session c \<notin> set (sv_listed sv')" using e apart inv(2) by auto
    ultimately have "sctp_inv sv'" using e inv(1,2,6) unfolding sctp_inv_def by auto
    with False show ?thesis by simp
  qed
qed

text \<open>The session of a pending connect, or one whose pending connect was dropped, completes with \<open>EISCONN\<close>.\<close>

lemma erase_first_key: "distinct (map f xs) \<Longrightarrow> y \<in> set (erase_first (\<lambda>x. f x = k) xs) \<Longrightarrow> f y \<noteq> k"
  by (induction xs) (auto simp: rev_image_eqI split: if_splits)

lemma inv_adopt:
  assumes "sctp_inv sv" "p < length (sv_store sv)" "sv' = erase_pending_connect p (push_session p (set_assoc p a sv))"
  shows "if ready_clashes None (ConnectIsConn (Some a)) p sv then \<not> distinct (ids_of sv') else sctp_inv sv'"
proof -
  let ?pend = "erase_first (\<lambda>c. pc_session c = p) (sv_pending sv)"
  let ?i = "\<lparr>st_assoc = a, st_sid = sid_at sv p\<rparr>"
  have f: "sv_listed sv' = sv_listed sv @ [p]" "sv_pending sv' = ?pend" "sv_next sv' = sv_next sv"
    "length (sv_store sv') = length (sv_store sv)"
    by (simp_all add: assms(3) erase_pending_connect_def push_session_def set_assoc_def)
  have at: "ses_id (ses_at sv' q) = (if q = p then ?i else ses_id (ses_at sv q))" for q
    using ses_id_simps(1) [OF assms(2), of a q]
    by (simp add: assms(3) erase_pending_connect_def push_session_def ses_at_def sid_at_def)
  have sid: "sid_at sv' q = sid_at sv q" for q by (simp add: sid_at_def at)
  show ?thesis
  proof (cases "ready_clashes None (ConnectIsConn (Some a)) p sv")
    case True
    then have "p \<in> set (sv_listed sv) \<or> ?i \<in> set (ids_of sv)" by (simp add: ready_clashes_def)
    then have "\<not> distinct (ids_of sv')"
    proof (cases "p \<in> set (sv_listed sv)")
      case False
      with \<open>p \<in> set (sv_listed sv) \<or> ?i \<in> set (ids_of sv)\<close> have "?i \<in> set (ids_of sv)" by blast
      moreover have "ids_of sv' = ids_of sv @ [?i]" using False by (auto simp: ids_of_def f at)
      ultimately show ?thesis by simp
    qed (auto simp: ids_of_def f)
    with True show ?thesis by simp
  next
    case False
    then have n: "p \<notin> set (sv_listed sv)" "?i \<notin> set (ids_of sv)" by (simp_all add: ready_clashes_def)
    have ids: "ids_of sv' = ids_of sv @ [?i]" using n(1) by (auto simp: ids_of_def f at)
    have sub: "subseq ?pend (sv_pending sv)" by (rule subseq_erase_first)
    have "set ?pend \<subseteq> set (sv_pending sv)" by (rule set_erase_first_subset)
    moreover have "distinct (pending_keys sv')"
      unfolding pending_keys_def f sid using subseq_distinct [OF subseq_map [OF sub]] assms(1)
      unfolding sctp_inv_def pending_keys_def by blast
    moreover have "distinct (map pc_session ?pend)"
      using subseq_distinct [OF subseq_map [OF sub]] assms(1) unfolding sctp_inv_def by blast
    moreover have "pc_session c \<noteq> p" if "c \<in> set ?pend" for c
      using erase_first_key [OF _ that] assms(1) by (simp add: sctp_inv_def)
    ultimately have "sctp_inv sv'"
      using assms(1,2) n(2) unfolding sctp_inv_def f ids by auto
    with False show ?thesis by simp
  qed
qed

lemma inv_text: "sctp_inv sv \<Longrightarrow> sctp_inv (append_text p t sv)"
  by (rule inv_shrink) (simp_all add: ses_id_simps)

lemma receive_cases:
  assumes "receive_data i t sv = Inr (out, sv')"
  obtains p where "p \<in> set (sv_listed sv)" "ses_id (ses_at sv p) = i" "out = [Received p]" "sv' = append_text p t sv"
    | "i \<notin> set (ids_of sv)" "out = [Received (length (sv_store sv))]"
      "sv' = append_text (length (sv_store sv)) t (push_session (length (sv_store sv)) (make_session i sv))"
proof -
  let ?k = "find_if (\<lambda>p. stream_eq (ses_at sv p) i) (sv_listed sv)"
  have eq: "stream_eq (ses_at sv p) i \<longleftrightarrow> ses_id (ses_at sv p) = i" for p
    by (cases i) (cases "ses_id (ses_at sv p)", auto simp: stream_eq_def)
  show thesis
  proof (cases "?k = length (sv_listed sv)")
    case True
    then have "i \<notin> set (ids_of sv)" by (auto simp: find_if_eq_length_iff eq ids_of_def)
    with True assms that(2) show thesis by (auto simp: receive_data_def Let_def split: if_splits)
  next
    case False
    then have "?k < length (sv_listed sv)" using find_if_le [of "\<lambda>p. stream_eq (ses_at sv p) i" "sv_listed sv"] by linarith
    then have "sv_listed sv ! ?k \<in> set (sv_listed sv)" "ses_id (ses_at sv (sv_listed sv ! ?k)) = i"
      using find_if_nth eq by auto
    with False assms that(1) show thesis by (auto simp: receive_data_def Let_def split: if_splits)
  qed
qed

lemma inv_receive:
  assumes "sctp_inv sv" "receive_data i t sv = Inr (out, sv')"
  shows "sctp_inv sv'"
  using assms(2)
proof (cases rule: receive_cases)
  case (1 p)
  then show ?thesis using inv_text [OF assms(1)] by simp
next
  case 2
  have "unat (sv_next sv) < max_streams" using assms(1) by (simp add: sctp_inv_def)
  from inv_new_listed [OF assms(1) 2(1) this] show ?thesis unfolding 2(3) by (intro inv_text) simp
qed

lemma inv_ready:
  assumes "sctp_inv sv" "connect_ready ec ret p cb sv = Inr (out, sv')" "p < length (sv_store sv)"
  shows "if ready_clashes ec ret p sv then \<not> distinct (ids_of sv') else sctp_inv sv'"
proof (cases "\<exists>a. ec = None \<and> ret = ConnectIsConn (Some a)")
  case True
  with assms inv_adopt [OF assms(1,3) refl] show ?thesis by (auto simp: connect_ready_def)
next
  case False
  then have "sv' = sv \<or> sv' = erase_pending_connect p sv"
    using assms(2) by (auto simp: connect_ready_def split: option.splits connect_ret.splits)
  moreover have "sctp_inv (erase_pending_connect p sv)"
    using assms(1) by (rule inv_shrink) (simp_all add: erase_pending_connect_def subseq_erase_first)
  moreover have "\<not> ready_clashes ec ret p sv" using False by (auto simp: ready_clashes_def split: connect_ret.splits option.splits)
  ultimately show ?thesis using assms(1) by auto
qed

text \<open>A step keeps the invariant or, exactly when it adopts a taken stream, breaks it.\<close>

lemma inv_step: "sctp_step taken sv sv' \<Longrightarrow> sctp_inv sv \<Longrightarrow> if taken then \<not> distinct (ids_of sv') else sctp_inv sv'"
proof (induction rule: sctp_step.induct)
  case (connect info rmt cb sv out sv')
  then show ?case using inv_connect by auto
next
  case (ready ec ret p cb sv out sv')
  then show ?case using inv_ready by blast
next
  case (up addr a sv out sv')
  then show ?case using inv_up by blast
next
  case (gone addr a sv out sv')
  let ?ps = "filter (\<lambda>p. assoc_at sv p = a) (sv_listed sv)"
  let ?sv = "sv\<lparr>sv_pending := filter (\<lambda>c. pc_addr c \<noteq> addr) (sv_pending sv)\<rparr>"
  from gone.hyps have "sv' = (fold cancel_session ?ps ?sv)\<lparr>sv_listed := filter (\<lambda>p. assoc_at sv p \<noteq> a) (sv_listed sv)\<rparr>"
    by (simp add: comm_gone_eq)
  with gone.prems fold_cancel [of ?ps ?sv] have "sctp_inv sv'"
    by (intro inv_shrink [OF gone.prems]) auto
  then show ?case by simp
next
  case (refused addr sv out sv')
  then have "sv' = sv\<lparr>sv_pending := filter (\<lambda>c. pc_addr c \<noteq> addr) (sv_pending sv)\<rparr>"
    by (auto simp: cant_start_def drain_eq)
  with refused.prems have "sctp_inv sv'" by (intro inv_shrink [OF refused.prems]) auto
  then show ?case by simp
next
  case (data i t sv out sv')
  then show ?case using inv_receive by auto
next
  case (closed sv p)
  then have "sctp_inv (server_rm p sv)"
    by (rule inv_shrink) (simp_all add: server_rm_def subseq_erase_first ses_at_def)
  then show ?case by simp
qed

lemma inv_new_server: "sctp_inv new_server"
  by (simp add: sctp_inv_def new_server_def ids_of_def pending_keys_def max_streams_def)

lemma inv_run: "(sctp_step False)\<^sup>*\<^sup>* sv sv' \<Longrightarrow> sctp_inv sv \<Longrightarrow> sctp_inv sv'"
  by (induction rule: rtranclp_induct) (use inv_step in fastforce)+

text \<open>
  C26: streams are not shared, as long as none is adopted twice.  Whatever connects, completions of
  connects (\<open>EISCONN\<close> among them), association changes, data and closes happen, in any order, no
  two sessions of the server are the same stream of the same association, no session is in the
  list twice, and a session with a pending connect is not in the list, provided that no session
  which adopts an association is then a stream that a listed session already is, or is listed
  itself.  The proviso is exact: the first step that breaks it leaves two equal streams in the
  list.  The code does not look; \<open>connect_completes_twice\<close> is a run that breaks it.
\<close>
theorem sctp_streams_distinct:
  assumes "(sctp_step False)\<^sup>*\<^sup>* new_server sv"
  shows "distinct (ids_of sv) \<and> distinct (sv_listed sv) \<and>
    (\<forall>c \<in> set (sv_pending sv). pc_session c \<notin> set (sv_listed sv)) \<and>
    (\<forall>sv'. sctp_step True sv sv' \<longrightarrow> \<not> distinct (ids_of sv'))"
proof -
  have inv: "sctp_inv sv" by (rule inv_run [OF assms inv_new_server])
  have "\<not> distinct (ids_of sv')" if "sctp_step True sv sv'" for sv'
    using inv_step [OF that inv] by simp
  with inv ids_distinct_listed show ?thesis by (simp add: sctp_inv_def)
qed

definition demo_peer :: peer where
  "demo_peer = \<lparr>peer_addr = 0x0100007F, peer_port = 5200\<rparr>"

definition demo_stream :: stream_id where
  "demo_stream = \<lparr>st_assoc = 7, st_sid = 3\<rparr>"

definition demo_server :: sctp_server where
  "demo_server = \<lparr>sv_store = [\<lparr>ses_id = demo_stream, ses_text = ''a'', ses_cancelled = False\<rparr>], sv_listed = [0],
     sv_pending = [], sv_next = 0\<rparr>"

lemma demo_receive: "receive_data demo_stream ''a'' new_server = Inr ([Received 0], demo_server)"
  by (simp add: receive_data_def new_server_def demo_stream_def demo_server_def append_text_def push_session_def
      make_session_def ses_at_def future_assoc_def all_assoc_def current_assoc_def)

theorem sctp_streams_distinct_witness: "distinct (ids_of demo_server) \<and> distinct (sv_listed demo_server)"
  using sctp_streams_distinct [OF r_into_rtranclp [where r = "sctp_step False", OF sctp_step.data [OF demo_receive]]] by blast

section \<open>The number of a new stream\<close>

text \<open>In any run, whatever is adopted, the next number stays a stream number.\<close>

abbreviation sctp_any :: "sctp_server \<Rightarrow> sctp_server \<Rightarrow> bool" where
  "sctp_any sv sv' \<equiv> \<exists>taken. sctp_step taken sv sv'"

lemma up_next: "sv_next (snd (fold (up_step a) cs (out, s))) = sv_next s"
  by (induction cs arbitrary: out s) (simp_all add: push_session_def set_assoc_def)

lemma comm_up_next: "comm_up addr a sv = (out, sv') \<Longrightarrow> sv_next sv' = sv_next sv"
  using up_next [of a "filter (\<lambda>c. pc_addr c = addr) (sv_pending sv)" "[]" sv]
  by (auto simp: comm_up_def drain_eq split: prod.splits)

lemma connect_next:
  assumes "unat (sv_next sv) < max_streams" "sctp_async_connect info rmt cb sv = (out, sv')"
  shows "unat (sv_next sv') < max_streams"
proof -
  have "unat (snd (seek_stream max_streams (used_streams sids) 0 (sv_next sv))) < max_streams" for sids
    using seek_stream_free [OF assms(1), of sids] by (metis prod.collapse)
  then show ?thesis
    using assms by (auto simp: sctp_async_connect_def connect_known_def connect_new_def Let_def make_session_def
        push_session_def split: peer_info.splits prod.splits if_splits) (metis snd_conv)+
qed

lemma step_next: "sctp_step taken sv sv' \<Longrightarrow> unat (sv_next sv) < max_streams \<Longrightarrow> unat (sv_next sv') < max_streams"
proof (induction rule: sctp_step.induct)
  case (connect info rmt cb sv out sv')
  then show ?case using connect_next by blast
next
  case (up addr a sv out sv')
  then show ?case using comm_up_next by simp
next
  case (gone addr a sv out sv')
  then show ?case using fold_cancel by (auto simp: comm_gone_eq)
qed (auto simp: connect_ready_def erase_pending_connect_def push_session_def set_assoc_def cant_start_def drain_eq
    receive_data_def append_text_def make_session_def server_rm_def Let_def split: option.splits connect_ret.splits if_splits)

lemma run_next: "sctp_any\<^sup>*\<^sup>* sv sv' \<Longrightarrow> unat (sv_next sv) < max_streams \<Longrightarrow> unat (sv_next sv') < max_streams"
  by (induction rule: rtranclp_induct) (auto intro: step_next)

text \<open>
  A new session gets a stream number that is free, smaller than \<open>MAX_SCTP_STREAMS\<close> and never zero;
  the completion function is told \<open>EADDRNOTAVAIL\<close> only when every number is taken, and then nothing
  changes.  \<open>connect\<close> is issued for an unknown peer exactly when the next number is itself free,
  so never while it is zero.
\<close>
theorem stream_number_chosen:
  assumes "unat (sv_next sv) < max_streams" "sctp_async_connect info rmt cb sv = (out, sv')" "info \<noteq> PeerInfoFailed"
    "used = (case info of PeerAssoc a \<Rightarrow> assoc_sids a sv | _ \<Rightarrow> []) @ pending_sids rmt sv"
  shows "if \<forall>w. unat w < max_streams \<longrightarrow> w \<in> insert 0 (set used) then out = [Callback cb (Some EADDRNOTAVAIL) None] \<and> sv' = sv
    else unat (sv_next sv') < max_streams \<and> sv_next sv' \<notin> insert 0 (set used) \<and>
      sid_at sv' (length (sv_store sv)) = sv_next sv' \<and>
      out = (case info of PeerAssoc a \<Rightarrow> [Callback cb None (Some (length (sv_store sv)))]
             | _ \<Rightarrow> if sv_next sv \<in> insert 0 (set used) then [] else [AwaitWritable (length (sv_store sv)) rmt cb])"
proof -
  obtain off sid where s: "seek_stream max_streams (used_streams used) 0 (sv_next sv) = (off, sid)" by fastforce
  note free = seek_stream_free [OF assms(1) s]
  have full: "(off = max_streams) = (\<forall>w. unat w < max_streams \<longrightarrow> w \<in> insert 0 (set used))"
    using free by (auto split: if_splits)
  show ?thesis
  proof (cases info)
    case (PeerAssoc a)
    with assms(2,4) s show ?thesis unfolding full [symmetric] using free
      by (auto simp: sctp_async_connect_def connect_known_def Let_def sid_at_def ses_at_make)
  next
    case PeerUnknown
    with assms(2,4) s show ?thesis unfolding full [symmetric] using free
      by (auto simp: sctp_async_connect_def connect_new_def Let_def sid_at_def ses_at_make)
  next
    case PeerInfoFailed
    with assms(3) show ?thesis by simp
  qed
qed

text \<open>
  The first connect of a server is never issued: the server searches for a stream number, finds
  that zero is taken by the elements its vector was constructed with, and takes the test for an
  earlier pending connect to the same peer to be true.  The connect stays pending.
\<close>
theorem first_connect_not_issued:
  "\<exists>sv. sctp_async_connect PeerUnknown rmt cb new_server = ([], sv) \<and> sv_next sv = 1 \<and>
     sv_pending sv = [\<lparr>pc_session = 0, pc_cb = cb, pc_addr = rmt\<rparr>]"
proof -
  obtain off sid where s: "seek_stream max_streams (used_streams []) 0 0 = (off, sid)" by fastforce
  moreover have "set (used_streams []) = {0}" by (simp add: used_streams_def max_streams_def)
  ultimately obtain k where k: "off = k" "unat sid = k mod max_streams"
    "\<forall>j < k. of_nat (j mod max_streams) = (0 :: 16 word)" "k < max_streams \<longrightarrow> sid \<noteq> 0"
    using seek_stream_spec [OF _ s] by (auto simp: max_streams_def)
  have "k \<noteq> 0" using k(2,4) by (cases "k = 0") (simp_all add: max_streams_def word_unat_eq_iff)
  moreover have "\<not> 1 < k" using k(3) [THEN spec, of 1] by (simp add: max_streams_def)
  ultimately have "k = 1" by simp
  then have "off = 1" "sid = 1" using k(1,2) by (simp_all add: max_streams_def word_unat_eq_iff)
  with s have "seek_stream max_streams (used_streams []) 0 0 = (1, 1)" by simp
  then show ?thesis
    by (simp add: sctp_async_connect_def connect_new_def new_server_def pending_sids_def max_streams_def make_session_def)
qed

section \<open>What becomes of a pending connect\<close>

lemma cant_start_eq: "cant_start addr sv =
  (map (\<lambda>c. Callback (pc_cb c) (Some ECONNREFUSED) (Some (pc_session c))) (filter (\<lambda>c. pc_addr c = addr) (sv_pending sv)),
   sv\<lparr>sv_pending := filter (\<lambda>c. pc_addr c \<noteq> addr) (sv_pending sv)\<rparr>)"
proof -
  have "fold (\<lambda>c out. out @ [f c]) cs xs = xs @ map f cs" for f :: "pending_connect \<Rightarrow> sctp_action" and cs xs
    by (induction cs arbitrary: xs) simp_all
  then show ?thesis by (simp add: cant_start_def drain_eq)
qed

text \<open>
  When an association with a peer comes up or cannot be started, the completion function of each
  pending connect to that peer is called exactly once, in order, and no other; when it is lost, restarted
  or shut down, the pending connects are dropped without a call.  In every case no connect to that
  peer is pending afterwards, and the others are untouched.
\<close>
theorem pending_connects_settled:
  assumes "sctp_inv sv" "assoc_change ev addr a sv = (out, sv')"
  shows "sv_pending sv' = filter (\<lambda>c. pc_addr c \<noteq> addr) (sv_pending sv) \<and>
    out = (let cs = filter (\<lambda>c. pc_addr c = addr) (sv_pending sv) in
           if ev = COMM_UP then map (\<lambda>c. Callback (pc_cb c) None (Some (pc_session c))) cs
           else if ev = CANT_STR_ASSOC then map (\<lambda>c. Callback (pc_cb c) (Some ECONNREFUSED) (Some (pc_session c))) cs
           else [])"
proof (cases "ev = COMM_UP")
  case True
  with assms comm_up_eq [OF assms(1), of addr a out sv'] show ?thesis by (simp add: assoc_change_def Let_def)
next
  case False
  with assms(2) fold_cancel show ?thesis
    by (cases ev) (auto simp: assoc_change_def cant_start_eq comm_gone_eq Let_def)
qed

definition demo_pending :: sctp_server where
  "demo_pending = \<lparr>sv_store = [\<lparr>ses_id = \<lparr>st_assoc = 0, st_sid = 3\<rparr>, ses_text = [], ses_cancelled = False\<rparr>],
     sv_listed = [], sv_pending = [\<lparr>pc_session = 0, pc_cb = 4, pc_addr = demo_peer\<rparr>], sv_next = 3\<rparr>"

lemma demo_pending_inv: "sctp_inv demo_pending"
  by (simp add: sctp_inv_def demo_pending_def ids_of_def pending_keys_def max_streams_def)

theorem pending_connects_settled_witness:
  "sv_pending (snd (assoc_change COMM_UP demo_peer 7 demo_pending)) = [] \<and>
   fst (assoc_change COMM_UP demo_peer 7 demo_pending) = [Callback 4 None (Some 0)]"
  using pending_connects_settled [OF demo_pending_inv surjective_pairing, of COMM_UP demo_peer 7]
  by (simp add: demo_pending_def)

text \<open>
  A completion function can be called twice: when the association comes up before the handler of
  the wait for writability runs, \<open>connect\<close> then fails with \<open>EISCONN\<close>, and the handler puts the session in the
  list a second time and reports success again.
\<close>
theorem connect_completes_twice:
  assumes "sctp_inv sv" "c \<in> set (sv_pending sv)" "comm_up (pc_addr c) a sv = (out1, sv1)"
  shows "\<exists>out2 sv2. connect_ready None (ConnectIsConn (Some a)) (pc_session c) (pc_cb c) sv1 = Inr (out2, sv2) \<and>
    Callback (pc_cb c) None (Some (pc_session c)) \<in> set out1 \<and> Callback (pc_cb c) None (Some (pc_session c)) \<in> set out2 \<and>
    2 \<le> count_list (sv_listed sv2) (pc_session c)"
proof -
  note e = comm_up_eq [OF assms(1,3), unfolded Let_def]
  have "pc_session c \<in> set (sv_listed sv1)" using e assms(2) by auto
  then have "count_list (sv_listed sv1) (pc_session c) \<noteq> 0" by (simp add: count_list_0_iff)
  then show ?thesis using e assms(2) by (auto simp: connect_ready_def erase_pending_connect_def)
qed

theorem connect_completes_twice_witness:
  "\<exists>out2 sv2. connect_ready None (ConnectIsConn (Some 7)) 0 4 (snd (comm_up demo_peer 7 demo_pending)) = Inr (out2, sv2) \<and>
    2 \<le> count_list (sv_listed sv2) 0"
proof -
  let ?c = "\<lparr>pc_session = 0, pc_cb = 4, pc_addr = demo_peer\<rparr>"
  have "?c \<in> set (sv_pending demo_pending)" by (simp add: demo_pending_def)
  from connect_completes_twice [OF demo_pending_inv this, of 7 "fst (comm_up demo_peer 7 demo_pending)"]
  show ?thesis by (simp add: prod_eq_iff) blast
qed

section \<open>Data\<close>

text \<open>The text received on a stream, and the reception of several messages.\<close>

definition session_text :: "stream_id \<Rightarrow> sctp_server \<Rightarrow> string" where
  "session_text i sv = concat (map (\<lambda>p. ses_text (ses_at sv p)) (filter (\<lambda>p. ses_id (ses_at sv p) = i) (sv_listed sv)))"

definition receive_all :: "(stream_id \<times> string) list \<Rightarrow> sctp_server \<Rightarrow> sctp_server result" where
  "receive_all = rfold (\<lambda>(i, t) sv. rbind (receive_data i t sv) (\<lambda>(out, sv'). Inr sv'))"

lemma filter_distinct_key: "distinct (map f xs) \<Longrightarrow> p \<in> set xs \<Longrightarrow> filter (\<lambda>q. f q = f p) xs = [p]"
  by (induction xs) (auto simp: filter_empty_conv image_iff)

lemma receive_text:
  assumes "sctp_inv sv" "receive_data i t sv = Inr (out, sv')"
  shows "session_text j sv' = session_text j sv @ (if j = i then t else [])"
  using assms(2)
proof (cases rule: receive_cases)
  case (1 p)
  have p: "p < length (sv_store sv)" using 1(1) assms(1) by (simp add: sctp_inv_def)
  have ids: "filter (\<lambda>q. ses_id (ses_at sv q) = ses_id (ses_at sv p)) (sv_listed sv) = [p]"
    using 1(1) assms(1) by (intro filter_distinct_key) (simp_all add: sctp_inv_def ids_of_def)
  show ?thesis
  proof (cases "j = i")
    case True
    then show ?thesis using ids 1(2,4) p by (simp add: session_text_def ses_id_simps ses_text_append)
  next
    case False
    then show ?thesis using 1(2) p
      by (auto simp: session_text_def ses_id_simps ses_text_append 1(4) intro!: arg_cong [where f = concat] map_cong)
  qed
next
  case 2
  let ?p = "length (sv_store sv)"
  let ?sv = "push_session ?p (make_session i sv)"
  have kept: "ses_at (make_session i sv) q = ses_at sv q \<and> q \<noteq> ?p" if "q \<in> set (sv_listed sv)" for q
    using that assms(1) by (auto simp: sctp_inv_def ses_at_make)
  have new: "ses_at (make_session i sv) ?p = \<lparr>ses_id = i, ses_text = [], ses_cancelled = False\<rparr>" by (simp add: ses_at_make)
  have t: "ses_text (ses_at sv' q) = ses_text (ses_at ?sv q) @ (if q = ?p then t else [])" for q
    unfolding 2(3) by (rule ses_text_append) simp
  have "session_text j sv' = concat (map (\<lambda>q. ses_text (ses_at sv' q))
      (filter (\<lambda>q. ses_id (ses_at ?sv q) = j) (sv_listed sv @ [?p])))"
    by (simp add: session_text_def 2(3) ses_id_simps)
  also have "\<dots> = session_text j sv @ (if j = i then t else [])"
    using kept by (auto simp: t new session_text_def intro!: arg_cong [where f = concat] map_cong filter_cong)
  finally show ?thesis .
qed

lemma receive_valid:
  "st_assoc i \<notin> {future_assoc, all_assoc, current_assoc} \<Longrightarrow> \<exists>out sv'. receive_data i t sv = Inr (out, sv')"
  by (simp add: receive_data_def Let_def)

lemma receive_all_text:
  assumes "sctp_inv sv" "\<forall>(i, t) \<in> set ms. st_assoc i \<notin> {future_assoc, all_assoc, current_assoc}"
  shows "\<exists>sv'. receive_all ms sv = Inr sv' \<and> sctp_inv sv' \<and>
    (\<forall>j. session_text j sv' = session_text j sv @ concat (map snd (filter (\<lambda>(i, t). i = j) ms)))"
  using assms
proof (induction ms arbitrary: sv)
  case Nil
  then show ?case by (simp add: receive_all_def)
next
  case (Cons m ms)
  obtain i t where m: "m = (i, t)" by fastforce
  then obtain out sv1 where r: "receive_data i t sv = Inr (out, sv1)"
    using Cons.prems(2) receive_valid [of i t sv] by auto
  from Cons.IH [OF inv_receive [OF Cons.prems(1) r]] Cons.prems(2) obtain sv' where
    "receive_all ms sv1 = Inr sv'" "sctp_inv sv'"
    "\<forall>j. session_text j sv' = session_text j sv1 @ concat (map snd (filter (\<lambda>(i, t). i = j) ms))" by auto
  with receive_text [OF Cons.prems(1) r] show ?case
    by (intro exI [of _ sv']) (auto simp: receive_all_def m r)
qed

text \<open>
  C27: the messages of the one socket are sorted out: however the messages of several streams are
  interleaved, and wherever the messages of a stream are cut, the text of every stream is exactly what was
  sent on it, in order.
\<close>
theorem data_demultiplexed:
  assumes "sctp_inv sv" "\<forall>(i, t) \<in> set ms. st_assoc i \<notin> {future_assoc, all_assoc, current_assoc}"
  shows "\<exists>sv'. receive_all ms sv = Inr sv' \<and> sctp_inv sv' \<and>
    (\<forall>j. session_text j sv' = session_text j sv @ concat (map snd (filter (\<lambda>(i, t). i = j) ms)))"
  using assms by (rule receive_all_text)

theorem data_demultiplexed_witness:
  "\<exists>sv'. receive_all [(demo_stream, ''a''), (demo_stream\<lparr>st_sid := 5\<rparr>, ''x''), (demo_stream, ''b'')] new_server = Inr sv' \<and>
     session_text demo_stream sv' = ''ab''"
proof -
  let ?ms = "[(demo_stream, ''a''), (demo_stream\<lparr>st_sid := 5\<rparr>, ''x''), (demo_stream, ''b'')]"
  have "\<forall>(i, t) \<in> set ?ms. st_assoc i \<notin> {future_assoc, all_assoc, current_assoc}"
    by (simp add: demo_stream_def future_assoc_def all_assoc_def current_assoc_def)
  from data_demultiplexed [OF inv_new_server this] show ?thesis
    by (auto simp: demo_stream_def session_text_def new_server_def)
qed

text \<open>
  Two controllers can take the same stream for different things: each end chooses the numbers of
  its own sessions from its own counter.  When both connect over an established
  association before either has heard of the other's session, they choose the same number, and
  what one sends as a new request the other finds to be the response to its own.
\<close>
theorem stream_collision:
  assumes "unat (sv_next sv1) < max_streams" "sv_next sv2 = sv_next sv1" "sctp_inv sv2"
    "assoc_sids a1 sv1 = []" "assoc_sids a2 sv2 = []" "pending_sids r1 sv1 = []" "pending_sids r2 sv2 = []"
    "a2 \<notin> {future_assoc, all_assoc, current_assoc}"
    "connect_known a1 r1 cb1 sv1 = (out1, sv1')" "connect_known a2 r2 cb2 sv2 = (out2, sv2')"
  shows "\<exists>p1 p2 sv2''. out1 = [Callback cb1 None (Some p1)] \<and> out2 = [Callback cb2 None (Some p2)] \<and>
    sid_at sv1' p1 = sid_at sv2' p2 \<and>
    receive_data \<lparr>st_assoc = a2, st_sid = sid_at sv1' p1\<rparr> t sv2' = Inr ([Received p2], sv2'')"
proof -
  obtain off sid where s: "seek_stream max_streams (used_streams []) 0 (sv_next sv1) = (off, sid)" by fastforce
  have off: "off \<noteq> max_streams" using seek_stream_free [OF assms(1) s] by (auto simp: max_streams_def split: if_splits dest: spec [of _ 1])
  let ?p1 = "length (sv_store sv1)" and ?p2 = "length (sv_store sv2)"
  have 1: "out1 = [Callback cb1 None (Some ?p1)]" "sid_at sv1' ?p1 = sid"
    using assms(4,6,9) s off by (auto simp: connect_known_def Let_def sid_at_def ses_at_make)
  have 2: "out2 = [Callback cb2 None (Some ?p2)]" "sid_at sv2' ?p2 = sid" "assoc_at sv2' ?p2 = a2"
    "?p2 \<in> set (sv_listed sv2')"
    using assms(2,5,7,10) s off by (auto simp: connect_known_def Let_def sid_at_def assoc_at_def ses_at_make)
  have inv: "sctp_inv sv2'"
    using inv_connect [OF assms(3), of "PeerAssoc a2" r2 cb2 out2 sv2'] assms(10) by (simp add: sctp_async_connect_def)
  obtain out sv'' where r: "receive_data \<lparr>st_assoc = a2, st_sid = sid\<rparr> t sv2' = Inr (out, sv'')"
    using receive_valid [of "\<lparr>st_assoc = a2, st_sid = sid\<rparr>" t sv2'] assms(8) by auto
  have id: "ses_id (ses_at sv2' ?p2) = \<lparr>st_assoc = a2, st_sid = sid\<rparr>"
    using 2(2,3) by (cases "ses_id (ses_at sv2' ?p2)") (simp add: sid_at_def assoc_at_def)
  have "out = [Received ?p2]" using r
  proof (cases rule: receive_cases)
    case (1 p)
    then have "ses_id (ses_at sv2' p) = ses_id (ses_at sv2' ?p2)" using id by simp
    moreover have "inj_on (\<lambda>p. ses_id (ses_at sv2' p)) (set (sv_listed sv2'))"
      using inv by (simp add: sctp_inv_def ids_of_def distinct_map)
    ultimately have "p = ?p2" using 1(1) 2(4) by (auto dest: inj_onD)
    with 1 show ?thesis by simp
  next
    case 2
    then show ?thesis using id \<open>?p2 \<in> set (sv_listed sv2')\<close> by (auto simp: ids_of_def image_iff)
  qed
  with r have "receive_data \<lparr>st_assoc = a2, st_sid = sid_at sv1' ?p1\<rparr> t sv2' = Inr ([Received ?p2], sv'')"
    using 1(2) by simp
  then show ?thesis using 1 2(1,2)
    by (intro exI [of _ ?p1] exI [of _ ?p2] exI [of _ sv'']) auto
qed

theorem stream_collision_witness:
  "\<exists>p1 p2 sv2''. fst (connect_known 7 demo_peer 1 new_server) = [Callback 1 None (Some p1)] \<and>
    receive_data \<lparr>st_assoc = 9, st_sid = sid_at (snd (connect_known 7 demo_peer 1 new_server)) p1\<rparr> ''POST''
      (snd (connect_known 9 demo_peer 2 new_server)) = Inr ([Received p2], sv2'')"
proof -
  have "unat (sv_next new_server) < max_streams" "assoc_sids a new_server = []" "pending_sids r new_server = []"
    "(9 :: 32 word) \<notin> {future_assoc, all_assoc, current_assoc}" for a r
    by (simp_all add: new_server_def max_streams_def assoc_sids_def pending_sids_def future_assoc_def all_assoc_def
        current_assoc_def)
  from stream_collision [OF this(1) refl inv_new_server this(2) this(2) this(3) this(3) this(4)
      surjective_pairing [of "connect_known 7 demo_peer 1 new_server"] surjective_pairing [of "connect_known 9 demo_peer 2 new_server"]]
  show ?thesis by blast
qed

text \<open>
  The server keeps listening: every turn of the reader that does not throw ends by starting the
  wait for the next one, and starts it once; it throws only when \<open>recvmsg\<close> fails for good or data comes without
  a valid association.
\<close>
theorem sctp_read_rearms:
  "case sctp_read ec ret sv of
     Inr (out, sv') \<Rightarrow> last out = AwaitReadable \<and> count_list out AwaitReadable = 1
   | Inl e \<Rightarrow> \<not> ec \<and> e = Thrown ''what?'' \<and> (ret = RecvFailed \<or>
       (\<exists>i t. ret = RecvData i t \<and> st_assoc i \<in> {future_assoc, all_assoc, current_assoc}))"
proof -
  have up: "AwaitReadable \<notin> set (fst (fold (up_step a) cs (out, s)))" if "AwaitReadable \<notin> set out" for a cs out s
    using that by (induction cs arbitrary: out s) auto
  have change: "AwaitReadable \<notin> set (fst (assoc_change ev addr a sv))" for ev addr a
    using up [of "[]" a "filter (\<lambda>c. pc_addr c = addr) (sv_pending sv)" sv]
    by (cases ev) (auto simp: assoc_change_def comm_up_def drain_eq comm_gone_eq cant_start_eq split: prod.splits)
  have data: "receive_data i t sv = Inl e \<Longrightarrow> e = Thrown ''what?'' \<and> st_assoc i \<in> {future_assoc, all_assoc, current_assoc}"
    "receive_data i t sv = Inr (out, sv') \<Longrightarrow> AwaitReadable \<notin> set out" for i t e out sv'
    by (auto simp: receive_data_def Let_def split: if_splits)
  show ?thesis
  proof (cases ec)
    case True
    then show ?thesis by (simp add: sctp_read_def)
  next
    case False
    show ?thesis
    proof (cases ret)
      case (RecvAssoc ev addr a)
      then show ?thesis using False change [of ev addr a]
        by (simp add: sctp_read_def split_beta count_list_0_iff)
    next
      case (RecvData i t)
      then show ?thesis using False data [of i t]
        by (cases "receive_data i t sv") (auto simp: sctp_read_def count_list_0_iff)
    qed (use False in \<open>simp_all add: sctp_read_def\<close>)
  qed
qed

end
