(* ===== verification/Transports.thy ===== *)
theory Transports
  imports SctpServer HttpSession
begin

text \<open>
  Writing to a transport session: \<open>SctpSession::async_write\<close> and \<open>write_\<close> (\<open>sctp-session.cpp\<close>),
  \<open>unix_session::async_write\<close> (\<open>unix-server.cpp\<close>).  What the system calls answer is a list, one
  answer for each call; without an answer the operation waits for ever.  The result is the list of
  the pieces that the socket has taken and what the completion function was called with, if it was called.
\<close>

section \<open>SCTP\<close>

datatype completion = Called "transport_error option" | NotCalled

definition max_buf_sz :: nat where
  "max_buf_sz = 131071"

datatype send_ret =
    SendLen nat | SendWouldBlock "transport_error option" | SendInterrupted | SendInvalid | SendFailed transport_error

fun send_loop :: "send_ret list \<Rightarrow> string \<Rightarrow> nat \<Rightarrow> string list \<Rightarrow> (string list \<times> completion) result" where
  "send_loop [] data remaining_bytes sent = Inl NoReturn"
| "send_loop (r # rs) data remaining_bytes sent =
     (let msgbuf = take (if remaining_bytes > max_buf_sz then max_buf_sz else remaining_bytes)
                     (drop (length data - remaining_bytes) data)
      in case r of
        SendLen len \<Rightarrow>
          (let sent' = sent @ [take len msgbuf]; left = remaining_bytes - len
           in if left > 0 then send_loop rs data left sent' else Inr (sent', Called None))
      | SendWouldBlock None \<Rightarrow> send_loop rs data remaining_bytes sent
      | SendWouldBlock (Some e) \<Rightarrow> Inr (sent, Called (Some e))
      | SendInterrupted \<Rightarrow> send_loop rs data remaining_bytes sent
      | SendInvalid \<Rightarrow> Inr (sent, Called (Some EINVAL))
      | SendFailed e \<Rightarrow> Inr (sent, Called (Some e)))"

datatype sctp_state =
    SCTP_CLOSED | SCTP_EMPTY | SCTP_COOKIE_WAIT | SCTP_COOKIE_ECHOED | SCTP_ESTABLISHED | SCTP_SHUTDOWN_PENDING
  | SCTP_SHUTDOWN_SENT | SCTP_SHUTDOWN_RECEIVED | SCTP_SHUTDOWN_ACK_SENT | SCTP_OTHER

datatype status_ret = StatusOk sctp_state | StatusInvalid | StatusFailed

text \<open>\<open>write_\<close>; \<open>None\<close> means that it has called \<open>async_write\<close> with the same data.\<close>

definition sctp_write :: "transport_error option \<Rightarrow> status_ret \<Rightarrow> send_ret list \<Rightarrow> string \<Rightarrow> (string list \<times> completion) option result" where
  "sctp_write ec status rets data = (case ec of
     Some e \<Rightarrow> Inr (Some ([], Called (Some e)))
   | None \<Rightarrow> (case status of
       StatusInvalid \<Rightarrow> Inr (Some ([], Called (Some EINVAL)))
     | StatusFailed \<Rightarrow> what
     | StatusOk st \<Rightarrow>
         (if st \<in> {SCTP_COOKIE_WAIT, SCTP_COOKIE_ECHOED} then Inr None
          else if st = SCTP_OTHER then what
          else if st \<noteq> SCTP_ESTABLISHED then Inr (Some ([], Called (Some EINVAL)))
          else if length data = 0 then Inr (Some ([], Called None))
          else rbind (send_loop rets data (length data) []) (\<lambda>x. Inr (Some x)))))"

text \<open>
  One turn for each time the socket becomes writable: whether the session is still in the server's
  list, the error of the wait, the status of the association, and the answers of \<open>sendmsg\<close>.
\<close>

record write_turn =
  wt_in_server :: bool
  wt_error :: "transport_error option"
  wt_status :: status_ret
  wt_sends :: "send_ret list"

fun sctp_async_write :: "write_turn list \<Rightarrow> string \<Rightarrow> (string list \<times> completion) result" where
  "sctp_async_write [] data = Inl NoReturn"
| "sctp_async_write (t # ts) data =
     rbind (sctp_write (if wt_in_server t then wt_error t else Some ECONNRESET) (wt_status t) (wt_sends t) data)
       (\<lambda>r. case r of None \<Rightarrow> sctp_async_write ts data | Some x \<Rightarrow> Inr x)"

section \<open>Unix sockets\<close>

datatype unix_ret = UnixSent nat | UnixWouldBlock | UnixBrokenPipe | UnixFailed

fun unix_async_write :: "unix_ret list \<Rightarrow> string \<Rightarrow> string list \<Rightarrow> (string list \<times> completion) result" where
  "unix_async_write [] data sent = Inl NoReturn"
| "unix_async_write (UnixSent n # rs) data sent =
     (let remaining_bytes = length data - n; sent' = sent @ [take n data]
      in if remaining_bytes > 0 then unix_async_write rs (drop n data) sent' else Inr (sent', Called None))"
| "unix_async_write (UnixWouldBlock # rs) data sent = unix_async_write rs data sent"
| "unix_async_write (UnixBrokenPipe # rs) data sent = Inl (Thrown ''broken_pipe'')"
| "unix_async_write (UnixFailed # rs) data sent = Inr (sent, NotCalled)"

text \<open>
  \<open>unix_session::async_read\<close>, with the answers of the socket: the bytes handed to the callback, in
  order, as long as the callback registers itself again.
\<close>

datatype unix_read_ret = UnixBytes string | UnixEof | UnixReadError

fun unix_async_read :: "unix_read_ret list \<Rightarrow> string list \<Rightarrow> string list \<times> bool" where
  "unix_async_read [] got = (got, True)"
| "unix_async_read (UnixBytes t # rs) got = unix_async_read rs (got @ [t])"
| "unix_async_read (UnixEof # rs) got = (got, False)"
| "unix_async_read (UnixReadError # rs) got = unix_async_read rs got"

section \<open>The contract of a transport\<close>

text \<open>
  What the sessions above rely on: the pieces are a prefix of the data, and success means that all
  of it was taken.
\<close>

locale byte_transport =
  fixes carry :: "'r list \<Rightarrow> string \<Rightarrow> (string list \<times> completion) result"
    and honest :: "'r list \<Rightarrow> string \<Rightarrow> bool"
  assumes carry_prefix: "honest rs d \<Longrightarrow> carry rs d = Inr (ms, c) \<Longrightarrow> prefix (concat ms) d"
    and carry_all: "honest rs d \<Longrightarrow> carry rs d = Inr (ms, Called None) \<Longrightarrow> concat ms = d"
begin

lemma fold_receive: "fold receive ms s = receive (concat ms) s"
  by (induction ms arbitrary: s) (simp_all add: receive_def)

lemma carried: "honest rs d \<Longrightarrow> carry rs d = Inr (ms, Called None) \<Longrightarrow> fold receive ms s = receive d s"
  by (simp add: fold_receive carry_all)

lemma request_carried:
  assumes "verb \<notin> {GET, DELETE, TRACE, VerbUnknown}" "ver \<noteq> VersionUnknown"
    "route \<noteq> []" "\<forall>c \<in> set route. \<not> is_space c"
    "\<forall>(f, v) \<in> set fvs. field_text f \<noteq> None \<and> f \<noteq> CONTENT_LENGTH \<and> value_text v"
    "\<forall>d \<in> set ds. d \<noteq> [] \<and> length d < 2 ^ 60"
    and c: "client_write (new_session\<lparr>hs_request := mk_request verb route ver fvs ds\<rparr>) = Inr c"
    and t: "honest rs (hs_out c)" "carry rs (hs_out c) = Inr (ms, Called None)"
  shows "\<exists>s. server_read (fold receive ms new_session) = Inr s \<and> hs_in s = [] \<and>
    req_verb (hs_request s) = verb \<and> req_route (hs_request s) = route \<and>
    map (\<lambda>h. (field_name h, field_value h)) (msg_headers (hs_request s)) = fvs @ [(END_OF_HEADERS, [])] \<and>
    map chunk_data (msg_chunks (hs_request s)) = ds @ [[]]"
  using exchange [OF assms(1-6)] c carried [OF t] by auto

end

section \<open>Both transports keep it\<close>

text \<open>\<open>sendmsg\<close> takes at least one byte and at most what it was offered.\<close>

fun honest_sends :: "send_ret list \<Rightarrow> nat \<Rightarrow> bool" where
  "honest_sends [] n \<longleftrightarrow> True"
| "honest_sends (SendLen len # rs) n \<longleftrightarrow> 0 < len \<and> len \<le> min n max_buf_sz \<and> honest_sends rs (n - len)"
| "honest_sends (r # rs) n \<longleftrightarrow> honest_sends rs n"

lemma send_loop_sent:
  "honest_sends rs n \<Longrightarrow> n \<le> length data \<Longrightarrow> concat sent = take (length data - n) data \<Longrightarrow>
   \<forall>m \<in> set sent. length m \<le> max_buf_sz \<Longrightarrow> send_loop rs data n sent = Inr (ms, c) \<Longrightarrow>
   prefix (concat ms) data \<and> (c = Called None \<longrightarrow> concat ms = data) \<and> c \<noteq> NotCalled \<and>
   (\<forall>m \<in> set ms. length m \<le> max_buf_sz)"
proof (induction rs data n sent rule: send_loop.induct)
  case (2 r rs data n sent)
  show ?case
  proof (cases r)
    case (SendLen len)
    let ?buf = "take (if n > max_buf_sz then max_buf_sz else n) (drop (length data - n) data)"
    have len: "len \<le> n" "len \<le> max_buf_sz" "honest_sends rs (n - len)" using "2.prems"(1) SendLen by auto
    have "take len ?buf = take len (drop (length data - n) data)" using len by (auto simp: min_def)
    then have c: "concat (sent @ [take len ?buf]) = take (length data - (n - len)) data"
      using len(1) "2.prems"(2,3) by (simp add: take_add [symmetric])
    have l: "\<forall>m \<in> set (sent @ [take len ?buf]). length m \<le> max_buf_sz" using len(2) "2.prems"(4) by simp
    show ?thesis
    proof (cases "n - len > 0")
      case True
      with "2.prems"(5) SendLen have "send_loop rs data (n - len) (sent @ [take len ?buf]) = Inr (ms, c)"
        by (simp add: Let_def)
      with "2.IH"(1) [OF refl SendLen refl refl True len(3) _ c l] "2.prems"(2) show ?thesis by simp
    next
      case False
      with "2.prems"(5) SendLen c l show ?thesis by (auto simp: Let_def)
    qed
  next
    case (SendWouldBlock e)
    show ?thesis
    proof (cases e)
      case None
      with "2.prems"(5) SendWouldBlock have "send_loop rs data n sent = Inr (ms, c)" by (simp add: Let_def)
      with "2.IH"(2) [OF refl SendWouldBlock None] "2.prems"(1-4) SendWouldBlock show ?thesis by simp
    next
      case (Some x)
      with "2.prems"(5) SendWouldBlock have "ms = sent" "c = Called (Some x)" by (simp_all add: Let_def)
      with "2.prems"(3,4) show ?thesis by (simp add: take_is_prefix)
    qed
  next
    case SendInterrupted
    with "2.prems"(5) have "send_loop rs data n sent = Inr (ms, c)" by (simp add: Let_def)
    with "2.IH"(3) [OF refl SendInterrupted] "2.prems"(1-4) SendInterrupted show ?thesis by simp
  next
    case SendInvalid
    with "2.prems"(5) have "ms = sent" "c = Called (Some EINVAL)" by (simp_all add: Let_def)
    with "2.prems"(3,4) show ?thesis by (simp add: take_is_prefix)
  next
    case (SendFailed x)
    with "2.prems"(5) have "ms = sent" "c = Called (Some x)" by (simp_all add: Let_def)
    with "2.prems"(3,4) show ?thesis by (simp add: take_is_prefix)
  qed
qed simp

lemma sctp_write_sent:
  assumes "honest_sends rets (length d)" "sctp_write ec status rets d = Inr (Some (ms, c))"
  shows "prefix (concat ms) d \<and> (c = Called None \<longrightarrow> concat ms = d) \<and> c \<noteq> NotCalled \<and> (\<forall>m \<in> set ms. length m \<le> max_buf_sz)"
  using assms send_loop_sent [of rets "length d" d "[]" ms c]
  by (auto simp: sctp_write_def rbind_Inr_iff split: option.splits status_ret.splits if_splits)

lemma sctp_carried:
  "\<forall>t \<in> set ts. honest_sends (wt_sends t) (length d) \<Longrightarrow> sctp_async_write ts d = Inr (ms, c) \<Longrightarrow>
   prefix (concat ms) d \<and> (c = Called None \<longrightarrow> concat ms = d) \<and> c \<noteq> NotCalled \<and> (\<forall>m \<in> set ms. length m \<le> max_buf_sz)"
proof (induction ts)
  case (Cons t ts)
  let ?ec = "if wt_in_server t then wt_error t else Some ECONNRESET"
  from Cons.prems(2) obtain r where r: "sctp_write ?ec (wt_status t) (wt_sends t) d = Inr r"
    "(case r of None \<Rightarrow> sctp_async_write ts d | Some x \<Rightarrow> Inr x) = Inr (ms, c)"
    by (auto simp: rbind_Inr_iff)
  show ?case
  proof (cases r)
    case None
    with Cons r(2) show ?thesis by simp
  next
    case (Some x)
    with r Cons.prems(1) sctp_write_sent [of "wt_sends t" d ?ec "wt_status t" ms c] show ?thesis by simp
  qed
qed simp

fun honest_unix :: "unix_ret list \<Rightarrow> nat \<Rightarrow> bool" where
  "honest_unix [] n \<longleftrightarrow> True"
| "honest_unix (UnixSent k # rs) n \<longleftrightarrow> k \<le> n \<and> honest_unix rs (n - k)"
| "honest_unix (r # rs) n \<longleftrightarrow> honest_unix rs n"

lemma unix_carried:
  "honest_unix rs (length d) \<Longrightarrow> unix_async_write rs d sent = Inr (ms, c) \<Longrightarrow>
   prefix (concat ms) (concat sent @ d) \<and> (c = Called None \<longrightarrow> concat ms = concat sent @ d)"
proof (induction rs d sent rule: unix_async_write.induct)
  case (2 n rs d sent)
  then have n: "n \<le> length d" "honest_unix rs (length (drop n d))" by simp_all
  show ?case
  proof (cases "length d - n > 0")
    case True
    with "2.prems"(2) have "unix_async_write rs (drop n d) (sent @ [take n d]) = Inr (ms, c)" by (simp add: Let_def)
    from "2.IH" [OF refl refl True n(2) this] show ?thesis by simp
  next
    case False
    with "2.prems"(2) n(1) show ?thesis by (auto simp: Let_def)
  qed
qed auto

interpretation over_sctp: byte_transport sctp_async_write "\<lambda>ts d. \<forall>t \<in> set ts. honest_sends (wt_sends t) (length d)"
proof
  show "prefix (concat ms) d" if "\<forall>t \<in> set ts. honest_sends (wt_sends t) (length d)" "sctp_async_write ts d = Inr (ms, c)"
    for ts d ms c using sctp_carried [OF that] by blast
  show "concat ms = d" if "\<forall>t \<in> set ts. honest_sends (wt_sends t) (length d)" "sctp_async_write ts d = Inr (ms, Called None)"
    for ts d ms using sctp_carried [OF that] by blast
qed

interpretation over_unix: byte_transport "\<lambda>rs d. unix_async_write rs d []" "\<lambda>rs d. honest_unix rs (length d)"
proof
  show "prefix (concat ms) d" if "honest_unix rs (length d)" "unix_async_write rs d [] = Inr (ms, c)"
    for rs d ms c using unix_carried [OF that] by simp
  show "concat ms = d" if "honest_unix rs (length d)" "unix_async_write rs d [] = Inr (ms, Called None)"
    for rs d ms using unix_carried [OF that] by simp
qed

section \<open>Properties\<close>

text \<open>
  A write to an SCTP session, however \<open>sendmsg\<close> cuts it, is interrupted or blocks: no message is
  longer than \<open>MAX_BUF_SZ\<close>, what was sent is a prefix of the data, the completion
  function is called, and it is called without an error only when all of the data was sent.
\<close>
theorem sctp_write_complete:
  assumes "\<forall>t \<in> set ts. honest_sends (wt_sends t) (length d)" "sctp_async_write ts d = Inr (ms, c)"
  shows "prefix (concat ms) d \<and> (\<forall>m \<in> set ms. length m \<le> max_buf_sz) \<and> (\<exists>e. c = Called e \<and> (e = None \<longrightarrow> concat ms = d))"
  using sctp_carried [OF assms] by (cases c) auto

definition demo_turns :: "write_turn list" where
  "demo_turns = [\<lparr>wt_in_server = True, wt_error = None, wt_status = StatusOk SCTP_COOKIE_WAIT, wt_sends = []\<rparr>,
     \<lparr>wt_in_server = True, wt_error = None, wt_status = StatusOk SCTP_ESTABLISHED,
      wt_sends = [SendLen 1, SendWouldBlock None, SendInterrupted, SendLen 2]\<rparr>]"

lemma demo_turns_honest: "\<forall>t \<in> set demo_turns. honest_sends (wt_sends t) (length ''abc'')"
  by (simp add: demo_turns_def max_buf_sz_def)

lemma demo_turns_sent: "sctp_async_write demo_turns ''abc'' = Inr ([''a'', ''bc''], Called None)"
  by (simp add: demo_turns_def sctp_write_def max_buf_sz_def)

theorem sctp_write_complete_witness:
  "prefix (concat [''a'', ''bc'']) ''abc'' \<and> (\<exists>e. Called None = Called e \<and> (e = None \<longrightarrow> concat [''a'', ''bc''] = ''abc''))"
  using sctp_write_complete [OF demo_turns_honest demo_turns_sent] by (elim conjE) (intro conjI)

text \<open>
  A session that was closed writes nothing: whatever the state of its association, the completion function
  is called with the error of a reset connection.
\<close>
theorem closed_session_silent:
  assumes "\<not> server_has p sv" "wt_in_server t = server_has p sv"
  shows "sctp_async_write (t # ts) d = Inr ([], Called (Some ECONNRESET))"
  using assms by (simp add: sctp_write_def)

theorem closed_session_silent_witness:
  "sctp_async_write [\<lparr>wt_in_server = False, wt_error = None, wt_status = StatusFailed, wt_sends = []\<rparr>] ''abc'' =
     Inr ([], Called (Some ECONNRESET))"
  using closed_session_silent [of 0 "server_rm 0 demo_server"
      "\<lparr>wt_in_server = False, wt_error = None, wt_status = StatusFailed, wt_sends = []\<rparr>" "[]" "''abc''"]
  by (simp add: server_has_def server_rm_def demo_server_def)

text \<open>
  C14: from controller to controller: a chunked request that one controller writes to an SCTP stream,
  and whose write is reported as successful, is the request that the other reads from the session of that
  stream, whatever else arrives on the socket in between.
\<close>
theorem request_over_sctp:
  assumes "verb \<notin> {GET, DELETE, TRACE, VerbUnknown}" "ver \<noteq> VersionUnknown"
    "route \<noteq> []" "\<forall>c \<in> set route. \<not> is_space c"
    "\<forall>(f, v) \<in> set fvs. field_text f \<noteq> None \<and> f \<noteq> CONTENT_LENGTH \<and> value_text v"
    "\<forall>d \<in> set ds. d \<noteq> [] \<and> length d < 2 ^ 60"
    and c: "client_write (new_session\<lparr>hs_request := mk_request verb route ver fvs ds\<rparr>) = Inr c"
    and t: "\<forall>t \<in> set ts. honest_sends (wt_sends t) (length (hs_out c))" "sctp_async_write ts (hs_out c) = Inr (ms, Called None)"
    and sv: "sctp_inv sv" "session_text i sv = []" "receive_all arrived sv = Inr sv'"
      "\<forall>(j, m) \<in> set arrived. st_assoc j \<notin> {future_assoc, all_assoc, current_assoc}"
      "map snd (filter (\<lambda>(j, m). j = i) arrived) = ms"
  shows "\<exists>s. server_read (receive (session_text i sv') new_session) = Inr s \<and> hs_in s = [] \<and>
    req_verb (hs_request s) = verb \<and> req_route (hs_request s) = route \<and>
    map (\<lambda>h. (field_name h, field_value h)) (msg_headers (hs_request s)) = fvs @ [(END_OF_HEADERS, [])] \<and>
    map chunk_data (msg_chunks (hs_request s)) = ds @ [[]]"
proof -
  have "session_text i sv' = concat ms"
    using receive_all_text [OF sv(1,4)] sv(2,3,5) by auto
  then show ?thesis
    using over_sctp.request_carried [OF assms(1-6) c t] by (simp add: over_sctp.fold_receive)
qed

theorem request_over_sctp_witness:
  "\<exists>(c :: http_session) ts ms sv' s. sctp_async_write ts (hs_out c) = Inr (ms, Called None) \<and>
     receive_all (map (\<lambda>m. (demo_stream, m)) ms) new_server = Inr sv' \<and>
     server_read (receive (session_text demo_stream sv') new_session) = Inr s \<and> req_verb (hs_request s) = PUT"
proof -
  let ?q = "mk_request PUT ''/run'' V1_1 [] []"
  let ?t = "''PUT '' @ ''/run'' @ '' HTTP/1.1'' @ CRLF @ CRLF @ ''0'' @ CRLF @ CRLF"
  let ?c = "new_session\<lparr>hs_request := ?q\<lparr>http_request_line_complete := True, next_header := 1, next_chunk := 1\<rparr>, hs_out := ?t\<rparr>"
  let ?ts = "[\<lparr>wt_in_server = True, wt_error = None, wt_status = StatusOk SCTP_ESTABLISHED, wt_sends = [SendLen (length ?t)]\<rparr>]"
  have "request_show ?q = Inr ?t"
    using request_show_mk [of PUT "[]" "[]" "''/run''" V1_1]
    by (simp add: verb_text_def version_text_def headers_show_def chunk_text_def show_nat.simps digit_char_def mk_request_def)
  then have c: "client_write (new_session\<lparr>hs_request := ?q\<rparr>) = Inr ?c"
    by (simp add: client_write_def new_session_def Let_def mk_request_def)
  have out: "hs_out ?c = ?t" by simp
  have h: "\<forall>t \<in> set ?ts. honest_sends (wt_sends t) (length (hs_out ?c))" by (simp add: max_buf_sz_def)
  have w: "sctp_async_write ?ts (hs_out ?c) = Inr ([?t], Called None)" by (simp add: sctp_write_def max_buf_sz_def)
  have v: "st_assoc demo_stream \<notin> {future_assoc, all_assoc, current_assoc}"
    by (simp add: demo_stream_def future_assoc_def all_assoc_def current_assoc_def)
  then obtain out sv' where "receive_data demo_stream ?t new_server = Inr (out, sv')"
    using receive_valid by blast
  then have r: "receive_all [(demo_stream, ?t)] new_server = Inr sv'" by (simp add: receive_all_def)
  obtain s where s: "server_read (receive (session_text demo_stream sv') new_session) = Inr s" "req_verb (hs_request s) = PUT"
  proof -
    have "\<exists>s. server_read (receive (session_text demo_stream sv') new_session) = Inr s \<and> hs_in s = [] \<and>
    req_verb (hs_request s) = PUT \<and> req_route (hs_request s) = ''/run'' \<and>
    map (\<lambda>h. (field_name h, field_value h)) (msg_headers (hs_request s)) = [] @ [(END_OF_HEADERS, [])] \<and>
    map chunk_data (msg_chunks (hs_request s)) = [] @ [[]]"
    using v by (intro request_over_sctp [OF _ _ _ _ _ _ c h w inv_new_server _ r])
      (simp_all add: is_space_def session_text_def new_server_def)
    with that show thesis by blast
  qed
  have r': "receive_all (map (\<lambda>m. (demo_stream, m)) [?t]) new_server = Inr sv'" using r by simp
  show ?thesis by (intro exI conjI) (rule w, rule r', rule s(1), rule s(2))
qed

text \<open>
  A Unix socket delivers every byte of a successful write, and when a write fails for a reason
  other than a full buffer or a broken pipe the completion function is never called, so that the session that
  waits for it is never closed.
\<close>
theorem unix_write_complete:
  assumes "honest_unix rs (length d)" "unix_async_write rs d [] = Inr (ms, c)"
  shows "prefix (concat ms) d \<and> (c = Called None \<longrightarrow> concat ms = d) \<and> (c \<noteq> Called None \<longrightarrow> c = NotCalled \<and> UnixFailed \<in> set rs)"
proof -
  have "unix_async_write rs d sent = Inr (ms, c) \<Longrightarrow> c = Called None \<or> c = NotCalled \<and> UnixFailed \<in> set rs" for sent
    by (induction rs d sent rule: unix_async_write.induct) (auto simp: Let_def split: if_splits)
  with unix_carried [OF assms] assms(2) show ?thesis by auto
qed

theorem unix_write_complete_witness:
  "concat [''a'', ''bc''] = ''abc'' \<and> prefix (concat [''a'']) ''abc''"
  using unix_write_complete [of "[UnixWouldBlock, UnixSent 1, UnixSent 2]" "''abc''" "[''a'', ''bc'']" "Called None"]
    unix_write_complete [of "[UnixSent 1, UnixFailed]" "''abc''" "[''a'']" NotCalled] by simp

end
