(* ===== verification/ControllerIO.thy ===== *)
theory ControllerIO
  imports Transports
begin

text \<open>
  \<open>controller::io::IO\<close> (\<open>controller-io.cpp\<close>, \<open>controller-io.hpp\<close>): the choice of the local SCTP address,
  the dispatch of connects, and the message queue with its event word, through which the I/O
  thread, the executors and the scheduling loop of \<open>Controller::start\<close> talk to each other.
\<close>

section \<open>The local address\<close>

text \<open>
  An entry of \<open>getifaddrs\<close>: no address, an address of another family, or an IPv4 address.  Addresses
  are the 32 bits of \<open>s_addr\<close>; \<open>garbage\<close> is what the variables hold before they are written.
\<close>

datatype if_address = NoAddress | OtherFamily | Inet "32 word"

fun select_interface :: "32 word \<Rightarrow> 32 word \<Rightarrow> if_address list \<Rightarrow> 32 word result" where
  "select_interface laddr nprefix [] = Inr laddr"
| "select_interface laddr nprefix (NoAddress # ifs) = Inl (Undefined ''null pointer'')"
| "select_interface laddr nprefix (OtherFamily # ifs) = select_interface laddr nprefix ifs"
| "select_interface laddr nprefix (Inet a # ifs) =
     (if and a nprefix = nprefix then Inr a else select_interface laddr nprefix ifs)"

definition local_address ::
  "(string \<Rightarrow> 32 word option) \<Rightarrow> 32 word \<Rightarrow> environment \<Rightarrow> nat \<Rightarrow> if_address list option \<Rightarrow> peer result" where
  "local_address aton garbage genv port ifs =
     (let subnet = (case genv ''__OW_KUBENET'' of None \<Rightarrow> ''127.0.0.0/8'' | Some s \<Rightarrow> s) in
      case find_char CHR ''/'' subnet of
        None \<Rightarrow> Inl (Thrown ''this shouldn't be possible'')
      | Some pos \<Rightarrow>
          (let nprefix = (case aton (take pos subnet) of None \<Rightarrow> garbage | Some a \<Rightarrow> a) in
           case ifs of
             None \<Rightarrow> Inl (Thrown ''This shouldn't be possible.'')
           | Some ls \<Rightarrow> rbind (select_interface garbage nprefix ls) (\<lambda>a. Inr \<lparr>peer_addr = a, peer_port = port\<rparr>)))"

section \<open>Connecting\<close>

datatype family = AF_UNIX | AF_INET | AF_OTHER

record remote =
  rm_family :: family
  rm_seqpacket :: bool
  rm_sctp :: bool
  rm_peer :: peer

text \<open>The \<open>switch\<close> over family, type and protocol; \<open>unix_conn\<close> is \<open>us_.async_connect\<close>.\<close>

definition io_async_connect ::
  "(remote \<Rightarrow> nat \<Rightarrow> sctp_action list) \<Rightarrow> peer_info \<Rightarrow> remote \<Rightarrow> nat \<Rightarrow> sctp_server \<Rightarrow> sctp_action list \<times> sctp_server" where
  "io_async_connect unix_conn info rmt cb sv = (case rm_family rmt of
     AF_UNIX \<Rightarrow> (unix_conn rmt cb, sv)
   | AF_INET \<Rightarrow>
       (if rm_seqpacket rmt \<and> rm_sctp rmt then sctp_async_connect info (rm_peer rmt) cb sv else ([], sv))
   | AF_OTHER \<Rightarrow> ([], sv))"

section \<open>The message queue\<close>

definition max_queue_length :: nat where
  "max_queue_length = 1024"

definition mq_is_full :: "'m list \<Rightarrow> bool" where
  "mq_is_full mq \<longleftrightarrow> max_queue_length \<le> length mq"

definition mq_push :: "'m \<Rightarrow> 'm list \<Rightarrow> 'm list" where
  "mq_push m mq = mq @ [m]"

definition mq_pull :: "'m list \<Rightarrow> 'm option \<times> 'm list" where
  "mq_pull mq = (case mq of [] \<Rightarrow> (None, []) | m # ms \<Rightarrow> (Some m, ms))"

text \<open>
  The threads, between two accesses to shared data.  The I/O thread runs the callbacks of both transports:
  it waits until the queue is not full, raises the read event, and pushes.  The scheduling loop loads
  the event word, clears what it has loaded but for the terminate event, and pulls.
\<close>

datatype 'm io_pc = IoIdle | IoChecked 'm | IoRaised 'm
datatype ctl_pc = CtlTop | CtlLoaded "16 word" | CtlCleared "16 word" | CtlRunning "16 word" | CtlDone

record 'm io_state =
  mq :: "'m list"
  box :: "16 word"
  io_at :: "'m io_pc"
  ctl_at :: ctl_pc
  pushed :: "'m list"
  pulled :: "'m list"
  raised :: "16 word"

definition clear_events :: "16 word \<Rightarrow> 16 word \<Rightarrow> 16 word" where
  "clear_events loaded w = and w (not (and loaded (not ctl_terminate_event)))"

text \<open>
  \<open>pushed\<close> and \<open>pulled\<close> are the history of the queue, \<open>raised\<close> the events that were raised and
  that no run of the loop body which began after that has taken.  \<open>idle\<close> says that the controller
  has no session and no context left.
\<close>

inductive io_step :: "'m io_state \<Rightarrow> 'm io_state \<Rightarrow> bool" where
  io_check: "io_at s = IoIdle \<Longrightarrow> \<not> mq_is_full (mq s) \<Longrightarrow> io_step s (s\<lparr>io_at := IoChecked m\<rparr>)"
| io_raise: "io_at s = IoChecked m \<Longrightarrow>
    io_step s (s\<lparr>io_at := IoRaised m, box := or (box s) ctl_read_event, raised := or (raised s) ctl_read_event\<rparr>)"
| io_push: "io_at s = IoRaised m \<Longrightarrow> io_step s (s\<lparr>io_at := IoIdle, mq := mq_push m (mq s), pushed := pushed s @ [m]\<rparr>)"
| other_raise: "e \<in> {ctl_end_event, ctl_terminate_event} \<Longrightarrow>
    io_step s (s\<lparr>box := or (box s) e, raised := or (raised s) e\<rparr>)"
| ctl_load: "ctl_at s = CtlTop \<Longrightarrow> io_step s (s\<lparr>ctl_at := CtlLoaded (box s)\<rparr>)"
| ctl_clear: "ctl_at s = CtlLoaded l \<Longrightarrow> io_step s (s\<lparr>ctl_at := CtlCleared l, box := clear_events l (box s)\<rparr>)"
| ctl_pull: "ctl_at s = CtlCleared l \<Longrightarrow> mq_pull (mq s) = (x, ms) \<Longrightarrow>
    io_step s (s\<lparr>ctl_at := (if idle \<and> and l ctl_terminate_event \<noteq> 0 then CtlDone else CtlRunning l),
      mq := ms, pulled := pulled s @ (case x of None \<Rightarrow> [] | Some m \<Rightarrow> [m]),
      raised := and (raised s) (not l)\<rparr>)"
| ctl_again: "ctl_at s = CtlRunning l \<Longrightarrow> io_step s (s\<lparr>ctl_at := CtlTop\<rparr>)"

inductive_cases io_stepE: "io_step s s'"

definition io_start :: "'m io_state" where
  "io_start = \<lparr>mq = [], box = 0, io_at = IoIdle, ctl_at = CtlTop, pushed = [], pulled = [], raised = 0\<rparr>"

text \<open>
  The invariants: the queue is a window of the history and within its bound, with one place
  reserved for the message in hand; and every raised event is still in the word or in the copy of it that the
  loop has just taken.
\<close>

definition in_hand :: "ctl_pc \<Rightarrow> 16 word" where
  "in_hand c = (case c of CtlLoaded l \<Rightarrow> l | CtlCleared l \<Rightarrow> l | _ \<Rightarrow> 0)"

definition io_inv :: "'m io_state \<Rightarrow> bool" where
  "io_inv s \<longleftrightarrow> pushed s = pulled s @ mq s \<and> length (mq s) \<le> max_queue_length \<and>
     (io_at s \<noteq> IoIdle \<longrightarrow> length (mq s) < max_queue_length) \<and>
     and (raised s) (not (or (box s) (in_hand (ctl_at s)))) = 0"

lemma bits_16: "(w :: 16 word) = v \<longleftrightarrow> (\<forall>n < 16. bit w n = bit v n)"
  by (simp add: bit_eq_iff)

lemma raised_step:
  fixes r b h e :: "16 word"
  assumes "and r (not (or b h)) = 0"
  shows "and (or r e) (not (or (or b e) h)) = 0" "and r (not (or (clear_events h b) h)) = 0"
    "and (and r (not h)) (not (or b 0)) = 0"
proof -
  have a: "bit b n \<or> bit h n" if "n < 16" "bit r n" for n
    using assms that by (auto simp: bits_16 bit_simps)
  show "and (or r e) (not (or (or b e) h)) = 0" using a by (auto simp: bits_16 bit_simps)
  show "and r (not (or (clear_events h b) h)) = 0" using a by (auto simp: bits_16 bit_simps clear_events_def)
  show "and (and r (not h)) (not (or b 0)) = 0" using a by (auto simp: bits_16 bit_simps)
qed

lemma raised_load: "and r (not (or b 0)) = 0 \<Longrightarrow> and r (not (or b b)) = 0" for r b :: "16 word"
  by simp

lemma io_inv_start: "io_inv io_start"
  by (simp add: io_inv_def io_start_def in_hand_def)

lemma io_inv_step: "io_step s s' \<Longrightarrow> io_inv s \<Longrightarrow> io_inv s'"
proof (induction rule: io_step.induct)
  case (io_check s m)
  then show ?case by (auto simp: io_inv_def mq_is_full_def)
next
  case (io_raise s m)
  then show ?case using raised_step(1) [of "raised s" "box s" "in_hand (ctl_at s)"] by (simp add: io_inv_def)
next
  case (io_push s m)
  then show ?case by (simp add: io_inv_def mq_push_def)
next
  case (other_raise e s)
  then show ?case using raised_step(1) [of "raised s" "box s" "in_hand (ctl_at s)" e] by (simp add: io_inv_def)
next
  case (ctl_load s)
  then show ?case by (simp add: io_inv_def in_hand_def)
next
  case (ctl_clear s l)
  then show ?case using raised_step(2) [of "raised s" "box s" l] by (simp add: io_inv_def in_hand_def)
next
  case (ctl_pull s l x ms idle)
  have "in_hand (if idle \<and> and l ctl_terminate_event \<noteq> 0 then CtlDone else CtlRunning l) = 0"
    by (simp add: in_hand_def)
  moreover have "mq s = (case x of None \<Rightarrow> [] | Some m \<Rightarrow> [m]) @ ms"
    using ctl_pull.hyps(2) by (auto simp: mq_pull_def split: list.splits)
  ultimately show ?case
    using ctl_pull.prems ctl_pull.hyps(1) raised_step(3) [of "raised s" "box s" l]
    by (auto simp: io_inv_def in_hand_def)
next
  case (ctl_again s l)
  then show ?case by (simp add: io_inv_def in_hand_def)
qed

lemma io_inv_run: "io_step\<^sup>*\<^sup>* s s' \<Longrightarrow> io_inv s \<Longrightarrow> io_inv s'"
  by (induction rule: rtranclp_induct) (auto intro: io_inv_step)

section \<open>Properties\<close>

text \<open>
  C38: the queue between the I/O thread and the scheduling loop is a bounded first-in-first-out
  queue: however the threads interleave, messages are pulled in the order in which they were pushed, none is
  lost or duplicated, and there are never more than \<open>MAX_QUEUE_LENGTH\<close>.
\<close>
theorem message_queue_fifo:
  assumes "io_step\<^sup>*\<^sup>* io_start s"
  shows "pushed s = pulled s @ mq s \<and> length (mq s) \<le> max_queue_length"
  using io_inv_run [OF assms io_inv_start] by (simp add: io_inv_def)

theorem message_queue_fifo_witness:
  "pushed (io_start\<lparr>io_at := IoChecked (1 :: nat)\<rparr>) = pulled (io_start\<lparr>io_at := IoChecked (1 :: nat)\<rparr>) @ mq (io_start\<lparr>io_at := IoChecked (1 :: nat)\<rparr>)"
proof -
  have "io_step io_start (io_start\<lparr>io_at := IoChecked (1 :: nat)\<rparr>)"
    by (rule io_step.io_check) (simp_all add: io_start_def mq_is_full_def max_queue_length_def)
  from message_queue_fifo [OF r_into_rtranclp [where r = io_step, OF this]] show ?thesis by (rule conjunct1)
qed

text \<open>
  C39: no event is lost: an event that was raised stays in the event word until the scheduling loop has
  taken a copy of the word that has it, whatever the other threads do between the load and the
  clearing; and the loop body that runs with that copy begins after the event was raised.  The
  terminate event is never cleared.
\<close>
theorem events_not_lost:
  assumes "io_step\<^sup>*\<^sup>* io_start s"
  shows "(\<forall>n < 16. bit (raised s) n \<longrightarrow> bit (box s) n \<or> bit (in_hand (ctl_at s)) n) \<and>
    (\<forall>s' n. io_step s s' \<longrightarrow> bit (box s) n \<longrightarrow> \<not> bit (box s') n \<longrightarrow>
      (\<exists>l. ctl_at s = CtlLoaded l \<and> ctl_at s' = CtlCleared l \<and> bit l n) \<and> \<not> bit ctl_terminate_event n)"
proof (intro conjI allI impI)
  have "and (raised s) (not (or (box s) (in_hand (ctl_at s)))) = 0"
    using io_inv_run [OF assms io_inv_start] by (simp add: io_inv_def)
  then show "bit (box s) n \<or> bit (in_hand (ctl_at s)) n" if "n < 16" "bit (raised s) n" for n
    using that by (auto simp: bits_16 bit_simps)
  show "\<exists>l. ctl_at s = CtlLoaded l \<and> ctl_at s' = CtlCleared l \<and> bit l n" "\<not> bit ctl_terminate_event n"
    if "io_step s s'" "bit (box s) n" "\<not> bit (box s') n" for s' n
    using that bit_imp_le_length [OF that(2)] by (auto elim!: io_stepE simp: bit_simps clear_events_def)
qed

theorem events_not_lost_witness:
  "\<exists>s :: nat io_state. io_step\<^sup>*\<^sup>* io_start s \<and> bit (raised s) 2 \<and> (bit (box s) 2 \<or> bit (in_hand (ctl_at s)) 2)"
proof -
  let ?i = "io_start :: nat io_state"
  let ?s = "?i\<lparr>box := or (box ?i) ctl_end_event, raised := or (raised ?i) ctl_end_event\<rparr>"
  have "io_step ?i ?s" by (rule io_step.other_raise) simp
  then have r: "io_step\<^sup>*\<^sup>* ?i ?s" by (rule r_into_rtranclp)
  have "bit (raised ?s) 2" by (simp add: io_start_def ctl_end_event_def)
  with events_not_lost [OF r] r show ?thesis by (intro exI [of _ ?s]) auto
qed

lemma select_interface_first:
  "NoAddress \<notin> set ifs \<Longrightarrow> select_interface g np ifs =
     Inr (case filter (\<lambda>i. \<exists>a. i = Inet a \<and> and a np = np) ifs of Inet a # _ \<Rightarrow> a | _ \<Rightarrow> g)"
  by (induction g np ifs rule: select_interface.induct) auto

text \<open>
  Which address is the local one.  An interface inside the configured network always passes the
  test, and the first interface that passes is taken; but the test looks only at the one-bits of the network
  number and not at the prefix length, so with the network \<open>10.0.0.0/8\<close> the loopback address
  \<open>127.0.0.1\<close> passes, and is taken when it is the first, whatever follows.
\<close>
theorem local_address_choice:
  assumes "genv ''__OW_KUBENET'' = Some ''10.0.0.0/8''" "aton ''10.0.0.0'' = Some 0x0000000A"
  shows "(\<forall>mask np a. and a mask = np \<longrightarrow> and a np = np) \<and>
    local_address aton garbage genv port (Some (Inet 0x0100007F # ifs)) = Inr \<lparr>peer_addr = 0x0100007F, peer_port = port\<rparr>"
proof
  show "\<forall>mask np a. and a mask = np \<longrightarrow> and a np = np" by (auto simp: and.assoc [symmetric])
  show "local_address aton garbage genv port (Some (Inet 0x0100007F # ifs)) = Inr \<lparr>peer_addr = 0x0100007F, peer_port = port\<rparr>"
    using assms by (simp add: local_address_def find_char_def Let_def)
qed

theorem local_address_choice_witness:
  "local_address (\<lambda>_. Some 0x0000000A) 0 (\<lambda>_. Some ''10.0.0.0/8'') 5300 (Some [Inet 0x0100007F, Inet 0x0302010A]) =
     Inr \<lparr>peer_addr = 0x0100007F, peer_port = 5300\<rparr>"
  by (rule local_address_choice [THEN conjunct2]) simp_all

text \<open>A connect to an address that is neither a Unix path nor an SCTP endpoint never completes.\<close>

lemma io_async_connect_dropped:
  "\<not> (rm_family rmt = AF_UNIX) \<Longrightarrow> \<not> (rm_family rmt = AF_INET \<and> rm_seqpacket rmt \<and> rm_sctp rmt) \<Longrightarrow>
   io_async_connect unix_conn info rmt cb sv = ([], sv)"
  by (cases "rm_family rmt") (auto simp: io_async_connect_def)

end
