(* ===== verification/InitResource.thy ===== *)
theory InitResource
  imports ExecutionContext
begin

text \<open>
  The initialization request (\<open>init.cpp\<close>, \<open>init.hpp\<close>): the code of an action is written to a file, or
  an archive of it is decoded and unpacked.  The state is the environment of the process and the
  files; \<open>/usr/bin/base64\<close> and \<open>/usr/bin/tar\<close> are parameters.
\<close>

section \<open>The request\<close>

text \<open>The values of the member \<open>env\<close>; \<open>JDouble\<close> carries the text \<open>std::to_string\<close> makes of it.\<close>

datatype env_value = JString string | JInt64 int | JUint64 nat | JDouble string | JOther

record init_value =
  iv_name :: string
  iv_main :: string
  iv_code :: string
  iv_binary :: bool
  iv_env :: "(string \<times> string) list"

definition show_int :: "int \<Rightarrow> string" where
  "show_int i = (if i < 0 then CHR ''-'' # show_nat 10 (nat (- i)) else show_nat 10 (nat i))"

definition env_text :: "env_value \<Rightarrow> string" where
  "env_text v = (case v of JString s \<Rightarrow> s | JInt64 i \<Rightarrow> show_int i | JUint64 n \<Rightarrow> show_nat 10 n | JDouble t \<Rightarrow> t | JOther \<Rightarrow> [])"

text \<open>\<open>std::map::emplace\<close>, and the constructor of the request.\<close>

definition env_emplace :: "string \<Rightarrow> string \<Rightarrow> init_value \<Rightarrow> init_value" where
  "env_emplace k v iv = (if k \<in> fst ` set (iv_env iv) then iv else iv\<lparr>iv_env := iv_env iv @ [(k, v)]\<rparr>)"

definition init_request :: "string \<Rightarrow> string \<Rightarrow> string \<Rightarrow> bool \<Rightarrow> (string \<times> env_value) list \<Rightarrow> init_value" where
  "init_request name main_name code binary env =
     fold (\<lambda>(k, v). env_emplace k (env_text v)) env
       \<lparr>iv_name = name, iv_main = main_name, iv_code = code, iv_binary = binary, iv_env = []\<rparr>"

section \<open>The text of the code\<close>

text \<open>\<open>code.find("\\n", pos)\<close>, a backslash followed by the letter.\<close>

fun find_escape :: "string \<Rightarrow> nat option" where
  "find_escape (a # b # cs) = (if a = CHR 0x5C \<and> b = CHR ''n'' then Some 0 else map_option Suc (find_escape (b # cs)))"
| "find_escape cs = None"

lemma find_escape_bound: "find_escape cs = Some p \<Longrightarrow> p + 2 \<le> length cs"
  by (induction cs arbitrary: p rule: find_escape.induct) (auto split: if_splits)

function newline_loop :: "string \<Rightarrow> nat \<Rightarrow> string" where
  "newline_loop code pos = (case find_escape (drop pos code) of
     None \<Rightarrow> code
   | Some p \<Rightarrow> newline_loop (take (pos + p) code @ [LF] @ drop (pos + p + 2) code) (pos + p + 1))"
  by pat_completeness auto
termination by (relation "measure (\<lambda>(code, pos). length code)") (auto dest!: find_escape_bound)

declare newline_loop.simps [simp del]

section \<open>Running it\<close>

record init_state =
  is_env :: environment
  is_files :: "string \<Rightarrow> string option"

definition setenv :: "string \<Rightarrow> string \<Rightarrow> environment \<Rightarrow> environment" where
  "setenv k v env = (if k = [] \<or> CHR ''='' \<in> set k then env else env(k := Some v))"

text \<open>
  \<open>base64extract\<close> in the parent: what it writes to the pipe of the child.  The outcome of \<open>fork\<close> is
  not looked at.  \<open>closed1\<close> and \<open>closed2\<close> are the outcomes of the two calls of \<open>close\<close>.
\<close>

record decode_calls =
  dc_pipe :: bool
  dc_closed1 :: bool
  dc_writes :: "write_ret list"
  dc_closed2 :: bool

definition base64extract :: "decode_calls \<Rightarrow> (string \<Rightarrow> string) \<Rightarrow> string \<Rightarrow> init_value \<Rightarrow> init_state \<Rightarrow> init_state result" where
  "base64extract calls decode filename iv s =
     (if \<not> dc_pipe calls \<or> \<not> dc_closed1 calls then what
      else rbind (write_loop (dc_writes calls) (iv_code iv) 0 []) (\<lambda>sent.
        if \<not> dc_closed2 calls then what else Inr (s\<lparr>is_files := (is_files s)(filename := Some (decode sent))\<rparr>)))"

definition tar_extract ::
  "bool \<Rightarrow> (string \<Rightarrow> string option \<Rightarrow> (string \<Rightarrow> string option) \<Rightarrow> (string \<Rightarrow> string option)) \<Rightarrow> string \<Rightarrow> init_state \<Rightarrow> init_state result" where
  "tar_extract forked untar filename s = (case is_env s ''__OW_ACTIONS'' of
     None \<Rightarrow> what
   | Some dir \<Rightarrow> if \<not> forked then what
       else Inr (s\<lparr>is_files := untar dir (is_files s filename) (is_files s)\<rparr>))"

definition initialize ::
  "decode_calls \<Rightarrow> (string \<Rightarrow> string) \<Rightarrow> bool \<Rightarrow> (string \<Rightarrow> string option \<Rightarrow> (string \<Rightarrow> string option) \<Rightarrow> (string \<Rightarrow> string option)) \<Rightarrow>
   bool \<Rightarrow> init_value \<Rightarrow> init_state \<Rightarrow> init_state result" where
  "initialize calls decode forked untar opened iv s0 =
     (let s = s0\<lparr>is_env := setenv ''__OW_ACTION_ENTRY_POINT'' (iv_main iv) (is_env s0)\<rparr> in
      case is_env s ''__OW_ACTIONS'' of
        None \<Rightarrow> Inl (Thrown ''Environment variable __OW_ACTIONS not defined.'')
      | Some actions \<Rightarrow>
        (if iv_binary iv then
           (let path = path_join actions ''archive.tgz'' in
            rbind (base64extract calls decode path iv s) (\<lambda>s1.
            rbind (tar_extract forked untar path s1) (\<lambda>s2.
              Inr (s2\<lparr>is_files := (is_files s2)(path := None),
                      is_env := fold (\<lambda>(k, v). setenv k v) (iv_env iv) (is_env s2)\<rparr>))))
         else
           (case is_env s ''__OW_ACTION_EXT'' of
              None \<Rightarrow> Inl (Thrown ''Environment variable __OW_ACTION_EXT not defined.'')
            | Some ext \<Rightarrow>
                (let path = path_join actions (''main.'' @ ext); code = newline_loop (iv_code iv) 0
                 in Inr (if opened then s\<lparr>is_files := (is_files s)(path := Some code)\<rparr> else s)))))"

section \<open>Properties\<close>

text \<open>Every backslash followed by the letter \<open>n\<close> becomes a line feed, from left to right.\<close>

fun unescape :: "string \<Rightarrow> string" where
  "unescape (a # b # cs) = (if a = CHR 0x5C \<and> b = CHR ''n'' then LF # unescape cs else a # unescape (b # cs))"
| "unescape cs = cs"

lemma unescape_find:
  "unescape cs = (case find_escape cs of None \<Rightarrow> cs | Some p \<Rightarrow> take p cs @ LF # unescape (drop (p + 2) cs))"
  by (induction cs rule: unescape.induct) (auto split: option.splits)

lemma newline_loop_eq: "pos \<le> length code \<Longrightarrow> newline_loop code pos = take pos code @ unescape (drop pos code)"
proof (induction code pos rule: newline_loop.induct)
  case (1 code pos)
  show ?case
  proof (cases "find_escape (drop pos code)")
    case None
    then show ?thesis by (subst newline_loop.simps) (simp add: unescape_find)
  next
    case (Some p)
    let ?code = "take (pos + p) code @ [LF] @ drop (pos + p + 2) code"
    have b: "pos + p + 2 \<le> length code" using find_escape_bound [OF Some] "1.prems" by simp
    then have "newline_loop code pos = take (pos + p + 1) ?code @ unescape (drop (pos + p + 1) ?code)"
      using "1.IH" [OF Some] Some by (subst newline_loop.simps) simp
    also have "\<dots> = take pos code @ take p (drop pos code) @ LF # unescape (drop (p + 2) (drop pos code))"
      using b by (simp add: take_add [symmetric] min_def ac_simps)
    also have "\<dots> = take pos code @ unescape (drop pos code)"
      by (subst unescape_find [of "drop pos code"]) (simp add: Some)
    finally show ?thesis .
  qed
qed

lemma unescape_none: "find_escape (unescape cs) = None \<and>
  (cs \<noteq> [] \<longrightarrow> unescape cs \<noteq> [] \<and> (hd (unescape cs) = hd cs \<or> hd (unescape cs) = LF))"
proof (induction cs rule: unescape.induct)
  case (1 a b cs)
  show ?case
  proof (cases "a = CHR 0x5C \<and> b = CHR ''n''")
    case True
    with 1 show ?thesis by (cases "unescape cs") auto
  next
    case False
    with 1(2) show ?thesis by (cases "unescape (b # cs)") auto
  qed
qed auto

text \<open>
  The loop that replaces the escapes in place, searching on from where it has replaced, ends and
  computes the plain recursive function; no escape is left.  It replaces every backslash with an \<open>n\<close>
  behind it, also one whose backslash is itself escaped.
\<close>
theorem code_newlines:
  "newline_loop code 0 = unescape code \<and> find_escape (newline_loop code 0) = None \<and>
   newline_loop [CHR 0x5C, CHR 0x5C, CHR ''n''] 0 = [CHR 0x5C, LF]"
  using newline_loop_eq [of 0] unescape_none [of code] by simp

text \<open>
  Initialization and run fit together: after plain code was initialized, a run in the same
  environment and without a manifest file has exactly one action, whose key is the entry point of the
  request and whose file holds the code of the request with its line ends.
\<close>
theorem init_then_run:
  assumes "\<not> iv_binary iv" "initialize calls decode forked untar True iv s = Inr s'"
    "w_doc w = None" "w_env w = is_env s'" "run_context w env = Inr c"
  shows "\<exists>r. map (rel_at (ec_manifest c)) (index (ec_manifest c)) = [r] \<and> rel_key r = iv_main iv \<and>
    is_files s' (rel_path r) = Some (unescape (iv_code iv))"
proof -
  let ?env = "setenv ''__OW_ACTION_ENTRY_POINT'' (iv_main iv) (is_env s)"
  from assms(1,2) obtain actions ext where e: "?env ''__OW_ACTIONS'' = Some actions" "?env ''__OW_ACTION_EXT'' = Some ext"
    and s': "s' = s\<lparr>is_env := ?env, is_files := (is_files s)(path_join actions (''main.'' @ ext) := Some (newline_loop (iv_code iv) 0))\<rparr>"
    by (auto simp: initialize_def Let_def split: option.splits)
  have entry: "?env ''__OW_ACTION_ENTRY_POINT'' = Some (iv_main iv)" by (simp add: setenv_def)
  have w: "w_env w = ?env" using assms(4) s' by simp
  then have m: "load_manifest a b w actions = Inr (push_relation (mk_relation [] (iv_main iv) (path_join actions (''main.'' @ ext)) []) empty_manifest)" for a b
    using assms(3) e entry by (simp add: load_manifest_def Let_def)
  have "ec_manifest c = push_relation (mk_relation [] (iv_main iv) (path_join actions (''main.'' @ ext)) []) empty_manifest"
    using assms(5) w e(1) m
    by (auto simp: run_context_def finish_context_def rbind_Inr_iff split: option.splits if_splits)
  then show ?thesis
    using newline_loop_eq [of 0 "iv_code iv"] by (simp add: s' push_relation_def empty_manifest_def rel_at_def mk_relation_def)
qed

definition demo_init :: init_value where
  "demo_init = \<lparr>iv_name = ''f'', iv_main = ''go'', iv_code = ''x'', iv_binary = False, iv_env = [(''K'', ''1'')]\<rparr>"

definition demo_init_state :: init_state where
  "demo_init_state = \<lparr>is_env = [''__OW_ACTIONS'' \<mapsto> ''/act'', ''__OW_ACTION_EXT'' \<mapsto> ''lua''], is_files = (\<lambda>_. None)\<rparr>"

definition demo_init_after :: init_state where
  "demo_init_after = demo_init_state\<lparr>is_env := (is_env demo_init_state)(''__OW_ACTION_ENTRY_POINT'' := Some ''go''),
     is_files := (\<lambda>_. None)(''/act/main.lua'' := Some ''x'')\<rparr>"

lemma demo_initialize: "initialize calls decode forked untar True demo_init demo_init_state = Inr demo_init_after"
proof -
  have "newline_loop ''x'' 0 = ''x''" using newline_loop_eq [of 0 "''x''"] by simp
  then show ?thesis
    by (simp add: initialize_def demo_init_def demo_init_state_def demo_init_after_def setenv_def Let_def path_join_def)
qed

theorem init_then_run_witness:
  "\<exists>(c :: exec_context) r. map (rel_at (ec_manifest c)) (index (ec_manifest c)) = [r] \<and> rel_key r = ''go'' \<and>
     is_files demo_init_after (rel_path r) = Some ''x''"
proof -
  let ?w = "\<lparr>w_env = is_env demo_init_after, w_doc = None, w_sort = id, w_aton = (\<lambda>_. None), w_mkdir = True,
     w_draws = [replicate 16 0], w_garbage = 0, w_fuel = 0\<rparr>"
  obtain u where u: "uuid_v4 (w_draws ?w) = Some u" by simp
  have "\<exists>c. run_context ?w [''__OW_ACTIVATION_ID'' \<mapsto> ''1''] = Inr c"
    using u by (simp add: run_context_def load_manifest_def finish_context_def demo_init_after_def demo_init_state_def Let_def)
  then obtain c where c: "run_context ?w [''__OW_ACTIVATION_ID'' \<mapsto> ''1''] = Inr c" by blast
  have "\<not> iv_binary demo_init" by (simp add: demo_init_def)
  moreover have "w_doc ?w = None" "w_env ?w = is_env demo_init_after" by simp_all
  ultimately have "\<exists>r. map (rel_at (ec_manifest c)) (index (ec_manifest c)) = [r] \<and> rel_key r = iv_main demo_init \<and>
     is_files demo_init_after (rel_path r) = Some (unescape (iv_code demo_init))"
    using demo_initialize c by (intro init_then_run)
  moreover have "iv_main demo_init = ''go''" "unescape (iv_code demo_init) = ''x''" by (simp_all add: demo_init_def)
  ultimately show ?thesis by (simp only:) (rule exI)
qed

text \<open>
  The environment of the request: the entry point is always set; the variables of the member
  \<open>env\<close> are set only when the code is an archive, for plain code they are dropped.
\<close>
theorem init_environment:
  assumes "initialize calls decode forked untar opened iv s = Inr s'"
  shows "is_env s' = fold (\<lambda>(k, v). setenv k v) (if iv_binary iv then iv_env iv else [])
    ((is_env s)(''__OW_ACTION_ENTRY_POINT'' := Some (iv_main iv)))"
  using assms
  by (auto simp: initialize_def Let_def rbind_Inr_iff base64extract_def tar_extract_def setenv_def
      split: option.splits if_splits)

theorem init_environment_witness:
  "is_env demo_init_after = (is_env demo_init_state)(''__OW_ACTION_ENTRY_POINT'' := Some ''go'') \<and>
   is_env demo_init_after ''K'' = None"
  using init_environment [OF demo_initialize]
  by (simp add: demo_init_def) (simp add: demo_init_state_def)

text \<open>
  The archive reaches the decoder: however the writes to the pipe are cut or interrupted, the
  file holds what the decoder makes of the whole text.
\<close>
theorem archive_written:
  assumes "base64extract calls decode filename iv s = Inr s'" "honest_writes (dc_writes calls) (length (iv_code iv))"
  shows "is_files s' = (is_files s)(filename := Some (decode (iv_code iv))) \<and> is_env s' = is_env s"
  using assms write_loop_sent [of "dc_writes calls" "iv_code iv" 0]
  by (auto simp: base64extract_def rbind_Inr_iff split: if_splits)

theorem archive_written_witness:
  "\<exists>s'. base64extract \<lparr>dc_pipe = True, dc_closed1 = True, dc_writes = [WriteNone EINTR, WriteLen 1], dc_closed2 = True\<rparr>
      (\<lambda>t. t @ t) ''/act/archive.tgz'' demo_init demo_init_state = Inr s' \<and> is_files s' ''/act/archive.tgz'' = Some ''xx''"
proof -
  let ?c = "\<lparr>dc_pipe = True, dc_closed1 = True, dc_writes = [WriteNone EINTR, WriteLen 1], dc_closed2 = True\<rparr>"
  have b: "base64extract ?c (\<lambda>t. t @ t) ''/act/archive.tgz'' demo_init demo_init_state =
      Inr (demo_init_state\<lparr>is_files := (is_files demo_init_state)(''/act/archive.tgz'' := Some ''xx'')\<rparr>)"
    by (simp add: base64extract_def demo_init_def)
  from archive_written [OF b] b show ?thesis by (simp add: demo_init_def)
qed

end
