(* ===== verification/Controller.thy ===== *)
theory Controller
  imports Scheduler Responses ControllerIO InitResource
begin

text \<open>
  \<open>Controller\<close> (\<open>controller-app.cpp\<close>): the routing of requests and responses, the passes over the
  contexts, and one turn of the scheduling loop, over the components of the other theories.  HTTP
  sessions are shared by pointer between the two servers, the contexts and the completion functions,
  so there is a store of sessions and a pointer is its position in it; a context carries the
  pointer it was made with.  What the controller asks of others is logged: posted bodies, connects that are
  under way, and sessions that are closed when their write completes.

  In \<open>route_request\<close> and the passes an exception ends the process, so \<open>Inl\<close> is the end of the run.
  Around \<open>route_response\<close> every exception is caught and the session is closed; the state the
  exception leaves behind is not modelled, only that it happened (\<open>ClientThrew\<close>).
\<close>

section \<open>The JSON library and the other parameters\<close>

text \<open>
  Each access function gives \<open>None\<close> where the library throws: a text that is not JSON, a value of
  another kind.  \<open>js_scalar\<close> sorts the values a variable of the environment can have.
\<close>

record 'j json_lib =
  js_parse :: "string \<Rightarrow> 'j option"
  js_text :: "'j \<Rightarrow> string"
  js_object :: "'j \<Rightarrow> (string \<times> 'j) list option"
  js_array :: "'j \<Rightarrow> 'j list option"
  js_string :: "'j \<Rightarrow> string option"
  js_bool :: "'j \<Rightarrow> bool option"
  js_scalar :: "'j \<Rightarrow> env_value"
  js_null :: 'j
  js_of_object :: "(string \<times> 'j) list \<Rightarrow> 'j"
  js_of_array :: "'j list \<Rightarrow> 'j"
  js_of_string :: "string \<Rightarrow> 'j"

definition or_throw :: "string \<Rightarrow> 'a option \<Rightarrow> 'a result" where
  "or_throw msg x = (case x of None \<Rightarrow> Inl (Thrown msg) | Some y \<Rightarrow> Inr y)"

definition parse_value :: "'j json_lib \<Rightarrow> string \<Rightarrow> 'j result" where
  "parse_value js s = or_throw ''Json Parsing failed.'' (js_parse js s)"

definition as_object :: "'j json_lib \<Rightarrow> 'j \<Rightarrow> (string \<times> 'j) list result" where
  "as_object js v = or_throw ''as_object'' (js_object js v)"

definition as_array :: "'j json_lib \<Rightarrow> 'j \<Rightarrow> 'j list result" where
  "as_array js v = or_throw ''as_array'' (js_array js v)"

definition as_string :: "'j json_lib \<Rightarrow> 'j \<Rightarrow> string result" where
  "as_string js v = or_throw ''as_string'' (js_string js v)"

definition at_key :: "string \<Rightarrow> (string \<times> 'j) list \<Rightarrow> 'j result" where
  "at_key k ob = or_throw ''out_of_range'' (map_of ob k)"

definition member :: "'j json_lib \<Rightarrow> string \<Rightarrow> 'j \<Rightarrow> 'j result" where
  "member js k v = rbind (as_object js v) (at_key k)"

fun strings_of :: "'j json_lib \<Rightarrow> 'j list \<Rightarrow> string list result" where
  "strings_of js [] = Inr []"
| "strings_of js (v # vs) = rbind (as_string js v) (\<lambda>s. rbind (strings_of js vs) (\<lambda>ss. Inr (s # ss)))"

text \<open>The two texts the other theories have as the parameter \<open>serialize\<close>.\<close>

definition result_object :: "'j json_lib \<Rightarrow> string \<Rightarrow> 'j \<Rightarrow> string" where
  "result_object js k j = js_text js (js_of_object js [(''result'', js_of_object js [(k, j)])])"

definition context_object :: "'j json_lib \<Rightarrow> (string \<times> 'j) list \<Rightarrow> string \<Rightarrow> string" where
  "context_object js rel u = js_text js (js_of_object js [(''execution_context'',
     js_of_object js [(''result'', js_of_object js rel), (''uuid'', js_of_string js u)])])"

record 'j params =
  pr_js :: "'j json_lib"
  pr_next :: chooser
  pr_world :: world
  pr_ntop :: "32 word \<Rightarrow> string"
  pr_ndebug :: bool
  pr_reuse :: bool
  pr_curl :: "nat \<Rightarrow> bool"
  pr_calls :: decode_calls
  pr_decode :: "string \<Rightarrow> string"
  pr_forked :: bool
  pr_untar :: "string \<Rightarrow> string option \<Rightarrow> (string \<Rightarrow> string option) \<Rightarrow> (string \<Rightarrow> string option)"
  pr_opened :: bool

section \<open>The requests as JSON values\<close>

definition index_value :: "env_value \<Rightarrow> nat result" where
  "index_value v = (case v of
     JInt64 i \<Rightarrow> Inr (nat (i mod 2 ^ 64))
   | JUint64 n \<Rightarrow> Inr n
   | _ \<Rightarrow> Inl (Thrown ''execution context index is too large.''))"

text \<open>\<open>run::Request\<close>: without the member \<open>execution_context\<close> the identifier is zero and the index is not used.\<close>

definition run_request_of :: "'j json_lib \<Rightarrow> (string \<times> 'j) list \<Rightarrow> run_request result" where
  "run_request_of js ob =
     (let env = request_env (map (\<lambda>(k, v). (k, env_text (js_scalar js v))) ob) in
      rbind (at_key ''value'' ob) (\<lambda>v. rbind (as_object js v) (\<lambda>value.
      case map_of value ''execution_context'' of
        None \<Rightarrow> Inr \<lparr>rr_id = zero_uuid, rr_idx = 0, rr_peers = [], rr_value = js_text js (js_of_object js value), rr_env = env\<rparr>
      | Some c \<Rightarrow>
          rbind (as_object js c) (\<lambda>context.
          rbind (at_key ''uuid'' context) (\<lambda>uv. rbind (as_string js uv) (\<lambda>u.
          rbind (at_key ''idx'' context) (\<lambda>iv. rbind (index_value (js_scalar js iv)) (\<lambda>i.
          rbind (at_key ''peers'' context) (\<lambda>pv. rbind (as_array js pv) (\<lambda>pa. rbind (strings_of js pa) (\<lambda>ps.
          rbind (at_key ''value'' context) (\<lambda>vv. rbind (as_object js vv) (\<lambda>args.
            Inr \<lparr>rr_id = fst (uuid_read zero_uuid (u, False)), rr_idx = i, rr_peers = ps,
                 rr_value = js_text js (js_of_object js args), rr_env = env\<rparr>)))))))))))))"

text \<open>\<open>init::Request\<close>: a missing member is inserted as null, and is then of the wrong kind.\<close>

definition find_member :: "'j json_lib \<Rightarrow> string \<Rightarrow> (string \<times> 'j) list \<Rightarrow> 'j" where
  "find_member js k ob = (case map_of ob k of None \<Rightarrow> js_null js | Some v \<Rightarrow> v)"

definition init_request_of :: "'j json_lib \<Rightarrow> (string \<times> 'j) list \<Rightarrow> init_value result" where
  "init_request_of js ob =
     rbind (as_object js (find_member js ''value'' ob)) (\<lambda>value.
     rbind (as_string js (find_member js ''name'' value)) (\<lambda>name.
     rbind (as_string js (find_member js ''main'' value)) (\<lambda>mn.
     rbind (as_string js (find_member js ''code'' value)) (\<lambda>code.
     rbind (or_throw ''as_bool'' (js_bool js (find_member js ''binary'' value))) (\<lambda>binary.
     rbind (as_object js (find_member js ''env'' value)) (\<lambda>env.
       Inr (init_request name mn code binary (map (\<lambda>(k, v). (k, js_scalar js v)) env))))))))"

section \<open>State\<close>

record ctl_context =
  cc_ptr :: nat
  cc_ctx :: exec_context
  cc_sessions :: "nat list"
  cc_servers :: "nat list"
  cc_clients :: "nat list"

record pending_hello =
  ph_ctx :: nat
  ph_peer :: peer
  ph_request :: http_request

record 'j controller =
  ct_ctxs :: "ctl_context list"
  ct_made :: nat
  ct_store :: "http_session list"
  ct_transport :: "nat list"
  ct_hs :: "nat list"
  ct_hcs :: "nat list"
  ct_initialized :: bool
  ct_box :: "16 word"
  ct_queue :: sched
  ct_local :: peer
  ct_init :: init_state
  ct_posted :: "(string \<times> 'j request_data list) list"
  ct_connects :: "pending_hello list"
  ct_closing :: "nat list"

definition new_controller :: "peer \<Rightarrow> init_state \<Rightarrow> sched \<Rightarrow> 'j controller" where
  "new_controller here process q = \<lparr>ct_ctxs = [], ct_made = 0, ct_store = [], ct_transport = [], ct_hs = [], ct_hcs = [],
     ct_initialized = False, ct_box = 0, ct_queue = q, ct_local = here, ct_init = process,
     ct_posted = [], ct_connects = [], ct_closing = []\<rparr>"

definition ses :: "'j controller \<Rightarrow> nat \<Rightarrow> http_session" where
  "ses ct p = ct_store ct ! p"

definition ctx_at :: "'j controller \<Rightarrow> nat \<Rightarrow> ctl_context" where
  "ctx_at ct k = ct_ctxs ct ! k"

definition map_ctx :: "nat \<Rightarrow> (ctl_context \<Rightarrow> ctl_context) \<Rightarrow> 'j controller \<Rightarrow> 'j controller" where
  "map_ctx k f ct = ct\<lparr>ct_ctxs := (ct_ctxs ct)[k := f (ctx_at ct k)]\<rparr>"

definition on_session :: "(http_session \<Rightarrow> session_result) \<Rightarrow> nat \<Rightarrow> 'j controller \<Rightarrow> 'j controller result" where
  "on_session f p ct = (case f (ses ct p) of
     Inl (e, _) \<Rightarrow> Inl e
   | Inr s \<Rightarrow> Inr (ct\<lparr>ct_store := (ct_store ct)[p := s]\<rparr>))"

definition add_session :: "nat \<Rightarrow> http_session \<Rightarrow> 'j controller \<Rightarrow> 'j controller" where
  "add_session t s ct = ct\<lparr>ct_store := ct_store ct @ [s], ct_transport := ct_transport ct @ [t]\<rparr>"

definition close_after :: "nat \<Rightarrow> 'j controller \<Rightarrow> 'j controller" where
  "close_after p ct = ct\<lparr>ct_closing := ct_closing ct @ [p]\<rparr>"

text \<open>\<open>close()\<close> of the two kinds of sessions.\<close>

definition close_server :: "nat \<Rightarrow> 'j controller \<Rightarrow> 'j controller" where
  "close_server p ct = ct\<lparr>ct_hs := session_erase p (ct_hs ct)\<rparr>"

definition close_client :: "nat \<Rightarrow> 'j controller \<Rightarrow> 'j controller" where
  "close_client p ct = ct\<lparr>ct_hcs := session_erase p (ct_hcs ct)\<rparr>"

text \<open>\<open>set(rr)\<close> and \<open>write(fn)\<close> after one half of \<open>get()\<close> was replaced, or was given more chunks.\<close>

definition put_response :: "http_response \<Rightarrow> http_session \<Rightarrow> session_result" where
  "put_response res s = (case session_set (hs_request s) res s of Inl e \<Rightarrow> Inl e | Inr s1 \<Rightarrow> server_write s1)"

definition put_request :: "http_request \<Rightarrow> http_session \<Rightarrow> session_result" where
  "put_request req s = (case session_set req (hs_response s) s of Inl e \<Rightarrow> Inl e | Inr s1 \<Rightarrow> client_write s1)"

definition more_response :: "http_chunk list \<Rightarrow> http_session \<Rightarrow> session_result" where
  "more_response ks s = put_response ((hs_response s)\<lparr>msg_chunks := msg_chunks (hs_response s) @ ks\<rparr>) s"

definition more_request :: "http_chunk list \<Rightarrow> http_session \<Rightarrow> session_result" where
  "more_request ks s = put_request ((hs_request s)\<lparr>msg_chunks := msg_chunks (hs_request s) @ ks\<rparr>) s"

text \<open>The part of the state that scheduling works on.\<close>

definition sched_of :: "'j controller \<Rightarrow> nat \<Rightarrow> sched_env" where
  "sched_of ct k = \<lparr>se_ctx = cc_ctx (ctx_at ct k), se_box = ct_box ct, se_queue = ct_queue ct, se_peers = []\<rparr>"

definition put_sched :: "nat \<Rightarrow> sched_env \<Rightarrow> 'j controller \<Rightarrow> 'j controller" where
  "put_sched k s ct = (map_ctx k (\<lambda>c. c\<lparr>cc_ctx := se_ctx s\<rparr>) ct)\<lparr>ct_box := se_box s, ct_queue := se_queue s\<rparr>"

definition on_sched :: "(sched_env \<Rightarrow> sched_env result) \<Rightarrow> nat \<Rightarrow> 'j controller \<Rightarrow> 'j controller result" where
  "on_sched f k ct = rbind (f (sched_of ct k)) (\<lambda>s. Inr (put_sched k s ct))"

definition world_at :: "'j params \<Rightarrow> 'j controller \<Rightarrow> world" where
  "world_at P ct = (pr_world P)\<lparr>w_env := is_env (ct_init ct)\<rparr>"

definition response_for :: "'j params \<Rightarrow> 'j controller \<Rightarrow> nat list \<Rightarrow> exec_context \<Rightarrow> http_response result" where
  "response_for P ct sessions c = create_response (ct_initialized ct) (world_at P ct) (parse_value (pr_js P)) (js_null (pr_js P))
     (context_object (pr_js P)) (map (\<lambda>p. hs_request (ses ct p)) sessions) c"

section \<open>The messages the controller makes\<close>

definition common_headers :: "http_header list" where
  "common_headers = [mk_header CONTENT_TYPE ''application/json'', mk_header CONNECTION ''close'', mk_header END_OF_HEADERS []]"

text \<open>The first request to a peer: the identifier of the context and the table of peers.\<close>

definition hello_text :: "'j json_lib \<Rightarrow> (32 word \<Rightarrow> string) \<Rightarrow> exec_context \<Rightarrow> string result" where
  "hello_text js ntop c = rbind (rtostrs ntop (ec_peers c)) (\<lambda>ps.
     Inr (CHR ''['' # js_text js (js_of_object js [(''execution_context'', js_of_object js
       [(''uuid'', js_of_string js (uuid_show (ec_id c))), (''peers'', js_of_array js (map (js_of_string js) ps))])])))"

definition hello_request :: "string \<Rightarrow> http_request" where
  "hello_request data = empty_request\<lparr>req_verb := PUT, req_route := ''/run'', msg_version := V1_1,
     msg_headers := common_headers, msg_chunks := [data_chunk data]\<rparr>"

definition say_hello :: "'j params \<Rightarrow> nat \<Rightarrow> peer list \<Rightarrow> 'j controller \<Rightarrow> 'j controller result" where
  "say_hello P k peers ct =
     rbind (hello_text (pr_js P) (pr_ntop P) (cc_ctx (ctx_at ct k))) (\<lambda>data.
       Inr (ct\<lparr>ct_connects := ct_connects ct @ map (\<lambda>p. \<lparr>ph_ctx = cc_ptr (ctx_at ct k), ph_peer = p,
              ph_request = hello_request data\<rparr>) peers\<rparr>))"

text \<open>The reply to it: the table of peers and the values that are known so far, null included.\<close>

fun known_values :: "'j json_lib \<Rightarrow> relation list \<Rightarrow> (string \<times> 'j) list \<Rightarrow> (string \<times> 'j) list result" where
  "known_values js [] ro = Inr ro"
| "known_values js (r # rs) ro =
     (if rel_value r \<noteq> []
      then rbind (parse_value js (rel_value r)) (\<lambda>j. known_values js rs (obj_emplace (rel_key r) j ro))
      else known_values js rs ro)"

definition bind_text :: "'j json_lib \<Rightarrow> (32 word \<Rightarrow> string) \<Rightarrow> exec_context \<Rightarrow> string result" where
  "bind_text js ntop c =
     (let m = ec_manifest c in
      rbind (rtostrs ntop (ec_peers c)) (\<lambda>ps.
      rbind (known_values js (map (rel_at m) (index m)) []) (\<lambda>ro.
        Inr (CHR ''['' # js_text js (js_of_object js [(''peers'', js_of_array js (map (js_of_string js) ps)),
          (''result'', js_of_object js ro)])))))"

definition bind_reply :: "string \<Rightarrow> http_response" where
  "bind_reply data = empty_response\<lparr>msg_version := V1_1, res_status := CREATED, msg_headers := common_headers,
     msg_chunks := [data_chunk data]\<rparr>"

section \<open>Requests\<close>

text \<open>
  The handler of a JSON object gives back whether the routing returns at once, without
  storing how far it has come.  First \<open>POST /run\<close>: the check for a context that has completed, which is
  compiled only without \<open>NDEBUG\<close>.
\<close>

definition completed_elsewhere :: "'j params \<Rightarrow> 'j \<Rightarrow> peer \<Rightarrow> bool result" where
  "completed_elsewhere P val here =
     (let js = pr_js P in
      rbind (member js ''value'' val) (\<lambda>v. rbind (as_object js v) (\<lambda>value.
      case map_of value ''execution_context'' of
        None \<Rightarrow> Inr False
      | Some c \<Rightarrow>
          rbind (member js ''peers'' c) (\<lambda>pv. rbind (as_array js pv) (\<lambda>pa.
          rbind (vec_at pa 0) (\<lambda>p0. rbind (as_string js p0) (\<lambda>p.
          case find_char CHR '':'' p of
            None \<Rightarrow> Inl (Thrown ''length_error'')
          | Some pos \<Rightarrow>
              (case from_chars 10 16 (drop (pos + 1) p) of
                 Inl _ \<Rightarrow> Inl (Thrown ''This shouldn't happen!'')
               | Inr n \<Rightarrow>
                   (case w_aton (pr_world P) (take pos p) of
                      None \<Rightarrow> Inl (Thrown ''This shouldn't happen!'')
                    | Some a \<Rightarrow> Inr (a = peer_addr here \<and> n = peer_port here))))))))))"

definition complete_context :: "sched_env \<Rightarrow> sched_env result" where
  "complete_context s =
     (if length (threads s) \<le> length (index (graph s))
      then Inr (sched_end (set_threads (map (\<lambda>t. t\<lparr>tc_signal := ctl_end_event\<rparr>) (threads s))
             (set_graph (fold (\<lambda>a. set_value a ''null'') (take (length (threads s)) (index (graph s))) (graph s)) s)))
      else Inl (Undefined ''operator[]''))"

text \<open>The position at which \<open>start_run\<close> starts; past the end when all relations are complete.\<close>

definition start_position :: "chooser \<Rightarrow> sched_env \<Rightarrow> nat result" where
  "start_position nxt s =
     rbind (pop_execution_idx (se_ctx s)) (\<lambda>(i, c).
     rbind (start_at (ec_manifest c) i) (\<lambda>key.
     rbind (nxt key i (ec_manifest c)) (\<lambda>nx. Inr (find_key (ec_manifest c) (next_key (ec_manifest c) nx)))))"

text \<open>The primary context asks for the others; the others say hello to all peers but themselves.\<close>

definition announce :: "'j params \<Rightarrow> (string \<times> 'j) list \<Rightarrow> nat \<Rightarrow> 'j controller \<Rightarrow> 'j controller result" where
  "announce P ob k ct =
     (let c = cc_ctx (ctx_at ct k) in
      rbind (vec_at (ec_array c) 0) (\<lambda>i.
        if i = 0 then
          rbind (make_api_requests (pr_ntop P) (is_env (ct_init ct)) (pr_reuse P) (pr_curl P) c (map_of ob ''value''))
            (\<lambda>posted. Inr (ct\<lparr>ct_posted := ct_posted ct @ [posted]\<rparr>))
        else say_hello P k (filter (\<lambda>p. p \<noteq> ct_local ct) (ec_peers c)) ct))"

definition add_local :: "peer \<Rightarrow> exec_context \<Rightarrow> exec_context" where
  "add_local here c =
     (if find_if (\<lambda>p. p = here) (ec_peers c) = length (ec_peers c) then c\<lparr>ec_peers := ec_peers c @ [here]\<rparr> else c)"

definition push_context :: "exec_context \<Rightarrow> nat list \<Rightarrow> 'j controller \<Rightarrow> 'j controller" where
  "push_context c sessions ct = ct\<lparr>ct_ctxs := ct_ctxs ct @ [\<lparr>cc_ptr = ct_made ct, cc_ctx = c, cc_sessions = sessions,
     cc_servers = [], cc_clients = []\<rparr>], ct_made := ct_made ct + 1\<rparr>"

definition start_context :: "'j params \<Rightarrow> (string \<times> 'j) list \<Rightarrow> 'j \<Rightarrow> exec_context \<Rightarrow> nat \<Rightarrow> 'j controller \<Rightarrow>
    (bool \<times> 'j controller) result" where
  "start_context P ob val c p ct =
     (let k = length (ct_ctxs ct); ct1 = push_context (add_local (ct_local ct) c) [p] ct in
      rbind (if pr_ndebug P then Inr False else completed_elsewhere P val (ct_local ct)) (\<lambda>completed.
        if completed then rbind (on_sched complete_context k ct1) (\<lambda>ct2. Inr (True, ct2))
        else
          rbind (announce P ob k ct1) (\<lambda>ct2.
          rbind (start_position (pr_next P) (sched_of ct2 k)) (\<lambda>j.
          rbind (on_sched (start_run (pr_next P)) k ct2) (\<lambda>ct3.
            Inr (j = length (index (ec_manifest (cc_ctx (ctx_at ct2 k)))), ct3))))))"

text \<open>Before initialization every session of the context gets the reply and the context is dropped.\<close>

definition answer_other :: "'j params \<Rightarrow> exec_context \<Rightarrow> nat list \<Rightarrow> 'j controller \<Rightarrow> 'j controller result" where
  "answer_other P c sessions ct = rfold (\<lambda>i ct.
     rbind (response_for P ct (take (Suc i) sessions) c) (\<lambda>res.
     rbind (on_session (server_write_other res) (sessions ! i) ct) (\<lambda>ct1. Inr (close_after (sessions ! i) ct1))))
       (rev [0..<length sessions]) ct"

definition join_context :: "nat \<Rightarrow> run_request \<Rightarrow> exec_context \<Rightarrow> ctl_context \<Rightarrow> ctl_context" where
  "join_context p run c x = x\<lparr>cc_ctx := c\<lparr>ec_env := rr_env run\<rparr>,
     cc_sessions := (if p \<in> set (cc_sessions x) then cc_sessions x else cc_sessions x @ [p])\<rparr>"

definition post_known :: "'j params \<Rightarrow> nat \<Rightarrow> run_request \<Rightarrow> nat \<Rightarrow> exec_context \<Rightarrow> 'j controller \<Rightarrow> (bool \<times> 'j controller) result" where
  "post_known P p run k c ct =
     (let ct1 = map_ctx k (join_context p run c) ct
      in if ct_initialized ct then Inr (False, ct1)
         else rbind (answer_other P (cc_ctx (ctx_at ct1 k)) (cc_sessions (ctx_at ct1 k)) ct1)
                (\<lambda>ct2. Inr (False, map_ctx k (\<lambda>x. x\<lparr>cc_sessions := []\<rparr>) ct2)))"

definition post_new :: "'j params \<Rightarrow> nat \<Rightarrow> (string \<times> 'j) list \<Rightarrow> 'j \<Rightarrow> run_request \<Rightarrow> exec_context \<Rightarrow> 'j controller \<Rightarrow>
    (bool \<times> 'j controller) result" where
  "post_new P p ob val run c ct =
     (let c1 = c\<lparr>ec_env := rr_env run\<rparr>
      in if ct_initialized ct then start_context P ob val c1 p ct
         else rbind (answer_other P c1 [p] ct) (\<lambda>ct1. Inr (False, ct1)))"

definition post_run :: "'j params \<Rightarrow> nat \<Rightarrow> 'j \<Rightarrow> 'j controller \<Rightarrow> (bool \<times> 'j controller) result" where
  "post_run P p val ct =
     rbind (as_object (pr_js P) val) (\<lambda>ob.
     rbind (run_request_of (pr_js P) ob) (\<lambda>run.
       case run_handle (world_at P ct) run (map cc_ctx (ct_ctxs ct)) of
         (r, cs) \<Rightarrow> rbind r (\<lambda>kc. case kc of
             Inl k \<Rightarrow> post_known P p run k (cs ! k) ct
           | Inr c \<Rightarrow> post_new P p ob val run c ct)))"

text \<open>\<open>PUT /run\<close>: the first object of a stream binds it to a context, the others are results.\<close>

definition find_ctx :: "(ctl_context \<Rightarrow> bool) \<Rightarrow> 'j controller \<Rightarrow> nat" where
  "find_ctx Q ct = find_if Q (ct_ctxs ct)"

definition not_found_reply :: "http_version \<Rightarrow> http_response" where
  "not_found_reply ver = empty_reply ver NOT_FOUND"

definition bind_known :: "'j params \<Rightarrow> nat \<Rightarrow> 'j \<Rightarrow> nat \<Rightarrow> 'j controller \<Rightarrow> 'j controller result" where
  "bind_known P p cv k ct =
     (let js = pr_js P; ct1 = map_ctx k (\<lambda>c. c\<lparr>cc_servers := cc_servers c @ [p]\<rparr>) ct in
      rbind (member js ''peers'' cv) (\<lambda>pv. rbind (as_array js pv) (\<lambda>pa. rbind (strings_of js pa) (\<lambda>ps.
      rbind (merge_peer_addresses (w_aton (pr_world P)) ps (cc_ctx (ctx_at ct1 k))) (\<lambda>c.
      rbind (bind_text js (pr_ntop P) c) (\<lambda>data.
        on_session (put_response (bind_reply data)) p (map_ctx k (\<lambda>x. x\<lparr>cc_ctx := c\<rparr>) ct1)))))))"

definition put_bind :: "'j params \<Rightarrow> nat \<Rightarrow> 'j \<Rightarrow> 'j controller \<Rightarrow> 'j controller result" where
  "put_bind P p val ct =
     (let js = pr_js P in
      rbind (member js ''execution_context'' val) (\<lambda>cv.
      rbind (member js ''uuid'' cv) (\<lambda>uv. rbind (as_string js uv) (\<lambda>us.
      case uuid_of_string (w_draws (pr_world P)) us of
        None \<Rightarrow> Inl NoReturn
      | Some u \<Rightarrow>
          (let k = find_ctx (\<lambda>c. uuid_eq (ec_id (cc_ctx c)) u) ct in
           if k < length (ct_ctxs ct) then bind_known P p cv k ct
           else
             rbind (on_session (put_response (not_found_reply V1_1)) p ct) (\<lambda>ct1. Inr (close_after p ct1)))))))"

definition put_update :: "'j params \<Rightarrow> nat \<Rightarrow> 'j \<Rightarrow> 'j controller \<Rightarrow> 'j controller result" where
  "put_update P p val ct =
     (let js = pr_js P; k = find_ctx (\<lambda>c. p \<in> set (cc_servers c)) ct in
      if k < length (ct_ctxs ct) then
        rbind (member js ''result'' val) (\<lambda>rv. rbind (as_object js rv) (\<lambda>jo.
          on_sched (request_results (pr_next P) (map (\<lambda>(key, v). (key, js_text js v)) jo)) k ct))
      else
        rbind (on_session (more_response [empty_chunk\<lparr>chunk_size := [1], chunk_data := '']''\<rparr>, empty_chunk]) p ct)
          (\<lambda>ct1. Inr (close_after p ct1)))"

definition initialize_at :: "'j params \<Rightarrow> init_value \<Rightarrow> 'j controller \<Rightarrow> 'j controller result" where
  "initialize_at P iv ct =
     rbind (initialize (pr_calls P) (pr_decode P) (pr_forked P) (pr_untar P) (pr_opened P) iv (ct_init ct)) (\<lambda>st.
       Inr (ct\<lparr>ct_init := st, ct_initialized := True\<rparr>))"

definition post_init :: "'j params \<Rightarrow> nat \<Rightarrow> 'j \<Rightarrow> 'j controller \<Rightarrow> 'j controller result" where
  "post_init P p val ct =
     rbind (as_object (pr_js P) val) (\<lambda>ob.
     rbind (init_request_of (pr_js P) ob) (\<lambda>iv.
     rbind (init_context (world_at P ct)) (\<lambda>c.
     rbind (response_for P ct [p] c) (\<lambda>res.
     rbind (if \<not> ct_initialized ct \<and> res_status res = OK then initialize_at P iv ct else Inr ct) (\<lambda>ct1.
     rbind (on_session (server_write_other res) p ct1) (\<lambda>ct2. Inr (close_after p ct2)))))))"

definition handle_object :: "'j params \<Rightarrow> nat \<Rightarrow> http_request \<Rightarrow> nat \<Rightarrow> 'j \<Rightarrow> 'j controller \<Rightarrow> (bool \<times> 'j controller) result" where
  "handle_object P p req pos val ct =
     (if req_route req = ''/run'' then
        (if req_verb req = POST then post_run P p val ct
         else if req_verb req = PUT then
           rbind (if pos = 0 then put_bind P p val ct else put_update P p val ct) (\<lambda>ct1. Inr (False, ct1))
         else Inr (False, ct))
      else if req_route req = ''/init'' then rbind (post_init P p val ct) (\<lambda>ct1. Inr (False, ct1))
      else Inr (False, ct))"

text \<open>
  The loop over the objects of one chunk and the loop over the chunks, for both directions:
  \<open>ended\<close> is what the end of the array does, \<open>skip\<close> says that objects are not looked at any more,
  \<open>zero\<close> is what a chunk of size zero does.
\<close>

fun object_loop :: "nat \<Rightarrow> 'j json_lib \<Rightarrow> ('s \<Rightarrow> 's) \<Rightarrow> bool \<Rightarrow> ('j \<Rightarrow> 's \<Rightarrow> (bool \<times> 's) result) \<Rightarrow>
    bignum \<Rightarrow> string \<Rightarrow> nat \<Rightarrow> 's \<Rightarrow> (bool \<times> 's) result" where
  "object_loop 0 js ended skip handle sz data next_comma s = Inl NoReturn"
| "object_loop (Suc n) js ended skip handle sz data next_comma s =
     (if bn_lt [of_nat next_comma] sz then
        (case find_next_json_object data next_comma of (view, p) \<Rightarrow>
           if view = [] then object_loop n js ended skip handle sz data p s
           else if hd view = CHR '']'' then Inr (False, ended s)
           else if skip then Inr (False, s)
           else rbind (parse_value js view) (\<lambda>val. rbind (handle val s) (\<lambda>(ret, s1).
             if ret then Inr (True, s1) else object_loop n js ended skip handle sz data p s1)))
      else Inr (False, s))"

fun chunk_loop :: "(nat \<Rightarrow> http_chunk \<Rightarrow> 's \<Rightarrow> (bool \<times> 's) result) \<Rightarrow> ('s \<Rightarrow> 's) \<Rightarrow> http_chunk list \<Rightarrow> nat list \<Rightarrow> 's \<Rightarrow>
    (bool \<times> 's) result" where
  "chunk_loop body zero chunks [] s = Inr (False, s)"
| "chunk_loop body zero chunks (pos # ps) s = rbind (vec_at chunks pos) (\<lambda>k.
     if bn_eq (chunk_size k) [0] then Inr (True, zero s)
     else rbind (body pos k s) (\<lambda>(ret, s1). if ret then Inr (True, s1) else chunk_loop body zero chunks ps s1))"

definition drop_server :: "nat \<Rightarrow> 'j controller \<Rightarrow> 'j controller" where
  "drop_server p ct = ct\<lparr>ct_ctxs := map (\<lambda>c. c\<lparr>cc_servers := erase_first (\<lambda>q. q = p) (cc_servers c)\<rparr>) (ct_ctxs ct)\<rparr>"

definition request_chunk :: "'j params \<Rightarrow> nat \<Rightarrow> http_request \<Rightarrow> nat \<Rightarrow> http_chunk \<Rightarrow> 'j controller \<Rightarrow> (bool \<times> 'j controller) result" where
  "request_chunk P p req pos k ct =
     object_loop (Suc (length (chunk_data k))) (pr_js P) (drop_server p) False (handle_object P p req pos)
       (chunk_size k) (chunk_data k) 0 ct"

definition set_request :: "http_request \<Rightarrow> http_session \<Rightarrow> session_result" where
  "set_request req s = session_set req (hs_response s) s"

definition route_request :: "'j params \<Rightarrow> nat \<Rightarrow> 'j controller \<Rightarrow> 'j controller result" where
  "route_request P p ct =
     (if app_locked (ses ct p) then Inl NoReturn
      else
        (let req = hs_request (ses ct p) in
         if req_route req = ''/run'' \<or> req_route req = ''/init'' then
           rbind (chunk_loop (request_chunk P p req) (\<lambda>ct. ct) (msg_chunks req) [msg_pos req..<next_chunk req] ct)
             (\<lambda>(ret, ct1). if ret then Inr ct1
                else on_session (set_request (req\<lparr>msg_pos := max (msg_pos req) (next_chunk req)\<rparr>)) p ct1)
         else
           rbind (on_session (server_write_other (not_found_reply (msg_version req))) p ct) (\<lambda>ct1. Inr (close_after p ct1))))"

end
