(* ===== verification/Passes.thy ===== *)
theory Passes
  imports Controller
begin

text \<open>
  The rest of \<open>controller-app.cpp\<close>: the routing of responses of peers, the pass over the contexts
  that have stopped and the pass over those with a finished thread, and one turn of the scheduling
  loop; then the steps of the whole controller, in any order.
\<close>

section \<open>Responses\<close>

definition drop_client :: "nat \<Rightarrow> 'j controller \<Rightarrow> 'j controller" where
  "drop_client p ct = ct\<lparr>ct_ctxs := map (\<lambda>c. c\<lparr>cc_clients := erase_first (\<lambda>q. q = p) (cc_clients c)\<rparr>) (ct_ctxs ct)\<rparr>"

definition client_ctx :: "nat \<Rightarrow> 'j controller \<Rightarrow> nat" where
  "client_ctx p ct = find_ctx (\<lambda>c. p \<in> set (cc_clients c)) ct"

text \<open>A message that is complete: its length was given, or its last chunk is there.\<close>

definition message_closed :: "('a http_msg_scheme) \<Rightarrow> bool" where
  "message_closed m \<longleftrightarrow> (\<exists>h \<in> set (msg_headers m). field_name h = CONTENT_LENGTH) \<or>
     (msg_chunks m \<noteq> [] \<and> bn_eq (chunk_size (last (msg_chunks m))) [0])"

definition meet_peers :: "'j params \<Rightarrow> nat \<Rightarrow> 'j \<Rightarrow> 'j controller \<Rightarrow> 'j controller result" where
  "meet_peers P k val ct =
     (let js = pr_js P; old = ec_peers (cc_ctx (ctx_at ct k)) in
      rbind (member js ''peers'' val) (\<lambda>pv. rbind (as_array js pv) (\<lambda>pa. rbind (strings_of js pa) (\<lambda>ps.
      rbind (merge_peer_addresses (w_aton (pr_world P)) ps (cc_ctx (ctx_at ct k))) (\<lambda>c.
        say_hello P k (filter (\<lambda>p. p \<notin> set old) (ec_peers c)) (map_ctx k (\<lambda>x. x\<lparr>cc_ctx := c\<rparr>) ct))))))"

definition handle_reply :: "'j params \<Rightarrow> nat \<Rightarrow> nat \<Rightarrow> 'j \<Rightarrow> 'j controller \<Rightarrow> (bool \<times> 'j controller) result" where
  "handle_reply P p pos val ct =
     (let js = pr_js P; k = client_ctx p ct in
      if k = length (ct_ctxs ct) then Inr (True, close_client p ct)
      else
        rbind (if pos = 0 then meet_peers P k val ct else Inr ct) (\<lambda>ct1.
        rbind (member js ''result'' val) (\<lambda>rv. rbind (as_object js rv) (\<lambda>jr.
        rbind (on_sched (response_results (pr_next P) (map (\<lambda>(key, v). (key, js_text js v)) jr)) k ct1) (\<lambda>ct2.
          Inr (False, ct2))))))"

definition reply_chunk :: "'j params \<Rightarrow> nat \<Rightarrow> bool \<Rightarrow> nat \<Rightarrow> http_chunk \<Rightarrow> 'j controller \<Rightarrow> (bool \<times> 'j controller) result" where
  "reply_chunk P p closed pos k ct =
     object_loop (Suc (length (chunk_data k))) (pr_js P) (drop_client p) closed (handle_reply P p pos)
       (chunk_size k) (chunk_data k) 0 ct"

definition set_response :: "http_response \<Rightarrow> http_session \<Rightarrow> session_result" where
  "set_response res s = session_set (hs_request s) res s"

definition route_response :: "'j params \<Rightarrow> nat \<Rightarrow> 'j controller \<Rightarrow> 'j controller result" where
  "route_response P p ct =
     (if app_locked (ses ct p) then Inl NoReturn
      else
        (let res = hs_response (ses ct p) in
         if res_status res = CREATED then
           rbind (chunk_loop (reply_chunk P p (message_closed (hs_request (ses ct p)))) (close_client p)
                    (msg_chunks res) [msg_pos res..<next_chunk res] ct)
             (\<lambda>(ret, ct1). if ret then Inr ct1
                else on_session (set_response (res\<lparr>msg_pos := max (msg_pos res) (next_chunk res)\<rparr>)) p ct1)
         else
           (let k = client_ctx p ct in
            if k = length (ct_ctxs ct) then Inr (close_client p ct)
            else if length (ec_peers (cc_ctx (ctx_at ct k))) < 3 then on_sched peer_failed k ct
            else Inr (close_client p ct))))"

section \<open>Connects\<close>

text \<open>
  The completion function of the \<open>i\<close>-th connect under way.  On success the transport session \<open>t\<close> carries a
  new client session, which joins the context the connect was for, if it is still there, and writes
  its first request.
\<close>

definition connect_done :: "bool \<Rightarrow> nat \<Rightarrow> nat \<Rightarrow> 'j controller \<Rightarrow> 'j controller result" where
  "connect_done ok i t ct =
     (let h = ct_connects ct ! i; p = length (ct_store ct);
          ct1 = ct\<lparr>ct_connects := take i (ct_connects ct) @ drop (Suc i) (ct_connects ct)\<rparr>
      in if \<not> ok then Inr ct1
         else
           (let ct2 = add_session t (new_session\<lparr>hs_request := ph_request h\<rparr>) ct1;
                ct3 = ct2\<lparr>ct_hcs := ct_hcs ct2 @ [p],
                        ct_ctxs := map (\<lambda>c. if cc_ptr c = ph_ctx h then c\<lparr>cc_clients := cc_clients c @ [p]\<rparr> else c) (ct_ctxs ct2)\<rparr>
            in on_session client_write p ct3))"

section \<open>Contexts that have stopped\<close>

definition answer_waiting :: "http_response \<Rightarrow> nat \<Rightarrow> 'j controller \<Rightarrow> 'j controller result" where
  "answer_waiting res p ct = rbind (on_session (\<lambda>s. case session_set empty_request res s of Inl e \<Rightarrow> Inl e | Inr s1 \<Rightarrow> server_write s1) p ct)
     (\<lambda>ct1. Inr (close_after p ct1))"

definition end_server :: "http_chunk list \<Rightarrow> nat \<Rightarrow> 'j controller \<Rightarrow> 'j controller result" where
  "end_server ks p ct = rbind (on_session (more_response ks) p ct) (\<lambda>ct1. Inr (close_after p ct1))"

definition context_is_stopped :: "ctl_context \<Rightarrow> bool" where
  "context_is_stopped c \<longleftrightarrow> context_stopped (cc_ctx c)"

definition finish_at :: "'j params \<Rightarrow> nat \<Rightarrow> 'j controller \<Rightarrow> 'j controller result" where
  "finish_at P k ct =
     (let js = pr_js P; s = sched_of ct k; c0 = ctx_at ct k in
      rbind (stopped_text (parse_value js) (result_object js) (graph s) 0 (threads s) []) (\<lambda>(ts, data).
        let ct1 = map_ctx k (\<lambda>c. c\<lparr>cc_ctx := (cc_ctx c)\<lparr>ec_threads := ts\<rparr>\<rparr>) ct;
            ks = [data_chunk (data @ '']''), empty_chunk]
        in
        rbind (response_for P ct1 (cc_sessions c0) (cc_ctx (ctx_at ct1 k))) (\<lambda>res.
        rbind (rfold (answer_waiting res) (rev (cc_sessions c0)) ct1) (\<lambda>ct2.
        rbind (rfold (end_server ks) (rev (cc_servers c0)) ct2) (\<lambda>ct3.
        rbind (rfold (on_session (more_request ks)) (rev (cc_clients c0)) ct3) (\<lambda>ct4.
          Inr (ct4\<lparr>ct_ctxs := take k (ct_ctxs ct4) @ drop (Suc k) (ct_ctxs ct4)\<rparr>)))))))"

fun finish_loop :: "nat \<Rightarrow> 'j params \<Rightarrow> 'j controller \<Rightarrow> 'j controller result" where
  "finish_loop 0 P ct = Inl NoReturn"
| "finish_loop (Suc n) P ct =
     (let k = find_ctx context_is_stopped ct in
      if k < length (ct_ctxs ct) then rbind (finish_at P k ct) (finish_loop n P) else Inr ct)"

section \<open>Contexts with a finished thread\<close>

definition tell_data :: "'j params \<Rightarrow> nat \<Rightarrow> nat \<Rightarrow> 'j controller \<Rightarrow> 'j controller result" where
  "tell_data P k i ct =
     (let c = ctx_at ct k; m = ec_manifest (cc_ctx c) in
      if 0 < length (cc_clients c) + length (cc_servers c) then
        rbind (vec_at (index m) i) (\<lambda>a.
        rbind (result_text (parse_value (pr_js P)) (result_object (pr_js P)) (rel_at m a)) (\<lambda>data.
          if data = [] then Inr ct
          else rbind (rfold (on_session (more_request [data_chunk data])) (cc_clients c) ct)
                 (rfold (on_session (more_response [data_chunk data])) (cc_servers c))))
      else Inr ct)"

definition update_at :: "'j params \<Rightarrow> nat \<Rightarrow> 'j controller \<Rightarrow> 'j controller result" where
  "update_at P k ct =
     (let s = sched_of ct k; i = find_if unhandled (threads s) in
      rbind (vec_at (threads s) i) (\<lambda>t. case pop_idxs t of (idxs, t') \<Rightarrow>
      rbind (tell_data P k i (put_sched k (set_threads ((threads s)[i := t']) s) ct)) (\<lambda>ct1.
        on_sched (\<lambda>s1. rbind (vec_at (index (graph s1)) ((i + 1) mod length (threads s1))) (\<lambda>a.
          update_loop (pr_next P) (key_at (graph s1) a) idxs s1)) k ct1)))"

definition context_is_updated :: "ctl_context \<Rightarrow> bool" where
  "context_is_updated c \<longleftrightarrow> (\<exists>t \<in> set (ec_threads (cc_ctx c)). unhandled t)"

definition update_pass :: "'j params \<Rightarrow> 'j controller \<Rightarrow> 'j controller result" where
  "update_pass P ct = rfold (\<lambda>k ct. if context_is_updated (ctx_at ct k) then update_at P k ct else Inr ct)
     [0..<length (ct_ctxs ct)] ct"

definition sched_pass :: "'j params \<Rightarrow> 'j controller \<Rightarrow> 'j controller result" where
  "sched_pass P ct = rbind (finish_loop (Suc (length (ct_ctxs ct))) P ct) (update_pass P)"

section \<open>One turn of the scheduling loop\<close>

datatype 'j turn = Routed "'j controller" | ClientThrew nat cpp_error | LoopEnded

text \<open>
  A message says that text has arrived on a transport session.  \<open>text\<close> is what its stream holds when the
  HTTP session that is found, or made, for it reads.
\<close>

definition fill :: "string \<Rightarrow> http_session \<Rightarrow> http_session" where
  "fill text s = s\<lparr>hs_in := text\<rparr>"

definition routed :: "'j controller result \<Rightarrow> 'j turn result" where
  "routed r = rbind r (\<lambda>ct. Inr (Routed ct))"

definition client_turn :: "'j params \<Rightarrow> nat \<Rightarrow> string \<Rightarrow> 'j controller \<Rightarrow> 'j turn result" where
  "client_turn P p text ct =
     (case rbind (on_session (\<lambda>s. client_read (fill text s)) p ct) (route_response P p) of
        Inr ct1 \<Rightarrow> Inr (Routed ct1)
      | Inl NoReturn \<Rightarrow> Inl NoReturn
      | Inl (Undefined w) \<Rightarrow> Inl (Undefined w)
      | Inl e \<Rightarrow> Inr (ClientThrew p e))"

definition response_open_ended :: "http_response \<Rightarrow> bool" where
  "response_open_ended res \<longleftrightarrow> (\<exists>h \<in> set (msg_headers res). field_name h = CONTENT_LENGTH) \<or>
     (msg_chunks res \<noteq> [] \<and> bn_ne (chunk_size (last (msg_chunks res))) [0])"

definition server_turn :: "'j params \<Rightarrow> nat \<Rightarrow> string \<Rightarrow> 'j controller \<Rightarrow> 'j controller result" where
  "server_turn P t text ct =
     (let i = find_if (\<lambda>p. ct_transport ct ! p = t) (ct_hs ct) in
      if i = length (ct_hs ct) then
        (let p = length (ct_store ct) in
         rbind (on_session (\<lambda>s. server_read (fill text s)) p (add_session t new_session ct)) (\<lambda>ct1.
           if verb_started (hs_request (ses ct1 p)) then route_request P p (ct1\<lparr>ct_hs := ct_hs ct1 @ [p]\<rparr>) else Inr ct1))
      else
        (let p = ct_hs ct ! i in
         if app_locked (ses ct p) then Inl NoReturn
         else if response_open_ended (hs_response (ses ct p)) then
           rbind (on_session (\<lambda>s. server_read (fill text s)) p ct) (route_request P p)
         else Inr ct))"

definition take_message :: "'j params \<Rightarrow> nat \<Rightarrow> string \<Rightarrow> 'j controller \<Rightarrow> 'j turn result" where
  "take_message P t text ct =
     (let i = find_if (\<lambda>p. ct_transport ct ! p = t) (ct_hcs ct) in
      if i < length (ct_hcs ct) then client_turn P (ct_hcs ct ! i) text ct
      else routed (server_turn P t text ct))"

definition then_pass :: "'j params \<Rightarrow> bool \<Rightarrow> 'j turn \<Rightarrow> 'j turn result" where
  "then_pass P sched_end_set r = (case r of
     Routed ct \<Rightarrow> if sched_end_set then routed (sched_pass P ct) else Inr (Routed ct)
   | ClientThrew p e \<Rightarrow> Inr (ClientThrew p e)
   | LoopEnded \<Rightarrow> Inr LoopEnded)"

text \<open>
  The turn: the event word was loaded as \<open>loaded\<close> and cleared in \<open>ct_box\<close>, and \<open>msg\<close> was pulled from the queue.
\<close>

definition loop_turn :: "'j params \<Rightarrow> 16 word \<Rightarrow> (nat \<times> string) option \<Rightarrow> 'j controller \<Rightarrow> 'j turn result" where
  "loop_turn P loaded msg ct0 =
     (let ct = ct0\<lparr>ct_box := clear_events loaded (ct_box ct0)\<rparr> in
      if loaded AND ctl_terminate_event \<noteq> 0 \<and> ct_hs ct = [] \<and> ct_ctxs ct = [] \<and> ct_hcs ct = [] then Inr LoopEnded
      else rbind (case msg of None \<Rightarrow> Inr (Routed ct) | Some (t, text) \<Rightarrow> take_message P t text ct)
             (then_pass P (loaded AND ctl_end_event \<noteq> 0)))"

section \<open>The steps of the controller\<close>

text \<open>
  Between two turns: connects complete, the writes after which a session is closed complete, other
  writes fail, after which the session is closed too, and executors end.
\<close>

definition write_done :: "nat \<Rightarrow> 'j controller \<Rightarrow> 'j controller" where
  "write_done i ct = (let p = ct_closing ct ! i in
     close_server p (ct\<lparr>ct_closing := take i (ct_closing ct) @ drop (Suc i) (ct_closing ct)\<rparr>))"

text \<open>
  A turn in which reading from a client session throws.  The handler closes the session and the turn goes
  on.  How far the reading came is not known: \<open>s\<close> is the session as the exception left it.
\<close>

definition client_threw :: "'j params \<Rightarrow> 16 word \<Rightarrow> nat \<Rightarrow> http_session \<Rightarrow> 'j controller \<Rightarrow> 'j controller result" where
  "client_threw P loaded p s ct0 =
     (let ct = ct0\<lparr>ct_box := clear_events loaded (ct_box ct0), ct_store := (ct_store ct0)[p := s]\<rparr>;
          ct1 = close_client p ct
      in if loaded AND ctl_end_event \<noteq> 0 then sched_pass P ct1 else Inr ct1)"

inductive ctl_step :: "'j controller \<Rightarrow> 'j controller \<Rightarrow> bool" where
  turn: "loop_turn P loaded msg ct = Inr (Routed ct') \<Longrightarrow> ctl_step ct ct'"
| threw: "i = find_if (\<lambda>p. ct_transport ct ! p = t) (ct_hcs ct) \<Longrightarrow> i < length (ct_hcs ct) \<Longrightarrow>
    client_read (fill text (ses ct (ct_hcs ct ! i))) = Inl (e, held) \<Longrightarrow> e \<noteq> NoReturn \<and> (\<forall>u. e \<noteq> Undefined u) \<Longrightarrow>
    client_threw P loaded (ct_hcs ct ! i) s ct = Inr ct' \<Longrightarrow> ctl_step ct ct'"
| connected: "i < length (ct_connects ct) \<Longrightarrow> connect_done ok i t ct = Inr ct' \<Longrightarrow> ctl_step ct ct'"
| written: "i < length (ct_closing ct) \<Longrightarrow> ctl_step ct (write_done i ct)"
| broken_server: "p < length (ct_store ct) \<Longrightarrow> ctl_step ct (close_server p ct)"
| broken_client: "p < length (ct_store ct) \<Longrightarrow> ctl_step ct (close_client p ct)"
| executed: "k < length (ct_ctxs ct) \<Longrightarrow> j < length (threads (sched_of ct k)) \<Longrightarrow>
    ctl_step ct (put_sched k (executor_end j v (sched_of ct k)) ct)"

inductive_cases ctl_stepE: "ctl_step ct ct'"

end
