(* ===== verification/ControllerState.thy ===== *)
theory ControllerState
  imports Passes
begin

text \<open>
  What every state of the controller satisfies: pointers to sessions are valid, the two lists of
  sessions are disjoint, a context has one thread per action, in order, and exists only after
  initialization.
\<close>

section \<open>The shape of a context\<close>

text \<open>No operation of the scheduler changes the list of actions or to which action a thread belongs.\<close>

definition same_shape :: "sched_env \<Rightarrow> sched_env \<Rightarrow> bool" where
  "same_shape s s' \<longleftrightarrow> index (graph s') = index (graph s) \<and> map tc_relation (threads s') = map tc_relation (threads s)"

lemma same_shape_refl [intro, simp]: "same_shape s s"
  by (simp add: same_shape_def)

lemma same_shape_trans [trans]: "same_shape s s1 \<Longrightarrow> same_shape s1 s2 \<Longrightarrow> same_shape s s2"
  by (simp add: same_shape_def)

lemma same_shape_match: "same_shape s s' \<Longrightarrow> threads_match s \<Longrightarrow> threads_match s'"
  by (simp add: same_shape_def threads_match_def)

named_theorems shape_intros "operations that keep the shape of a context"

lemma notify_shape [shape_intros]: "notify_at j i s = Inr s' \<Longrightarrow> same_shape s s'"
  by (simp add: same_shape_def notify_at_frame)

lemma reschedule_shape [shape_intros]:
  assumes "reschedule_actions nxt k s = Inr s'"
  shows "same_shape s s'"
proof -
  let ?s0 = "sched_end (set_threads ((threads s)[k := snd (stop_thread (threads s ! k))]) s)"
  from assms have k: "k < length (threads s)"
    by (auto simp: reschedule_actions_def rbind_Inr_iff vec_at_Inr_iff)
  then have "resched_loop nxt (tc_idxs (threads s ! k)) ?s0 = Inr s'"
    using assms by (simp add: reschedule_eq)
  from resched_loop_frame [OF this] show ?thesis
    using k by (simp add: same_shape_def update_same thread_simps)
qed

lemma result_loop_shape [shape_intros]:
  "result_loop nxt msg may_set kvps s = Inr s' \<Longrightarrow> same_shape s s'"
proof (induction kvps arbitrary: s)
  case Nil
  then show ?case by simp
next
  case (Cons kv kvps)
  obtain k d where kv: "kv = (k, d)" by (cases kv)
  let ?m = "graph s"
  let ?j = "find_key ?m k"
  let ?m1 = "if may_set (rel_value (rel_at ?m (index ?m ! ?j))) then set_value (index ?m ! ?j) d ?m else ?m"
  have g: "same_shape s (set_graph ?m1 s)" by (simp add: same_shape_def)
  from Cons.prems show ?case
    using Cons.IH g by (auto simp: kv Let_def rbind_Inr_iff split: if_splits dest!: reschedule_shape intro: same_shape_trans)
qed

lemma start_run_shape [shape_intros]: "start_run nxt s = Inr s' \<Longrightarrow> same_shape s s'"
  by (auto simp: start_run_def pop_execution_idx_def rbind_Inr_iff Let_def notify_at_iff same_shape_def thread_simps
      sched_end_def set_threads_def update_same split: if_splits)

lemma peer_failed_shape [shape_intros]: "peer_failed s = Inr s' \<Longrightarrow> same_shape s s'"
  using null_values_keeps [of "take (length (threads s)) (index (graph s))" "graph s"] stop_all_pending(3) [of "set_graph m s" for m]
  by (auto simp: peer_failed_def same_shape_def split: if_splits)

lemma fold_set_value_index: "index (fold (\<lambda>a. set_value a v) as m) = index m"
  by (induction "as" arbitrary: m) (simp_all add: set_value_def)

lemma complete_context_shape [shape_intros]: "complete_context s = Inr s' \<Longrightarrow> same_shape s s'"
  by (auto simp: complete_context_def same_shape_def fold_set_value_index comp_def split: if_splits)

lemma executor_end_shape: "j < length (threads s) \<Longrightarrow> same_shape s (executor_end j v s)"
  using executor_end_conserves [of j s v] by (simp add: conserves_def same_shape_def)

lemma update_loop_shape [shape_intros]: "update_loop nxt key is s = Inr s' \<Longrightarrow> same_shape s s'"
  using update_loop_frame by (simp add: same_shape_def)

lemma update_loop_is_stopped:
  "update_loop nxt key is s = Inr s' \<Longrightarrow> map is_stopped (threads s') = map is_stopped (threads s)"
  by (induction "is" arbitrary: s) (auto elim!: rbind_InrE simp: notify_at_frame(3))

section \<open>The invariant\<close>

definition ctx_ok :: "nat \<Rightarrow> ctl_context \<Rightarrow> bool" where
  "ctx_ok n c \<longleftrightarrow> map tc_relation (ec_threads (cc_ctx c)) = index (ec_manifest (cc_ctx c)) \<and>
     set (cc_sessions c @ cc_servers c @ cc_clients c) \<subseteq> {..<n}"

text \<open>\<open>n\<close> is the size of the store.\<close>

definition ctl_ok :: "nat \<Rightarrow> 'j controller \<Rightarrow> bool" where
  "ctl_ok n ct \<longleftrightarrow> length (ct_store ct) = n \<and> length (ct_transport ct) = n \<and>
     (\<forall>c \<in> set (ct_ctxs ct). ctx_ok n c) \<and> set (ct_hs ct @ ct_hcs ct @ ct_closing ct) \<subseteq> {..<n} \<and>
     distinct (ct_hs ct @ ct_hcs ct) \<and> (ct_initialized ct \<or> ct_ctxs ct = []) \<and>
     (\<forall>c \<in> set (ct_ctxs ct). cc_ptr c < ct_made ct) \<and> distinct (map cc_ptr (ct_ctxs ct)) \<and>
     (\<forall>h \<in> set (ct_connects ct). ph_ctx h < ct_made ct)"

lemma new_controller_ok: "ctl_ok 0 (new_controller here process q)"
  by (simp add: ctl_ok_def new_controller_def)

named_theorems ctl_intros "operations that keep the invariant of the controller"

lemma on_session_ok [ctl_intros]: "on_session f p ct = Inr ct' \<Longrightarrow> ctl_ok n ct \<Longrightarrow> ctl_ok n ct'"
  by (auto simp: on_session_def ctl_ok_def split: sum.splits)

lemma close_after_ok: "p < n \<Longrightarrow> ctl_ok n ct \<Longrightarrow> ctl_ok n (close_after p ct)"
  by (auto simp: close_after_def ctl_ok_def)

lemma close_ok: "ctl_ok n ct \<Longrightarrow> ctl_ok n (close_server p ct)" "ctl_ok n ct \<Longrightarrow> ctl_ok n (close_client p ct)"
  unfolding close_server_def close_client_def session_erase_def erase_first_remove1 ctl_ok_def
  by (auto dest: notin_set_remove1 simp: distinct_remove1)

lemma map_ctx_ok:
  assumes "ctl_ok n ct" "k < length (ct_ctxs ct)" "ctx_ok n (ctx_at ct k) \<Longrightarrow> ctx_ok n (f (ctx_at ct k))"
    "cc_ptr (f (ctx_at ct k)) = cc_ptr (ctx_at ct k)"
  shows "ctl_ok n (map_ctx k f ct)"
proof -
  have "map cc_ptr ((ct_ctxs ct)[k := f (ct_ctxs ct ! k)]) = map cc_ptr (ct_ctxs ct)"
    using assms(2,4) by (simp add: update_same ctx_at_def)
  moreover have "\<forall>c \<in> set ((ct_ctxs ct)[k := f (ct_ctxs ct ! k)]). ctx_ok n c \<and> cc_ptr c < ct_made ct"
    using assms nth_mem [OF assms(2)] by (auto simp: ctl_ok_def ctx_at_def dest!: set_update_subset_insert [THEN subsetD])
  ultimately show ?thesis using assms(1,2) by (auto simp: map_ctx_def ctx_at_def ctl_ok_def)
qed

lemma ctx_at_map_ctx [simp]:
  "k < length (ct_ctxs ct) \<Longrightarrow> ctx_at (map_ctx k f ct) k = f (ctx_at ct k)"
  "j \<noteq> k \<Longrightarrow> ctx_at (map_ctx k f ct) j = ctx_at ct j"
  by (simp_all add: ctx_at_def map_ctx_def)

lemma map_ctxs_ok:
  assumes "ctl_ok n ct" "\<And>c. ctx_ok n c \<Longrightarrow> ctx_ok n (f c)" "\<And>c. cc_ptr (f c) = cc_ptr c"
  shows "ctl_ok n (ct\<lparr>ct_ctxs := map f (ct_ctxs ct)\<rparr>)"
  using assms by (auto simp: ctl_ok_def comp_def)

lemma put_sched_ok:
  assumes "ctl_ok n ct" "k < length (ct_ctxs ct)" "same_shape (sched_of ct k) s"
  shows "ctl_ok n (put_sched k s ct)"
proof -
  have "ctx_ok n (ctx_at ct k)" using assms(1,2) by (simp add: ctl_ok_def ctx_at_def)
  then have m: "map tc_relation (threads s) = index (graph s)"
    using assms(3) by (simp add: same_shape_def sched_of_def ctx_ok_def)
  have "ctl_ok n (map_ctx k (\<lambda>c. c\<lparr>cc_ctx := se_ctx s\<rparr>) ct)"
    using assms(1,2) m by (intro map_ctx_ok) (simp_all add: ctx_ok_def)
  then show ?thesis by (simp add: put_sched_def ctl_ok_def)
qed

lemma on_sched_ok:
  assumes "on_sched f k ct = Inr ct'" "ctl_ok n ct" "k < length (ct_ctxs ct)" "\<And>s s'. f s = Inr s' \<Longrightarrow> same_shape s s'"
  shows "ctl_ok n ct'"
  using assms by (auto simp: on_sched_def rbind_Inr_iff intro: put_sched_ok)

lemma rfold_ok:
  assumes "rfold f xs ct = Inr ct'" "ctl_ok n ct" "\<And>x ct ct'. x \<in> set xs \<Longrightarrow> ctl_ok n ct \<Longrightarrow> f x ct = Inr ct' \<Longrightarrow> ctl_ok n ct'"
  shows "ctl_ok n ct'"
  using rfold_invariant [of f xs ct ct' "ctl_ok n"] assms by blast

lemma on_session_fields:
  assumes "on_session f p ct = Inr ct'"
  shows "ct_ctxs ct' = ct_ctxs ct" "ct_hs ct' = ct_hs ct" "ct_hcs ct' = ct_hcs ct" "ct_initialized ct' = ct_initialized ct"
    "ct_init ct' = ct_init ct" "ct_closing ct' = ct_closing ct" "length (ct_store ct') = length (ct_store ct)"
  using assms by (auto simp: on_session_def split: sum.splits)

lemma map_ctx_fields [simp]:
  "length (ct_ctxs (map_ctx k f ct)) = length (ct_ctxs ct)" "ct_store (map_ctx k f ct) = ct_store ct"
  "ct_initialized (map_ctx k f ct) = ct_initialized ct" "ct_init (map_ctx k f ct) = ct_init ct"
  "ct_local (map_ctx k f ct) = ct_local ct" "ct_hs (map_ctx k f ct) = ct_hs ct" "ct_hcs (map_ctx k f ct) = ct_hcs ct"
  "ct_closing (map_ctx k f ct) = ct_closing ct"
  by (simp_all add: map_ctx_def)

lemma put_sched_fields [simp]:
  "length (ct_ctxs (put_sched k s ct)) = length (ct_ctxs ct)" "ct_store (put_sched k s ct) = ct_store ct"
  "ct_initialized (put_sched k s ct) = ct_initialized ct"
  by (simp_all add: put_sched_def)

lemma close_after_fields [simp]:
  "ct_ctxs (close_after p ct) = ct_ctxs ct" "ct_store (close_after p ct) = ct_store ct"
  "ct_initialized (close_after p ct) = ct_initialized ct" "ct_init (close_after p ct) = ct_init ct"
  "ct_hs (close_after p ct) = ct_hs ct" "ct_hcs (close_after p ct) = ct_hcs ct"
  by (simp_all add: close_after_def)

lemma on_sched_fields:
  assumes "on_sched f k ct = Inr ct'"
  shows "length (ct_ctxs ct') = length (ct_ctxs ct)" "ct_store ct' = ct_store ct" "ct_initialized ct' = ct_initialized ct"
  using assms by (auto simp: on_sched_def rbind_Inr_iff)

lemma find_ctx_less: "find_ctx Q ct \<noteq> length (ct_ctxs ct) \<Longrightarrow> find_ctx Q ct < length (ct_ctxs ct)"
  using find_if_le [of Q "ct_ctxs ct"] by (simp add: find_ctx_def)

section \<open>Requests keep it\<close>

lemma say_hello_ok:
  assumes "say_hello P k peers ct = Inr ct'" "ctl_ok n ct" "k < length (ct_ctxs ct)"
  shows "ctl_ok n ct' \<and> ct_ctxs ct' = ct_ctxs ct \<and> ct_store ct' = ct_store ct"
  using assms by (auto simp: say_hello_def rbind_Inr_iff ctl_ok_def ctx_at_def)

lemma announce_ok:
  assumes "announce P ob k ct = Inr ct'" "ctl_ok n ct" "k < length (ct_ctxs ct)"
  shows "ctl_ok n ct' \<and> ct_ctxs ct' = ct_ctxs ct \<and> ct_store ct' = ct_store ct"
proof -
  have "ctl_ok n (ct\<lparr>ct_posted := x\<rparr>)" for x using assms(2) by (simp add: ctl_ok_def)
  then show ?thesis
    using assms say_hello_ok [of P k _ ct ct'] by (auto simp: announce_def Let_def rbind_Inr_iff split: if_splits)
qed

lemma push_context_ok:
  assumes "ctl_ok n ct" "map tc_relation (ec_threads c) = index (ec_manifest c)" "set sessions \<subseteq> {..<n}" "ct_initialized ct"
  shows "ctl_ok n (push_context c sessions ct)"
  using assms by (auto simp: push_context_def ctl_ok_def ctx_ok_def less_Suc_eq)

lemma start_context_ok:
  assumes "start_context P ob val c p ct = Inr (r, ct')" "ctl_ok n ct" "p < n" "ct_initialized ct"
    "map tc_relation (ec_threads c) = index (ec_manifest c)"
  shows "ctl_ok n ct'"
proof -
  let ?k = "length (ct_ctxs ct)"
  let ?ct1 = "push_context (add_local (ct_local ct) c) [p] ct"
  have ok: "ctl_ok n ?ct1" using assms(2-5) by (intro push_context_ok) (simp_all add: add_local_def)
  have k: "?k < length (ct_ctxs ?ct1)" by (simp add: push_context_def)
  have fin: "ctl_ok n ct2" if "on_sched complete_context ?k ?ct1 = Inr ct2" for ct2
    by (rule on_sched_ok [OF that ok k]) (rule complete_context_shape)
  have run: "ctl_ok n ct3" if "announce P ob ?k ?ct1 = Inr ct2" "on_sched (start_run (pr_next P)) ?k ct2 = Inr ct3" for ct2 ct3
  proof (rule on_sched_ok [OF that(2)])
    show "ctl_ok n ct2" "?k < length (ct_ctxs ct2)" using announce_ok [OF that(1) ok k] k by auto
  qed (rule start_run_shape)
  show ?thesis
    using assms(1) fin run by (auto simp: start_context_def Let_def rbind_Inr_iff split: if_splits)
qed

lemma answer_other_ok:
  assumes "answer_other P c sessions ct = Inr ct'" "ctl_ok n ct" "set sessions \<subseteq> {..<n}"
  shows "ctl_ok n ct' \<and> ct_ctxs ct' = ct_ctxs ct \<and> ct_initialized ct' = ct_initialized ct \<and> ct_init ct' = ct_init ct"
proof -
  let ?Q = "\<lambda>s. ctl_ok n s \<and> ct_ctxs s = ct_ctxs ct \<and> ct_initialized s = ct_initialized ct \<and> ct_init s = ct_init ct"
  have "?Q ct'"
  proof (rule rfold_invariant [OF assms(1) [unfolded answer_other_def]])
    fix i s s'
    assume "i \<in> set (rev [0..<length sessions])" "?Q s" and
      "rbind (response_for P s (take (Suc i) sessions) c) (\<lambda>res.
         rbind (on_session (server_write_other res) (sessions ! i) s) (\<lambda>s1. Inr (close_after (sessions ! i) s1))) = Inr s'"
    moreover from this(1) have "sessions ! i < n" using assms(3) by (auto dest: nth_mem)
    ultimately show "?Q s'"
      by (auto simp: rbind_Inr_iff on_session_fields intro: close_after_ok on_session_ok)
  qed (use assms(2) in simp)
  then show ?thesis by simp
qed

lemma new_context_match:
  assumes "run_handle w req cs = (Inr (Inr c), cs')"
  shows "map tc_relation (ec_threads c) = index (ec_manifest c)"
proof -
  have "ec_threads c0 = []" if "run_context w env = Inr c0 \<or> peer_context w u i ps env = Inr c0" for env u i ps c0
    using that by (auto simp: run_context_def peer_context_def finish_context_def rbind_Inr_iff split: option.splits if_splits)
  then have "ec_threads c0 = []" if "run_context w (rr_env req) = Inr c0 \<or>
      peer_context w (rr_id req) (rr_idx req) (rr_peers req) (rr_env req) = Inr c0" for c0
    using that by blast
  then show ?thesis
    using assms by (auto simp: run_handle_def Let_def rbind_Inr_iff with_threads_def comp_def new_thread_def split: if_splits)
qed

lemma known_context:
  assumes "run_handle w req cs = (Inr (Inl k), cs')"
  shows "k < length cs \<and> cs' ! k = push_execution_idx (rr_idx req) ((cs ! k)\<lparr>ec_array := ec_array (cs ! k) @ [rr_idx req]\<rparr>)"
  using assms by (auto simp: run_handle_def Let_def rbind_Inr_iff split: if_splits)

lemma post_known_ok:
  assumes "post_known P p run k c ct = Inr (r, ct')" "ctl_ok n ct" "p < n" "k < length (ct_ctxs ct)"
    "ec_threads c = ec_threads (cc_ctx (ctx_at ct k))" "ec_manifest c = ec_manifest (cc_ctx (ctx_at ct k))"
  shows "ctl_ok n ct'"
proof -
  have "ct_initialized ct" using assms(2,4) by (auto simp: ctl_ok_def)
  with assms(1) have "ct' = map_ctx k (join_context p run c) ct" by (simp add: post_known_def Let_def)
  moreover have "ctl_ok n (map_ctx k (join_context p run c) ct)"
    using assms(2-6) by (intro map_ctx_ok) (auto simp: ctx_ok_def join_context_def)
  ultimately show ?thesis by simp
qed

lemma post_new_ok:
  assumes "post_new P p ob val run c ct = Inr (r, ct')" "ctl_ok n ct" "p < n"
    "map tc_relation (ec_threads c) = index (ec_manifest c)"
  shows "ctl_ok n ct'"
  using assms start_context_ok [of P ob val "c\<lparr>ec_env := rr_env run\<rparr>" p ct r ct' n]
    answer_other_ok [of P "c\<lparr>ec_env := rr_env run\<rparr>" "[p]" ct ct' n]
  by (auto simp: post_new_def Let_def rbind_Inr_iff split: if_splits)

lemma post_run_ok:
  assumes "post_run P p val ct = Inr (r, ct')" "ctl_ok n ct" "p < n"
  shows "ctl_ok n ct'"
proof -
  from assms(1) obtain ob run kc cs where h: "run_handle (world_at P ct) run (map cc_ctx (ct_ctxs ct)) = (Inr kc, cs)"
    and r: "(case kc of Inl k \<Rightarrow> post_known P p run k (cs ! k) ct | Inr c \<Rightarrow> post_new P p ob val run c ct) = Inr (r, ct')"
    by (auto simp: post_run_def elim!: rbind_InrE split: prod.split_asm)
  show ?thesis
  proof (cases kc)
    case (Inl k)
    from known_context [OF h [unfolded Inl]] have "k < length (ct_ctxs ct)"
      "ec_threads (cs ! k) = ec_threads (cc_ctx (ctx_at ct k))" "ec_manifest (cs ! k) = ec_manifest (cc_ctx (ctx_at ct k))"
      by (auto simp: ctx_at_def push_execution_idx_def)
    with r Inl show ?thesis using post_known_ok [OF _ assms(2,3)] by auto
  next
    case (Inr c)
    with r new_context_match [OF h [unfolded Inr]] show ?thesis using post_new_ok [OF _ assms(2,3)] by auto
  qed
qed

lemma merge_peers_match:
  assumes "merge_peer_addresses aton ps c = Inr c'"
  shows "ec_threads c' = ec_threads c" "ec_manifest c' = ec_manifest c" "ec_id c' = ec_id c"
  using assms by (auto simp: merge_peer_addresses_def rbind_Inr_iff)

lemma close_after_session_ok:
  "on_session f p ct = Inr ct1 \<Longrightarrow> ctl_ok n ct \<Longrightarrow> p < n \<Longrightarrow> ctl_ok n (close_after p ct1)"
  using on_session_ok close_after_ok by blast

lemma bind_known_ok:
  assumes "bind_known P p cv k ct = Inr ct'" "ctl_ok n ct" "p < n" "k < length (ct_ctxs ct)"
  shows "ctl_ok n ct'"
proof -
  let ?ct1 = "map_ctx k (\<lambda>x. x\<lparr>cc_servers := cc_servers x @ [p]\<rparr>) ct"
  from assms(1) obtain ps c data where m: "merge_peer_addresses (w_aton (pr_world P)) ps (cc_ctx (ctx_at ?ct1 k)) = Inr c"
    and s: "on_session (put_response (bind_reply data)) p (map_ctx k (\<lambda>x. x\<lparr>cc_ctx := c\<rparr>) ?ct1) = Inr ct'"
    by (auto simp: bind_known_def Let_def elim!: rbind_InrE)
  have "ctl_ok n ?ct1" using assms(2-4) by (intro map_ctx_ok) (auto simp: ctx_ok_def)
  then have "ctl_ok n (map_ctx k (\<lambda>x. x\<lparr>cc_ctx := c\<rparr>) ?ct1)"
    by (rule map_ctx_ok) (use assms(4) merge_peers_match [OF m] in \<open>auto simp: ctx_ok_def\<close>)
  with s show ?thesis by (rule on_session_ok)
qed

lemma put_bind_ok:
  assumes "put_bind P p val ct = Inr ct'" "ctl_ok n ct" "p < n"
  shows "ctl_ok n ct'"
  using assms(1) bind_known_ok [OF _ assms(2,3)] close_after_session_ok [OF _ assms(2,3)]
  by (auto simp: put_bind_def Let_def elim!: rbind_InrE split: option.split_asm if_split_asm)

lemma results_ok:
  assumes "on_sched (result_loop nxt msg may_set kvps) k ct = Inr ct'" "ctl_ok n ct" "k < length (ct_ctxs ct)"
  shows "ctl_ok n ct'"
  by (rule on_sched_ok [OF assms]) (rule result_loop_shape)

lemma put_update_ok:
  assumes "put_update P p val ct = Inr ct'" "ctl_ok n ct" "p < n"
  shows "ctl_ok n ct'"
  using assms(1) close_after_session_ok [OF _ assms(2,3)] results_ok [OF _ assms(2)]
  by (auto simp: put_update_def Let_def request_results_def elim!: rbind_InrE split: if_split_asm)

lemma initialize_at_ok: "initialize_at P iv ct = Inr ct' \<Longrightarrow> ctl_ok n ct \<Longrightarrow> ctl_ok n ct'"
  by (auto simp: initialize_at_def rbind_Inr_iff ctl_ok_def)

lemma post_init_ok:
  assumes "post_init P p val ct = Inr ct'" "ctl_ok n ct" "p < n"
  shows "ctl_ok n ct'"
  using assms(1) close_after_session_ok [OF _ assms(2,3)] close_after_session_ok [OF _ initialize_at_ok [OF _ assms(2)] assms(3)]
  by (auto simp: post_init_def elim!: rbind_InrE split: if_split_asm)

lemma handle_object_ok:
  assumes "handle_object P p req pos val ct = Inr (r, ct')" "ctl_ok n ct" "p < n"
  shows "ctl_ok n ct'"
  using assms(1,2) post_run_ok [OF _ assms(2,3)] put_bind_ok [OF _ assms(2,3)] put_update_ok [OF _ assms(2,3)]
    post_init_ok [OF _ assms(2,3)]
  by (auto simp: handle_object_def elim!: rbind_InrE split: if_split_asm)

text \<open>The two loops keep what their bodies keep.\<close>

lemma object_loop_keeps:
  assumes "object_loop n js ended skip handle sz data pos s = Inr (r, s')" "Q s"
    and "\<And>s. Q s \<Longrightarrow> Q (ended s)" "\<And>val s r s'. Q s \<Longrightarrow> handle val s = Inr (r, s') \<Longrightarrow> Q s'"
  shows "Q s'"
  using assms(1,2)
proof (induction n arbitrary: pos s)
  case 0
  then show ?case by simp
next
  case (Suc n)
  obtain view p where v: "find_next_json_object data pos = (view, p)" by fastforce
  let ?more = "\<lambda>s. object_loop n js ended skip handle sz data p s = Inr (r, s')"
  from Suc.prems(1) v consider "?more s" | "s' = ended s" | "s' = s" | val s1 where "handle val s = Inr (True, s1)" "s' = s1"
    | val s1 where "handle val s = Inr (False, s1)" "?more s1"
    by (auto elim!: rbind_InrE split: if_split_asm prod.split_asm)
  then show ?case
    using Suc.prems(2) Suc.IH assms(3,4) by cases blast+
qed

lemma chunk_loop_keeps:
  assumes "chunk_loop body zero chunks ps s = Inr (r, s')" "Q s"
    and "\<And>s. Q s \<Longrightarrow> Q (zero s)" "\<And>pos k s r s'. Q s \<Longrightarrow> body pos k s = Inr (r, s') \<Longrightarrow> Q s'"
  shows "Q s'"
  using assms(1,2)
proof (induction ps arbitrary: s)
  case Nil
  then show ?case by simp
next
  case (Cons pos ps)
  then show ?case using assms(3,4) by (fastforce simp: rbind_Inr_iff split: if_splits)
qed

lemma drop_server_ok: "ctl_ok n ct \<Longrightarrow> ctl_ok n (drop_server p ct)"
  unfolding drop_server_def
  by (rule map_ctxs_ok) (auto simp: ctx_ok_def dest: set_erase_first_subset [THEN subsetD])

lemma request_chunk_ok:
  assumes "request_chunk P p req pos k ct = Inr (r, ct')" "ctl_ok n ct" "p < n"
  shows "ctl_ok n ct'"
  using assms(1) [unfolded request_chunk_def] assms(2)
  by (rule object_loop_keeps) (auto intro: drop_server_ok handle_object_ok [OF _ _ assms(3)])

lemma route_request_ok:
  assumes "route_request P p ct = Inr ct'" "ctl_ok n ct" "p < n"
  shows "ctl_ok n ct'"
proof -
  have loop: "ctl_ok n ct1" if "chunk_loop (request_chunk P p req) (\<lambda>ct. ct) ks ps ct = Inr (r, ct1)" for req ks ps r ct1
    using that assms(2) by (rule chunk_loop_keeps) (auto intro: request_chunk_ok [OF _ _ assms(3)])
  show ?thesis
    using assms(1) loop on_session_ok [OF _ loop] close_after_session_ok [OF _ assms(2,3)]
    by (auto simp: route_request_def Let_def elim!: rbind_InrE split: if_split_asm)
qed

section \<open>Responses and connects keep it\<close>

lemma drop_client_ok: "ctl_ok n ct \<Longrightarrow> ctl_ok n (drop_client p ct)"
  unfolding drop_client_def
  by (rule map_ctxs_ok) (auto simp: ctx_ok_def dest: set_erase_first_subset [THEN subsetD])

lemma meet_peers_ok:
  assumes "meet_peers P k val ct = Inr ct'" "ctl_ok n ct" "k < length (ct_ctxs ct)"
  shows "ctl_ok n ct' \<and> length (ct_ctxs ct') = length (ct_ctxs ct)"
proof -
  from assms(1) obtain ps c peers where m: "merge_peer_addresses (w_aton (pr_world P)) ps (cc_ctx (ctx_at ct k)) = Inr c"
    and h: "say_hello P k peers (map_ctx k (\<lambda>x. x\<lparr>cc_ctx := c\<rparr>) ct) = Inr ct'"
    by (auto simp: meet_peers_def Let_def elim!: rbind_InrE)
  have "ctl_ok n (map_ctx k (\<lambda>x. x\<lparr>cc_ctx := c\<rparr>) ct)"
    by (rule map_ctx_ok) (use assms(2,3) merge_peers_match [OF m] in \<open>auto simp: ctx_ok_def\<close>)
  from say_hello_ok [OF h this] assms(3) show ?thesis by simp
qed

lemma handle_reply_ok:
  assumes "handle_reply P p pos val ct = Inr (r, ct')" "ctl_ok n ct"
  shows "ctl_ok n ct'"
proof (cases "client_ctx p ct = length (ct_ctxs ct)")
  case True
  with assms show ?thesis by (auto simp: handle_reply_def Let_def intro: close_ok)
next
  case False
  then have k: "client_ctx p ct < length (ct_ctxs ct)" using find_ctx_less by (auto simp: client_ctx_def)
  from assms(1) False obtain ct1 kvps where
    m: "(if pos = 0 then meet_peers P (client_ctx p ct) val ct else Inr ct) = Inr ct1"
    and r: "on_sched (response_results (pr_next P) kvps) (client_ctx p ct) ct1 = Inr ct'"
    by (auto simp: handle_reply_def Let_def elim!: rbind_InrE)
  have "ctl_ok n ct1" "length (ct_ctxs ct1) = length (ct_ctxs ct)"
    using m meet_peers_ok [OF _ assms(2) k] assms(2) by (auto split: if_splits)
  with r k show ?thesis by (auto simp: response_results_def intro: results_ok)
qed

lemma reply_chunk_ok:
  assumes "reply_chunk P p closed pos k ct = Inr (r, ct')" "ctl_ok n ct"
  shows "ctl_ok n ct'"
  using assms(1) [unfolded reply_chunk_def] assms(2)
  by (rule object_loop_keeps) (auto intro: drop_client_ok handle_reply_ok)

lemma route_response_ok:
  assumes "route_response P p ct = Inr ct'" "ctl_ok n ct"
  shows "ctl_ok n ct'"
proof -
  have loop: "ctl_ok n ct1" if "chunk_loop (reply_chunk P p b) (close_client p) ks ps ct = Inr (r, ct1)" for b ks ps r ct1
    using that assms(2) by (rule chunk_loop_keeps) (auto intro: close_ok reply_chunk_ok)
  have failed: "ctl_ok n ct1" if "on_sched peer_failed (find_ctx Q ct) ct = Inr ct1" "find_ctx Q ct \<noteq> length (ct_ctxs ct)" for Q ct1
    by (rule on_sched_ok [OF that(1) assms(2) find_ctx_less [OF that(2)]]) (rule peer_failed_shape)
  show ?thesis
    using assms(1) loop on_session_ok [OF _ loop] failed close_ok(2) [OF assms(2)]
    by (auto simp: route_response_def client_ctx_def Let_def elim!: rbind_InrE split: if_split_asm)
qed

lemma ctx_ok_mono: "ctx_ok n c \<Longrightarrow> n \<le> m \<Longrightarrow> ctx_ok m c"
  by (auto simp: ctx_ok_def)

lemma add_session_ok:
  assumes "ctl_ok n ct"
  shows "ctl_ok (Suc n) (add_session t s ct)" "n \<notin> set (ct_hs ct @ ct_hcs ct)"
  using assms ctx_ok_mono [of n _ "Suc n"] by (auto simp: ctl_ok_def add_session_def less_Suc_eq)

lemma push_server_ok:
  "ctl_ok n ct \<Longrightarrow> p < n \<Longrightarrow> p \<notin> set (ct_hs ct @ ct_hcs ct) \<Longrightarrow> ctl_ok n (ct\<lparr>ct_hs := ct_hs ct @ [p]\<rparr>)"
  by (auto simp: ctl_ok_def)

lemma push_client_ok:
  "ctl_ok n ct \<Longrightarrow> p < n \<Longrightarrow> p \<notin> set (ct_hs ct @ ct_hcs ct) \<Longrightarrow> ctl_ok n (ct\<lparr>ct_hcs := ct_hcs ct @ [p]\<rparr>)"
  by (auto simp: ctl_ok_def)

lemma connect_done_ok:
  assumes "connect_done ok i t ct = Inr ct'" "ctl_ok n ct"
  shows "ctl_ok n ct' \<or> ctl_ok (Suc n) ct'"
proof -
  let ?h = "ct_connects ct ! i"
  let ?ct1 = "ct\<lparr>ct_connects := take i (ct_connects ct) @ drop (Suc i) (ct_connects ct)\<rparr>"
  let ?ct2 = "add_session t (new_session\<lparr>hs_request := ph_request ?h\<rparr>) ?ct1"
  let ?f = "\<lambda>c. if cc_ptr c = ph_ctx ?h then c\<lparr>cc_clients := cc_clients c @ [n]\<rparr> else c"
  have ok1: "ctl_ok n ?ct1"
    using assms(2) by (auto simp: ctl_ok_def dest: in_set_takeD in_set_dropD)
  show ?thesis
  proof (cases ok)
    case False
    with assms(1) ok1 show ?thesis by (simp add: connect_done_def Let_def)
  next
    case True
    have n: "length (ct_store ct) = n" using assms(2) by (simp add: ctl_ok_def)
    have hcs: "ctl_ok (Suc n) (?ct2\<lparr>ct_hcs := ct_hcs ?ct2 @ [n]\<rparr>)"
      using add_session_ok [OF ok1] by (intro push_client_ok) (auto simp: add_session_def)
    have "ctl_ok (Suc n) ((?ct2\<lparr>ct_hcs := ct_hcs ?ct2 @ [n]\<rparr>)\<lparr>ct_ctxs := map ?f (ct_ctxs (?ct2\<lparr>ct_hcs := ct_hcs ?ct2 @ [n]\<rparr>))\<rparr>)"
      by (rule map_ctxs_ok [OF hcs]) (auto simp: ctx_ok_def)
    with assms(1) True n show ?thesis by (auto simp: connect_done_def Let_def intro: on_session_ok)
  qed
qed

section \<open>The passes keep it\<close>

lemma answer_waiting_ok: "answer_waiting res p ct = Inr ct' \<Longrightarrow> ctl_ok n ct \<Longrightarrow> p < n \<Longrightarrow> ctl_ok n ct'"
  using close_after_session_ok by (auto simp: answer_waiting_def elim!: rbind_InrE)

lemma end_server_ok: "end_server ks p ct = Inr ct' \<Longrightarrow> ctl_ok n ct \<Longrightarrow> p < n \<Longrightarrow> ctl_ok n ct'"
  using close_after_session_ok by (auto simp: end_server_def elim!: rbind_InrE)

lemma stopped_text_relations:
  "stopped_text parse serialize m i ts data = Inr (ts', data') \<Longrightarrow> map tc_relation ts' = map tc_relation ts"
  by (induction ts arbitrary: i data ts' data') (auto simp: thread_simps elim!: rbind_InrE)

lemma distinct_without: "distinct xs \<Longrightarrow> distinct (take k xs @ drop (Suc k) xs)"
  using set_take_disj_set_drop_if_distinct [of xs k "Suc k"] by simp

lemma ctl_ok_erase:
  assumes "ctl_ok n ct"
  shows "ctl_ok n (ct\<lparr>ct_ctxs := take k (ct_ctxs ct) @ drop (Suc k) (ct_ctxs ct)\<rparr>)"
proof -
  have "distinct (map cc_ptr (take k (ct_ctxs ct) @ drop (Suc k) (ct_ctxs ct)))"
    using assms distinct_without [of "map cc_ptr (ct_ctxs ct)" k]
    by (simp add: ctl_ok_def take_map drop_map del: distinct_append)
  moreover have "set (take k (ct_ctxs ct) @ drop (Suc k) (ct_ctxs ct)) \<subseteq> set (ct_ctxs ct)"
    by (auto dest: in_set_takeD in_set_dropD)
  ultimately show ?thesis using assms by (auto simp: ctl_ok_def simp del: distinct_append map_append set_append)
qed

text \<open>What finishing a context does, step by step.\<close>

lemma finish_atE:
  assumes "finish_at P k ct = Inr ct'"
  obtains ts data res ct1 ct2 ct3 ct4 where
    "stopped_text (parse_value (pr_js P)) (result_object (pr_js P)) (graph (sched_of ct k)) 0 (threads (sched_of ct k)) [] = Inr (ts, data)"
    "ct1 = map_ctx k (\<lambda>c. c\<lparr>cc_ctx := (cc_ctx c)\<lparr>ec_threads := ts\<rparr>\<rparr>) ct"
    "response_for P ct1 (cc_sessions (ctx_at ct k)) (cc_ctx (ctx_at ct1 k)) = Inr res"
    "rfold (answer_waiting res) (rev (cc_sessions (ctx_at ct k))) ct1 = Inr ct2"
    "rfold (end_server [data_chunk (data @ '']''), empty_chunk]) (rev (cc_servers (ctx_at ct k))) ct2 = Inr ct3"
    "rfold (on_session (more_request [data_chunk (data @ '']''), empty_chunk])) (rev (cc_clients (ctx_at ct k))) ct3 = Inr ct4"
    "ct' = ct4\<lparr>ct_ctxs := take k (ct_ctxs ct4) @ drop (Suc k) (ct_ctxs ct4)\<rparr>"
  using assms by (auto simp: finish_at_def Let_def elim!: rbind_InrE split: prod.split_asm)

lemma finish_at_ok:
  assumes "finish_at P k ct = Inr ct'" "ctl_ok n ct" "k < length (ct_ctxs ct)"
  shows "ctl_ok n ct'"
proof -
  from assms(1) obtain ts data res ct1 ct2 ct3 ct4 where f:
    "stopped_text (parse_value (pr_js P)) (result_object (pr_js P)) (graph (sched_of ct k)) 0 (threads (sched_of ct k)) [] = Inr (ts, data)"
    "ct1 = map_ctx k (\<lambda>c. c\<lparr>cc_ctx := (cc_ctx c)\<lparr>ec_threads := ts\<rparr>\<rparr>) ct"
    "rfold (answer_waiting res) (rev (cc_sessions (ctx_at ct k))) ct1 = Inr ct2"
    "rfold (end_server [data_chunk (data @ '']''), empty_chunk]) (rev (cc_servers (ctx_at ct k))) ct2 = Inr ct3"
    "rfold (on_session (more_request [data_chunk (data @ '']''), empty_chunk])) (rev (cc_clients (ctx_at ct k))) ct3 = Inr ct4"
    "ct' = ct4\<lparr>ct_ctxs := take k (ct_ctxs ct4) @ drop (Suc k) (ct_ctxs ct4)\<rparr>"
    by (rule finish_atE)
  have c: "ctx_ok n (ctx_at ct k)" using assms(2,3) by (simp add: ctl_ok_def ctx_at_def)
  have "ctl_ok n ct1"
    unfolding f(2)
    by (rule map_ctx_ok [OF assms(2,3)]) (use stopped_text_relations [OF f(1)] in \<open>auto simp: ctx_ok_def sched_of_def\<close>)
  with f(3) have "ctl_ok n ct2" by (rule rfold_ok) (use c in \<open>auto simp: ctx_ok_def intro: answer_waiting_ok\<close>)
  with f(4) have "ctl_ok n ct3" by (rule rfold_ok) (use c in \<open>auto simp: ctx_ok_def intro: end_server_ok\<close>)
  with f(5) have "ctl_ok n ct4" by (rule rfold_ok) (auto intro: on_session_ok)
  then show ?thesis unfolding f(6) by (rule ctl_ok_erase)
qed

lemma finish_loop_ok: "finish_loop m P ct = Inr ct' \<Longrightarrow> ctl_ok n ct \<Longrightarrow> ctl_ok n ct'"
  by (induction m arbitrary: ct) (auto simp: Let_def elim!: rbind_InrE dest: finish_at_ok split: if_split_asm)

lemma tell_data_ok:
  assumes "tell_data P k i ct = Inr ct'" "ctl_ok n ct"
  shows "ctl_ok n ct' \<and> ct_ctxs ct' = ct_ctxs ct"
proof -
  let ?Q = "\<lambda>s. ctl_ok n s \<and> ct_ctxs s = ct_ctxs ct"
  have all: "?Q s'" if "rfold (on_session f) ps s = Inr s'" "?Q s" for f ps s s'
    using that by (rule rfold_invariant) (auto simp: on_session_fields intro: on_session_ok)
  consider "ct' = ct" | f g ps qs s where "rfold (on_session f) ps ct = Inr s" "rfold (on_session g) qs s = Inr ct'"
    using assms(1) by (auto simp: tell_data_def Let_def elim!: rbind_InrE split: if_split_asm)
  then show ?thesis using all assms(2) by cases blast+
qed

lemma update_atE:
  assumes "update_at P k ct = Inr ct'"
  obtains i ct1 where "i = find_if unhandled (threads (sched_of ct k))" "i < length (threads (sched_of ct k))"
    "tell_data P k i (put_sched k (set_threads ((threads (sched_of ct k))[i := snd (pop_idxs (threads (sched_of ct k) ! i))]) (sched_of ct k)) ct) = Inr ct1"
    "on_sched (\<lambda>s1. rbind (vec_at (index (graph s1)) ((i + 1) mod length (threads s1))) (\<lambda>a.
          update_loop (pr_next P) (key_at (graph s1) a) (fst (pop_idxs (threads (sched_of ct k) ! i))) s1)) k ct1 = Inr ct'"
  using assms by (auto simp: update_at_def Let_def vec_at_Inr_iff split_beta elim!: rbind_InrE)

lemma update_at_ok:
  assumes "update_at P k ct = Inr ct'" "ctl_ok n ct" "k < length (ct_ctxs ct)"
  shows "ctl_ok n ct' \<and> length (ct_ctxs ct') = length (ct_ctxs ct)"
proof -
  from assms(1) obtain i ct1 where u: "i < length (threads (sched_of ct k))"
    "tell_data P k i (put_sched k (set_threads ((threads (sched_of ct k))[i := snd (pop_idxs (threads (sched_of ct k) ! i))]) (sched_of ct k)) ct) = Inr ct1"
    "on_sched (\<lambda>s1. rbind (vec_at (index (graph s1)) ((i + 1) mod length (threads s1))) (\<lambda>a.
          update_loop (pr_next P) (key_at (graph s1) a) (fst (pop_idxs (threads (sched_of ct k) ! i))) s1)) k ct1 = Inr ct'"
    by (rule update_atE)
  have "ctl_ok n (put_sched k (set_threads ((threads (sched_of ct k))[i := snd (pop_idxs (threads (sched_of ct k) ! i))]) (sched_of ct k)) ct)"
    using assms(2,3) u(1) by (intro put_sched_ok) (simp_all add: same_shape_def update_same thread_simps)
  from tell_data_ok [OF u(2) this] have ct1: "ctl_ok n ct1" "length (ct_ctxs ct1) = length (ct_ctxs ct)"
    by auto
  have "ctl_ok n ct'"
    using u(3) ct1 assms(3) by (auto intro!: on_sched_ok [OF u(3)] elim!: rbind_InrE intro: update_loop_shape)
  then show ?thesis using on_sched_fields(1) [OF u(3)] ct1(2) by simp
qed

lemma sched_pass_ok:
  assumes "sched_pass P ct = Inr ct'" "ctl_ok n ct"
  shows "ctl_ok n ct'"
proof -
  from assms(1) obtain ct1 where f: "finish_loop (Suc (length (ct_ctxs ct))) P ct = Inr ct1" "update_pass P ct1 = Inr ct'"
    by (auto simp: sched_pass_def elim!: rbind_InrE)
  let ?Q = "\<lambda>s. ctl_ok n s \<and> length (ct_ctxs s) = length (ct_ctxs ct1)"
  have "?Q ct'"
    using f(2) [unfolded update_pass_def]
  proof (rule rfold_invariant)
    show "?Q ct1" using finish_loop_ok [OF f(1) assms(2)] by simp
  qed (auto dest: update_at_ok split: if_split_asm)
  then show ?thesis by simp
qed

section \<open>A turn keeps it\<close>

lemma server_turn_ok:
  assumes "server_turn P t text ct = Inr ct'" "ctl_ok n ct"
  shows "ctl_ok n ct' \<or> ctl_ok (Suc n) ct'"
proof -
  let ?i = "find_if (\<lambda>p. ct_transport ct ! p = t) (ct_hs ct)"
  have n: "length (ct_store ct) = n" using assms(2) by (simp add: ctl_ok_def)
  show ?thesis
  proof (cases "?i = length (ct_hs ct)")
    case True
    with assms(1) n obtain ct1 where r: "on_session (\<lambda>s. server_read (fill text s)) n (add_session t new_session ct) = Inr ct1"
      and q: "(if verb_started (hs_request (ses ct1 n)) then route_request P n (ct1\<lparr>ct_hs := ct_hs ct1 @ [n]\<rparr>) else Inr ct1) = Inr ct'"
      by (auto simp: server_turn_def Let_def elim!: rbind_InrE)
    have "ctl_ok (Suc n) ct1" by (rule on_session_ok [OF r]) (rule add_session_ok(1) [OF assms(2)])
    moreover have "n \<notin> set (ct_hs ct1 @ ct_hcs ct1)"
      using add_session_ok(2) [OF assms(2)] on_session_fields(2,3) [OF r] by (simp add: add_session_def)
    ultimately have "ctl_ok (Suc n) (ct1\<lparr>ct_hs := ct_hs ct1 @ [n]\<rparr>)" and "ctl_ok (Suc n) ct1"
      by (auto intro: push_server_ok)
    then have "ctl_ok (Suc n) ct'"
      using q by (cases "verb_started (hs_request (ses ct1 n))") (auto intro: route_request_ok)
    then show ?thesis ..
  next
    case False
    then have "?i < length (ct_hs ct)" using find_if_le [of _ "ct_hs ct"] by (simp add: le_neq_implies_less)
    then have "ct_hs ct ! ?i \<in> set (ct_hs ct)" by (rule nth_mem)
    moreover have "set (ct_hs ct) \<subseteq> {..<n}" using assms(2) by (simp add: ctl_ok_def)
    ultimately have p: "ct_hs ct ! ?i < n" by blast
    from assms(1) False consider "ct' = ct" | ct1 where "on_session (\<lambda>s. server_read (fill text s)) (ct_hs ct ! ?i) ct = Inr ct1"
        "route_request P (ct_hs ct ! ?i) ct1 = Inr ct'"
      by (auto simp: server_turn_def Let_def rbind_Inr_iff split: if_split_asm)
    then have "ctl_ok n ct'"
    proof cases
      case 2
      show ?thesis by (rule route_request_ok [OF 2(2) on_session_ok [OF 2(1) assms(2)] p])
    qed (simp add: assms(2))
    then show ?thesis ..
  qed
qed

lemma take_message_ok:
  assumes "take_message P t text ct = Inr (Routed ct')" "ctl_ok n ct"
  shows "ctl_ok n ct' \<or> ctl_ok (Suc n) ct'"
proof -
  have client: "ctl_ok n ct'" if "client_turn P p text ct = Inr (Routed ct')" for p
    using that assms(2)
    by (auto simp: client_turn_def split: sum.split_asm cpp_error.split_asm elim!: rbind_InrE
        intro: route_response_ok on_session_ok)
  show ?thesis
    using assms client
    by (auto simp: take_message_def routed_def Let_def elim!: rbind_InrE split: if_split_asm dest: server_turn_ok)
qed

lemma loop_turn_ok:
  assumes "loop_turn P loaded msg ct = Inr (Routed ct')" "ctl_ok n ct"
  shows "ctl_ok n ct' \<or> ctl_ok (Suc n) ct'"
proof -
  let ?ct = "ct\<lparr>ct_box := clear_events loaded (ct_box ct)\<rparr>"
  have ok: "ctl_ok n ?ct" using assms(2) by (simp add: ctl_ok_def)
  from assms(1) obtain tn where m: "(case msg of None \<Rightarrow> Inr (Routed ?ct) | Some (t, text) \<Rightarrow> take_message P t text ?ct) = Inr tn"
    and p: "then_pass P (loaded AND ctl_end_event \<noteq> 0) tn = Inr (Routed ct')"
    by (auto simp: loop_turn_def Let_def elim!: rbind_InrE split: if_split_asm)
  from p obtain ct1 where ct1: "tn = Routed ct1" "ct' = ct1 \<or> sched_pass P ct1 = Inr ct'"
    by (auto simp: then_pass_def routed_def elim!: rbind_InrE split: turn.split_asm if_split_asm)
  have "ctl_ok n ct1 \<or> ctl_ok (Suc n) ct1"
    using m ct1(1) ok take_message_ok [OF _ ok] by (auto split: option.split_asm)
  with ct1(2) show ?thesis using sched_pass_ok by blast
qed

lemma ctl_step_ok:
  assumes "ctl_step ct ct'" "ctl_ok n ct"
  shows "\<exists>n'. ctl_ok n' ct'"
  using assms(1)
proof (cases rule: ctl_step.cases)
  case (turn P loaded msg)
  with loop_turn_ok assms(2) show ?thesis by blast
next
  case (threw i t w e held P loaded s)
  let ?p = "ct_hcs ct ! i"
  have "ctl_ok n (ct\<lparr>ct_box := clear_events loaded (ct_box ct), ct_store := (ct_store ct)[?p := s]\<rparr>)"
    using assms(2) by (simp add: ctl_ok_def)
  then have "ctl_ok n (close_client ?p (ct\<lparr>ct_box := clear_events loaded (ct_box ct), ct_store := (ct_store ct)[?p := s]\<rparr>))"
    by (rule close_ok(2))
  note ok = this
  then have "ctl_ok n ct'"
    using threw(5) sched_pass_ok [OF _ ok] by (auto simp: client_threw_def Let_def split: if_split_asm)
  then show ?thesis ..
next
  case (connected i ok t)
  with connect_done_ok assms(2) show ?thesis by blast
next
  case (broken_server p)
  then show ?thesis using close_ok(1) [OF assms(2)] by blast
next
  case (broken_client p)
  then show ?thesis using close_ok(2) [OF assms(2)] by blast
next
  case (written i)
  have "ctl_ok n (ct\<lparr>ct_closing := take i (ct_closing ct) @ drop (Suc i) (ct_closing ct)\<rparr>)"
    using assms(2) by (auto simp: ctl_ok_def dest: in_set_takeD in_set_dropD)
  then show ?thesis using written close_ok(1) by (auto simp: write_done_def)
next
  case (executed k j v)
  then show ?thesis using put_sched_ok [OF assms(2)] executor_end_shape by blast
qed

lemma ctl_run_ok: "ctl_step\<^sup>*\<^sup>* ct ct' \<Longrightarrow> ctl_ok n ct \<Longrightarrow> \<exists>n'. ctl_ok n' ct'"
  by (induction rule: rtranclp_induct) (auto dest: ctl_step_ok)

end
