(* ===== verification/Routing.thy ===== *)
theory Routing
  imports ControllerState
begin

text \<open>
  What the controller does with the messages it gets: the invariant of its state over all runs,
  the answers to the routes and to initialization, and three ways in which the cutting of a message into
  segments changes what is done with it.
\<close>

section \<open>A JSON library for the examples\<close>

text \<open>The texts are given by a table.\<close>

datatype json = JNull | JStr string | JBool bool | JArr "json list" | JObj "(string \<times> json) list"

definition table_json :: "(string \<times> json) list \<Rightarrow> json json_lib" where
  "table_json tab = \<lparr>js_parse = map_of tab,
     js_text = (\<lambda>v. case find (\<lambda>(s, w). w = v) tab of None \<Rightarrow> ''{}'' | Some (s, _) \<Rightarrow> s),
     js_object = (\<lambda>v. case v of JObj ob \<Rightarrow> Some ob | _ \<Rightarrow> None),
     js_array = (\<lambda>v. case v of JArr xs \<Rightarrow> Some xs | _ \<Rightarrow> None),
     js_string = (\<lambda>v. case v of JStr s \<Rightarrow> Some s | _ \<Rightarrow> None),
     js_bool = (\<lambda>v. case v of JBool b \<Rightarrow> Some b | _ \<Rightarrow> None),
     js_scalar = (\<lambda>v. case v of JStr s \<Rightarrow> JString s | _ \<Rightarrow> JOther),
     js_null = JNull, js_of_object = JObj, js_of_array = JArr, js_of_string = JStr\<rparr>"

definition demo_params :: "(string \<times> json) list \<Rightarrow> json params" where
  "demo_params tab = \<lparr>pr_js = table_json tab, pr_next = next_at_fuel 7,
     pr_world = demo_world\<lparr>w_doc := None, w_draws := [replicate 16 1]\<rparr>, pr_ntop = (\<lambda>_. ''127.0.0.1''), pr_ndebug = True, pr_reuse = True,
     pr_curl = (\<lambda>_. True), pr_calls = \<lparr>dc_pipe = True, dc_closed1 = True, dc_writes = [], dc_closed2 = True\<rparr>,
     pr_decode = (\<lambda>s. s), pr_forked = True, pr_untar = (\<lambda>dir f files. files), pr_opened = True\<rparr>"

definition demo_here :: peer where
  "demo_here = \<lparr>peer_addr = 0x7F000001, peer_port = 5300\<rparr>"

definition demo_sched :: sched where
  "demo_sched = se_queue demo_env"

definition demo_ctl :: "json controller" where
  "demo_ctl = new_controller demo_here demo_init_state demo_sched"

section \<open>The invariant over all runs\<close>

text \<open>
  C2: the state of the controller is well-formed in every run, whatever turns, connects, writes and executors
  do in whatever order: there is no context before initialization; a context has one thread per
  action and thread \<open>i\<close> belongs to action \<open>i\<close>; every session that anything points to exists; no session
  is on both lists, or twice on one; no two contexts have the same pointer.
\<close>
theorem controller_wellformed:
  assumes "ctl_step\<^sup>*\<^sup>* (new_controller here process q) ct"
  shows "(ct_ctxs ct \<noteq> [] \<longrightarrow> ct_initialized ct) \<and>
    (\<forall>c \<in> set (ct_ctxs ct). map tc_relation (ec_threads (cc_ctx c)) = index (ec_manifest (cc_ctx c)) \<and>
       (\<forall>p \<in> set (cc_sessions c @ cc_servers c @ cc_clients c). p < length (ct_store ct))) \<and>
    (\<forall>p \<in> set (ct_hs ct @ ct_hcs ct @ ct_closing ct). p < length (ct_store ct)) \<and>
    length (ct_transport ct) = length (ct_store ct) \<and>
    distinct (ct_hs ct @ ct_hcs ct) \<and> distinct (map cc_ptr (ct_ctxs ct))"
  using ctl_run_ok [OF assms new_controller_ok] by (auto simp: ctl_ok_def ctx_ok_def)

section \<open>What is written\<close>

lemma on_sessionE:
  assumes "on_session f p ct = Inr ct'"
  obtains s where "f (ses ct p) = Inr s" "ct' = ct\<lparr>ct_store := (ct_store ct)[p := s]\<rparr>"
  using assms by (auto simp: on_session_def split: sum.split_asm)

lemma ses_update: "p < length (ct_store ct) \<Longrightarrow> ses (ct\<lparr>ct_store := (ct_store ct)[p := s]\<rparr>) p = s"
  by (simp add: ses_def)

lemma ses_close_after [simp]: "ses (close_after p ct) q = ses ct q"
  by (simp add: ses_def)

text \<open>The text \<open>t\<close> is understood by a client that reads to the end of the stream as the status \<open>st\<close>, without a body.\<close>

definition says :: "string \<Rightarrow> http_status \<Rightarrow> http_version \<Rightarrow> bool" where
  "says t st ver \<longleftrightarrow> (\<exists>r. response_read empty_response t = Inr (r, []) \<and> res_status r = st \<and> msg_version r = ver \<and>
     map chunk_data (msg_chunks r) = [[]])"

lemma empty_reply_says:
  assumes "ver \<noteq> VersionUnknown" "st \<in> {OK, NOT_FOUND, CONFLICT}" "response_show (empty_reply ver st) = Inr t"
  shows "says t st ver"
  using sized_reply_read [OF sized_empty_reply [of ver st] assms(1)] assms(2,3)
  by (auto simp: says_def shown_status_def)

text \<open>Writing an empty reply: the only thing that changes is the text of the session.\<close>

lemma write_reply:
  assumes "p < length (ct_store ct)"
  shows "\<exists>t. response_show (empty_reply ver st) = Inr t \<and>
    on_session (server_write_other (empty_reply ver st)) p ct =
      Inr (ct\<lparr>ct_store := (ct_store ct)[p := (ses ct p)\<lparr>hs_out := hs_out (ses ct p) @ t\<rparr>]\<rparr>)"
  using sized_reply_show [OF sized_empty_reply [of ver st]] by (simp add: on_session_def server_write_other_def)

text \<open>
  A request for anything but \<open>/run\<close> and \<open>/init\<close> is answered with 404 and nothing else changes: its session gets a
  response that a client reads as 404 in the version of the request, and is closed when
  that is written.
\<close>
theorem other_routes_rejected:
  assumes "p < length (ct_store ct)" "\<not> app_locked (ses ct p)" "req_route (hs_request (ses ct p)) \<notin> {''/run'', ''/init''}"
    "msg_version (hs_request (ses ct p)) \<noteq> VersionUnknown"
  shows "\<exists>t. says t NOT_FOUND (msg_version (hs_request (ses ct p))) \<and>
    route_request P p ct = Inr (close_after p (ct\<lparr>ct_store := (ct_store ct)[p :=
      (ses ct p)\<lparr>hs_out := hs_out (ses ct p) @ t\<rparr>]\<rparr>))"
proof -
  obtain t where t: "response_show (empty_reply (msg_version (hs_request (ses ct p))) NOT_FOUND) = Inr t"
    "on_session (server_write_other (empty_reply (msg_version (hs_request (ses ct p))) NOT_FOUND)) p ct =
      Inr (ct\<lparr>ct_store := (ct_store ct)[p := (ses ct p)\<lparr>hs_out := hs_out (ses ct p) @ t\<rparr>]\<rparr>)"
    using write_reply [OF assms(1)] by blast
  have "says t NOT_FOUND (msg_version (hs_request (ses ct p)))" by (rule empty_reply_says [OF assms(4) _ t(1)]) simp
  moreover have "route_request P p ct = Inr (close_after p (ct\<lparr>ct_store := (ct_store ct)[p :=
      (ses ct p)\<lparr>hs_out := hs_out (ses ct p) @ t\<rparr>]\<rparr>))"
    using assms(2,3) t(2) by (simp add: route_request_def Let_def not_found_reply_def)
  ultimately show ?thesis by blast
qed

section \<open>Initialization\<close>



text \<open>
  Before initialization a run is refused: the session gets a 404, no context is kept, no peer and no API is
  asked, no index becomes pending anywhere.
\<close>
theorem run_before_init:
  assumes "ctl_ok n ct" "\<not> ct_initialized ct" "post_run P p val ct = Inr (r, ct')" "p < n"
    "msg_version (hs_request (ses ct p)) \<noteq> VersionUnknown"
  shows "\<not> r \<and> (\<exists>t. says t NOT_FOUND (msg_version (hs_request (ses ct p))) \<and>
    ct' = close_after p (ct\<lparr>ct_store := (ct_store ct)[p := (ses ct p)\<lparr>hs_out := hs_out (ses ct p) @ t\<rparr>]\<rparr>))"
proof -
  let ?ver = "msg_version (hs_request (ses ct p))"
  have none: "ct_ctxs ct = []" and p: "p < length (ct_store ct)" using assms(1,2,4) by (auto simp: ctl_ok_def)
  from assms(3) obtain ob run kc cs where h: "run_handle (world_at P ct) run [] = (Inr kc, cs)"
    and k: "(case kc of Inl k \<Rightarrow> post_known P p run k (cs ! k) ct | Inr c \<Rightarrow> post_new P p ob val run c ct) = Inr (r, ct')"
    by (auto simp: post_run_def none elim!: rbind_InrE split: prod.split_asm)
  from h obtain c where c: "kc = Inr c" "ec_route c = RUN"
    by (auto simp: run_handle_def run_context_def peer_context_def finish_context_def with_threads_def Let_def
        elim!: rbind_InrE split: if_split_asm option.split_asm)
  let ?c = "c\<lparr>ec_env := rr_env run\<rparr>"
  from k c have o: "answer_other P ?c [p] ct = Inr ct'" and r: "\<not> r"
    using assms(2) by (auto simp: post_new_def Let_def elim!: rbind_InrE)
  have "response_for P ct [p] ?c = Inr (empty_reply ?ver NOT_FOUND)"
    using assms(2) c(2) by (simp add: response_for_def create_response_def)
  moreover obtain t where t: "response_show (empty_reply ?ver NOT_FOUND) = Inr t"
    "on_session (server_write_other (empty_reply ?ver NOT_FOUND)) p ct =
      Inr (ct\<lparr>ct_store := (ct_store ct)[p := (ses ct p)\<lparr>hs_out := hs_out (ses ct p) @ t\<rparr>]\<rparr>)"
    using write_reply [OF p] by blast
  ultimately have "ct' = close_after p (ct\<lparr>ct_store := (ct_store ct)[p := (ses ct p)\<lparr>hs_out := hs_out (ses ct p) @ t\<rparr>]\<rparr>)"
    using o by (simp add: answer_other_def)
  moreover have "says t NOT_FOUND ?ver" by (rule empty_reply_says [OF assms(5) _ t(1)]) simp
  ultimately show ?thesis using r by blast
qed

section \<open>Requests and segments\<close>

text \<open>What no handler of a request touches: the requests of the sessions and their mutexes.\<close>

definition requests :: "'j controller \<Rightarrow> (http_request \<times> bool) list" where
  "requests ct = map (\<lambda>s. (hs_request s, app_locked s)) (ct_store ct)"

definition keeps_request :: "(http_session \<Rightarrow> session_result) \<Rightarrow> bool" where
  "keeps_request f \<longleftrightarrow> (\<forall>s s'. f s = Inr s' \<longrightarrow> hs_request s' = hs_request s \<and> app_locked s' = app_locked s)"

lemma keeps_request_writes:
  "keeps_request (server_write_other res)" "keeps_request (put_response res)" "keeps_request (more_response ks)"
  by (auto simp: keeps_request_def server_write_other_def put_response_def more_response_def session_set_def server_write_def
      Let_def split: sum.split_asm if_split_asm)

lemma on_session_requests:
  assumes "on_session f p ct = Inr ct'" "keeps_request f"
  shows "requests ct' = requests ct"
proof -
  from assms(1) obtain s where s: "f (ses ct p) = Inr s" "ct' = ct\<lparr>ct_store := (ct_store ct)[p := s]\<rparr>" by (rule on_sessionE)
  then have "(hs_request s, app_locked s) = (hs_request (ct_store ct ! p), app_locked (ct_store ct ! p))"
    using assms(2) by (auto simp: keeps_request_def ses_def)
  then show ?thesis
    by (cases "p < length (ct_store ct)") (simp_all add: requests_def s(2) update_same list_update_beyond)
qed

lemmas write_requests = on_session_requests [OF _ keeps_request_writes(1)] on_session_requests [OF _ keeps_request_writes(2)]
  on_session_requests [OF _ keeps_request_writes(3)]

lemma requests_simps [simp]:
  "requests (close_after p ct) = requests ct" "requests (map_ctx k f ct) = requests ct" "requests (put_sched k s ct) = requests ct"
  "requests (drop_server p ct) = requests ct" "requests (push_context c ss ct) = requests ct"
  by (simp_all add: requests_def drop_server_def push_context_def)

lemma on_sched_requests: "on_sched f k ct = Inr ct' \<Longrightarrow> requests ct' = requests ct"
  by (auto simp: on_sched_def elim!: rbind_InrE)

lemma announce_requests: "announce P ob k ct = Inr ct' \<Longrightarrow> requests ct' = requests ct"
  by (auto simp: announce_def say_hello_def requests_def Let_def elim!: rbind_InrE split: if_split_asm)

lemma answer_other_requests: "answer_other P c sessions ct = Inr ct' \<Longrightarrow> requests ct' = requests ct"
  unfolding answer_other_def
  by (rule rfold_invariant [where P = "\<lambda>s. requests s = requests ct"])
    (auto elim!: rbind_InrE dest: write_requests)

lemma start_context_requests: "start_context P ob val c p ct = Inr (r, ct') \<Longrightarrow> requests ct' = requests ct"
  by (auto simp: start_context_def Let_def elim!: rbind_InrE split: if_split_asm dest!: on_sched_requests announce_requests)

lemma post_run_requests: "post_run P p val ct = Inr (r, ct') \<Longrightarrow> requests ct' = requests ct"
  by (auto simp: post_run_def post_known_def post_new_def Let_def elim!: rbind_InrE
      split: prod.split_asm sum.split_asm if_split_asm dest!: start_context_requests answer_other_requests)

lemma bind_known_requests: "bind_known P p cv k ct = Inr ct' \<Longrightarrow> requests ct' = requests ct"
  by (auto simp: bind_known_def Let_def elim!: rbind_InrE dest!: write_requests)

lemma put_requests:
  "put_bind P p val ct = Inr ct' \<Longrightarrow> requests ct' = requests ct" "put_update P p val ct = Inr ct' \<Longrightarrow> requests ct' = requests ct"
  by (auto simp: put_bind_def put_update_def Let_def elim!: rbind_InrE split: option.split_asm if_split_asm
      dest!: bind_known_requests write_requests on_sched_requests)

lemma initialize_at_requests: "initialize_at P iv ct = Inr ct' \<Longrightarrow> requests ct' = requests ct"
  by (auto simp: initialize_at_def requests_def elim!: rbind_InrE)

lemma post_init_requests: "post_init P p val ct = Inr ct' \<Longrightarrow> requests ct' = requests ct"
  by (auto simp: post_init_def elim!: rbind_InrE split: if_split_asm dest!: write_requests initialize_at_requests)

lemma handle_object_requests: "handle_object P p req pos val ct = Inr (r, ct') \<Longrightarrow> requests ct' = requests ct"
  by (auto simp: handle_object_def elim!: rbind_InrE split: if_split_asm dest!: post_run_requests put_requests post_init_requests)

lemma request_loop_requests:
  assumes "chunk_loop (request_chunk P p req) (\<lambda>ct. ct) ks ps ct = Inr (r, ct')"
  shows "requests ct' = requests ct"
proof -
  have chunk: "requests ct2 = requests ct" if "request_chunk P p req pos k ct1 = Inr (r1, ct2)" "requests ct1 = requests ct" for pos k ct1 r1 ct2
    using that unfolding request_chunk_def
    by (rule object_loop_keeps [where Q = "\<lambda>s. requests s = requests ct"]) (auto dest: handle_object_requests)
  show ?thesis
    by (rule chunk_loop_keeps [where Q = "\<lambda>s. requests s = requests ct", OF assms]) (auto dest: chunk)
qed

lemma chunk_loop_zero:
  assumes "chunk_loop body zero chunks ps s = Inr (r, s')" "z \<in> set ps" "bn_eq (chunk_size (chunks ! z)) [0]"
  shows "r"
  using assms(1,2)
  by (induction ps arbitrary: s) (use assms(3) in \<open>auto simp: vec_at_Inr_iff elim!: rbind_InrE split: if_split_asm\<close>)

text \<open>Fuel beyond the length of the data makes no difference.\<close>

lemma object_loop_fuel:
  assumes "length data < 2 ^ 64"
  shows "pos \<le> length data \<Longrightarrow> length data - pos < n \<Longrightarrow> length data - pos < m \<Longrightarrow>
    object_loop n js ended skip handle [of_nat (length data)] data pos s =
    object_loop m js ended skip handle [of_nat (length data)] data pos s"
proof (induction n arbitrary: pos m s)
  case 0
  then show ?case by simp
next
  case (Suc n)
  then obtain j where j: "m = Suc j" by (cases m) auto
  obtain view p where f: "find_next_json_object data pos = (view, p)" by (cases "find_next_json_object data pos")
  show ?case
  proof (cases "pos < length data")
    case True
    have "pos < p" "p \<le> length data" using find_progress [OF True f] by simp_all
    then have IH: "object_loop n js ended skip handle [of_nat (length data)] data p s1 =
        object_loop j js ended skip handle [of_nat (length data)] data p s1" for s1
      using Suc.prems True j by (intro Suc.IH) simp_all
    then have "(if ret then Inr (True, s1) else object_loop n js ended skip handle [of_nat (length data)] data p s1) =
        (if ret then Inr (True, s1) else object_loop j js ended skip handle [of_nat (length data)] data p s1)" for ret s1
      by simp
    then show ?thesis using IH by (simp add: j f split: prod.split cong: rbind_cong)
  next
    case False
    then have "\<not> bn_lt [of_nat pos] [of_nat (length data)]"
      using bn_lt_nat [OF assms, of pos] Suc.prems(1) assms by simp
    then show ?thesis by (simp add: j)
  qed
qed

text \<open>
  A request that has ended is not marked as handled.  When the last, empty chunk has been received, the
  routing returns at that chunk without storing how far it has come: the request in the session is the one from
  before, so that one more message for the session, with or without new text, has all the objects that were
  handled just now handled again.
\<close>
theorem ended_request_handled_again:
  assumes "route_request P p ct = Inr ct'" "req_route (hs_request (ses ct p)) \<in> {''/run'', ''/init''}" "p < length (ct_store ct)"
    "msg_pos (hs_request (ses ct p)) \<le> z" "z < next_chunk (hs_request (ses ct p))"
    "bn_eq (chunk_size (msg_chunks (hs_request (ses ct p)) ! z)) [0]"
  shows "hs_request (ses ct' p) = hs_request (ses ct p) \<and>
    (let req = hs_request (ses ct p); handled = chunk_loop (request_chunk P p req) (\<lambda>ct. ct) (msg_chunks req) [msg_pos req..<next_chunk req]
     in handled ct = Inr (True, ct') \<and> route_request P p ct' = rbind (handled ct') (\<lambda>(ret, ct2). Inr ct2))"
proof -
  let ?req = "hs_request (ses ct p)"
  let ?ps = "[msg_pos ?req..<next_chunk ?req]"
  let ?loop = "chunk_loop (request_chunk P p ?req) (\<lambda>ct. ct) (msg_chunks ?req) ?ps"
  have z: "z \<in> set ?ps" using assms(4,5) by simp
  have ret: "?loop s \<noteq> Inr (False, s')" for s s'
    using chunk_loop_zero [OF _ z assms(6), of _ _ s False] by blast
  from assms(1,2) have free: "\<not> app_locked (ses ct p)" and l: "?loop ct = Inr (True, ct')"
    using ret by (auto simp: route_request_def Let_def elim!: rbind_InrE split: if_split_asm)
  have "requests ct' = requests ct" by (rule request_loop_requests [OF l])
  then have "length (ct_store ct') = length (ct_store ct)" and "requests ct' ! p = requests ct ! p"
    by (auto simp: requests_def dest: map_eq_imp_length_eq)
  then have s: "hs_request (ses ct' p) = ?req" "\<not> app_locked (ses ct' p)"
    using assms(3) free by (simp_all add: requests_def ses_def)
  have "route_request P p ct' = rbind (?loop ct') (\<lambda>(ret, ct2). Inr ct2)"
    using s assms(2) ret by (cases "?loop ct'") (auto simp: route_request_def Let_def)
  with s(1) l show ?thesis by (simp add: Let_def)
qed

lemma no_session_on: "(\<forall>p \<in> set ps. tr ! p \<noteq> t) \<Longrightarrow> find_if (\<lambda>p. tr ! p = t) ps = length ps"
  by (simp add: find_if_eq_length_iff)

lemma new_session_turn:
  assumes "length (ct_store ct) = n" "length (ct_transport ct) = n" "\<forall>p \<in> set (ct_hs ct). ct_transport ct ! p \<noteq> t"
    "server_read (fill text1 new_session) = Inr s" "verb_started (hs_request s)" "next_chunk (hs_request s) = 0"
    "req_route (hs_request s) \<in> {''/run'', ''/init''}"
  shows "server_turn P t text1 ct = Inr ((add_session t s ct)\<lparr>ct_hs := ct_hs ct @ [n]\<rparr>)" "hs_response s = empty_response"
    "\<not> app_locked s" "hs_out s = []"
proof -
  show s: "hs_response s = empty_response" "\<not> app_locked s" "hs_out s = []"
    using assms(4) by (auto simp: server_read_def acquire_locks_def fill_def new_session_def
        split: sum.split_asm cpp_error.split_asm prod.split_asm if_split_asm)
  let ?ct0 = "add_session t s ct"
  let ?ct1 = "?ct0\<lparr>ct_hs := ct_hs ct @ [n]\<rparr>"
  have read: "on_session (\<lambda>s. server_read (fill text1 s)) n (add_session t new_session ct) = Inr ?ct0"
    using assms(1,4) by (simp add: on_session_def ses_def add_session_def nth_append list_update_append)
  have "ses ?ct1 n = s" "ses ?ct0 n = s" using assms(1) by (simp_all add: ses_def nth_append add_session_def)
  moreover have "on_session (set_request ((hs_request s)\<lparr>msg_pos := max (msg_pos (hs_request s)) 0\<rparr>)) n ?ct1 = Inr ?ct1"
    using assms(1) by (simp add: on_session_def ses_def nth_append set_request_def session_set_def s(2) list_update_append add_session_def)
  ultimately have "route_request P n ?ct1 = Inr ?ct1"
    using assms(6,7) s(2) by (simp add: route_request_def Let_def)
  then show "server_turn P t text1 ct = Inr ?ct1"
    using no_session_on [OF assms(3)] read assms(1,5)
    by (simp add: server_turn_def Let_def ses_def nth_append add_session_def)
qed

text \<open>A message for a session whose response has neither a length nor a chunk is dropped unread.\<close>

lemma server_turn_dropped:
  assumes "i = find_if (\<lambda>p. ct_transport ct ! p = t) (ct_hs ct)" "i < length (ct_hs ct)" "ses ct (ct_hs ct ! i) = s"
    "hs_response s = empty_response" "\<not> app_locked s"
  shows "server_turn P t text ct = Inr ct"
  using assms by (simp add: server_turn_def Let_def response_open_ended_def empty_response_def)

lemma rfold_same: "\<forall>x. f x s = Inr s \<Longrightarrow> rfold f xs s = Inr s"
  by (induction xs) simp_all

text \<open>
  C12: a request that arrives in two segments is lost.  The first segment of a request ends after the
  route, \<open>/run\<close> or \<open>/init\<close>, has been read and before the first chunk is complete (a route that is cut
  itself is another route, and is answered with 404).  It makes a session, which no context holds and to
  which nothing is written; and every later message for it, one or many, is dropped unread,
  because its response has neither a length nor a chunk yet: at once, and in any later state in which the
  session is still the one of that transport session and as the first segment left it.
\<close>
theorem split_request_dropped:
  assumes "ctl_ok n ct" "\<forall>p \<in> set (ct_hs ct). ct_transport ct ! p \<noteq> t"
    "server_read (fill text1 new_session) = Inr s" "verb_started (hs_request s)" "next_chunk (hs_request s) = 0"
    "req_route (hs_request s) \<in> {''/run'', ''/init''}"
  shows "\<exists>ct1. server_turn P t text1 ct = Inr ct1 \<and> ct_ctxs ct1 = ct_ctxs ct \<and> ses ct1 n = s \<and>
    n \<in> set (ct_hs ct1) \<and> hs_out (ses ct1 n) = [] \<and>
    (\<forall>c \<in> set (ct_ctxs ct1). n \<notin> set (cc_sessions c @ cc_servers c @ cc_clients c)) \<and> n \<notin> set (ct_closing ct1) \<and>
    (\<forall>P' texts. rfold (server_turn P' t) texts ct1 = Inr ct1) \<and>
    (\<forall>ct2 i P' texts. i = find_if (\<lambda>p. ct_transport ct2 ! p = t) (ct_hs ct2) \<and> i < length (ct_hs ct2) \<and>
       ct_hs ct2 ! i = n \<and> ses ct2 n = s \<longrightarrow> rfold (server_turn P' t) texts ct2 = Inr ct2)"
proof -
  have n: "length (ct_store ct) = n" "length (ct_transport ct) = n" "\<forall>p \<in> set (ct_hs ct). p < n"
    using assms(1) by (auto simp: ctl_ok_def)
  let ?ct1 = "(add_session t s ct)\<lparr>ct_hs := ct_hs ct @ [n]\<rparr>"
  note first = new_session_turn [OF n(1,2) assms(2-6)]
  have later: "rfold (server_turn P' t) texts ct2 = Inr ct2"
    if "i = find_if (\<lambda>p. ct_transport ct2 ! p = t) (ct_hs ct2)" "i < length (ct_hs ct2)" "ct_hs ct2 ! i = n" "ses ct2 n = s"
    for ct2 i P' texts
    by (intro rfold_same allI server_turn_dropped [OF that(1,2) _ first(2,3)]) (simp add: that(3,4))
  have tr: "ct_transport ?ct1 ! p \<noteq> t" if "p \<in> set (ct_hs ct)" for p
    using assms(2) n(2,3) that by (simp add: add_session_def nth_append)
  have "find_if (\<lambda>p. ct_transport ?ct1 ! p = t) (ct_hs ct) = length (ct_hs ct)"
    using tr by (intro no_session_on) blast
  then have found: "length (ct_hs ct) = find_if (\<lambda>p. ct_transport ?ct1 ! p = t) (ct_hs ?ct1)"
    using n(2) by (simp add: find_if_append add_session_def nth_append)
  have ses: "ses ?ct1 n = s" using n(1) by (simp add: ses_def nth_append add_session_def)
  have "rfold (server_turn P' t) texts ?ct1 = Inr ?ct1" for P' texts
    by (rule later [OF found _ _ ses]) simp_all
  moreover have "\<forall>c \<in> set (ct_ctxs ct). n \<notin> set (cc_sessions c @ cc_servers c @ cc_clients c)" "n \<notin> set (ct_closing ct)"
    using assms(1) by (auto simp: ctl_ok_def ctx_ok_def)
  moreover have f: "ct_ctxs ?ct1 = ct_ctxs ct" "ct_closing ?ct1 = ct_closing ct" "n \<in> set (ct_hs ?ct1)" "hs_out (ses ?ct1 n) = []"
    using first(4) unfolding ses by (simp_all add: add_session_def)
  moreover have "\<forall>ct2 i P' texts. i = find_if (\<lambda>p. ct_transport ct2 ! p = t) (ct_hs ct2) \<and> i < length (ct_hs ct2) \<and>
       ct_hs ct2 ! i = n \<and> ses ct2 n = s \<longrightarrow> rfold (server_turn P' t) texts ct2 = Inr ct2"
    using later by blast
  ultimately show ?thesis
    using first(1) ses by (intro exI [of _ ?ct1] conjI) (simp_all only: f, blast+)
qed

section \<open>The pass over the contexts\<close>

lemma rfold_on_session_ctxs: "rfold (on_session f) ps s = Inr s' \<Longrightarrow> ct_ctxs s' = ct_ctxs s"
  by (rule rfold_invariant [where P = "\<lambda>x. ct_ctxs x = ct_ctxs s"]) (auto dest: on_session_fields(1))

lemma finish_at_ctxs:
  assumes "finish_at P k ct = Inr ct'"
  shows "ct_ctxs ct' = take k (ct_ctxs ct) @ drop (Suc k) (ct_ctxs ct)"
proof -
  from assms obtain ts res ks ct1 ct2 ct3 ct4 where f:
    "ct1 = map_ctx k (\<lambda>c. c\<lparr>cc_ctx := (cc_ctx c)\<lparr>ec_threads := ts\<rparr>\<rparr>) ct"
    "rfold (answer_waiting res) (rev (cc_sessions (ctx_at ct k))) ct1 = Inr ct2"
    "rfold (end_server ks) (rev (cc_servers (ctx_at ct k))) ct2 = Inr ct3"
    "rfold (on_session (more_request ks)) (rev (cc_clients (ctx_at ct k))) ct3 = Inr ct4"
    "ct' = ct4\<lparr>ct_ctxs := take k (ct_ctxs ct4) @ drop (Suc k) (ct_ctxs ct4)\<rparr>"
    by (rule finish_atE)
  have "ct_ctxs ct2 = ct_ctxs ct1"
    using f(2) by (rule rfold_invariant) (auto simp: answer_waiting_def elim!: rbind_InrE dest: on_session_fields(1))
  moreover have "ct_ctxs ct3 = ct_ctxs ct2"
    using f(3) by (rule rfold_invariant) (auto simp: end_server_def elim!: rbind_InrE dest: on_session_fields(1))
  moreover have "ct_ctxs ct4 = ct_ctxs ct3" by (rule rfold_on_session_ctxs [OF f(4)])
  ultimately show ?thesis using f(1,5) by (simp add: map_ctx_def)
qed

lemma finish_loop_ctxs:
  "finish_loop m P ct = Inr ct' \<Longrightarrow> ct_ctxs ct' = filter (\<lambda>c. \<not> context_is_stopped c) (ct_ctxs ct)"
proof (induction m arbitrary: ct)
  case 0
  then show ?case by simp
next
  case (Suc m)
  let ?cs = "ct_ctxs ct"
  let ?k = "find_ctx context_is_stopped ct"
  show ?case
  proof (cases "?k < length ?cs")
    case True
    with Suc.prems obtain ct1 where ct1: "finish_at P ?k ct = Inr ct1" "finish_loop m P ct1 = Inr ct'"
      by (auto simp: Let_def elim!: rbind_InrE)
    have "context_is_stopped (?cs ! ?k)" using True find_if_nth by (simp add: find_ctx_def)
    moreover have "?cs = take ?k ?cs @ ?cs ! ?k # drop (Suc ?k) ?cs" by (rule id_take_nth_drop [OF True])
    ultimately have "filter (\<lambda>c. \<not> context_is_stopped c) ?cs =
        filter (\<lambda>c. \<not> context_is_stopped c) (take ?k ?cs @ drop (Suc ?k) ?cs)"
      by (metis filter.simps(2) filter_append)
    with Suc.IH [OF ct1(2)] finish_at_ctxs [OF ct1(1)] show ?thesis by simp
  next
    case False
    with Suc.prems have "ct' = ct" by (simp add: Let_def)
    moreover have "\<forall>c \<in> set ?cs. \<not> context_is_stopped c" using False by (simp add: find_ctx_def find_if_less_iff)
    ultimately show ?thesis by (simp add: filter_True)
  qed
qed

text \<open>The fuel is enough: a context less after every turn.\<close>

lemma finish_loop_fuel:
  "length (ct_ctxs ct) < m \<Longrightarrow> length (ct_ctxs ct) < m' \<Longrightarrow> finish_loop m P ct = finish_loop m' P ct"
proof (induction m arbitrary: ct m')
  case 0
  then show ?case by simp
next
  case (Suc m)
  then obtain j where j: "m' = Suc j" by (cases m') auto
  let ?k = "find_ctx context_is_stopped ct"
  show ?case
  proof (cases "?k < length (ct_ctxs ct)")
    case True
    have "finish_loop m P ct1 = finish_loop j P ct1" if "finish_at P ?k ct = Inr ct1" for ct1
      using Suc True finish_at_ctxs [OF that] by (intro Suc.IH) (simp_all add: j)
    with True j show ?thesis by (auto simp: Let_def intro: rbind_cong)
  qed (simp add: j Let_def)
qed

lemma update_at_stopped:
  assumes "update_at P k ct = Inr ct'" "k < length (ct_ctxs ct)"
  shows "length (ct_ctxs ct') = length (ct_ctxs ct) \<and> map cc_ptr (ct_ctxs ct') = map cc_ptr (ct_ctxs ct) \<and>
    map context_is_stopped (ct_ctxs ct') = map context_is_stopped (ct_ctxs ct)"
proof -
  from assms(1) obtain i ct1 where u: "i < length (threads (sched_of ct k))"
    "tell_data P k i (put_sched k (set_threads ((threads (sched_of ct k))[i := snd (pop_idxs (threads (sched_of ct k) ! i))]) (sched_of ct k)) ct) = Inr ct1"
    "on_sched (\<lambda>s1. rbind (vec_at (index (graph s1)) ((i + 1) mod length (threads s1))) (\<lambda>a.
          update_loop (pr_next P) (key_at (graph s1) a) (fst (pop_idxs (threads (sched_of ct k) ! i))) s1)) k ct1 = Inr ct'"
    by (rule update_atE)
  let ?ts = "(threads (sched_of ct k))[i := snd (pop_idxs (threads (sched_of ct k) ! i))]"
  let ?s0 = "set_threads ?ts (sched_of ct k)"
  have t: "ct_ctxs ct1 = ct_ctxs (put_sched k ?s0 ct)"
    using u(2) by (auto simp: tell_data_def Let_def elim!: rbind_InrE split: if_split_asm dest!: rfold_on_session_ctxs)
  have "map is_stopped ?ts = map is_stopped (threads (sched_of ct k))"
    using u(1) by (simp add: update_same thread_simps)
  then have s0: "all_stopped ?s0 = all_stopped (sched_of ct k)" by (intro all_stopped_map) simp
  have k1: "k < length (ct_ctxs ct1)" using assms(2) t by simp
  have c1: "sched_of ct1 k = sched_of ct1 k \<and> threads (sched_of ct1 k) = ?ts"
    using assms(2) t by (simp add: sched_of_def ctx_at_def put_sched_def map_ctx_def set_threads_def)
  from u(3) obtain s' a where s': "update_loop (pr_next P) (key_at (graph (sched_of ct1 k)) a) (fst (pop_idxs (threads (sched_of ct k) ! i))) (sched_of ct1 k) = Inr s'"
    "ct' = put_sched k s' ct1"
    by (auto simp: on_sched_def elim!: rbind_InrE)
  have stop: "context_is_stopped (c\<lparr>cc_ctx := se_ctx s\<rparr>) = all_stopped s" for c s
    by (simp add: context_is_stopped_def context_stopped_def all_stopped_def list_all_iff)
  have same: "map is_stopped (threads s') = map is_stopped (threads (sched_of ct1 k))"
    using s'(1) by (rule update_loop_is_stopped)
  have "all_stopped s' = all_stopped (sched_of ct k)"
    using all_stopped_map [OF same] s0 c1 by (simp add: all_stopped_def)
  moreover have "context_is_stopped (ct_ctxs ct ! k) = all_stopped (sched_of ct k)"
    by (simp add: context_is_stopped_def context_stopped_def all_stopped_def list_all_iff sched_of_def ctx_at_def)
  ultimately show ?thesis
    using assms(2) t by (simp add: s'(2) put_sched_def map_ctx_def ctx_at_def stop update_same)
qed

lemma update_pass_stopped:
  assumes "update_pass P ct = Inr ct'"
  shows "map cc_ptr (ct_ctxs ct') = map cc_ptr (ct_ctxs ct) \<and>
    map context_is_stopped (ct_ctxs ct') = map context_is_stopped (ct_ctxs ct)"
proof -
  have "length (ct_ctxs ct') = length (ct_ctxs ct) \<and> map cc_ptr (ct_ctxs ct') = map cc_ptr (ct_ctxs ct) \<and>
      map context_is_stopped (ct_ctxs ct') = map context_is_stopped (ct_ctxs ct)"
    using assms unfolding update_pass_def
    by (rule rfold_invariant) (auto split: if_split_asm dest: update_at_stopped)
  then show ?thesis by simp
qed

text \<open>
  C10: a pass answers every context that has stopped and drops it, keeps the others in their order, and none of
  those that remain is stopped by it.
\<close>
theorem pass_finishes_stopped:
  assumes "sched_pass P ct = Inr ct'"
  shows "map cc_ptr (ct_ctxs ct') = map cc_ptr (filter (\<lambda>c. \<not> context_is_stopped c) (ct_ctxs ct)) \<and>
    filter context_is_stopped (ct_ctxs ct') = []"
proof -
  from assms obtain ct1 where ct1: "finish_loop (Suc (length (ct_ctxs ct))) P ct = Inr ct1" "update_pass P ct1 = Inr ct'"
    by (auto simp: sched_pass_def elim!: rbind_InrE)
  have c1: "ct_ctxs ct1 = filter (\<lambda>c. \<not> context_is_stopped c) (ct_ctxs ct)" by (rule finish_loop_ctxs [OF ct1(1)])
  have u: "map cc_ptr (ct_ctxs ct') = map cc_ptr (ct_ctxs ct1)"
    "map context_is_stopped (ct_ctxs ct') = map context_is_stopped (ct_ctxs ct1)"
    using update_pass_stopped [OF ct1(2)] by blast+
  have "True \<notin> set (map context_is_stopped (ct_ctxs ct'))" unfolding u(2) by (auto simp: c1)
  then show ?thesis using u(1) by (force simp: c1 filter_empty_conv)
qed

section \<open>Examples\<close>

text \<open>A request with the given chunks on a new session of the first transport.\<close>

definition demo_request :: "http_verb \<Rightarrow> string \<Rightarrow> http_chunk list \<Rightarrow> json controller" where
  "demo_request verb route ks = demo_ctl\<lparr>ct_store := [new_session\<lparr>hs_request := empty_request\<lparr>req_verb := verb, req_route := route,
     msg_version := V1_1, msg_chunks := ks, next_chunk := length ks\<rparr>\<rparr>], ct_transport := [0], ct_hs := [0]\<rparr>"

lemma demo_request_simps [simp]:
  "ct_ctxs (demo_request v r ks) = []" "ct_initialized (demo_request v r ks) = False"
  "ct_init (demo_request v r ks) = demo_init_state" "ct_hs (demo_request v r ks) = [0]"
  "ct_store (demo_request v r ks) = [ses (demo_request v r ks) 0]" "app_locked (ses (demo_request v r ks) 0) = False"
  "msg_pos empty_request = 0"
  "hs_request (ses (demo_request v r ks) 0) = empty_request\<lparr>req_verb := v, req_route := r, msg_version := V1_1,
     msg_chunks := ks, next_chunk := length ks\<rparr>"
  by (simp_all add: demo_request_def demo_ctl_def new_controller_def ses_def new_session_def empty_request_def)

theorem other_routes_rejected_witness:
  "\<exists>t. says t NOT_FOUND V1_1 \<and> route_request (demo_params []) 0 (demo_request GET ''/x'' []) =
     Inr (close_after 0 ((demo_request GET ''/x'' [])\<lparr>ct_store :=
       [(ses (demo_request GET ''/x'' []) 0)\<lparr>hs_out := hs_out (ses (demo_request GET ''/x'' []) 0) @ t\<rparr>]\<rparr>))"
  using other_routes_rejected [of 0 "demo_request GET ''/x'' []" "demo_params []"] by simp

definition init_object :: json where
  "init_object = JObj [(''value'', JObj [(''name'', JStr ''f''), (''main'', JStr ''go''), (''code'', JStr ''x''), (''binary'', JBool False),
     (''env'', JObj [(''K'', JStr ''1'')])])]"

definition init_params :: "json params" where
  "init_params = demo_params [(''{}'', init_object)]"

lemma init_object_request:
  "js_object (pr_js init_params) init_object = Some [(''value'', JObj [(''name'', JStr ''f''), (''main'', JStr ''go''), (''code'', JStr ''x''), (''binary'', JBool False),
     (''env'', JObj [(''K'', JStr ''1'')])])]"
  "init_request_of (pr_js init_params) [(''value'', JObj [(''name'', JStr ''f''), (''main'', JStr ''go''), (''code'', JStr ''x''), (''binary'', JBool False),
     (''env'', JObj [(''K'', JStr ''1'')])])] = Inr demo_init"
  by (simp_all add: init_params_def demo_params_def table_json_def init_object_def init_request_of_def find_member_def as_object_def
      as_string_def or_throw_def init_request_def env_emplace_def env_text_def demo_init_def)

lemma init_params_simps:
  "pr_opened init_params = True" "w_draws (world_at init_params ct) = [replicate 16 1]"
  by (simp_all add: init_params_def demo_params_def world_at_def)

lemma demo_uuid: "\<exists>u. uuid_v4 [replicate 16 1] = Some u"
  by simp

lemma init_runs:
  assumes "p < length (ct_store ct)" "\<not> ct_initialized ct \<longrightarrow> ct_init ct = demo_init_state"
  shows "\<exists>ct'. post_init init_params p init_object ct = Inr ct' \<and> ct_initialized ct' \<and>
    length (ct_store ct') = length (ct_store ct) \<and> ct_closing ct' = ct_closing ct @ [p]"
proof -
  obtain u where u: "uuid_v4 [replicate 16 1] = Some u" using demo_uuid by blast
  have w: "\<exists>ct2. rbind (on_session (server_write_other (empty_reply ver st)) p c) (\<lambda>c2. Inr (close_after p c2)) = Inr ct2 \<and>
      ct_initialized ct2 = ct_initialized c \<and> length (ct_store ct2) = length (ct_store ct) \<and> ct_closing ct2 = ct_closing c @ [p]"
    if "ct_store c = ct_store ct" for ver st c
    using write_reply [of p c ver st] assms(1) that by (auto simp: close_after_def)
  have "res_status (empty_reply ver st) = st" for ver st by (simp add: empty_reply_def)
  then show ?thesis
    using demo_initialize assms w [of ct] w [of "ct\<lparr>ct_init := demo_init_after, ct_initialized := True\<rparr>"]
    by (cases "ct_initialized ct") (simp_all add: post_init_def as_object_def or_throw_def init_object_request init_context_def init_params_simps u
        response_for_def create_response_def initialize_at_def)
qed


text \<open>The object \<open>{"value":{},"activation_id":"7"}\<close>.\<close>

definition run_object :: json where
  "run_object = JObj [(''value'', JObj []), (''activation_id'', JStr ''7'')]"

theorem run_before_init_witness:
  "\<exists>ct'. post_run (demo_params []) 0 run_object (demo_request POST ''/run'' []) = Inr (False, ct') \<and> ct_ctxs ct' = []"
proof -
  let ?ct = "demo_request POST ''/run'' []" and ?P = "demo_params []"
  have ok: "ctl_ok 1 ?ct"
    by (simp add: ctl_ok_def demo_request_def demo_ctl_def new_controller_def)
  have "\<exists>run. run_request_of (pr_js ?P) [(''value'', JObj []), (''activation_id'', JStr ''7'')] = Inr run \<and>
      rr_id run = zero_uuid \<and> rr_env run ''__OW_ACTIVATION_ID'' = Some ''7''"
    by (simp add: run_request_of_def demo_params_def table_json_def at_key_def or_throw_def as_object_def request_env_def Let_def to_upper_def env_text_def)
  then obtain run where run: "run_request_of (pr_js ?P) [(''value'', JObj []), (''activation_id'', JStr ''7'')] = Inr run"
    "rr_id run = zero_uuid" "rr_env run ''__OW_ACTIVATION_ID'' = Some ''7''" by blast
  have "\<not> uuid_ne zero_uuid zero_uuid" by code_simp
  then have "\<exists>c. run_handle (world_at ?P ?ct) run [] = (Inr (Inr c), []) \<and> ec_route c = RUN"
    using run(2,3) by (simp add: run_handle_def run_context_def world_at_def demo_params_def demo_world_def demo_init_state_def load_manifest_def finish_context_def with_threads_def Let_def)
  then obtain c where c: "run_handle (world_at ?P ?ct) run [] = (Inr (Inr c), [])" "ec_route c = RUN" by blast
  obtain t where "on_session (server_write_other (empty_reply V1_1 NOT_FOUND)) 0 ?ct =
      Inr (?ct\<lparr>ct_store := (ct_store ?ct)[0 := (ses ?ct 0)\<lparr>hs_out := hs_out (ses ?ct 0) @ t\<rparr>]\<rparr>)"
    using write_reply [of 0 ?ct V1_1 NOT_FOUND] by auto
  then have "\<exists>ct'. answer_other ?P (c\<lparr>ec_env := rr_env run\<rparr>) [0] ?ct = Inr ct'"
    using c(2) by (simp add: answer_other_def response_for_def create_response_def)
  moreover have "js_object (pr_js ?P) run_object = Some [(''value'', JObj []), (''activation_id'', JStr ''7'')]"
    by (simp add: demo_params_def table_json_def run_object_def)
  ultimately have "\<exists>r ct'. post_run ?P 0 run_object ?ct = Inr (r, ct')"
    using run(1) c(1) by (auto simp: post_run_def as_object_def or_throw_def post_new_def)
  then obtain r ct' where ct': "post_run ?P 0 run_object ?ct = Inr (r, ct')" by blast
  with run_before_init [OF ok _ ct'] show ?thesis by auto
qed

lemma demo_segment:
  "\<exists>s. server_read (fill ''POST /run '' new_session) = Inr s \<and> verb_started (hs_request s) \<and> next_chunk (hs_request s) = 0 \<and>
    req_route (hs_request s) = ''/run''"
proof -
  have "case server_read (fill ''POST /run '' new_session) of Inl _ \<Rightarrow> False
    | Inr s \<Rightarrow> verb_started (hs_request s) \<and> next_chunk (hs_request s) = 0 \<and> req_route (hs_request s) = ''/run''"
    by code_simp
  then show ?thesis by (auto split: sum.split_asm)
qed

theorem controller_wellformed_witness:
  "\<exists>ct. ctl_step\<^sup>*\<^sup>* demo_ctl ct \<and> ct_hs ct = [0] \<and> length (ct_store ct) = 1 \<and> distinct (ct_hs ct @ ct_hcs ct)"
proof -
  obtain s where s: "server_read (fill ''POST /run '' new_session) = Inr s" "verb_started (hs_request s)"
    "next_chunk (hs_request s) = 0" "req_route (hs_request s) = ''/run''"
    using demo_segment by blast
  let ?ct = "(add_session 7 s demo_ctl)\<lparr>ct_hs := ct_hs demo_ctl @ [0]\<rparr>"
  have "server_turn (demo_params []) 7 ''POST /run '' demo_ctl = Inr ?ct"
    by (rule new_session_turn [OF _ _ _ s(1-3)]) (simp_all add: demo_ctl_def new_controller_def s(4))
  moreover have "demo_ctl\<lparr>ct_box := clear_events 0 (ct_box demo_ctl)\<rparr> = demo_ctl"
    by (simp add: demo_ctl_def new_controller_def clear_events_def)
  ultimately have "loop_turn (demo_params []) 0 (Some (7, ''POST /run '')) demo_ctl = Inr (Routed ?ct)"
    by (simp add: loop_turn_def take_message_def Let_def routed_def then_pass_def)
      (simp add: demo_ctl_def new_controller_def routed_def then_pass_def)
  then have "ctl_step demo_ctl ?ct" by (rule ctl_step.turn)
  then have run: "ctl_step\<^sup>*\<^sup>* (new_controller demo_here demo_init_state demo_sched) ?ct" by (simp add: demo_ctl_def)
  from controller_wellformed [OF run] run show ?thesis
    by (intro exI [of _ ?ct]) (simp add: demo_ctl_def new_controller_def add_session_def)
qed

theorem split_request_dropped_witness:
  "\<exists>ct1. server_turn (demo_params []) 7 ''POST /run '' demo_ctl = Inr ct1 \<and> ct_ctxs ct1 = [] \<and>
    (\<exists>p \<in> set (ct_hs ct1). hs_out (ses ct1 p) = []) \<and> server_turn (demo_params []) 7 ''HTTP/1.1'' ct1 = Inr ct1"
proof -
  obtain s where s: "server_read (fill ''POST /run '' new_session) = Inr s" "verb_started (hs_request s)"
    "next_chunk (hs_request s) = 0" "req_route (hs_request s) = ''/run''"
    using demo_segment by blast
  have "ctl_ok 0 demo_ctl" unfolding demo_ctl_def by (rule new_controller_ok)
  then obtain ct1 where ct1: "server_turn (demo_params []) 7 ''POST /run '' demo_ctl = Inr ct1" "ct_ctxs ct1 = ct_ctxs demo_ctl"
    "0 \<in> set (ct_hs ct1)" "hs_out (ses ct1 0) = []"
    "\<forall>P' texts. rfold (server_turn P' 7) texts ct1 = Inr ct1"
    using split_request_dropped [OF _ _ s(1-3), of 0 demo_ctl 7 "demo_params []"] s(4)
    by (auto simp: demo_ctl_def new_controller_def)
  then have "rfold (server_turn (demo_params []) 7) [''HTTP/1.1''] ct1 = Inr ct1" by blast
  then have "server_turn (demo_params []) 7 ''HTTP/1.1'' ct1 = Inr ct1" by (auto elim!: rbind_InrE)
  with ct1 show ?thesis by (auto simp: demo_ctl_def new_controller_def)
qed


lemma init_chunks_handled:
  assumes "post_init init_params p init_object ct = Inr ct'" "req_route req = ''/init''"
  shows "chunk_loop (request_chunk init_params p req) (\<lambda>ct. ct) [data_chunk ''{}'', empty_chunk] [0, Suc 0] ct = Inr (True, ct')"
proof -
  have "find_next_json_object ''{}'' 0 = (''{}'', 2)" by code_simp
  moreover have "bn_lt [0] [2] \<and> \<not> bn_lt [2] [2]" by code_simp
  moreover have "js_parse (pr_js init_params) ''{}'' = Some init_object"
    by (simp add: init_params_def demo_params_def table_json_def)
  ultimately show ?thesis
    using assms
    by (simp add: request_chunk_def data_chunk_def empty_chunk_def handle_object_def parse_value_def or_throw_def)
qed

theorem ended_request_handled_again_witness:
  "\<exists>ct1 ct2. route_request init_params 0 (demo_request POST ''/init'' [data_chunk ''{}'', empty_chunk]) = Inr ct1 \<and>
    route_request init_params 0 ct1 = Inr ct2 \<and> ct_closing ct1 = [0] \<and> ct_closing ct2 = [0, 0]"
proof -
  let ?ct = "demo_request POST ''/init'' [data_chunk ''{}'', empty_chunk]"
  let ?req = "hs_request (ses ?ct 0)"
  obtain ct1 where c1: "post_init init_params 0 init_object ?ct = Inr ct1" "ct_initialized ct1" "length (ct_store ct1) = 1" "ct_closing ct1 = [0]"
    using init_runs [of 0 ?ct] by (auto simp: demo_request_def demo_ctl_def new_controller_def)
  obtain ct2 where c2: "post_init init_params 0 init_object ct1 = Inr ct2" "ct_closing ct2 = [0, 0]"
    using init_runs [of 0 ct1] c1(2-4) by auto
  have "req_route ?req = ''/init''" by simp
  note h = init_chunks_handled [OF c1(1) this] init_chunks_handled [OF c2(1) this]
  have r: "route_request init_params 0 ?ct = Inr ct1"
    using h(1) by (simp add: route_request_def del: chunk_loop.simps)
  have "bn_eq (chunk_size empty_chunk) [0]" by code_simp
  then have "route_request init_params 0 ct1 = Inr ct2"
    using ended_request_handled_again [OF r, of 1] h by (simp del: chunk_loop.simps)
  with r c1(4) c2(2) show ?thesis by blast
qed

text \<open>A context whose three threads have stopped, and one that runs.\<close>

definition demo_ended :: "thread_controls list" where
  "demo_ended = map (\<lambda>a. (new_thread a ''{}'')\<lparr>tc_signal := ctl_end_event\<rparr>) [2, 1, 0]"

definition demo_pass :: "json controller" where
  "demo_pass = (demo_request POST ''/run'' [])\<lparr>ct_initialized := True, ct_made := 2, ct_ctxs :=
     [\<lparr>cc_ptr = 0, cc_ctx = demo_context\<lparr>ec_threads := demo_ended\<rparr>,
        cc_sessions = [0], cc_servers = [], cc_clients = []\<rparr>,
      \<lparr>cc_ptr = 1, cc_ctx = demo_context, cc_sessions = [], cc_servers = [], cc_clients = []\<rparr>]\<rparr>"

lemma demo_pass_ctxs:
  "ct_ctxs demo_pass = [ctx_at demo_pass 0, ctx_at demo_pass (Suc 0)]"
  "context_is_stopped (ctx_at demo_pass 0)" "\<not> context_is_stopped (ctx_at demo_pass (Suc 0))"
  "\<not> context_is_updated (ctx_at demo_pass (Suc 0))" "cc_ptr (ctx_at demo_pass (Suc 0)) = 1"
  by (simp_all add: demo_pass_def ctx_at_def context_is_stopped_def context_stopped_def is_stopped_def demo_context_def new_thread_def
      context_is_updated_def unhandled_def demo_ended_def ctl_end_event_def)

lemma demo_pass_fields:
  "cc_ctx (ctx_at demo_pass 0) = demo_context\<lparr>ec_threads := demo_ended\<rparr>"
  "cc_sessions (ctx_at demo_pass 0) = [0]" "cc_servers (ctx_at demo_pass 0) = []" "cc_clients (ctx_at demo_pass 0) = []"
  "ct_initialized demo_pass" "ct_init demo_pass = demo_init_state"
  by (simp_all add: demo_pass_def ctx_at_def sched_of_def)

lemma demo_values: "a \<in> {0, 1, 2} \<Longrightarrow> rel_value (rel_at (ec_manifest demo_context) a) = []"
  using demo_index(2) by (auto simp: rel_at_def demo_manifest_def)

lemma demo_pass_text:
  "stopped_text parse ser (graph (sched_of demo_pass 0)) 0 demo_ended [] =
    Inr (demo_ended, [])"
proof -
  have "graph (sched_of demo_pass 0) = ec_manifest demo_context"
    by (simp add: sched_of_def demo_pass_fields)
  then show ?thesis
    using demo_values demo_index(1) by (simp add: demo_ended_def result_text_def has_pending_idxs_def new_thread_def)
qed

lemma demo_stopped_reply:
  assumes "w_env w ''__OW_ACTIONS'' = Some a" "w_doc w = None"
  shows "stopped_reply w parse jn ser V1_1 (demo_context\<lparr>ec_threads := ts\<rparr>) = Inr (text_reply V1_1 OK [])"
  using assms demo_index(1) demo_values [of 2] by (simp add: stopped_reply_def)

lemma demo_pass_session: "ses (map_ctx 0 f demo_pass) 0 = ses (demo_request POST ''/run'' []) 0"
  by (simp add: ses_def map_ctx_def demo_pass_def del: demo_request_simps(5))

lemma demo_pass_response:
  "response_for (demo_params []) (map_ctx 0 f demo_pass) [0] (cc_ctx (ctx_at demo_pass 0)) = Inr (text_reply V1_1 OK [])"
proof -
  let ?w = "world_at (demo_params []) (map_ctx 0 f demo_pass)"
  have w: "w_env ?w ''__OW_ACTIONS'' = Some ''/act''" "w_doc ?w = None"
    by (simp_all add: world_at_def demo_params_def demo_pass_fields map_ctx_def demo_init_state_def)
  have "context_stopped (cc_ctx (ctx_at demo_pass 0))" using demo_pass_ctxs(2) by (simp add: context_is_stopped_def)
  moreover have "msg_version (hs_request (ses (map_ctx 0 f demo_pass) 0)) = V1_1"
    by (simp add: demo_pass_session)
  moreover have "ec_route demo_context = RUN" by (simp add: demo_context_def)
  moreover have "ct_initialized (map_ctx 0 f demo_pass)" by (simp add: map_ctx_def demo_pass_fields)
  ultimately show ?thesis
    using demo_stopped_reply [OF w] unfolding demo_pass_fields(1)
    by (simp add: response_for_def create_response_def)
qed

lemma demo_pass_finish: "\<exists>ct'. finish_at (demo_params []) 0 demo_pass = Inr ct'"
proof -
  let ?ts = demo_ended
  let ?ct1 = "map_ctx 0 (\<lambda>c. c\<lparr>cc_ctx := (cc_ctx c)\<lparr>ec_threads := ?ts\<rparr>\<rparr>) demo_pass"
  have c1: "cc_ctx (ctx_at ?ct1 0) = cc_ctx (ctx_at demo_pass 0)"
    by (simp add: map_ctx_def ctx_at_def demo_pass_def)
  have sched0: "threads (sched_of demo_pass 0) = demo_ended" by (simp add: sched_of_def demo_pass_fields(1))
  have "\<exists>ct2. answer_waiting (text_reply V1_1 OK []) 0 ?ct1 = Inr ct2"
    using sized_reply_show [OF sized_text_reply [of V1_1 OK "[]"]]
    by (simp add: answer_waiting_def on_session_def session_set_def server_write_def demo_pass_session demo_request_simps(6) Let_def)
  then show ?thesis
    using c1 sched0
    by (auto simp: finish_at_def Let_def demo_pass_fields(2-4) demo_pass_text demo_pass_response)
qed

theorem pass_finishes_stopped_witness:
  "\<exists>ct'. sched_pass (demo_params []) demo_pass = Inr ct' \<and> map cc_ptr (ct_ctxs ct') = [1]"
proof -
  let ?P = "demo_params []"
  obtain ct1 where ct1: "finish_at ?P 0 demo_pass = Inr ct1" using demo_pass_finish by blast
  have c1: "ct_ctxs ct1 = [ctx_at demo_pass (Suc 0)]" using finish_at_ctxs [OF ct1] demo_pass_ctxs(1) by simp
  have "find_ctx context_is_stopped demo_pass = 0" by (simp add: find_ctx_def demo_pass_ctxs)
  moreover have "find_ctx context_is_stopped ct1 = 1" using demo_pass_ctxs(3) by (simp add: find_ctx_def c1)
  ultimately have "finish_loop (Suc (length (ct_ctxs demo_pass))) ?P demo_pass = Inr ct1"
    using ct1 c1 by (simp add: Let_def demo_pass_ctxs(1))
  moreover have "update_pass ?P ct1 = Inr ct1"
    using demo_pass_ctxs(4) c1 by (simp add: update_pass_def ctx_at_def)
  ultimately have pass: "sched_pass ?P demo_pass = Inr ct1" by (simp add: sched_pass_def)
  from pass_finishes_stopped [OF this] have "map cc_ptr (ct_ctxs ct1) = [1]"
    by (simp add: demo_pass_ctxs)
  then show ?thesis by (intro exI [of _ ct1] conjI pass)
qed

end
