(* ===== verification/PassRefinement.thy ===== *)
theory PassRefinement
  imports Routing
begin

text \<open>
  The passes of the controller do what \<open>Scheduler\<close> says of a context: seen as a scheduling state whose
  peers are the chunk lists of the client sessions and then of the server sessions, a turn of the
  updated pass is \<open>handle_updated\<close> and a turn of the stopped pass is \<open>handle_stopped\<close>.  On the way: what a
  series of writes does to the store of sessions.
\<close>

section \<open>A series of writes\<close>

definition session_step :: "(http_session \<Rightarrow> session_result) \<Rightarrow> bool \<Rightarrow> nat \<Rightarrow> 'j controller \<Rightarrow> 'j controller result" where
  "session_step f closing p ct = rbind (on_session f p ct) (\<lambda>ct1. Inr (if closing then close_after p ct1 else ct1))"

lemma session_step_eqs:
  "on_session f = session_step f False" "end_server ks = session_step (more_response ks) True"
  "answer_waiting res = session_step (\<lambda>s. case session_set empty_request res s of Inl e \<Rightarrow> Inl e | Inr s1 \<Rightarrow> server_write s1) True"
proof -
  have "rbind m Inr = m" for m :: "'a result" by (cases m) simp_all
  then show "on_session f = session_step f False"
    by (intro ext) (simp add: session_step_def)
qed (intro ext, simp add: session_step_def end_server_def answer_waiting_def)+

text \<open>What such a series from \<open>ct\<close> to \<open>ct'\<close> has done, in terms of the sessions alone.\<close>

definition written_by :: "(http_session \<Rightarrow> session_result) \<Rightarrow> nat list \<Rightarrow> 'j controller \<Rightarrow> 'j controller \<Rightarrow> bool" where
  "written_by f ps ct ct' \<longleftrightarrow> length (ct_store ct') = length (ct_store ct) \<and>
     (\<forall>p \<in> set ps. f (ses ct p) = Inr (ses ct' p)) \<and> (\<forall>p. p \<notin> set ps \<longrightarrow> ses ct' p = ses ct p)"

lemma session_stepE:
  assumes "session_step f closing p ct = Inr ct'" "p < length (ct_store ct)"
  obtains s where "f (ses ct p) = Inr s" "ses ct' p = s" "\<And>q. q \<noteq> p \<Longrightarrow> ses ct' q = ses ct q"
    "ct' = ct\<lparr>ct_store := (ct_store ct)[p := s], ct_closing := ct_closing ct @ (if closing then [p] else [])\<rparr>"
  using assms by (auto simp: session_step_def on_session_def ses_def close_after_def split: sum.split_asm if_splits)

lemma session_fold:
  assumes "rfold (session_step f closing) ps ct = Inr ct'" "distinct ps" "set ps \<subseteq> {..<length (ct_store ct)}"
  shows "written_by f ps ct ct' \<and>
    (\<exists>st. ct' = ct\<lparr>ct_store := st, ct_closing := ct_closing ct @ (if closing then ps else [])\<rparr>)"
  using assms
proof (induction ps arbitrary: ct)
  case Nil
  then show ?case by (auto simp: written_by_def intro: exI [of _ "ct_store ct"])
next
  case (Cons p ps)
  from Cons.prems obtain ct1 where ct1: "session_step f closing p ct = Inr ct1" "rfold (session_step f closing) ps ct1 = Inr ct'"
    by (auto elim!: rbind_InrE)
  have "p < length (ct_store ct)" using Cons.prems(3) by simp
  with ct1(1) obtain s where s: "f (ses ct p) = Inr s" "ses ct1 p = s" "\<And>q. q \<noteq> p \<Longrightarrow> ses ct1 q = ses ct q"
    "ct1 = ct\<lparr>ct_store := (ct_store ct)[p := s], ct_closing := ct_closing ct @ (if closing then [p] else [])\<rparr>"
    by (rule session_stepE) blast
  have len: "length (ct_store ct1) = length (ct_store ct)" by (simp add: s(4))
  have IH: "written_by f ps ct1 ct'" and
    e: "\<exists>st. ct' = ct1\<lparr>ct_store := st, ct_closing := ct_closing ct1 @ (if closing then ps else [])\<rparr>"
    using Cons.IH [OF ct1(2)] Cons.prems(2,3) len by auto
  have "\<exists>st. ct' = ct\<lparr>ct_store := st, ct_closing := ct_closing ct @ (if closing then p # ps else [])\<rparr>"
    using e by (auto simp: s(4))
  moreover have "ses ct1 q = ses ct q" if "q \<in> set ps" for q using s(3) [of q] that Cons.prems(2) by auto
  then have "written_by f (p # ps) ct ct'"
    using IH s(1-3) len Cons.prems(2) unfolding written_by_def by auto
  ultimately show ?case by blast
qed

section \<open>What the writes of the passes do to a session\<close>

lemma more_request_effect:
  "more_request ks s = Inr s' \<Longrightarrow> msg_chunks (hs_request s') = msg_chunks (hs_request s) @ ks \<and> hs_response s' = hs_response s"
  by (auto simp: more_request_def put_request_def session_set_def client_write_def Let_def split: sum.split_asm if_split_asm)

lemma more_response_effect:
  "more_response ks s = Inr s' \<Longrightarrow> msg_chunks (hs_response s') = msg_chunks (hs_response s) @ ks \<and> hs_request s' = hs_request s"
  by (auto simp: more_response_def put_response_def session_set_def server_write_def Let_def split: sum.split_asm if_split_asm)

lemma answer_effect:
  "(case session_set empty_request res s of Inl e \<Rightarrow> Inl e | Inr s1 \<Rightarrow> server_write s1) = Inr s' \<Longrightarrow>
   \<exists>t. response_show res = Inr t \<and> hs_out s' = hs_out s @ t"
  by (auto simp: session_set_def server_write_def Let_def split: sum.split_asm if_split_asm)

section \<open>A context as a scheduling state\<close>

definition peer_view :: "'j controller \<Rightarrow> nat \<Rightarrow> sched_env" where
  "peer_view ct k = (sched_of ct k)\<lparr>se_peers :=
     map (\<lambda>p. msg_chunks (hs_request (ses ct p))) (cc_clients (ctx_at ct k)) @
     map (\<lambda>p. msg_chunks (hs_response (ses ct p))) (cc_servers (ctx_at ct k))\<rparr>"

lemma notify_at_peers: "notify_at j i (s\<lparr>se_peers := ps\<rparr>) = rbind (notify_at j i s) (\<lambda>s1. Inr (s1\<lparr>se_peers := ps\<rparr>))"
  by (cases "j < length (threads s)") (simp_all add: notify_at_def set_threads_def yield_queue_def vec_at_def)

lemma update_loop_peers:
  "update_loop nxt key idxs (s\<lparr>se_peers := ps\<rparr>) = rbind (update_loop nxt key idxs s) (\<lambda>s1. Inr (s1\<lparr>se_peers := ps\<rparr>))"
proof (induction idxs arbitrary: s)
  case (Cons i idxs)
  then show ?case
    by (cases "nxt key i (graph s)"; cases "notify_at (find_key (graph s) (next_key (graph s) (projr (nxt key i (graph s))))) i s")
      (auto simp: notify_at_peers)
qed simp

lemma update_loop_peers_kept: "update_loop nxt key is s = Inr s' \<Longrightarrow> se_peers s' = se_peers s"
proof -
  assume u: "update_loop nxt key is s = Inr s'"
  have "s\<lparr>se_peers := se_peers s\<rparr> = s" by simp
  then have "Inr s' = (Inr (s'\<lparr>se_peers := se_peers s\<rparr>) :: sched_env result)"
    using update_loop_peers [where nxt = nxt and key = key and idxs = "is" and s = s and ps = "se_peers s"] u by simp
  then have "s' = s'\<lparr>se_peers := se_peers s\<rparr>" by simp
  then show ?thesis by (cases s') simp
qed

text \<open>A series of writes of one half leaves the other half alone.\<close>

lemma written_request:
  assumes "written_by (more_request ks) ps ct ct'"
  shows "hs_response (ses ct' p) = hs_response (ses ct p)"
    "msg_chunks (hs_request (ses ct' p)) = msg_chunks (hs_request (ses ct p)) @ (if p \<in> set ps then ks else [])"
  using assms more_request_effect [of ks "ses ct p" "ses ct' p"]
  by (cases "p \<in> set ps"; simp add: written_by_def)+

lemma written_response:
  assumes "written_by (more_response ks) ps ct ct'"
  shows "hs_request (ses ct' p) = hs_request (ses ct p)"
    "msg_chunks (hs_response (ses ct' p)) = msg_chunks (hs_response (ses ct p)) @ (if p \<in> set ps then ks else [])"
  using assms more_response_effect [of ks "ses ct p" "ses ct' p"]
  by (cases "p \<in> set ps"; simp add: written_by_def)+

section \<open>The updated pass\<close>

lemma tell_data_view:
  assumes "tell_data P k i ct = Inr ct'" "distinct (cc_clients (ctx_at ct k))" "distinct (cc_servers (ctx_at ct k))"
    "set (cc_clients (ctx_at ct k)) \<union> set (cc_servers (ctx_at ct k)) \<subseteq> {..<length (ct_store ct)}"
  shows "update_peers (parse_value (pr_js P)) (result_object (pr_js P)) i (peer_view ct k) = Inr (peer_view ct' k) \<and>
    (\<exists>st. ct' = ct\<lparr>ct_store := st\<rparr>)"
proof (cases "0 < length (cc_clients (ctx_at ct k)) + length (cc_servers (ctx_at ct k))")
  case False
  then show ?thesis
    using assms(1) by (auto simp: tell_data_def update_peers_def peer_view_def sched_of_def intro: exI [of _ "ct_store ct"])
next
  case True
  let ?m = "ec_manifest (cc_ctx (ctx_at ct k))"
  from assms(1) True obtain a data where a: "vec_at (index ?m) i = Inr a"
    "result_text (parse_value (pr_js P)) (result_object (pr_js P)) (rel_at ?m a) = Inr data"
    and w: "(if data = [] then Inr ct else rbind (rfold (on_session (more_request [data_chunk data])) (cc_clients (ctx_at ct k)) ct)
       (rfold (on_session (more_response [data_chunk data])) (cc_servers (ctx_at ct k)))) = Inr ct'"
    by (auto simp: tell_data_def Let_def elim!: rbind_InrE)
  show ?thesis
  proof (cases "data = []")
    case True
    then show ?thesis
      using a w by (auto simp: update_peers_def peer_view_def sched_of_def intro: exI [of _ "ct_store ct"])
  next
    case False
    then obtain ct1 where "rfold (session_step (more_request [data_chunk data]) False) (cc_clients (ctx_at ct k)) ct = Inr ct1"
      "rfold (session_step (more_response [data_chunk data]) False) (cc_servers (ctx_at ct k)) ct1 = Inr ct'"
      using w by (auto simp: session_step_eqs(1) elim!: rbind_InrE)
    note 1 = session_fold [OF this(1) assms(2)] and this(2)
    have w1: "written_by (more_request [data_chunk data]) (cc_clients (ctx_at ct k)) ct ct1"
      and c1: "\<exists>st. ct1 = ct\<lparr>ct_store := st\<rparr>"
      using 1 assms(4) by auto
    have "length (ct_store ct1) = length (ct_store ct)" using w1 by (simp add: written_by_def)
    then have w2: "written_by (more_response [data_chunk data]) (cc_servers (ctx_at ct k)) ct1 ct'"
      and c2: "\<exists>st. ct' = ct1\<lparr>ct_store := st\<rparr>"
      using session_fold [OF \<open>rfold _ _ ct1 = Inr ct'\<close> assms(3)] assms(4) by auto
    have same: "ctx_at ct' k = ctx_at ct k" "sched_of ct' k = sched_of ct k" using c1 c2 by (auto simp: ctx_at_def sched_of_def)
    have "peer_view ct' k = tell_peers data (peer_view ct k)"
      by (simp add: peer_view_def same tell_peers_def comp_def written_request [OF w1] written_response [OF w2])
    moreover have "\<exists>st. ct' = ct\<lparr>ct_store := st\<rparr>" using c1 c2 by auto
    moreover have "0 < length (se_peers (peer_view ct k))" using \<open>0 < _\<close> by (simp add: peer_view_def)
    moreover have "graph (peer_view ct k) = ?m" by (simp add: peer_view_def sched_of_def)
    ultimately show ?thesis using a False by (simp add: update_peers_def)
  qed
qed

text \<open>
  C6: A turn of the pass over the contexts with a finished thread does what \<open>handle_updated\<close> does to the context,
  its peers being the streams to the clients and from the servers.
\<close>
theorem update_refines:
  assumes "update_at P k ct = Inr ct'" "ctl_ok n ct" "k < length (ct_ctxs ct)"
    "distinct (cc_clients (ctx_at ct k))" "distinct (cc_servers (ctx_at ct k))"
  shows "handle_updated (pr_next P) (parse_value (pr_js P)) (result_object (pr_js P)) (peer_view ct k) = Inr (peer_view ct' k)"
proof -
  let ?s = "sched_of ct k"
  from assms(1) obtain i ct1 where i: "i = find_if unhandled (threads ?s)" "i < length (threads ?s)"
    and t: "tell_data P k i (put_sched k (set_threads ((threads ?s)[i := snd (pop_idxs (threads ?s ! i))]) ?s) ct) = Inr ct1"
    and u: "on_sched (\<lambda>s1. rbind (vec_at (index (graph s1)) ((i + 1) mod length (threads s1))) (\<lambda>a.
          update_loop (pr_next P) (key_at (graph s1) a) (fst (pop_idxs (threads ?s ! i))) s1)) k ct1 = Inr ct'"
    by (rule update_atE)
  let ?popped = "set_threads ((threads ?s)[i := snd (pop_idxs (threads ?s ! i))]) ?s"
  let ?ct0 = "put_sched k ?popped ct"
  have c: "ctx_ok n (ctx_at ct k)" "length (ct_store ct) = n" using assms(2,3) by (auto simp: ctl_ok_def ctx_at_def)
  have c0: "ctx_at ?ct0 k = (ctx_at ct k)\<lparr>cc_ctx := se_ctx ?popped\<rparr>" "ct_store ?ct0 = ct_store ct" "ct_box ?ct0 = ct_box ct"
    "ct_queue ?ct0 = ct_queue ct" "length (ct_ctxs ?ct0) = length (ct_ctxs ct)"
    using assms(3) by (simp_all add: put_sched_def map_ctx_def ctx_at_def set_threads_def sched_of_def)
  then have v0: "peer_view ?ct0 k = set_threads ((threads (peer_view ct k))[i := snd (pop_idxs (threads (peer_view ct k) ! i))]) (peer_view ct k)"
    by (simp add: peer_view_def sched_of_def set_threads_def ses_def)
  have "update_peers (parse_value (pr_js P)) (result_object (pr_js P)) i (peer_view ?ct0 k) = Inr (peer_view ct1 k) \<and>
      (\<exists>st. ct1 = ?ct0\<lparr>ct_store := st\<rparr>)"
    by (rule tell_data_view [OF t]) (use c assms(4,5) in \<open>auto simp: c0 ctx_ok_def\<close>)
  then have p: "update_peers (parse_value (pr_js P)) (result_object (pr_js P)) i (peer_view ?ct0 k) = Inr (peer_view ct1 k)"
    and "\<exists>st. ct1 = ?ct0\<lparr>ct_store := st\<rparr>" by auto
  then have k1: "k < length (ct_ctxs ct1)" using c0(5) assms(3) by auto
  from u obtain s' a where u': "vec_at (index (graph (sched_of ct1 k))) ((i + 1) mod length (threads (sched_of ct1 k))) = Inr a"
    "update_loop (pr_next P) (key_at (graph (sched_of ct1 k)) a) (fst (pop_idxs (threads ?s ! i))) (sched_of ct1 k) = Inr s'"
    "ct' = put_sched k s' ct1"
    by (auto simp: on_sched_def elim!: rbind_InrE)
  have frame: "se_peers s' = []" using update_loop_peers_kept [OF u'(2)] by (simp add: sched_of_def)
  have v1: "peer_view ct1 k = (sched_of ct1 k)\<lparr>se_peers := se_peers (peer_view ct1 k)\<rparr>"
    by (simp add: peer_view_def)
  have "peer_view ct' k = s'\<lparr>se_peers := se_peers (peer_view ct1 k)\<rparr>"
    using k1 frame by (simp add: u'(3) peer_view_def sched_of_def put_sched_def map_ctx_def ctx_at_def ses_def)
  then have "update_loop (pr_next P) (key_at (graph (peer_view ct1 k)) a) (fst (pop_idxs (threads ?s ! i))) (peer_view ct1 k) =
      Inr (peer_view ct' k)"
    by (subst v1, subst (2) v1, subst update_loop_peers) (simp add: u'(2))
  moreover have "vec_at (index (graph (peer_view ct1 k))) ((i + 1) mod length (threads (peer_view ct1 k))) = Inr a"
    by (subst v1, subst (2) v1) (use u'(1) in simp)
  moreover have "threads (peer_view ct k) = threads ?s" by (simp add: peer_view_def)
  ultimately show ?thesis
    using i p unfolding handle_updated_def v0 by (simp add: Let_def split_beta vec_at_def)
qed

section \<open>The stopped pass\<close>

lemma stopped_text_stopped:
  "stopped_text parse ser m i ts data = Inr (ts', data') \<Longrightarrow> map is_stopped ts' = map is_stopped ts"
  by (induction ts arbitrary: i data ts' data')
    (auto elim!: rbind_InrE split: prod.split_asm simp: thread_simps)

lemma stopped_reply_threads: "stopped_reply w parse jn ser ver (c\<lparr>ec_threads := ts\<rparr>) = stopped_reply w parse jn ser ver c"
proof -
  have fields: "ec_manifest (c\<lparr>ec_threads := ts\<rparr>) = ec_manifest c" "ec_id (c\<lparr>ec_threads := ts\<rparr>) = ec_id c"
    by simp_all
  show ?thesis unfolding stopped_reply_def fields ..
qed

lemma response_for_threads:
  assumes "map is_stopped ts = map is_stopped (ec_threads c)" "ct_store ct1 = ct_store ct" "ct_initialized ct1 = ct_initialized ct"
    "ct_init ct1 = ct_init ct"
  shows "response_for P ct1 ss (c\<lparr>ec_threads := ts\<rparr>) = response_for P ct ss c"
proof -
  have "set (map is_stopped ts) = set (map is_stopped (ec_threads c))" unfolding assms(1) ..
  then have "context_stopped (c\<lparr>ec_threads := ts\<rparr>) = context_stopped c"
    by (auto simp: context_stopped_def list_all_iff)
  moreover have "world_at P ct1 = world_at P ct" "ses ct1 = ses ct"
    using assms(2,4) by (simp_all add: world_at_def ses_def fun_eq_iff)
  ultimately show ?thesis
    using assms(3) by (simp add: response_for_def create_response_def stopped_reply_threads Let_def split: routes.split)
qed

text \<open>What one turn of the pass over the stopped contexts does to the sessions of the context and to all others.\<close>

lemma finish_effect:
  assumes "finish_at P k ct = Inr ct'" "ctl_ok n ct" "k < length (ct_ctxs ct)"
    "distinct (cc_sessions (ctx_at ct k) @ cc_servers (ctx_at ct k) @ cc_clients (ctx_at ct k))"
  obtains ts data res t where
    "stopped_text (parse_value (pr_js P)) (result_object (pr_js P)) (graph (sched_of ct k)) 0 (threads (sched_of ct k)) [] = Inr (ts, data)"
    "response_for P ct (cc_sessions (ctx_at ct k)) (cc_ctx (ctx_at ct k)) = Inr res"
    "cc_sessions (ctx_at ct k) = [] \<or> response_show res = Inr t"
    "\<And>p. p \<in> set (cc_sessions (ctx_at ct k)) \<Longrightarrow> hs_out (ses ct' p) = hs_out (ses ct p) @ t"
    "\<And>p. p \<in> set (cc_servers (ctx_at ct k)) \<Longrightarrow>
       msg_chunks (hs_response (ses ct' p)) = msg_chunks (hs_response (ses ct p)) @ [data_chunk (data @ '']''), empty_chunk]"
    "\<And>p. p \<in> set (cc_clients (ctx_at ct k)) \<Longrightarrow>
       msg_chunks (hs_request (ses ct' p)) = msg_chunks (hs_request (ses ct p)) @ [data_chunk (data @ '']''), empty_chunk]"
    "\<And>p. p \<notin> set (cc_sessions (ctx_at ct k) @ cc_servers (ctx_at ct k) @ cc_clients (ctx_at ct k)) \<Longrightarrow> ses ct' p = ses ct p"
    "ct_closing ct' = ct_closing ct @ rev (cc_sessions (ctx_at ct k)) @ rev (cc_servers (ctx_at ct k))"
proof -
  let ?c = "ctx_at ct k"
  let ?answer = "\<lambda>res s. case session_set empty_request res s of Inl e \<Rightarrow> Inl e | Inr s1 \<Rightarrow> server_write s1"
  from assms(1) obtain ts data res ct1 ct2 ct3 ct4 where f:
    "stopped_text (parse_value (pr_js P)) (result_object (pr_js P)) (graph (sched_of ct k)) 0 (threads (sched_of ct k)) [] = Inr (ts, data)"
    "ct1 = map_ctx k (\<lambda>c. c\<lparr>cc_ctx := (cc_ctx c)\<lparr>ec_threads := ts\<rparr>\<rparr>) ct"
    "response_for P ct1 (cc_sessions ?c) (cc_ctx (ctx_at ct1 k)) = Inr res"
    "rfold (answer_waiting res) (rev (cc_sessions ?c)) ct1 = Inr ct2"
    "rfold (end_server [data_chunk (data @ '']''), empty_chunk]) (rev (cc_servers ?c)) ct2 = Inr ct3"
    "rfold (on_session (more_request [data_chunk (data @ '']''), empty_chunk])) (rev (cc_clients ?c)) ct3 = Inr ct4"
    "ct' = ct4\<lparr>ct_ctxs := take k (ct_ctxs ct4) @ drop (Suc k) (ct_ctxs ct4)\<rparr>"
    by (rule finish_atE)
  let ?ks = "[data_chunk (data @ '']''), empty_chunk]"
  have c: "set (cc_sessions ?c @ cc_servers ?c @ cc_clients ?c) \<subseteq> {..<n}" "length (ct_store ct) = n"
    using assms(2,3) by (auto simp: ctl_ok_def ctx_at_def ctx_ok_def dest!: nth_mem)
  have c1: "ct_store ct1 = ct_store ct" "ct_closing ct1 = ct_closing ct" "ses ct1 = ses ct"
    by (simp_all add: f(2) map_ctx_def ses_def fun_eq_iff)
  note w2 = session_fold [OF f(4) [unfolded session_step_eqs]] session_fold [OF f(5) [unfolded session_step_eqs]]
    session_fold [OF f(6) [unfolded session_step_eqs]]
  have a: "written_by (?answer res) (cc_sessions ?c) ct1 ct2" "ct_closing ct2 = ct_closing ct @ rev (cc_sessions ?c)"
    using w2(1) assms(4) c c1 by (auto simp: written_by_def)
  then have l2: "length (ct_store ct2) = n" using c c1 by (simp add: written_by_def)
  have b: "written_by (more_response ?ks) (cc_servers ?c) ct2 ct3" "ct_closing ct3 = ct_closing ct2 @ rev (cc_servers ?c)"
    using w2(2) assms(4) c l2 by (auto simp: written_by_def)
  then have l3: "length (ct_store ct3) = n" using l2 by (simp add: written_by_def)
  have d: "written_by (more_request ?ks) (cc_clients ?c) ct3 ct4" "ct_closing ct4 = ct_closing ct3"
    using w2(3) assms(4) c l3 by (auto simp: written_by_def)
  have s': "ses ct' = ses ct4" "ct_closing ct' = ct_closing ct4" by (simp_all add: f(7) ses_def fun_eq_iff)
  define t where "t = projr (response_show res)"
  have t: "hs_out (ses ct2 p) = hs_out (ses ct p) @ t \<and> response_show res = Inr t" if "p \<in> set (cc_sessions ?c)" for p
    using that a(1) answer_effect [of res "ses ct1 p" "ses ct2 p"] by (auto simp: written_by_def c1 t_def)
  have "ec_manifest (cc_ctx (ctx_at ct1 k)) = ec_manifest (cc_ctx ?c) \<and> cc_ctx (ctx_at ct1 k) = (cc_ctx ?c)\<lparr>ec_threads := ts\<rparr>"
    using assms(3) by (simp add: f(2))
  moreover have "ct_initialized ct1 = ct_initialized ct" "ct_init ct1 = ct_init ct" by (simp_all add: f(2) map_ctx_def)
  ultimately have r: "response_for P ct (cc_sessions ?c) (cc_ctx ?c) = Inr res"
    using f(3) response_for_threads [of ts "cc_ctx ?c" ct1 ct] stopped_text_stopped [OF f(1)] c1(1)
    by (simp add: sched_of_def)
  show ?thesis
  proof (rule that [OF f(1) r])
    show "cc_sessions ?c = [] \<or> response_show res = Inr t" using t by (cases "cc_sessions ?c") auto
    show "ct_closing ct' = ct_closing ct @ rev (cc_sessions ?c) @ rev (cc_servers ?c)" using a(2) b(2) d(2) s'(2) by simp
  next
    fix p assume "p \<in> set (cc_sessions ?c)"
    then have "p \<notin> set (cc_servers ?c)" "p \<notin> set (cc_clients ?c)" "hs_out (ses ct2 p) = hs_out (ses ct p) @ t"
      using t [of p] assms(4) by auto
    then show "hs_out (ses ct' p) = hs_out (ses ct p) @ t" using b(1) d(1) by (simp add: written_by_def s')
  next
    fix p assume "p \<in> set (cc_servers ?c)"
    then show "msg_chunks (hs_response (ses ct' p)) = msg_chunks (hs_response (ses ct p)) @ ?ks"
      using a(1) assms(4) written_response(2) [OF b(1), of p] written_request(1) [OF d(1), of p]
      by (auto simp: written_by_def s' c1)
  next
    fix p assume "p \<in> set (cc_clients ?c)"
    then show "msg_chunks (hs_request (ses ct' p)) = msg_chunks (hs_request (ses ct p)) @ ?ks"
      using a(1) assms(4) written_response(1) [OF b(1), of p] written_request(2) [OF d(1), of p]
      by (auto simp: written_by_def s' c1)
  next
    fix p assume "p \<notin> set (cc_sessions ?c @ cc_servers ?c @ cc_clients ?c)"
    then show "ses ct' p = ses ct p" using a(1) b(1) d(1) by (simp add: written_by_def s' c1)
  qed
qed

text \<open>
  C7: A turn of the pass over the stopped contexts does what \<open>handle_stopped\<close> does to the context: the streams to its
  clients and from its servers get the results that are known, the end of the array and an empty chunk.
\<close>
theorem finish_refines:
  assumes "finish_at P k ct = Inr ct'" "ctl_ok n ct" "k < length (ct_ctxs ct)"
    "distinct (cc_sessions (ctx_at ct k) @ cc_servers (ctx_at ct k) @ cc_clients (ctx_at ct k))"
  shows "\<exists>s'. handle_stopped (parse_value (pr_js P)) (result_object (pr_js P)) (peer_view ct k) = Inr
    (map (\<lambda>p. msg_chunks (hs_request (ses ct' p))) (cc_clients (ctx_at ct k)) @
     map (\<lambda>p. msg_chunks (hs_response (ses ct' p))) (cc_servers (ctx_at ct k)), s') \<and> map is_stopped (threads s') =
       map is_stopped (threads (sched_of ct k))"
proof -
  obtain ts data where f:
    "stopped_text (parse_value (pr_js P)) (result_object (pr_js P)) (graph (sched_of ct k)) 0 (threads (sched_of ct k)) [] = Inr (ts, data)"
    "\<And>p. p \<in> set (cc_servers (ctx_at ct k)) \<Longrightarrow>
       msg_chunks (hs_response (ses ct' p)) = msg_chunks (hs_response (ses ct p)) @ [data_chunk (data @ '']''), empty_chunk]"
    "\<And>p. p \<in> set (cc_clients (ctx_at ct k)) \<Longrightarrow>
       msg_chunks (hs_request (ses ct' p)) = msg_chunks (hs_request (ses ct p)) @ [data_chunk (data @ '']''), empty_chunk]"
    by (rule finish_effect [OF assms]) (rule that; assumption)
  have "graph (peer_view ct k) = graph (sched_of ct k)" "threads (peer_view ct k) = threads (sched_of ct k)"
    by (simp_all add: peer_view_def)
  then show ?thesis
    using f stopped_text_stopped [OF f(1)]
    by (simp add: handle_stopped_def peer_view_def set_threads_def comp_def cong: map_cong)
qed

text \<open>
  C5: Everyone who waits for a stopped context is answered, all with the same response, and is closed after that, like the
  streams from the servers; no session outside the context is touched.
\<close>
theorem finish_answers_waiting:
  assumes "finish_at P k ct = Inr ct'" "ctl_ok n ct" "k < length (ct_ctxs ct)"
    "distinct (cc_sessions (ctx_at ct k) @ cc_servers (ctx_at ct k) @ cc_clients (ctx_at ct k))"
  shows "\<exists>res t. response_for P ct (cc_sessions (ctx_at ct k)) (cc_ctx (ctx_at ct k)) = Inr res \<and>
    (\<forall>p \<in> set (cc_sessions (ctx_at ct k)). response_show res = Inr t \<and> hs_out (ses ct' p) = hs_out (ses ct p) @ t) \<and>
    ct_closing ct' = ct_closing ct @ rev (cc_sessions (ctx_at ct k)) @ rev (cc_servers (ctx_at ct k)) \<and>
    (\<forall>p. p \<in> set (cc_sessions (ctx_at ct k) @ cc_servers (ctx_at ct k) @ cc_clients (ctx_at ct k)) \<or> ses ct' p = ses ct p)"
proof -
  obtain res t where f:
    "response_for P ct (cc_sessions (ctx_at ct k)) (cc_ctx (ctx_at ct k)) = Inr res"
    "cc_sessions (ctx_at ct k) = [] \<or> response_show res = Inr t"
    "\<And>p. p \<in> set (cc_sessions (ctx_at ct k)) \<Longrightarrow> hs_out (ses ct' p) = hs_out (ses ct p) @ t"
    "\<And>p. p \<notin> set (cc_sessions (ctx_at ct k) @ cc_servers (ctx_at ct k) @ cc_clients (ctx_at ct k)) \<Longrightarrow> ses ct' p = ses ct p"
    "ct_closing ct' = ct_closing ct @ rev (cc_sessions (ctx_at ct k)) @ rev (cc_servers (ctx_at ct k))"
    by (rule finish_effect [OF assms]) (rule that; assumption)
  show ?thesis
    by (rule exI [of _ res], rule exI [of _ t]) (use f in auto)
qed


section \<open>Examples\<close>

lemma demo_pass_ok: "ctl_ok 1 demo_pass"
  using demo_index(1)
  by (simp add: demo_pass_def ctl_ok_def ctx_ok_def demo_ended_def new_thread_def demo_request_def demo_ctl_def new_controller_def)
    (simp add: demo_context_def new_thread_def)

lemma demo_pass_distinct:
  "distinct (cc_sessions (ctx_at demo_pass 0) @ cc_servers (ctx_at demo_pass 0) @ cc_clients (ctx_at demo_pass 0))"
  by (simp add: demo_pass_fields)

theorem finish_refines_witness:
  "\<exists>s'. handle_stopped (parse_value (pr_js (demo_params []))) (result_object (pr_js (demo_params []))) (peer_view demo_pass 0) = Inr ([], s')"
proof -
  obtain ct' where "finish_at (demo_params []) 0 demo_pass = Inr ct'" using demo_pass_finish by blast
  from finish_refines [OF this demo_pass_ok _ demo_pass_distinct] show ?thesis
    by (auto simp: demo_pass_ctxs(1) demo_pass_fields)
qed

theorem finish_answers_waiting_witness:
  "\<exists>ct' t. finish_at (demo_params []) 0 demo_pass = Inr ct' \<and> hs_out (ses ct' 0) = hs_out (ses demo_pass 0) @ t \<and>
    ct_closing ct' = [0]"
proof -
  obtain ct' where ct': "finish_at (demo_params []) 0 demo_pass = Inr ct'" using demo_pass_finish by blast
  have "ct_closing demo_pass = []" by (simp add: demo_pass_def demo_request_def demo_ctl_def new_controller_def)
  with finish_answers_waiting [OF ct' demo_pass_ok _ demo_pass_distinct] ct' show ?thesis
    by (auto simp: demo_pass_ctxs(1) demo_pass_fields)
qed

text \<open>One context whose last thread has ended and which tells a peer.\<close>

definition demo_update :: "json controller" where
  "demo_update = (demo_request PUT ''/run'' [])\<lparr>ct_initialized := True, ct_made := 1, ct_ctxs :=
     [\<lparr>cc_ptr = 0, cc_ctx = se_ctx demo_stopped, cc_sessions = [], cc_servers = [0], cc_clients = []\<rparr>]\<rparr>"

lemma demo_update_runs: "\<not> isl (update_at (demo_params [(''{}'', JNull)]) 0 demo_update)"
  by code_simp

lemma demo_update_ok: "ctl_ok 1 demo_update"
  using demo_stopped_ok(2)
  by (simp add: demo_update_def ctl_ok_def ctx_ok_def threads_match_def demo_request_def demo_ctl_def new_controller_def)

theorem update_refines_witness:
  "\<exists>ct' :: json controller. handle_updated (next_at_fuel 7) (parse_value (table_json [(''{}'', JNull)])) (result_object (table_json [(''{}'', JNull)]))
    (peer_view demo_update 0) = Inr (peer_view ct' 0)"
proof -
  let ?P = "demo_params [(''{}'', JNull)]"
  obtain ct' where ct': "update_at ?P 0 demo_update = Inr ct'"
    using demo_update_runs by (cases "update_at ?P 0 demo_update") auto
  have p: "pr_next ?P = next_at_fuel 7" "pr_js ?P = table_json [(''{}'', JNull)]" by (simp_all add: demo_params_def)
  have d: "0 < length (ct_ctxs demo_update)" "distinct (cc_clients (ctx_at demo_update 0))" "distinct (cc_servers (ctx_at demo_update 0))"
    by (simp_all add: demo_update_def ctx_at_def)
  show ?thesis by (rule exI [of _ ct'], rule update_refines [OF ct' demo_update_ok d, unfolded p])
qed

end
