(* ===== verification/Handshake.thy ===== *)
theory Handshake
  imports Routing
begin

text \<open>
  Two controllers that meet: what one of them writes into a new stream is understood by the other, and so is
  the reply.  The texts go through the JSON library of both sides and through the scanner of the chunks.
\<close>

section \<open>What is asked of the JSON library\<close>

text \<open>
  A value that was made from an object, an array or a string is one, with the same content; and the text of
  one particular value is read back and is an object with balanced braces.
\<close>

definition json_laws :: "'j json_lib \<Rightarrow> bool" where
  "json_laws js \<longleftrightarrow> (\<forall>ob. distinct (map fst ob) \<longrightarrow> js_object js (js_of_object js ob) = Some ob) \<and>
     (\<forall>vs. js_array js (js_of_array js vs) = Some vs) \<and> (\<forall>s. js_string js (js_of_string js s) = Some s)"

definition reads_back :: "'j json_lib \<Rightarrow> 'j \<Rightarrow> bool" where
  "reads_back js v \<longleftrightarrow> js_parse js (js_text js v) = Some v \<and> object_text (js_text js v)"

lemma member_of_object:
  assumes "json_laws js" "distinct (map fst ob)" "map_of ob k = Some v"
  shows "member js k (js_of_object js ob) = Inr v"
  using assms by (simp add: json_laws_def member_def as_object_def at_key_def or_throw_def)

lemma strings_of_strings: "json_laws js \<Longrightarrow> strings_of js (map (js_of_string js) ss) = Inr ss"
  by (induction ss) (simp_all add: json_laws_def as_string_def or_throw_def)

lemma as_array_of: "json_laws js \<Longrightarrow> as_array js (js_of_array js vs) = Inr vs"
  by (simp add: json_laws_def as_array_def or_throw_def)

lemma as_string_of: "json_laws js \<Longrightarrow> as_string js (js_of_string js s) = Inr s"
  by (simp add: json_laws_def as_string_def or_throw_def)

lemma as_object_of: "json_laws js \<Longrightarrow> distinct (map fst ob) \<Longrightarrow> as_object js (js_of_object js ob) = Inr ob"
  by (simp add: json_laws_def as_object_def or_throw_def)

section \<open>A chunk that opens a stream\<close>

text \<open>A bracket and one object: the handler is called once, with the value that was written.\<close>

lemma opening_chunk:
  assumes "reads_back js v" "data = CHR ''['' # js_text js v" "length data < 2 ^ 64"
  shows "object_loop (Suc (length (chunk_data (data_chunk data)))) js ended False handle (chunk_size (data_chunk data))
    (chunk_data (data_chunk data)) 0 s = handle v s"
proof -
  let ?ob = "js_text js v"
  have ob: "object_text ?ob" and parse: "js_parse js ?ob = Some v" using assms(1) by (simp_all add: reads_back_def)
  have "find_next_json_object data 0 = (?ob, 0 + length ''['' + length ?ob)"
    by (rule find_object [where t = "[]", OF _ ob]) (simp_all add: sep_text_def assms(2))
  then have f: "find_next_json_object data 0 = (?ob, length data)" by (simp add: assms(2))
  have lt: "bn_lt [0] [of_nat (length data)]" "\<not> bn_lt [of_nat (length data)] [of_nat (length data)]"
    using bn_lt_nat [OF assms(3), of 0] bn_lt_nat [OF assms(3) assms(3)] by (simp_all add: assms(2))
  have ne: "?ob \<noteq> []" "hd ?ob \<noteq> CHR '']''" using ob by (simp_all add: object_text_def)
  obtain n where n: "length data = Suc n" using assms(2) by simp
  have stop: "object_loop (length data) js ended False handle [of_nat (length data)] data (length data) s1 = Inr (False, s1)" for s1
    using lt(2) by (simp add: n)
  have "object_loop (Suc (length data)) js ended False handle [of_nat (length data)] data 0 s =
      rbind (handle v s) (\<lambda>(ret, s1). if ret then Inr (True, s1)
        else object_loop (length data) js ended False handle [of_nat (length data)] data (length data) s1)"
    using lt(1) f ne parse by (subst object_loop.simps(2)) (simp add: parse_value_def or_throw_def del: object_loop.simps)
  also have "\<dots> = handle v s" by (cases "handle v s") (auto simp: stop simp del: object_loop.simps)
  finally show ?thesis by (simp add: data_chunk_def)
qed

section \<open>The first message and who understands it\<close>

definition hello_value :: "'j json_lib \<Rightarrow> uuid \<Rightarrow> string list \<Rightarrow> 'j" where
  "hello_value js u ps = js_of_object js [(''execution_context'', js_of_object js
     [(''uuid'', js_of_string js (uuid_show u)), (''peers'', js_of_array js (map (js_of_string js) ps))])]"

lemma hello_text_value:
  "hello_text js ntop c = Inr data \<longleftrightarrow>
    (\<exists>ps. rtostrs ntop (ec_peers c) = Inr ps \<and> data = CHR ''['' # js_text js (hello_value js (ec_id c) ps))"
  by (auto simp: hello_text_def hello_value_def rbind_Inr_iff)

text \<open>Texts of addresses that the other side turns back into the address.\<close>

definition addresses_read_back :: "(32 word \<Rightarrow> string) \<Rightarrow> (string \<Rightarrow> 32 word option) \<Rightarrow> peer list \<Rightarrow> bool" where
  "addresses_read_back ntop aton ps \<longleftrightarrow> distinct ps \<and> (\<forall>p \<in> set ps. aton (ntop (peer_addr p)) = Some (peer_addr p) \<and>
     CHR '':'' \<notin> set (ntop (peer_addr p)) \<and> peer_port p < 2 ^ 16)"

definition meet :: "peer list \<Rightarrow> exec_context \<Rightarrow> exec_context" where
  "meet ps c = c\<lparr>ec_peers := ec_peers c @ filter (\<lambda>p. p \<notin> set (ec_peers c)) ps\<rparr>"

lemma merge_meet:
  "rtostrs ntop ps = Inr texts \<Longrightarrow> addresses_read_back ntop aton ps \<Longrightarrow> merge_peer_addresses aton texts c = Inr (meet ps c)"
  unfolding meet_def addresses_read_back_def by (intro peer_table_roundtrip [where ntop = ntop]) simp_all

lemma hello_members:
  assumes "json_laws js"
  shows "member js ''execution_context'' (hello_value js u ps) = Inr (js_of_object js
     [(''uuid'', js_of_string js (uuid_show u)), (''peers'', js_of_array js (map (js_of_string js) ps))])"
    "member js ''uuid'' (js_of_object js [(''uuid'', js_of_string js (uuid_show u)), (''peers'', w)]) = Inr (js_of_string js (uuid_show u))"
    "member js ''peers'' (js_of_object js [(''uuid'', x), (''peers'', w)]) = Inr w"
  unfolding hello_value_def by (simp_all add: member_of_object [OF assms])

lemma uuid_of_shown:
  assumes "\<exists>bs \<in> set draws. length bs = 16" "length u = 16"
  shows "uuid_of_string draws (uuid_show u) = Some u"
proof -
  obtain tmp where tmp: "uuid_v4 draws = Some tmp" using assms(1) uuid_v4_None [of draws] by (cases "uuid_v4 draws") auto
  then have "length tmp = 16" using uuid_v4_some [OF tmp] uuid_mark_length by auto
  then show ?thesis using tmp uuid_read_show [OF assms(2), of tmp "[]"] by (simp add: uuid_of_string_def)
qed

text \<open>The reply can be written on a session whose mutex is free.\<close>

lemma put_bind_reply:
  assumes "\<not> app_locked s" "length data < 2 ^ 60"
  shows "\<exists>s' t. put_response (bind_reply data) s = Inr s' \<and> response_show (bind_reply data) = Inr t \<and> hs_out s' = hs_out s @ t \<and>
    res_status (hs_response s') = CREATED \<and> msg_chunks (hs_response s') = [data_chunk data] \<and> hs_request s' = hs_request s"
proof -
  have "chunks_show (map data_chunk [data]) = Inr (concat (map chunk_text [data]))"
    by (rule chunks_show_data) (use assms(2) in simp)
  moreover have "\<forall>h \<in> set (msg_headers (bind_reply data)). field_name h \<noteq> CONTENT_LENGTH"
    by (simp add: bind_reply_def common_headers_def mk_header_def empty_header_def)
  ultimately have "\<exists>b. body_show (bind_reply data) = Inr b"
    by (simp add: body_show_def bind_reply_def empty_response_def)
  then have "\<exists>t. response_show (bind_reply data) = Inr t" by (auto simp: response_show_def Let_def)
  then show ?thesis
    using assms(1) by (auto simp: put_response_def session_set_def server_write_def Let_def bind_reply_def empty_response_def)
qed

text \<open>
  C3: A first message is understood.  When a controller opens a stream with the identifier and the peers of one of its
  contexts, and the other one has a context with that identifier, the other one binds the stream to it, has all
  the peers in its table, after those that it had, and replies with its table and its values.
\<close>
theorem hello_understood:
  assumes js: "json_laws (pr_js P)" "reads_back (pr_js P) (hello_value (pr_js P) (ec_id c) ps)"
    and sent: "rtostrs ntop (ec_peers c) = Inr ps" "hello_text (pr_js P) ntop c = Inr data" "length data < 2 ^ 64" "length (ec_id c) = 16"
    and lib: "\<exists>bs \<in> set (w_draws (pr_world P)). length bs = 16" "addresses_read_back ntop (w_aton (pr_world P)) (ec_peers c)"
    and ctx: "k = find_ctx (\<lambda>x. uuid_eq (ec_id (cc_ctx x)) (ec_id c)) ct" "k < length (ct_ctxs ct)"
    and p: "p < length (ct_store ct)" "\<not> app_locked (ses ct p)" "req_route req = ''/run''" "req_verb req = PUT"
    and reply: "bind_text (pr_js P) (pr_ntop P) (meet (ec_peers c) (cc_ctx (ctx_at ct k))) = Inr reply" "length reply < 2 ^ 60"
  shows "\<exists>ct' t. request_chunk P p req 0 (data_chunk data) ct = Inr (False, ct') \<and>
    cc_ctx (ctx_at ct' k) = meet (ec_peers c) (cc_ctx (ctx_at ct k)) \<and> cc_servers (ctx_at ct' k) = cc_servers (ctx_at ct k) @ [p] \<and>
    response_show (bind_reply reply) = Inr t \<and> hs_out (ses ct' p) = hs_out (ses ct p) @ t"
proof -
  let ?js = "pr_js P"
  let ?v = "hello_value ?js (ec_id c) ps"
  let ?cv = "js_of_object ?js [(''uuid'', js_of_string ?js (uuid_show (ec_id c))), (''peers'', js_of_array ?js (map (js_of_string ?js) ps))]"
  let ?ct1 = "map_ctx k (\<lambda>x. x\<lparr>cc_servers := cc_servers x @ [p]\<rparr>) ct"
  let ?ct2 = "map_ctx k (\<lambda>x. x\<lparr>cc_ctx := meet (ec_peers c) (cc_ctx (ctx_at ct k))\<rparr>) ?ct1"
  have data: "data = CHR ''['' # js_text ?js ?v" using sent(1,2) by (simp add: hello_text_value)
  have "ses ?ct2 p = ses ct p" by (simp add: ses_def map_ctx_def)
  then obtain s' t where s': "put_response (bind_reply reply) (ses ?ct2 p) = Inr s'" "response_show (bind_reply reply) = Inr t"
    "hs_out s' = hs_out (ses ct p) @ t"
    using put_bind_reply [OF p(2) reply(2)] by auto
  let ?ct3 = "?ct2\<lparr>ct_store := (ct_store ct)[p := s']\<rparr>"
  have wr: "on_session (put_response (bind_reply reply)) p ?ct2 = Inr ?ct3"
    using s'(1) by (simp add: on_session_def)
  have "bind_known P p ?cv k ct = Inr ?ct3"
    using wr reply(1) merge_meet [OF sent(1) lib(2)] ctx(2)
    by (simp add: bind_known_def Let_def hello_members(3) [OF js(1)] as_array_of [OF js(1)] strings_of_strings [OF js(1)])
  then have "put_bind P p ?v ct = Inr ?ct3"
    using ctx uuid_of_shown [OF lib(1) sent(4)]
    by (simp add: put_bind_def Let_def hello_members [OF js(1)] as_string_of [OF js(1)])
  then have "handle_object P p req 0 ?v ct = Inr (False, ?ct3)" using p(3,4) by (simp add: handle_object_def)
  then have "request_chunk P p req 0 (data_chunk data) ct = Inr (False, ?ct3)"
    unfolding request_chunk_def opening_chunk [OF js(2) data sent(3)] .
  moreover have "ctx_at ?ct3 k = (ctx_at ct k)\<lparr>cc_servers := cc_servers (ctx_at ct k) @ [p], cc_ctx := meet (ec_peers c) (cc_ctx (ctx_at ct k))\<rparr>"
    using ctx(2) by (simp add: map_ctx_def ctx_at_def)
  moreover have "ses ?ct3 p = s'" using p(1) by (simp add: ses_def)
  ultimately show ?thesis using s'(2,3) by (intro exI [of _ ?ct3] exI [of _ t]) simp
qed

section \<open>The reply and who understands it\<close>

definition reply_value :: "'j json_lib \<Rightarrow> string list \<Rightarrow> (string \<times> 'j) list \<Rightarrow> 'j" where
  "reply_value js ps ro = js_of_object js [(''peers'', js_of_array js (map (js_of_string js) ps)), (''result'', js_of_object js ro)]"

lemma known_values_distinct: "known_values js rs ob = Inr ro \<Longrightarrow> distinct (map fst ob) \<Longrightarrow> distinct (map fst ro)"
  by (induction rs arbitrary: ob) (auto simp: obj_emplace_def elim!: rbind_InrE split: if_split_asm)

lemma resched_loop_ctx: "resched_loop nxt is s = Inr s' \<Longrightarrow> ec_peers (se_ctx s') = ec_peers (se_ctx s)"
proof (induction "is" arbitrary: s)
  case (Cons i "is")
  then show ?case
    by (auto simp: Let_def notify_at_iff set_threads_def stop_all_def yield_queue_def elim!: rbind_InrE split: if_split_asm)
qed simp

lemma reschedule_ctx:
  assumes "reschedule_actions nxt k s = Inr s'"
  shows "graph s' = graph s \<and> ec_peers (se_ctx s') = ec_peers (se_ctx s)"
proof -
  from assms have k: "k < length (threads s)"
    by (auto simp: reschedule_actions_def rbind_Inr_iff vec_at_Inr_iff)
  with assms show ?thesis
    using resched_loop_frame resched_loop_ctx by (fastforce simp: reschedule_eq set_threads_def sched_end_def)
qed

text \<open>Values that are there stay, and every result that is not null is there afterwards.\<close>

definition known_at :: "sched_env \<Rightarrow> string \<Rightarrow> bool" where
  "known_at s key \<longleftrightarrow> rel_value (rel_at (graph s) (index (graph s) ! find_key (graph s) key)) \<noteq> []"

lemma find_key_set_value: "find_key (set_value a v m) = find_key m"
  by (simp add: find_key_def fun_eq_iff)

lemma result_loop_known:
  assumes "result_loop nxt msg (\<lambda>v. v = []) kvps s = Inr s'" "set (index (graph s)) \<subseteq> {..<length (store (graph s))}"
    "\<forall>(key, d) \<in> set kvps. d \<noteq> []"
  shows "ec_peers (se_ctx s') = ec_peers (se_ctx s) \<and> (\<forall>key. known_at s key \<longrightarrow> known_at s' key) \<and>
    (\<forall>(key, d) \<in> set kvps. d \<noteq> ''null'' \<longrightarrow> known_at s' key)"
  using assms
proof (induction kvps arbitrary: s)
  case Nil
  then show ?case by simp
next
  case (Cons kv kvps)
  obtain k d where kv: "kv = (k, d)" by (cases kv)
  let ?m = "graph s"
  let ?j = "find_key ?m k"
  let ?m1 = "if rel_value (rel_at ?m (index ?m ! ?j)) = [] then set_value (index ?m ! ?j) d ?m else ?m"
  from Cons.prems(1) have j: "?j \<noteq> length (index ?m)" by (simp add: kv Let_def split: if_splits)
  show ?case
  proof (cases "d = ''null''")
    case True
    with Cons kv j show ?thesis by (simp add: Let_def)
  next
    case False
    with Cons.prems(1) j kv obtain s1 where s1: "reschedule_actions nxt ?j (set_graph ?m1 s) = Inr s1"
      "result_loop nxt msg (\<lambda>v. v = []) kvps s1 = Inr s'"
      by (auto simp: Let_def elim!: rbind_InrE)
    have c: "graph s1 = ?m1" "ec_peers (se_ctx s1) = ec_peers (se_ctx s)"
      using reschedule_ctx [OF s1(1)] by (simp_all add: set_graph_def)
    have "k \<in> keys ?m" using j find_key_eq by blast
    then have "?j < length (index ?m)" by (simp only: find_key_less)
    then have a: "index ?m ! ?j < length (store ?m)" using Cons.prems(2) nth_mem by blast
    have d: "d \<noteq> []" using Cons.prems(3) kv by simp
    have "known_at s1 k" using a d by (simp add: known_at_def c(1) find_key_set_value set_value_value)
    moreover have "\<forall>key. known_at s key \<longrightarrow> known_at s1 key" using d by (simp add: known_at_def c(1) find_key_set_value set_value_value)
    moreover have "set (index (graph s1)) \<subseteq> {..<length (store (graph s1))}" using Cons.prems(2) by (simp add: c(1))
    ultimately show ?thesis using Cons.IH [OF s1(2)] Cons.prems(3) c(2) kv by auto
  qed
qed

lemma reply_members:
  assumes "json_laws js"
  shows "member js ''peers'' (reply_value js ps ro) = Inr (js_of_array js (map (js_of_string js) ps))"
    "member js ''result'' (reply_value js ps ro) = Inr (js_of_object js ro)"
  unfolding reply_value_def by (simp_all add: member_of_object [OF assms])

lemma say_hello_effect:
  assumes "say_hello P k peers ct = Inr ct'"
  shows "\<exists>hs. ct' = ct\<lparr>ct_connects := ct_connects ct @ hs\<rparr> \<and> map ph_peer hs = peers"
  using assms by (auto simp: say_hello_def comp_def elim!: rbind_InrE)

lemma meet_peers_effect:
  assumes "json_laws (pr_js P)" "rtostrs ntop (ec_peers b) = Inr ps" "addresses_read_back ntop (w_aton (pr_world P)) (ec_peers b)"
    "meet_peers P k (reply_value (pr_js P) ps ro) ct = Inr ct1"
  shows "\<exists>hs. ct1 = (map_ctx k (\<lambda>x. x\<lparr>cc_ctx := meet (ec_peers b) (cc_ctx (ctx_at ct k))\<rparr>) ct)
      \<lparr>ct_connects := ct_connects ct @ hs\<rparr> \<and>
    map ph_peer hs = filter (\<lambda>p. p \<notin> set (ec_peers (cc_ctx (ctx_at ct k)))) (ec_peers b)"
proof -
  let ?c = "cc_ctx (ctx_at ct k)"
  let ?ct0 = "map_ctx k (\<lambda>x. x\<lparr>cc_ctx := meet (ec_peers b) ?c\<rparr>) ct"
  have "filter (\<lambda>p. p \<notin> set (ec_peers ?c)) (ec_peers (meet (ec_peers b) ?c)) = filter (\<lambda>p. p \<notin> set (ec_peers ?c)) (ec_peers b)"
    by (simp add: meet_def comp_def)
  then have "say_hello P k (filter (\<lambda>p. p \<notin> set (ec_peers ?c)) (ec_peers b)) ?ct0 = Inr ct1"
    using assms(4) merge_meet [OF assms(2,3)]
    by (simp add: meet_peers_def Let_def reply_members [OF assms(1)] as_array_of [OF assms(1)] strings_of_strings [OF assms(1)])
  from say_hello_effect [OF this] show ?thesis by (simp add: map_ctx_def)
qed

text \<open>
  C4: The reply is understood, if its text reads back and its handling does not throw.  Then the other one's peers
  join the table of the context, those that are new are greeted, in order, and every value that came with the reply and
  is not null is known to the context afterwards.  The text reads back when the braces in it balance for the first
  time at its end, those inside strings counted too, as the scanner of the receiver counts them (\<open>object_text\<close>; it
  does when no string in it has a brace): a result with an unbalanced brace in a string cuts the reply in two, and
  what is cut off is not JSON.  The handling throws when a key of the reply is not in the manifest, for instance.
\<close>
theorem reply_understood:
  assumes js: "json_laws (pr_js P)" "reads_back (pr_js P) (reply_value (pr_js P) ps ro)"
    and sent: "rtostrs ntop (ec_peers b) = Inr ps" "known_values (pr_js P) (map (rel_at (ec_manifest b)) (index (ec_manifest b))) [] = Inr ro"
      "bind_text (pr_js P) ntop b = Inr data" "length data < 2 ^ 64"
    and lib: "addresses_read_back ntop (w_aton (pr_world P)) (ec_peers b)" "\<forall>(key, j) \<in> set ro. js_text (pr_js P) j \<noteq> []"
    and ctx: "k = client_ctx p ct" "k < length (ct_ctxs ct)"
      "set (index (ec_manifest (cc_ctx (ctx_at ct k)))) \<subseteq> {..<length (store (ec_manifest (cc_ctx (ctx_at ct k))))}"
    and got: "reply_chunk P p False 0 (data_chunk data) ct = Inr (ret, ct')"
  shows "\<not> ret \<and> ec_peers (cc_ctx (ctx_at ct' k)) = ec_peers (meet (ec_peers b) (cc_ctx (ctx_at ct k))) \<and>
    map ph_peer (drop (length (ct_connects ct)) (ct_connects ct')) =
      filter (\<lambda>p. p \<notin> set (ec_peers (cc_ctx (ctx_at ct k)))) (ec_peers b) \<and>
    (\<forall>(key, j) \<in> set ro. js_text (pr_js P) j = ''null'' \<or> known_at (sched_of ct' k) key)"
proof -
  let ?js = "pr_js P"
  let ?v = "reply_value ?js ps ro"
  let ?kvps = "map (\<lambda>(key, v). (key, js_text ?js v)) ro"
  have data: "data = CHR ''['' # js_text ?js ?v" using sent(1-3) by (simp add: bind_text_def Let_def reply_value_def)
  have "handle_reply P p 0 ?v ct = Inr (ret, ct')"
    using got unfolding reply_chunk_def opening_chunk [OF js(2) data sent(4)] .
  moreover have "distinct (map fst ro)" using known_values_distinct [OF sent(2)] by simp
  ultimately obtain ct1 where ct1: "meet_peers P k ?v ct = Inr ct1" and r: "\<not> ret"
    and ct': "on_sched (response_results (pr_next P) ?kvps) k ct1 = Inr ct'"
    using ctx(1,2) by (auto simp: handle_reply_def Let_def reply_members [OF js(1)] as_object_of [OF js(1)] elim!: rbind_InrE)
  from meet_peers_effect [OF js(1) sent(1) lib(1) ct1] obtain hs where
    hs: "ct1 = (map_ctx k (\<lambda>x. x\<lparr>cc_ctx := meet (ec_peers b) (cc_ctx (ctx_at ct k))\<rparr>) ct)\<lparr>ct_connects := ct_connects ct @ hs\<rparr>"
      "map ph_peer hs = filter (\<lambda>p. p \<notin> set (ec_peers (cc_ctx (ctx_at ct k)))) (ec_peers b)" by blast
  then have c1: "cc_ctx (ctx_at ct1 k) = meet (ec_peers b) (cc_ctx (ctx_at ct k))" "k < length (ct_ctxs ct1)"
    "ct_connects ct1 = ct_connects ct @ hs"
    using ctx(2) by (simp_all add: map_ctx_def ctx_at_def)
  from ct' obtain s' where s': "response_results (pr_next P) ?kvps (sched_of ct1 k) = Inr s'" "ct' = put_sched k s' ct1"
    by (auto simp: on_sched_def elim!: rbind_InrE)
  have "set (index (graph (sched_of ct1 k))) \<subseteq> {..<length (store (graph (sched_of ct1 k)))}"
    using ctx(3) by (simp add: sched_of_def c1(1) meet_def)
  moreover have "\<forall>(key, d) \<in> set ?kvps. d \<noteq> []" using lib(2) by auto
  ultimately have "ec_peers (se_ctx s') = ec_peers (se_ctx (sched_of ct1 k)) \<and> (\<forall>(key, d) \<in> set ?kvps. d \<noteq> ''null'' \<longrightarrow> known_at s' key)"
    using result_loop_known [OF s'(1) [unfolded response_results_def]] by blast
  moreover have "cc_ctx (ctx_at ct' k) = se_ctx s'" "ct_connects ct' = ct_connects ct1"
    using c1(2) by (simp_all add: s'(2) put_sched_def map_ctx_def ctx_at_def)
  moreover have "known_at (sched_of ct' k) = known_at s'"
    using calculation(2) by (simp add: known_at_def sched_of_def fun_eq_iff)
  ultimately show ?thesis using r hs(2) c1 by (auto simp: sched_of_def)
qed

section \<open>Examples\<close>

lemma table_json_laws: "json_laws (table_json tab)"
  by (simp add: json_laws_def table_json_def)

text \<open>A context of another controller: the same identifier, one peer and one value.\<close>

definition demo_other :: exec_context where
  "demo_other = demo_context\<lparr>ec_peers := [demo_here], ec_manifest := set_value 0 ''1'' (ec_manifest demo_context)\<rparr>"

abbreviation demo_hello :: json where
  "demo_hello \<equiv> JObj [(''execution_context'', JObj [(''uuid'', JStr (uuid_show (replicate 16 1))), (''peers'', JArr [JStr ''127.0.0.1:5300''])])]"

abbreviation demo_reply :: json where
  "demo_reply \<equiv> JObj [(''peers'', JArr [JStr ''127.0.0.1:5300'']), (''result'', JObj [(''b'', JBool True)])]"

definition meeting_params :: "json params" where
  "meeting_params = demo_params [(''1'', JBool True), (''{h}'', demo_hello), (''{r}'', demo_reply)]"

definition demo_meeting :: "json controller" where
  "demo_meeting = (demo_request PUT ''/run'' [])\<lparr>ct_initialized := True, ct_made := 1, ct_ctxs :=
     [\<lparr>cc_ptr = 0, cc_ctx = se_ctx demo_env, cc_sessions = [], cc_servers = [], cc_clients = [0]\<rparr>]\<rparr>"

lemma meeting_js: "pr_js meeting_params = table_json [(''1'', JBool True), (''{h}'', demo_hello), (''{r}'', demo_reply)]"
  by (simp add: meeting_params_def demo_params_def)

lemma meeting_laws: "json_laws (pr_js meeting_params)"
  unfolding meeting_js by (rule table_json_laws)

lemma meeting_texts:
  "reads_back (pr_js meeting_params) demo_hello" "reads_back (pr_js meeting_params) demo_reply"
  "js_text (pr_js meeting_params) (JBool True) = ''1''" "js_text (pr_js meeting_params) demo_hello = ''{h}''"
  "js_text (pr_js meeting_params) demo_reply = ''{r}''" "js_parse (pr_js meeting_params) ''1'' = Some (JBool True)"
  by (simp_all add: meeting_js reads_back_def table_json_def object_text_def)

lemma demo_other_simps:
  "ec_peers demo_other = [demo_here]" "ec_id demo_other = replicate 16 1" "rtostrs (\<lambda>_. ''127.0.0.1'') [demo_here] = Inr [''127.0.0.1:5300'']"
  by (simp_all add: demo_other_def demo_context_def demo_here_def rtostr_def show_nat.simps digit_char_def)

lemma demo_addresses: "addresses_read_back (\<lambda>_. ''127.0.0.1'') (w_aton (pr_world meeting_params)) [demo_here]"
  by (simp add: addresses_read_back_def demo_here_def meeting_params_def demo_params_def demo_world_def demo_aton_def)

lemma meeting_hello_value: "hello_value (pr_js meeting_params) (replicate 16 1) [''127.0.0.1:5300''] = demo_hello"
  by (simp add: hello_value_def meeting_js table_json_def)

lemma demo_hello_text: "hello_text (pr_js meeting_params) (\<lambda>_. ''127.0.0.1'') demo_other = Inr ''[{h}''"
  unfolding hello_text_value demo_other_simps(1,2)
  by (intro exI [of _ "[''127.0.0.1:5300'']"] conjI demo_other_simps(3)) (simp add: meeting_hello_value meeting_texts(4))

lemma demo_meeting_simps:
  "ct_ctxs demo_meeting = [\<lparr>cc_ptr = 0, cc_ctx = se_ctx demo_env, cc_sessions = [], cc_servers = [], cc_clients = [0]\<rparr>]"
  "ctx_at demo_meeting 0 = \<lparr>cc_ptr = 0, cc_ctx = se_ctx demo_env, cc_sessions = [], cc_servers = [], cc_clients = [0]\<rparr>"
  "length (ct_store demo_meeting) = 1" "app_locked (ses demo_meeting 0) = False" "ec_id (se_ctx demo_env) = replicate 16 1"
  by (simp_all add: demo_meeting_def ctx_at_def demo_env_def demo_context_def)
    (simp add: ses_def demo_request_def new_session_def)

theorem hello_understood_witness:
  "\<exists>ct'. request_chunk meeting_params 0 (empty_request\<lparr>req_verb := PUT, req_route := ''/run''\<rparr>) 0 (data_chunk ''[{h}'') demo_meeting =
      Inr (False, ct') \<and> cc_servers (ctx_at ct' 0) = [0]"
proof -
  have "known_values (pr_js meeting_params) (map (rel_at (graph demo_env)) (index (graph demo_env))) [] = Inr []"
    using demo_graph by (simp add: rel_at_def) (simp add: demo_manifest_def)
  moreover have "\<exists>ss. rtostrs (pr_ntop meeting_params) (ec_peers (meet [demo_here] (se_ctx demo_env))) = Inr ss"
    by (simp add: meeting_params_def demo_params_def meet_def demo_env_def demo_context_def rtostr_def demo_here_def show_nat.simps digit_char_def)
  ultimately have "\<exists>reply. bind_text (pr_js meeting_params) (pr_ntop meeting_params) (meet [demo_here] (se_ctx demo_env)) = Inr reply \<and>
      length reply < 2 ^ 60"
    by (auto simp: bind_text_def Let_def meet_def meeting_js table_json_def)
  then obtain reply where reply: "bind_text (pr_js meeting_params) (pr_ntop meeting_params) (meet [demo_here] (se_ctx demo_env)) = Inr reply"
    "length reply < 2 ^ 60" by blast
  have u: "uuid_eq (replicate 16 1) (replicate 16 1)" by code_simp
  have "\<exists>ct' t. request_chunk meeting_params 0 (empty_request\<lparr>req_verb := PUT, req_route := ''/run''\<rparr>) 0 (data_chunk ''[{h}'') demo_meeting = Inr (False, ct') \<and>
    cc_ctx (ctx_at ct' 0) = meet (ec_peers demo_other) (cc_ctx (ctx_at demo_meeting 0)) \<and>
    cc_servers (ctx_at ct' 0) = cc_servers (ctx_at demo_meeting 0) @ [0] \<and>
    response_show (bind_reply reply) = Inr t \<and> hs_out (ses ct' 0) = hs_out (ses demo_meeting 0) @ t"
  proof (rule hello_understood [OF meeting_laws _ _ demo_hello_text])
    show "reads_back (pr_js meeting_params) (hello_value (pr_js meeting_params) (ec_id demo_other) [''127.0.0.1:5300''])"
      unfolding demo_other_simps(2) meeting_hello_value by (rule meeting_texts(1))
    show "rtostrs (\<lambda>_. ''127.0.0.1'') (ec_peers demo_other) = Inr [''127.0.0.1:5300'']"
      unfolding demo_other_simps(1) by (rule demo_other_simps(3))
    show "\<exists>bs \<in> set (w_draws (pr_world meeting_params)). length bs = 16" by (simp add: meeting_params_def demo_params_def)
  qed (use u reply demo_addresses in \<open>simp_all add: demo_other_simps demo_meeting_simps find_ctx_def\<close>)
  then show ?thesis by (auto simp: demo_meeting_simps)
qed

lemma demo_results_run:
  "\<not> isl (response_results (next_at_fuel 7) [(''b'', ''1'')]
     \<lparr>se_ctx = meet [demo_here] (se_ctx demo_env), se_box = 0, se_queue = demo_sched, se_peers = []\<rparr>)"
  by code_simp

lemma demo_hello_back: "\<exists>data. hello_text (pr_js meeting_params) (pr_ntop meeting_params) (meet [demo_here] (se_ctx demo_env)) = Inr data"
  by (simp add: hello_text_def meeting_params_def demo_params_def meet_def demo_env_def demo_context_def rtostr_def demo_here_def
      show_nat.simps digit_char_def)

lemma meeting_reply_value: "reply_value (pr_js meeting_params) [''127.0.0.1:5300''] [(''b'', JBool True)] = demo_reply"
  by (simp add: reply_value_def meeting_js table_json_def)

lemma demo_other_values:
  "known_values (pr_js meeting_params) (map (rel_at (ec_manifest demo_other)) (index (ec_manifest demo_other))) [] = Inr [(''b'', JBool True)]"
  using demo_index meeting_texts(6) unfolding demo_other_def
  by (simp add: set_value_def rel_at_def) (simp add: demo_manifest_def parse_value_def or_throw_def obj_emplace_def)

lemma demo_other_text: "bind_text (pr_js meeting_params) (\<lambda>_. ''127.0.0.1'') demo_other = Inr ''[{r}''"
  using demo_other_values demo_other_simps(3) meeting_reply_value meeting_texts(5)
  by (simp add: bind_text_def Let_def demo_other_simps(1) reply_value_def del: rtostrs.simps)

lemma demo_meets:
  "\<exists>ct1. meet_peers meeting_params 0 demo_reply demo_meeting = Inr ct1 \<and>
    sched_of ct1 0 = \<lparr>se_ctx = meet [demo_here] (se_ctx demo_env), se_box = 0, se_queue = demo_sched, se_peers = []\<rparr>"
proof -
  let ?js = "pr_js meeting_params"
  let ?ct0 = "map_ctx 0 (\<lambda>x. x\<lparr>cc_ctx := meet [demo_here] (se_ctx demo_env)\<rparr>) demo_meeting"
  have r: "demo_reply = reply_value ?js [''127.0.0.1:5300''] [(''b'', JBool True)]" by (rule meeting_reply_value [symmetric])
  have m: "merge_peer_addresses (w_aton (pr_world meeting_params)) [''127.0.0.1:5300''] (se_ctx demo_env) = Inr (meet [demo_here] (se_ctx demo_env))"
    by (rule merge_meet [OF demo_other_simps(3) demo_addresses])
  have c0: "cc_ctx (ctx_at ?ct0 0) = meet [demo_here] (se_ctx demo_env)" by (simp add: demo_meeting_simps)
  obtain data where "hello_text ?js (pr_ntop meeting_params) (meet [demo_here] (se_ctx demo_env)) = Inr data" using demo_hello_back by blast
  with c0 have "\<exists>hs. say_hello meeting_params 0 peers ?ct0 = Inr (?ct0\<lparr>ct_connects := hs\<rparr>)" for peers
    unfolding say_hello_def by auto
  then obtain hs where "meet_peers meeting_params 0 demo_reply demo_meeting = Inr (?ct0\<lparr>ct_connects := hs\<rparr>)"
    unfolding r using m
    by (auto simp: meet_peers_def Let_def reply_members [OF meeting_laws] as_array_of [OF meeting_laws]
        as_string_of [OF meeting_laws] demo_meeting_simps)
  moreover have "ct_box demo_meeting = 0" "ct_queue demo_meeting = demo_sched"
    by (simp_all add: demo_meeting_def demo_request_def demo_ctl_def new_controller_def)
  ultimately show ?thesis
    using c0 by (intro exI [of _ "?ct0\<lparr>ct_connects := hs\<rparr>"]) (simp add: sched_of_def ctx_at_def map_ctx_def)
qed

lemma demo_reply_runs: "\<exists>ct'. reply_chunk meeting_params 0 False 0 (data_chunk ''[{r}'') demo_meeting = Inr (False, ct')"
proof -
  obtain ct1 where ct1: "meet_peers meeting_params 0 demo_reply demo_meeting = Inr ct1"
    "sched_of ct1 0 = \<lparr>se_ctx = meet [demo_here] (se_ctx demo_env), se_box = 0, se_queue = demo_sched, se_peers = []\<rparr>"
    using demo_meets by blast
  have "pr_next meeting_params = next_at_fuel 7" by (simp add: meeting_params_def demo_params_def)
  then obtain s' where "response_results (pr_next meeting_params) [(''b'', ''1'')] (sched_of ct1 0) = Inr s'"
    using demo_results_run ct1(2) by (cases "response_results (next_at_fuel 7) [(''b'', ''1'')] (sched_of ct1 0)") auto
  moreover have "member (pr_js meeting_params) ''result'' demo_reply = Inr (JObj [(''b'', JBool True)])"
    "as_object (pr_js meeting_params) (JObj [(''b'', JBool True)]) = Inr [(''b'', JBool True)]"
    by (simp_all add: member_def as_object_def at_key_def or_throw_def meeting_js table_json_def)
  moreover have "client_ctx 0 demo_meeting = 0" by (simp add: client_ctx_def find_ctx_def demo_meeting_simps(1))
  ultimately have "handle_reply meeting_params 0 0 demo_reply demo_meeting = Inr (False, put_sched 0 s' ct1)"
    using ct1(1) meeting_texts(3) by (simp add: handle_reply_def Let_def on_sched_def demo_meeting_simps(1))
  moreover have e: "''[{r}'' = CHR ''['' # js_text (pr_js meeting_params) demo_reply" "length ''[{r}'' < (2::nat) ^ 64"
    by (simp_all add: meeting_texts(5))
  ultimately show ?thesis unfolding reply_chunk_def opening_chunk [OF meeting_texts(2) e] by blast
qed

theorem reply_understood_witness:
  "\<exists>ct'. reply_chunk meeting_params 0 False 0 (data_chunk ''[{r}'') demo_meeting = Inr (False, ct') \<and>
    demo_here \<in> set (ec_peers (cc_ctx (ctx_at ct' 0))) \<and> known_at (sched_of ct' 0) ''b''"
proof -
  obtain ct' where ct': "reply_chunk meeting_params 0 False 0 (data_chunk ''[{r}'') demo_meeting = Inr (False, ct')"
    using demo_reply_runs by blast
  have "reads_back (pr_js meeting_params) (reply_value (pr_js meeting_params) [''127.0.0.1:5300''] [(''b'', JBool True)])"
    unfolding meeting_reply_value by (rule meeting_texts(2))
  note u = reply_understood [OF meeting_laws this _ demo_other_values demo_other_text _ _ _ _ _ _ ct']
  have "\<not> False \<and> ec_peers (cc_ctx (ctx_at ct' 0)) = ec_peers (meet (ec_peers demo_other) (cc_ctx (ctx_at demo_meeting 0))) \<and>
    map ph_peer (drop (length (ct_connects demo_meeting)) (ct_connects ct')) =
      filter (\<lambda>p. p \<notin> set (ec_peers (cc_ctx (ctx_at demo_meeting 0)))) (ec_peers demo_other) \<and>
    (\<forall>(key, j) \<in> set [(''b'', JBool True)]. js_text (pr_js meeting_params) j = ''null'' \<or> known_at (sched_of ct' 0) key)"
  proof (rule u)
    show "rtostrs (\<lambda>_. ''127.0.0.1'') (ec_peers demo_other) = Inr [''127.0.0.1:5300'']"
      unfolding demo_other_simps(1) by (rule demo_other_simps(3))
    show "addresses_read_back (\<lambda>_. ''127.0.0.1'') (w_aton (pr_world meeting_params)) (ec_peers demo_other)"
      unfolding demo_other_simps(1) by (rule demo_addresses)
    show "set (index (ec_manifest (cc_ctx (ctx_at demo_meeting 0)))) \<subseteq> {..<length (store (ec_manifest (cc_ctx (ctx_at demo_meeting 0))))}"
      using demo_graph by (simp add: demo_meeting_simps(2)) (simp add: demo_manifest_def)
  qed (simp_all add: meeting_texts(3) client_ctx_def find_ctx_def demo_meeting_simps(1))
  then have "demo_here \<in> set (ec_peers (cc_ctx (ctx_at ct' 0))) \<and> known_at (sched_of ct' 0) ''b''"
    by (auto simp: meet_def demo_other_simps(1) meeting_texts(3))
  with ct' show ?thesis by blast
qed

end
