(* ===== verification/Executors.thy ===== *)
theory Executors
  imports Scheduler
begin

text \<open>
  The threads of a run (\<open>controller-app.cpp\<close>): \<open>initialize_executor\<close>, which forks the subprocess of one action
  and starts the executor thread that looks after it, the body of that thread, and the body of the
  initializer thread, which walks over the actions.  What other threads do meanwhile is a
  parameter: after every call that takes time they may change the manifest and the thread's signals.
\<close>

section \<open>One executor\<close>

record exec_turn =
  xt_os :: thread_os
  xt_others :: "manifest \<times> thread_controls \<Rightarrow> manifest \<times> thread_controls"

text \<open>The thread and what it shares, and what was done to the subprocess at its end.\<close>

record executor =
  ex_graph :: manifest
  ex_thread :: thread_controls
  ex_box :: "16 word"
  ex_sent :: "(int \<times> signo) list"
  ex_closed :: "int list"

definition continue_at ::
  "(string \<Rightarrow> 'j result) \<Rightarrow> ((string \<times> 'j) list \<Rightarrow> string) \<Rightarrow> exec_turn \<Rightarrow> executor \<Rightarrow> (bool \<times> executor) result" where
  "continue_at parse serialize tu x =
     rbind (thread_continue parse serialize (xt_os tu) (ex_graph x) (ex_thread x)) (\<lambda>(b, m, t).
       case xt_others tu (m, t) of (m', t') \<Rightarrow> Inr (b, x\<lparr>ex_graph := m', ex_thread := t',
         ex_closed := ex_closed x @ (if 7 \<le> tc_state (ex_thread x)
           then fst (close_pipe (to_closes (xt_os tu)) (tc_pipe (ex_thread x))) else [])\<rparr>))"

definition clean_up :: "cleanup_os \<Rightarrow> executor \<Rightarrow> executor result" where
  "clean_up co x = (case cleanup co (ex_thread x) of (sent, fds, r) \<Rightarrow>
     rbind r (\<lambda>_. Inr (x\<lparr>ex_sent := ex_sent x @ sent, ex_closed := ex_closed x @ fds\<rparr>)))"

definition raise_end :: "executor \<Rightarrow> executor" where
  "raise_end x = x\<lparr>ex_box := ex_box x OR ctl_end_event\<rparr>"

text \<open>The thread was stopped: the subprocess is cleaned up and the scheduling loop is told.\<close>

definition quit :: "cleanup_os \<Rightarrow> executor \<Rightarrow> executor result" where
  "quit co x = rbind (clean_up co x) (\<lambda>x1. Inr (raise_end x1))"

text \<open>The first turn, on which the thread that starts the executor waits; whether the executor goes on.\<close>

definition executor_meets ::
  "(string \<Rightarrow> 'j result) \<Rightarrow> ((string \<times> 'j) list \<Rightarrow> string) \<Rightarrow> cleanup_os \<Rightarrow> exec_turn \<Rightarrow> executor \<Rightarrow> (bool \<times> executor) result" where
  "executor_meets parse serialize co tu x =
     rbind (continue_at parse serialize tu x) (\<lambda>(b, x1).
       if \<not> b then rbind (clean_up co x1) (\<lambda>x2. Inr (False, x2))
       else if is_stopped (ex_thread x1) then rbind (quit co x1) (\<lambda>x2. Inr (False, x2))
       else Inr (True, x1))"

fun executor_loop ::
  "(string \<Rightarrow> 'j result) \<Rightarrow> ((string \<times> 'j) list \<Rightarrow> string) \<Rightarrow> cleanup_os \<Rightarrow> exec_turn list \<Rightarrow> executor \<Rightarrow> executor result" where
  "executor_loop parse serialize co [] x = Inl NoReturn"
| "executor_loop parse serialize co (tu # tus) x =
     rbind (continue_at parse serialize tu x) (\<lambda>(b, x1).
       if \<not> b then Inr (raise_end (x1\<lparr>ex_thread := (ex_thread x1)\<lparr>tc_signal := tc_signal (ex_thread x1) OR ctl_end_event\<rparr>\<rparr>))
       else if is_stopped (ex_thread x1) then quit co x1
       else executor_loop parse serialize co tus x1)"

text \<open>\<open>wait()\<close> returns when the thread has been started, which \<open>others\<close> do; then the loop.\<close>

definition executor_rest ::
  "(string \<Rightarrow> 'j result) \<Rightarrow> ((string \<times> 'j) list \<Rightarrow> string) \<Rightarrow> cleanup_os \<Rightarrow>
   (manifest \<times> thread_controls \<Rightarrow> manifest \<times> thread_controls) \<Rightarrow> exec_turn list \<Rightarrow> executor \<Rightarrow> executor result" where
  "executor_rest parse serialize co others tus x = (case others (ex_graph x, ex_thread x) of (m, t) \<Rightarrow>
     (let x1 = x\<lparr>ex_graph := m, ex_thread := t\<rparr> in
      if \<not> is_started t then Inl NoReturn
      else if is_stopped t then quit co x1
      else executor_loop parse serialize co tus x1))"

text \<open>\<open>in_time\<close> says that the executor met its launcher within fifty seconds.\<close>

definition initialize_executor ::
  "(string \<Rightarrow> 'j result) \<Rightarrow> ((string \<times> 'j) list \<Rightarrow> string) \<Rightarrow> cleanup_os \<Rightarrow> exec_turn \<Rightarrow> exec_turn \<Rightarrow> bool \<Rightarrow> executor \<Rightarrow>
   (bool \<times> executor) result" where
  "initialize_executor parse serialize co fork_turn launch_turn in_time x =
     rbind (continue_at parse serialize fork_turn x) (\<lambda>(b, x1).
       if \<not> b then rbind (clean_up co x1) (\<lambda>x2. Inr (False, x2))
       else if is_stopped (ex_thread x1) then rbind (quit co x1) (\<lambda>x2. Inr (False, x2))
       else rbind (executor_meets parse serialize co launch_turn x1) (\<lambda>r. if in_time then Inr r else what))"

section \<open>The initializer\<close>

record start_os =
  so_fork :: exec_turn
  so_launch :: exec_turn
  so_clean :: cleanup_os
  so_in_time :: bool

record walk =
  wk_graph :: manifest
  wk_threads :: "thread_controls list"
  wk_box :: "16 word"
  wk_forked :: "nat list"
  wk_running :: "nat list"

definition walk_stopped :: "walk \<Rightarrow> bool" where
  "walk_stopped w \<longleftrightarrow> list_all is_stopped (wk_threads w)"

definition start_thread ::
  "(string \<Rightarrow> 'j result) \<Rightarrow> ((string \<times> 'j) list \<Rightarrow> string) \<Rightarrow> (nat \<Rightarrow> start_os) \<Rightarrow> nat \<Rightarrow> walk \<Rightarrow> walk result" where
  "start_thread parse serialize os j w =
     rbind (initialize_executor parse serialize (so_clean (os j)) (so_fork (os j)) (so_launch (os j)) (so_in_time (os j))
        \<lparr>ex_graph = wk_graph w, ex_thread = wk_threads w ! j, ex_box = wk_box w, ex_sent = [], ex_closed = []\<rparr>) (\<lambda>(r, x).
       Inr (w\<lparr>wk_graph := ex_graph x, wk_threads := (wk_threads w)[j := ex_thread x], wk_box := ex_box x,
              wk_forked := wk_forked w @ [j], wk_running := (if r then wk_running w @ [j] else wk_running w)\<rparr>))"

text \<open>
  The turns of the inner loop, as many as the clock makes it take: each yields, during which
  others act, and then starts a thread that was notified and has no subprocess yet.
\<close>

definition waits_for_start :: "thread_controls \<Rightarrow> bool" where
  "waits_for_start t \<longleftrightarrow> is_started t \<and> \<not> is_stopped t \<and> tc_state t = 0"

fun yield_loop ::
  "(string \<Rightarrow> 'j result) \<Rightarrow> ((string \<times> 'j) list \<Rightarrow> string) \<Rightarrow> (nat \<Rightarrow> start_os) \<Rightarrow> (walk \<Rightarrow> walk) list \<Rightarrow> walk \<Rightarrow> walk result" where
  "yield_loop parse serialize os [] w = Inr w"
| "yield_loop parse serialize os (f # fs) w =
     (let w1 = f w in
      if walk_stopped w1 then Inr w1
      else
        (let j = find_if waits_for_start (wk_threads w1) in
         if j < length (wk_threads w1) then rbind (start_thread parse serialize os j w1) (yield_loop parse serialize os fs)
         else yield_loop parse serialize os fs w1))"

fun walk_loop ::
  "(string \<Rightarrow> 'j result) \<Rightarrow> ((string \<times> 'j) list \<Rightarrow> string) \<Rightarrow> (nat \<Rightarrow> start_os) \<Rightarrow> (nat \<Rightarrow> (walk \<Rightarrow> walk) list) \<Rightarrow> nat \<Rightarrow> nat \<Rightarrow>
   nat list \<Rightarrow> walk \<Rightarrow> walk result" where
  "walk_loop parse serialize os yields start n [] w = Inr w"
| "walk_loop parse serialize os yields start n (i # is) w =
     (if walk_stopped w then Inr w
      else
        (let j = (i + start) mod n in
         rbind (vec_at (wk_threads w) j) (\<lambda>t.
           if is_stopped t then walk_loop parse serialize os yields start n is (w\<lparr>wk_box := wk_box w OR ctl_end_event\<rparr>)
           else
             rbind (if tc_state t = 0 then start_thread parse serialize os j w else Inr w) (\<lambda>w1.
             rbind (yield_loop parse serialize os (yields i) w1)
               (walk_loop parse serialize os yields start n is)))))"

definition initializer ::
  "(string \<Rightarrow> 'j result) \<Rightarrow> ((string \<times> 'j) list \<Rightarrow> string) \<Rightarrow> (nat \<Rightarrow> start_os) \<Rightarrow> (nat \<Rightarrow> (walk \<Rightarrow> walk) list) \<Rightarrow> nat \<Rightarrow> nat \<Rightarrow>
   walk \<Rightarrow> walk result" where
  "initializer parse serialize os yields start n = walk_loop parse serialize os yields start n [0..<n]"

section \<open>What an executor does\<close>

lemma clean_up_fields:
  assumes "clean_up co x = Inr x'"
  shows "ex_thread x' = ex_thread x \<and> ex_graph x' = ex_graph x \<and> ex_box x' = ex_box x \<and>
    (- tc_pid (ex_thread x), SIGTERM) \<in> set (ex_sent x') \<and>
    ex_closed x' = ex_closed x @ [fst (tc_pipe (ex_thread x)), snd (tc_pipe (ex_thread x))]"
  using assms
  by (auto simp: clean_up_def cleanup_def kill_subprocesses_def close_pipe_def rbind_Inr_iff
      split: prod.splits sum.splits call_ret.splits if_splits)

lemma quit_fields:
  assumes "quit co x = Inr x'"
  shows "ex_thread x' = ex_thread x \<and> ex_box x' AND ctl_end_event \<noteq> 0 \<and>
    (- tc_pid (ex_thread x), SIGTERM) \<in> set (ex_sent x') \<and>
    ex_closed x' = ex_closed x @ [fst (tc_pipe (ex_thread x)), snd (tc_pipe (ex_thread x))]"
proof -
  from assms obtain x1 where x1: "clean_up co x = Inr x1" and x': "x' = raise_end x1"
    by (auto simp: quit_def rbind_Inr_iff)
  with clean_up_fields [OF x1] or_end_stopped show ?thesis by (simp add: raise_end_def)
qed

text \<open>The thread was stopped and cleaned up, or ended by itself; the end event is raised in both cases.\<close>

lemma executor_loop_ends:
  assumes "executor_loop parse serialize co tus x = Inr x'"
  shows "is_stopped (ex_thread x') \<and> ex_box x' AND ctl_end_event \<noteq> 0"
  using assms
proof (induction tus arbitrary: x)
  case (Cons tu tus)
  then show ?case
    by (auto simp: rbind_Inr_iff thread_simps raise_end_def or_end_stopped dest: quit_fields split: if_splits)
qed simp

text \<open>A turn during which nothing else happens.\<close>

definition undisturbed :: "thread_os \<Rightarrow> exec_turn" where
  "undisturbed o0 = \<lparr>xt_os = o0, xt_others = (\<lambda>a. a)\<rparr>"

lemma continue_undisturbed:
  assumes "thread_continue parse serialize o0 (ex_graph x) (ex_thread x) = Inr (True, m, t)"
  shows "continue_at parse serialize (undisturbed o0) x = Inr (True, x\<lparr>ex_graph := m, ex_thread := t\<rparr>)"
  using thread_continue_step [OF assms] assms by (simp add: undisturbed_def continue_at_def)

lemma executor_loop_undisturbed:
  assumes "thread_run parse serialize os (ex_graph x) (ex_thread x) = Inr (True, m, t)" "\<not> is_stopped (ex_thread x)"
  shows "executor_loop parse serialize co (map undisturbed os @ tus) x =
    executor_loop parse serialize co tus (x\<lparr>ex_graph := m, ex_thread := t\<rparr>)"
  using assms
proof (induction os arbitrary: x)
  case (Cons o0 os)
  then obtain m1 t1 where c: "thread_continue parse serialize o0 (ex_graph x) (ex_thread x) = Inr (True, m1, t1)"
    and r: "thread_run parse serialize os m1 t1 = Inr (True, m, t)"
    by (auto simp: rbind_Inr_iff split: if_splits)
  from thread_continue_step [OF c] Cons.prems(2) have "\<not> is_stopped t1" by (simp add: is_stopped_def)
  with Cons.IH [of "x\<lparr>ex_graph := m1, ex_thread := t1\<rparr>"] r c show ?case by (simp add: continue_undisturbed)
qed auto

lemma executor_loop_last:
  assumes "tc_state (ex_thread x) = 7" "to_closes o7 = (True, True)"
  shows "executor_loop parse serialize co (undisturbed o7 # tus) x =
    Inr (raise_end (x\<lparr>ex_thread := (ex_thread x)\<lparr>tc_signal := tc_signal (ex_thread x) OR ctl_end_event\<rparr>,
      ex_closed := ex_closed x @ [fst (tc_pipe (ex_thread x)), snd (tc_pipe (ex_thread x))]\<rparr>))"
  using assms by (cases x) (simp add: undisturbed_def continue_at_def thread_continue_def close_pipe_def)

text \<open>
  C8: an executor that nobody disturbs does what the scheduler's model takes as one step.  Started
  at the launcher's rendezvous, it pauses and resumes the subprocess, writes the parameters, waits
  as often as the poll times out, reads the result and closes the pipe; then the thread, the
  manifest and the controller's signal word are those of \<open>executor_end\<close>, each descriptor was
  closed once and no signal was sent to end the subprocess.
\<close>
theorem executor_refines:
  assumes "tc_state (ex_thread x) = 2" "k < length (threads s)" "threads s ! k = ex_thread x" "graph s = ex_graph x" "se_box s = ex_box x"
    "to_kill o2 = CallOk" "to_kill o3 = CallOk"
    "write_params parse serialize (to_writes o4) (ex_graph x) (rel_at (ex_graph x) (tc_relation (ex_thread x)))
       (tc_params (ex_thread x)) = Inr (True, sent)"
    "\<forall>w \<in> set ws. \<exists>ps. to_polls w = PollTimeout # ps"
    "to_polls o5 = [PollReady True]" "read_loop (to_reads o6) [] = Inr v" "to_closes o7 = (True, True)"
    "is_started (ex_thread x)" "\<not> is_stopped (ex_thread x)"
  shows "\<exists>x'. executor_rest parse serialize co (\<lambda>a. a) (map undisturbed ([o2, o3, o4] @ ws @ [o5, o6, o7])) x = Inr x' \<and>
    ex_thread x' = (threads (executor_end k v s) ! k)\<lparr>tc_state := 7\<rparr> \<and>
    ex_graph x' = graph (executor_end k v s) \<and> ex_box x' = se_box (executor_end k v s) \<and>
    ex_sent x' = ex_sent x \<and> ex_closed x' = ex_closed x @ [fst (tc_pipe (ex_thread x)), snd (tc_pipe (ex_thread x))]"
proof -
  let ?t = "ex_thread x"
  let ?m = "if v = [] \<or> v = ''null'' then ex_graph x else set_value (tc_relation ?t) v (ex_graph x)"
  let ?x7 = "x\<lparr>ex_graph := ?m, ex_thread := ?t\<lparr>tc_state := 7\<rparr>\<rparr>"
  have "thread_run parse serialize [o2, o3, o4] (ex_graph x) ?t = Inr (True, ex_graph x, ?t\<lparr>tc_state := 5\<rparr>)"
    using assms(1,6-8) by (simp add: thread_continue_def subprocess_signal_def Let_def)
  then have "thread_run parse serialize ([o2, o3, o4] @ ws @ [o5, o6]) (ex_graph x) ?t =
      thread_run parse serialize (ws @ [o5, o6]) (ex_graph x) (?t\<lparr>tc_state := 5\<rparr>)" by (rule thread_run_append)
  also have "\<dots> = thread_run parse serialize [o5, o6] (ex_graph x) (?t\<lparr>tc_state := 5\<rparr>)"
    using assms(9) by (intro thread_run_append thread_run_waiting) simp_all
  also have "\<dots> = Inr (True, ?m, ?t\<lparr>tc_state := 7\<rparr>)"
    using thread_run_result [of "?t\<lparr>tc_state := 5\<rparr>" o5 o6 v parse serialize "ex_graph x"] assms(10,11) by simp
  finally have "executor_loop parse serialize co (map undisturbed ([o2, o3, o4] @ ws @ [o5, o6]) @ [undisturbed o7]) x =
      executor_loop parse serialize co [undisturbed o7] ?x7" using assms(14) by (rule executor_loop_undisturbed)
  then have "executor_rest parse serialize co (\<lambda>a. a) (map undisturbed ([o2, o3, o4] @ ws @ [o5, o6, o7])) x =
      executor_loop parse serialize co [undisturbed o7] ?x7" using assms(13,14) by (simp add: executor_rest_def)
  also have "\<dots> = Inr (raise_end (?x7\<lparr>ex_thread := (ex_thread ?x7)\<lparr>tc_signal := tc_signal (ex_thread ?x7) OR ctl_end_event\<rparr>,
      ex_closed := ex_closed ?x7 @ [fst (tc_pipe (ex_thread ?x7)), snd (tc_pipe (ex_thread ?x7))]\<rparr>))"
    using assms(12) by (intro executor_loop_last) simp_all
  finally show ?thesis using assms(2-5) by (simp add: raise_end_def executor_end_def sched_end_def set_graph_def Let_def)
qed

definition demo_cleanup :: cleanup_os where
  "demo_cleanup = \<lparr>co_kills = (CallOk, CallOk, CallOk), co_naps = [CallOk], co_closes = (True, True)\<rparr>"

definition demo_executor :: executor where
  "demo_executor = \<lparr>ex_graph = demo_manifest,
     ex_thread = notify 0 ((new_thread 0 ''{}'')\<lparr>tc_state := 2, tc_pid := 99, tc_pipe := (5, 4)\<rparr>),
     ex_box = 0, ex_sent = [], ex_closed = []\<rparr>"

definition demo_scene :: sched_env where
  "demo_scene = \<lparr>se_ctx = demo_context\<lparr>ec_manifest := demo_manifest, ec_threads := [ex_thread demo_executor]\<rparr>, se_box = 0,
     se_queue = \<lparr>sched_handles = [], sched_flags = (\<lambda>_. False), sched_fresh = 0\<rparr>, se_peers = []\<rparr>"

theorem executor_refines_witness:
  "\<exists>x'. executor_rest Inr (\<lambda>_. []) demo_cleanup (\<lambda>a. a)
      (map undisturbed ([demo_os, demo_os, demo_os] @ [demo_os\<lparr>to_polls := [PollTimeout]\<rparr>] @ [demo_os, demo_os, demo_os]))
      demo_executor = Inr x' \<and>
    ex_thread x' = (threads (executor_end 0 ''{}'' demo_scene) ! 0)\<lparr>tc_state := 7\<rparr> \<and>
    ex_graph x' = graph (executor_end 0 ''{}'' demo_scene) \<and> ex_box x' = se_box (executor_end 0 ''{}'' demo_scene) \<and>
    ex_sent x' = ex_sent demo_executor \<and>
    ex_closed x' = ex_closed demo_executor @ [fst (tc_pipe (ex_thread demo_executor)), snd (tc_pipe (ex_thread demo_executor))]"
  by (rule executor_refines)
     (simp_all add: demo_executor_def demo_scene_def demo_os_def new_thread_def demo_manifest_def rel_at_def notify_def
        write_params_def params_text_def is_started_def is_stopped_def ctl_start_event_def ctl_end_event_def)

text \<open>
  C19: an executor always reports.  Whatever other threads do between its turns, and whether it was
  stopped or ran to its end, once an executor returns its thread is stopped and the end event is in
  the controller's signal word; when it was stopped before it resumed its subprocess, the subprocess
  was told to end and both descriptors were closed.
\<close>
theorem executor_reports:
  assumes "executor_rest parse serialize co others tus x = Inr x'"
  shows "is_stopped (ex_thread x') \<and> ex_box x' AND ctl_end_event \<noteq> 0 \<and>
    (is_stopped (snd (others (ex_graph x, ex_thread x))) \<longrightarrow>
      (- tc_pid (ex_thread x'), SIGTERM) \<in> set (ex_sent x') \<and>
      ex_closed x' = ex_closed x @ [fst (tc_pipe (ex_thread x')), snd (tc_pipe (ex_thread x'))])"
proof -
  obtain m t where o: "others (ex_graph x, ex_thread x) = (m, t)" by (cases "others (ex_graph x, ex_thread x)")
  show ?thesis
  proof (cases "is_stopped t")
    case True
    with assms o have "quit co (x\<lparr>ex_graph := m, ex_thread := t\<rparr>) = Inr x'"
      by (simp add: executor_rest_def Let_def split: if_splits)
    from quit_fields [OF this] True show ?thesis by simp
  next
    case False
    with assms o have "executor_loop parse serialize co tus (x\<lparr>ex_graph := m, ex_thread := t\<rparr>) = Inr x'"
      by (simp add: executor_rest_def Let_def split: if_splits)
    from executor_loop_ends [OF this] False o show ?thesis by simp
  qed
qed

theorem executor_reports_witness:
  "\<exists>x' :: executor. is_stopped (ex_thread x') \<and> ex_box x' AND ctl_end_event \<noteq> 0 \<and>
    (- tc_pid (ex_thread x'), SIGTERM) \<in> set (ex_sent x')"
proof -
  let ?co = "\<lparr>co_kills = (CallOk, CallOk, CallOk), co_naps = [CallOk], co_closes = (True, True)\<rparr>"
  let ?others = "\<lambda>(m, t). (m, snd (stop_thread t))"
  have "\<not> isl (executor_rest Inr (\<lambda>_. []) ?co ?others [] demo_executor)" by code_simp
  then obtain x' where x': "executor_rest Inr (\<lambda>_. []) ?co ?others [] demo_executor = Inr x'" using not_isl by blast
  from executor_reports [OF x'] show ?thesis by (auto simp: thread_simps)
qed

text \<open>
  An executor that has nothing to run leaves its subprocess behind.  When a dependency has no
  value the executor ends after \<open>thread_continue\<close> has returned false in state 4: the thread is
  stopped and the controller is told, but no signal is sent and no descriptor is closed, so the
  launcher keeps waiting for its input.
\<close>
theorem executor_leaks:
  assumes "tc_state (ex_thread x) = 4"
    "params_text parse serialize (ex_graph x) (rel_at (ex_graph x) (tc_relation (ex_thread x))) (tc_params (ex_thread x)) = Inr None"
  shows "\<exists>x'. executor_loop parse serialize co (undisturbed os # tus) x = Inr x' \<and> is_stopped (ex_thread x') \<and>
    ex_box x' AND ctl_end_event \<noteq> 0 \<and> ex_sent x' = ex_sent x \<and> ex_closed x' = ex_closed x \<and> ex_graph x' = ex_graph x"
  using assms by (simp add: undisturbed_def continue_at_def thread_continue_def write_params_def raise_end_def
      is_stopped_def or_end_stopped)

theorem executor_leaks_witness:
  "\<exists>x'. executor_loop Inr (\<lambda>_. []) demo_cleanup [undisturbed demo_os]
      (demo_executor\<lparr>ex_graph := demo_manifest, ex_thread := (new_thread 1 ''{}'')\<lparr>tc_state := 4\<rparr>\<rparr>) = Inr x' \<and>
    is_stopped (ex_thread x') \<and> ex_box x' AND ctl_end_event \<noteq> 0 \<and>
    ex_sent x' = ex_sent (demo_executor\<lparr>ex_graph := demo_manifest, ex_thread := (new_thread 1 ''{}'')\<lparr>tc_state := 4\<rparr>\<rparr>) \<and>
    ex_closed x' = ex_closed (demo_executor\<lparr>ex_graph := demo_manifest, ex_thread := (new_thread 1 ''{}'')\<lparr>tc_state := 4\<rparr>\<rparr>) \<and>
    ex_graph x' = ex_graph (demo_executor\<lparr>ex_graph := demo_manifest, ex_thread := (new_thread 1 ''{}'')\<lparr>tc_state := 4\<rparr>\<rparr>)"
  by (rule executor_leaks)
     (simp_all add: new_thread_def demo_manifest_def rel_at_def params_text_def)

section \<open>What the initializer does\<close>

text \<open>What other threads may do: states only grow, a stopped thread stays stopped, and they start no executors.\<close>

definition tame_turn :: "exec_turn \<Rightarrow> bool" where
  "tame_turn tu \<longleftrightarrow> (\<forall>m t. tc_state t \<le> tc_state (snd (xt_others tu (m, t))))"

definition settled :: "thread_controls \<Rightarrow> bool" where
  "settled t \<longleftrightarrow> is_stopped t \<or> 0 < tc_state t"

definition tame :: "(walk \<Rightarrow> walk) \<Rightarrow> bool" where
  "tame f \<longleftrightarrow> (\<forall>w. length (wk_threads (f w)) = length (wk_threads w) \<and> wk_forked (f w) = wk_forked w \<and>
     (\<forall>j < length (wk_threads w). (settled (wk_threads w ! j) \<longrightarrow> settled (wk_threads (f w) ! j)) \<and>
        tc_state (wk_threads w ! j) \<le> tc_state (wk_threads (f w) ! j)))"

lemma continue_state:
  assumes "continue_at parse serialize tu x = Inr (b, x')" "tame_turn tu"
  shows "tc_state (ex_thread x) \<le> tc_state (ex_thread x') \<and> (tc_state (ex_thread x) = 0 \<longrightarrow> 0 < tc_state (ex_thread x'))"
proof -
  from assms(1) obtain m t where c: "thread_continue parse serialize (xt_os tu) (ex_graph x) (ex_thread x) = Inr (b, m, t)"
    and x': "ex_thread x' = snd (xt_others tu (m, t))"
    by (auto simp: continue_at_def rbind_Inr_iff case_prod_beta)
  from assms(2) have "tc_state t \<le> tc_state (ex_thread x')" unfolding x' by (simp add: tame_turn_def)
  moreover have "tc_state (ex_thread x) = 0 \<Longrightarrow> 0 < tc_state t"
    using c by (auto simp: thread_continue_def Let_def rbind_Inr_iff)
  ultimately show ?thesis using thread_continue_step [OF c] by auto
qed

lemma initialize_executor_state:
  assumes "initialize_executor parse serialize co tu1 tu2 in_time x = Inr (r, x')" "tame_turn tu1" "tame_turn tu2"
    "tc_state (ex_thread x) = 0"
  shows "0 < tc_state (ex_thread x')"
proof -
  from assms(1) obtain b x1 where c: "continue_at parse serialize tu1 x = Inr (b, x1)"
    by (auto simp: initialize_executor_def rbind_Inr_iff)
  from continue_state [OF c assms(2)] assms(4) have pos: "0 < tc_state (ex_thread x1)" by simp
  have meets: "0 < tc_state (ex_thread x2)" if m: "executor_meets parse serialize co tu2 x1 = Inr (r, x2)" for x2 r
  proof -
    from m obtain b2 x3 where c2: "continue_at parse serialize tu2 x1 = Inr (b2, x3)"
      and x3: "ex_thread x2 = ex_thread x3"
      by (auto simp: executor_meets_def rbind_Inr_iff dest: quit_fields clean_up_fields split: if_splits)
    from continue_state [OF c2 assms(3)] pos x3 show ?thesis by simp
  qed
  show ?thesis
    using assms(1) c pos
    by (auto simp: initialize_executor_def rbind_Inr_iff dest: quit_fields clean_up_fields meets split: if_splits)
qed

text \<open>What holds at every point of the walk, \<open>D\<close> being the threads it has passed.\<close>

definition walk_inv :: "nat \<Rightarrow> nat set \<Rightarrow> walk \<Rightarrow> bool" where
  "walk_inv n D w \<longleftrightarrow> length (wk_threads w) = n \<and> distinct (wk_forked w) \<and>
     (\<forall>j \<in> set (wk_forked w). j < n \<and> 0 < tc_state (wk_threads w ! j)) \<and> (\<forall>j \<in> D. j < n \<longrightarrow> settled (wk_threads w ! j))"

definition tame_start :: "start_os \<Rightarrow> bool" where
  "tame_start so \<longleftrightarrow> tame_turn (so_fork so) \<and> tame_turn (so_launch so)"

lemma tame_inv: "tame f \<Longrightarrow> walk_inv n D w \<Longrightarrow> walk_inv n D (f w)"
  unfolding tame_def walk_inv_def by (metis less_le_trans)

lemma start_thread_inv:
  assumes "start_thread parse serialize os j w = Inr w'" "tame_start (os j)" "walk_inv n D w" "j < n" "tc_state (wk_threads w ! j) = 0"
  shows "walk_inv n (insert j D) w'"
proof -
  let ?x = "\<lparr>ex_graph = wk_graph w, ex_thread = wk_threads w ! j, ex_box = wk_box w, ex_sent = [], ex_closed = []\<rparr>"
  from assms(1) obtain r x where i: "initialize_executor parse serialize (so_clean (os j)) (so_fork (os j)) (so_launch (os j))
      (so_in_time (os j)) ?x = Inr (r, x)"
    and w': "wk_threads w' = (wk_threads w)[j := ex_thread x]" "wk_forked w' = wk_forked w @ [j]"
    by (auto simp: start_thread_def rbind_Inr_iff)
  have "0 < tc_state (ex_thread x)"
    using initialize_executor_state [OF i] assms(2,5) by (simp add: tame_start_def)
  then show ?thesis
    using assms(3-5) w' by (auto simp: walk_inv_def settled_def nth_list_update)
qed

lemma yield_loop_inv:
  assumes "yield_loop parse serialize os fs w = Inr w'" "\<forall>f \<in> set fs. tame f" "\<forall>j. tame_start (os j)" "walk_inv n D w"
  shows "walk_inv n D w'"
  using assms
proof (induction fs arbitrary: w)
  case (Cons f fs)
  let ?w1 = "f w" let ?j = "find_if waits_for_start (wk_threads ?w1)"
  from Cons.prems(2,4) have w1: "walk_inv n D ?w1" by (simp add: tame_inv)
  consider "walk_stopped ?w1" | "\<not> walk_stopped ?w1" "?j < length (wk_threads ?w1)" | "\<not> walk_stopped ?w1" "\<not> ?j < length (wk_threads ?w1)"
    by blast
  then show ?case
  proof cases
    case 1
    with Cons.prems(1) w1 show ?thesis by (simp add: Let_def)
  next
    case 2
    with Cons.prems(1) obtain w2 where s: "start_thread parse serialize os ?j ?w1 = Inr w2"
      and r: "yield_loop parse serialize os fs w2 = Inr w'" by (auto simp: Let_def rbind_Inr_iff)
    from find_if_nth [OF 2(2)] have "tc_state (wk_threads ?w1 ! ?j) = 0" by (simp add: waits_for_start_def)
    with start_thread_inv [OF s _ w1] Cons.prems(3) 2(2) w1 have "walk_inv n (insert ?j D) w2" by (simp add: walk_inv_def)
    then have "walk_inv n D w2" by (simp add: walk_inv_def)
    with Cons.IH [OF r] Cons.prems(2,3) show ?thesis by simp
  next
    case 3
    with Cons.prems Cons.IH w1 show ?thesis by (simp add: Let_def)
  qed
qed simp

lemma walk_loop_inv:
  assumes "walk_loop parse serialize os yields start n is w = Inr w'" "\<forall>i. \<forall>f \<in> set (yields i). tame f" "\<forall>j. tame_start (os j)"
    "walk_inv n D w"
  shows "walk_inv n (D \<union> {j. walk_stopped w'} \<union> (\<lambda>i. (i + start) mod n) ` set is) w'"
  using assms
proof (induction "is" arbitrary: w D)
  case Nil
  then show ?case by (auto simp: walk_inv_def walk_stopped_def settled_def list_all_length)
next
  case (Cons i "is")
  let ?j = "(i + start) mod n"
  show ?case
  proof (cases "walk_stopped w")
    case True
    with Cons.prems(1,4) show ?thesis by (auto simp: walk_inv_def walk_stopped_def settled_def list_all_length)
  next
    case False
    with Cons.prems(1) have j: "?j < length (wk_threads w)"
      by (auto simp: Let_def rbind_Inr_iff vec_at_def split: if_splits)
    with Cons.prems(4) have jn: "?j < n" by (simp add: walk_inv_def)
    have "\<exists>w2. walk_loop parse serialize os yields start n is w2 = Inr w' \<and> walk_inv n (insert ?j D) w2"
    proof (cases "is_stopped (wk_threads w ! ?j)")
      case True
      then have "walk_inv n (insert ?j D) (w\<lparr>wk_box := wk_box w OR ctl_end_event\<rparr>)"
        using Cons.prems(4) by (auto simp: walk_inv_def settled_def)
      with True False j Cons.prems(1) show ?thesis by (intro exI) (auto simp: Let_def vec_at_def)
    next
      case stopped: False
      with False j Cons.prems(1) obtain w1 w2 where
        w1: "(if tc_state (wk_threads w ! ?j) = 0 then start_thread parse serialize os ?j w else Inr w) = Inr w1"
        and w2: "yield_loop parse serialize os (yields i) w1 = Inr w2" "walk_loop parse serialize os yields start n is w2 = Inr w'"
        by (auto simp: Let_def vec_at_def rbind_Inr_iff)
      have "walk_inv n (insert ?j D) w1"
      proof (cases "tc_state (wk_threads w ! ?j) = 0")
        case True
        with w1 start_thread_inv [of parse serialize os ?j w w1 n D] Cons.prems(3,4) jn show ?thesis by simp
      next
        case False
        with w1 Cons.prems(4) show ?thesis by (auto simp: walk_inv_def settled_def)
      qed
      then have "walk_inv n (insert ?j D) w2"
        using yield_loop_inv [OF w2(1)] Cons.prems(2,3) by blast
      with w2(2) show ?thesis by blast
    qed
    then obtain w2 where w2: "walk_loop parse serialize os yields start n is w2 = Inr w'" "walk_inv n (insert ?j D) w2" by blast
    from Cons.IH [OF w2(1) Cons.prems(2,3) w2(2)] show ?thesis by (simp add: walk_inv_def)
  qed
qed

lemma once_around:
  assumes "start < (n :: nat)"
  shows "map (\<lambda>i. (i + start) mod n) [0..<n] = [start..<n] @ [0..<start]"
proof -
  have "[0..<n] = [0..<n - start] @ [n - start..<n]" using assms upt_add_eq_append [of 0 "n - start" start] by simp
  moreover have "map (\<lambda>i. (i + start) mod n) [0..<n - start] = [start..<n]"
    using assms by (intro nth_equalityI) (simp_all add: add.commute)
  moreover have "map (\<lambda>i. (i + start) mod n) [n - start..<n] = [0..<start]"
    using assms by (intro nth_equalityI) simp_all
  ultimately show ?thesis by simp
qed

text \<open>The threads that are started when nobody interferes.\<close>

lemma walk_loop_order:
  assumes "walk_loop parse serialize os (\<lambda>_. []) start n is w = Inr w'" "distinct (map (\<lambda>i. (i + start) mod n) is)"
    "length (wk_threads w) = n" "0 < n"
  shows "wk_forked w' = wk_forked w @
    filter (\<lambda>j. \<not> is_stopped (wk_threads w ! j) \<and> tc_state (wk_threads w ! j) = 0) (map (\<lambda>i. (i + start) mod n) is)"
  using assms
proof (induction "is" arbitrary: w)
  case (Cons i "is")
  let ?j = "(i + start) mod n" and ?js = "map (\<lambda>i. (i + start) mod n) is"
  let ?p = "\<lambda>w j. \<not> is_stopped (wk_threads w ! j) \<and> tc_state (wk_threads w ! j) = 0"
  show ?case
  proof (cases "walk_stopped w")
    case True
    have "\<not> ?p w j" if "j \<in> set (map (\<lambda>i. (i + start) mod n) (i # is))" for j
    proof -
      from that Cons.prems(4) have "j < n" by auto
      with True Cons.prems(3) show ?thesis by (simp add: walk_stopped_def list_all_length)
    qed
    then have "filter (?p w) (map (\<lambda>i. (i + start) mod n) (i # is)) = []" by (simp add: filter_empty_conv)
    with True Cons.prems(1) show ?thesis by simp
  next
    case False
    with Cons.prems(1) have j: "?j < length (wk_threads w)"
      by (auto simp: Let_def rbind_Inr_iff vec_at_def split: if_splits)
    consider "is_stopped (wk_threads w ! ?j)" | "\<not> is_stopped (wk_threads w ! ?j)" "0 < tc_state (wk_threads w ! ?j)" | "?p w ?j" by auto
    then show ?thesis
    proof cases
      case 1
      with False j Cons.prems(1)
      have "walk_loop parse serialize os (\<lambda>_. []) start n is (w\<lparr>wk_box := wk_box w OR ctl_end_event\<rparr>) = Inr w'"
        by (simp add: Let_def vec_at_def)
      from Cons.IH [OF this] Cons.prems(2-4) 1 show ?thesis by simp
    next
      case 2
      with False j Cons.prems(1) have "walk_loop parse serialize os (\<lambda>_. []) start n is w = Inr w'"
        by (simp add: Let_def vec_at_def)
      from Cons.IH [OF this] Cons.prems(2-4) 2 show ?thesis by simp
    next
      case 3
      with False j Cons.prems(1) obtain w1 where w1: "start_thread parse serialize os ?j w = Inr w1"
        and r: "walk_loop parse serialize os (\<lambda>_. []) start n is w1 = Inr w'"
        by (auto simp: Let_def vec_at_def rbind_Inr_iff)
      from w1 obtain x where x: "wk_threads w1 = (wk_threads w)[?j := x]" "wk_forked w1 = wk_forked w @ [?j]"
        by (auto simp: start_thread_def rbind_Inr_iff)
      have "filter (?p w1) ?js = filter (?p w) ?js"
      proof (intro filter_cong refl)
        fix j assume "j \<in> set ?js"
        with Cons.prems(2) have "?j \<noteq> j" by auto
        then show "?p w1 j = ?p w j" using x(1) by simp
      qed
      with Cons.IH [OF r] Cons.prems(2-4) 3 x show ?thesis by simp
    qed
  qed
qed simp

text \<open>
  C20: the initializer starts every action once.  Whatever the other threads do meanwhile, as long
  as they start no executors themselves and undo no progress, when the initializer is through each
  thread is stopped or has its subprocess, none was given two, and none that was given one is back
  in its first state.
\<close>
theorem initializer_starts_all:
  assumes "initializer parse serialize os yields start n w = Inr w'" "length (wk_threads w) = n" "start < n" "wk_forked w = []"
    "\<forall>i. \<forall>f \<in> set (yields i). tame f" "\<forall>j. tame_start (os j)"
  shows "distinct (wk_forked w') \<and> length (wk_threads w') = n \<and> (\<forall>t \<in> set (wk_threads w'). is_stopped t \<or> 0 < tc_state t) \<and>
    (\<forall>j \<in> set (wk_forked w'). j < n \<and> 0 < tc_state (wk_threads w' ! j))"
proof -
  have "walk_inv n {} w" using assms(2,4) by (simp add: walk_inv_def)
  with assms(1,5,6) have inv: "walk_inv n ({} \<union> {j. walk_stopped w'} \<union> (\<lambda>i. (i + start) mod n) ` set [0..<n]) w'"
    unfolding initializer_def by (intro walk_loop_inv)
  have "(\<lambda>i. (i + start) mod n) ` set [0..<n] = {..<n}"
    unfolding set_map [symmetric] once_around [OF assms(3)] using assms(3) by auto
  with inv have all: "\<forall>j < n. settled (wk_threads w' ! j)" by (simp add: walk_inv_def)
  from inv show ?thesis using all unfolding walk_inv_def settled_def [symmetric] by (metis in_set_conv_nth)
qed

definition demo_start :: start_os where
  "demo_start = \<lparr>so_fork = undisturbed demo_os, so_launch = undisturbed demo_os,
     so_clean = \<lparr>co_kills = (CallOk, CallOk, CallOk), co_naps = [CallOk], co_closes = (True, True)\<rparr>, so_in_time = True\<rparr>"

definition demo_walk :: walk where
  "demo_walk = \<lparr>wk_graph = demo_manifest, wk_threads = [new_thread 0 ''{}'', new_thread 1 ''{}''], wk_box = 0,
     wk_forked = [], wk_running = []\<rparr>"

lemma demo_start_tame: "tame_start demo_start"
  by (simp add: tame_start_def demo_start_def tame_turn_def undisturbed_def)

theorem initializer_starts_all_witness:
  "\<exists>w'. initializer Inr (\<lambda>_. []) (\<lambda>_. demo_start) (\<lambda>_. [\<lambda>w. w]) 1 2 demo_walk = Inr w' \<and> distinct (wk_forked w') \<and>
     length (wk_threads w') = 2 \<and> (\<forall>t \<in> set (wk_threads w'). is_stopped t \<or> 0 < tc_state t)"
proof -
  have "\<not> isl (initializer Inr (\<lambda>_. []) (\<lambda>_. demo_start) (\<lambda>_. [\<lambda>w. w]) 1 2 demo_walk)" by code_simp
  then obtain w' where w': "initializer Inr (\<lambda>_. []) (\<lambda>_. demo_start) (\<lambda>_. [\<lambda>w. w]) 1 2 demo_walk = Inr w'" using not_isl by blast
  from initializer_starts_all [OF w'] w' show ?thesis by (simp add: demo_walk_def tame_def demo_start_tame)
qed

text \<open>
  The order in which they are started.  With nobody interfering, the initializer of a node goes
  once around the actions from the index that the node was given, and starts exactly those that are
  not stopped and have no subprocess yet.
\<close>
theorem initializer_order:
  assumes "initializer parse serialize os (\<lambda>_. []) start n w = Inr w'" "length (wk_threads w) = n" "start < n" "wk_forked w = []"
  shows "wk_forked w' =
    filter (\<lambda>j. \<not> is_stopped (wk_threads w ! j) \<and> tc_state (wk_threads w ! j) = 0) ([start..<n] @ [0..<start])"
proof -
  from assms(1) have "walk_loop parse serialize os (\<lambda>_. []) start n [0..<n] w = Inr w'" by (simp add: initializer_def)
  from walk_loop_order [OF this] assms(2-4) show ?thesis unfolding once_around [OF assms(3)] by auto
qed

theorem initializer_order_witness:
  "\<exists>w'. initializer Inr (\<lambda>_. []) (\<lambda>_. demo_start) (\<lambda>_. []) 1 2 demo_walk = Inr w' \<and> wk_forked w' = [1, 0]"
proof -
  have "\<not> isl (initializer Inr (\<lambda>_. []) (\<lambda>_. demo_start) (\<lambda>_. []) 1 2 demo_walk)" by code_simp
  then obtain w' where w': "initializer Inr (\<lambda>_. []) (\<lambda>_. demo_start) (\<lambda>_. []) 1 2 demo_walk = Inr w'" using not_isl by blast
  have "wk_forked w' = filter (\<lambda>j. \<not> is_stopped (wk_threads demo_walk ! j) \<and> tc_state (wk_threads demo_walk ! j) = 0) ([1..<2] @ [0..<1])"
    by (rule initializer_order [OF w']) (simp_all add: demo_walk_def)
  with w' show ?thesis by (simp add: demo_walk_def new_thread_def is_stopped_def numeral_2_eq_2)
qed

end
