(* ===== verification/LocalRun.thy ===== *)
theory LocalRun
  imports Executors
begin

text \<open>
  The run of one controller without peers, at the grain of the calls of \<open>thread_continue\<close>: the
  executors of a context take their turns one call at a time, in any order, between the turns of
  the passes of the main loop (\<open>controller-app.cpp\<close>, \<open>thread-controls.cpp\<close>).  A relation gets its
  value in the call that reads the result of its subprocess; that its dependencies had values
  before is decided three calls earlier, by \<open>write_params_to_subprocess\<close>, and is derived here from
  the definitions of the executor.
\<close>

section \<open>One call of an executor\<close>

text \<open>
  One turn of executor \<open>k\<close>: \<open>thread_continue\<close>, and what the executor does with its result.  Before
  it waits for its start (states 0 and 1) a negative result ends it silently; in its loop it stops
  its own thread and raises the end event.  A thread that others have stopped is given up, with
  the end event.  The first component says whether the executor goes on.
\<close>

definition end_thread :: "nat \<Rightarrow> sched_env \<Rightarrow> sched_env" where
  "end_thread k s = sched_end (set_threads ((threads s)[k := (threads s ! k)
     \<lparr>tc_signal := tc_signal (threads s ! k) OR ctl_end_event\<rparr>]) s)"

definition executor_turn ::
  "(string \<Rightarrow> 'j result) \<Rightarrow> ((string \<times> 'j) list \<Rightarrow> string) \<Rightarrow> thread_os \<Rightarrow> nat \<Rightarrow> sched_env \<Rightarrow> (bool \<times> sched_env) result" where
  "executor_turn parse serialize os k s =
     rbind (vec_at (threads s) k) (\<lambda>t0.
     rbind (thread_continue parse serialize os (graph s) t0) (\<lambda>(b, m, t).
       let s1 = set_threads ((threads s)[k := t]) (set_graph m s) in
       if \<not> b then Inr (False, if tc_state t0 < 2 then s1 else end_thread k s1)
       else if is_stopped t then Inr (False, sched_end s1)
       else Inr (True, s1)))"

text \<open>What an executor sees of the context.\<close>

definition executor_view :: "nat \<Rightarrow> sched_env \<Rightarrow> executor" where
  "executor_view k s = \<lparr>ex_graph = graph s, ex_thread = threads s ! k, ex_box = se_box s, ex_sent = [], ex_closed = []\<rparr>"

section \<open>The steps of a run\<close>

text \<open>
  The state is the context with the numbers of the executors that have ended.  An executor that
  has not ended takes a turn; from state 2 on only once its thread was started.  Or it ends at a
  moment when others have stopped its thread, between its call and its test.  The initializer
  raises the end event for a thread it skips.  The main loop starts a run, and its pass over the
  contexts takes the updated or the stopped turn.
\<close>

inductive run_step ::
  "chooser \<Rightarrow> (string \<Rightarrow> 'j result) \<Rightarrow> ((string \<times> 'j) list \<Rightarrow> string) \<Rightarrow> (string \<Rightarrow> 'j \<Rightarrow> string) \<Rightarrow>
   sched_env \<times> nat set \<Rightarrow> sched_env \<times> nat set \<Rightarrow> bool"
  for nxt parse pack serialize where
  turn: "k \<notin> over \<Longrightarrow> 2 \<le> tc_state (threads s ! k) \<longrightarrow> is_started (threads s ! k) \<Longrightarrow>
     executor_turn parse pack os k s = Inr (go, s') \<Longrightarrow>
     run_step nxt parse pack serialize (s, over) (s', if go then over else insert k over)"
| quit: "k < length (threads s) \<Longrightarrow> is_stopped (threads s ! k) \<Longrightarrow>
     run_step nxt parse pack serialize (s, over) (sched_end s, insert k over)"
| skipped: "run_step nxt parse pack serialize (s, over) (sched_end s, over)"
| start: "start_run nxt s = Inr s' \<Longrightarrow> run_step nxt parse pack serialize (s, over) (s', over)"
| updated: "handle_updated nxt parse serialize s = Inr s' \<Longrightarrow> run_step nxt parse pack serialize (s, over) (s', over)"
| stopped: "context_stopped (se_ctx s) \<Longrightarrow> handle_stopped parse serialize s = Inr (out, s') \<Longrightarrow>
     run_step nxt parse pack serialize (s, over) (s', over)"

inductive_cases run_stepE: "run_step nxt parse pack serialize (s, over) z"

section \<open>The turns and the executor\<close>

text \<open>
  A turn is the iteration of \<open>executor_loop\<close>: an executor that goes on has the rest of its loop
  before it, from what it sees of the context now; and when it does not go on, it returns with
  the manifest, the thread and the signal word that the turn leaves in the context.
\<close>

lemma set_graph_view: "k < length (threads s) \<Longrightarrow>
  executor_view k (set_threads ((threads s)[k := t]) (set_graph m s)) = (executor_view k s)\<lparr>ex_graph := m, ex_thread := t\<rparr>"
  by (simp add: executor_view_def set_graph_def)

theorem executor_turn_loop:
  assumes "executor_turn parse pack os k s = Inr (go, s')" "2 \<le> tc_state (threads s ! k)"
  shows "(go \<longrightarrow> executor_loop parse pack co (undisturbed os # tus) (executor_view k s) =
      executor_loop parse pack co tus (executor_view k s')) \<and>
    (\<not> go \<longrightarrow> (\<forall>x. executor_loop parse pack co (undisturbed os # tus) (executor_view k s) = Inr x \<longrightarrow>
      ex_graph x = graph s' \<and> ex_thread x = threads s' ! k \<and> ex_box x = se_box s'))"
proof -
  let ?t = "threads s ! k"
  from assms(1) obtain b m t where k: "k < length (threads s)"
    and c: "thread_continue parse pack os (graph s) ?t = Inr (b, m, t)"
    and s': "(go, s') = (let s1 = set_threads ((threads s)[k := t]) (set_graph m s) in
       if \<not> b then (False, if tc_state ?t < 2 then s1 else end_thread k s1)
       else if is_stopped t then (False, sched_end s1) else (True, s1))"
    by (auto simp: executor_turn_def vec_at_Inr_iff Let_def elim!: rbind_InrE split: if_splits)
  let ?fds = "if 7 \<le> tc_state ?t then fst (close_pipe (to_closes os) (tc_pipe ?t)) else []"
  have l: "executor_loop parse pack co (undisturbed os # tus) (executor_view k s) =
    (let x1 = (executor_view k s)\<lparr>ex_graph := m, ex_thread := t, ex_closed := ?fds\<rparr> in
       if \<not> b then Inr (raise_end (x1\<lparr>ex_thread := t\<lparr>tc_signal := tc_signal t OR ctl_end_event\<rparr>\<rparr>))
       else if is_stopped t then quit co x1
       else executor_loop parse pack co tus x1)"
    using c by (simp add: continue_at_def undisturbed_def executor_view_def Let_def)
  show ?thesis
  proof (cases b)
    case False
    with s' assms(2) k l show ?thesis
      by (simp add: end_thread_def raise_end_def executor_view_def sched_end_def set_graph_def Let_def)
  next
    case True
    with thread_continue_step [OF c] have "\<not> 7 \<le> tc_state ?t" using \<open>b\<close> by blast
    then have n: "?fds = []" by simp
    show ?thesis
    proof (cases "is_stopped t")
      case True
      with \<open>b\<close> s' have g: "\<not> go" and s'': "s' = sched_end (set_threads ((threads s)[k := t]) (set_graph m s))"
        by (simp_all add: Let_def)
      have "ex_graph x = graph s' \<and> ex_thread x = threads s' ! k \<and> ex_box x = se_box s'"
        if "quit co ((executor_view k s)\<lparr>ex_graph := m, ex_thread := t, ex_closed := ?fds\<rparr>) = Inr x" for x
      proof -
        from that obtain x1 where x1: "clean_up co ((executor_view k s)\<lparr>ex_graph := m, ex_thread := t, ex_closed := ?fds\<rparr>) = Inr x1"
          and x: "x = raise_end x1" by (auto simp: quit_def elim!: rbind_InrE)
        from clean_up_fields [OF x1] k show ?thesis
          by (simp add: x s'' raise_end_def sched_end_def executor_view_def set_graph_def)
      qed
      with g l \<open>b\<close> True show ?thesis by (simp add: Let_def)
    next
      case False
      with \<open>b\<close> s' have "go" "s' = set_threads ((threads s)[k := t]) (set_graph m s)" by (simp_all add: Let_def)
      with l \<open>b\<close> False n set_graph_view [OF k, of t m] show ?thesis
        by (simp add: Let_def executor_view_def)
    qed
  qed
qed

section \<open>The order of the values\<close>

definition values_closed :: "manifest \<Rightarrow> bool" where
  "values_closed m \<longleftrightarrow> (\<forall>a \<in> set (index m). rel_value (rel_at m a) \<noteq> [] \<longrightarrow>
     (\<forall>d \<in> set (rel_deps (rel_at m a)). \<not> incomplete (rel_at m d)))"

definition deps_done :: "manifest \<Rightarrow> nat \<Rightarrow> bool" where
  "deps_done m a \<longleftrightarrow> (\<forall>d \<in> set (rel_deps (rel_at m a)). \<not> incomplete (rel_at m d))"

lemma deps_done_set_value: "deps_done m a \<Longrightarrow> v \<noteq> [] \<Longrightarrow> v \<noteq> ''null'' \<Longrightarrow> deps_done (set_value b v m) a"
  by (auto simp: deps_done_def incomplete_def set_value_value)

lemma set_value_closed:
  "values_closed m \<Longrightarrow> v \<noteq> [] \<Longrightarrow> v \<noteq> ''null'' \<Longrightarrow> deps_done m a \<Longrightarrow> values_closed (set_value a v m)"
  by (auto simp: values_closed_def deps_done_def incomplete_def set_value_value)

text \<open>Parameters are written only when every dependency has a value.\<close>

lemma dep_params_complete:
  "dep_params parse rs jv = Inr (Some jv') \<Longrightarrow> \<forall>r \<in> set rs. \<not> incomplete r"
proof (induction rs arbitrary: jv)
  case (Cons r rs)
  then have c: "\<not> (rel_value r = [] \<or> rel_value r = ''null'')" by (auto split: if_splits)
  with Cons.prems obtain jv1 where "dep_params parse rs jv1 = Inr (Some jv')"
    by (simp only: dep_params.simps if_False rbind_Inr_iff) blast
  with Cons.IH c show ?case by (simp add: incomplete_def)
qed simp

lemma write_params_done:
  assumes "write_params parse pack rets m (rel_at m a) params = Inr (True, sent)"
  shows "deps_done m a"
proof (cases "rel_deps (rel_at m a) = []")
  case False
  with assms obtain jv where "dep_params parse (map (rel_at m) (rel_deps (rel_at m a))) [] = Inr (Some jv)"
    by (auto simp: write_params_def params_text_def elim!: rbind_InrE split: option.splits)
  from dep_params_complete [OF this] show ?thesis by (simp add: deps_done_def)
qed (simp add: deps_done_def)

text \<open>One call: what it needs to go on past the parameters, and what it does to the manifest.\<close>

lemma thread_continue_graph:
  assumes "thread_continue parse pack os m t = Inr (b, m', t')"
  shows "m' = m \<or> tc_state t = 6 \<and> (\<exists>v. v \<noteq> [] \<and> v \<noteq> ''null'' \<and> m' = set_value (tc_relation t) v m)"
proof (cases "tc_state t = 6")
  case True
  with assms have "rbind (read_result (to_reads os) (tc_relation t) m)
      (\<lambda>(b, m'). Inr (b, m', t\<lparr>tc_state := tc_state t + 1\<rparr>)) = Inr (b, m', t')"
    by (simp only: thread_continue_def Let_def if_True if_False) simp
  then obtain v where "m' = (if v = [] \<or> v = ''null'' then m else set_value (tc_relation t) v m)"
    unfolding rbind_Inr_iff read_result_def by auto
  with True show ?thesis by (cases "v = [] \<or> v = ''null''") auto
next
  case False
  with thread_continue_step [OF assms] show ?thesis by blast
qed

lemma thread_continue_done:
  assumes "thread_continue parse pack os m t = Inr (True, m', t')" "5 \<le> tc_state t'" "\<not> 5 \<le> tc_state t"
  shows "deps_done m (tc_relation t)"
proof -
  have "tc_state t = 4" using thread_continue_step [OF assms(1)] assms(2,3) by linarith
  with assms(1) have "rbind (write_params parse pack (to_writes os) m (rel_at m (tc_relation t)) (tc_params t))
      (\<lambda>(b, _). Inr (b, m, t\<lparr>tc_state := tc_state t + 1\<rparr>)) = Inr (True, m', t')"
    by (simp add: thread_continue_def)
  then obtain sent where
    "write_params parse pack (to_writes os) m (rel_at m (tc_relation t)) (tc_params t) = Inr (True, sent)"
    unfolding rbind_Inr_iff by auto
  then show ?thesis by (rule write_params_done)
qed

text \<open>The turns of the main loop leave the values and the states of the threads alone.\<close>

definition same_run :: "sched_env \<Rightarrow> sched_env \<Rightarrow> bool" where
  "same_run s s' \<longleftrightarrow> graph s' = graph s \<and> map tc_relation (threads s') = map tc_relation (threads s) \<and>
     map tc_state (threads s') = map tc_state (threads s)"

lemma same_run_trans: "same_run s s1 \<Longrightarrow> same_run s1 s2 \<Longrightarrow> same_run s s2"
  by (simp add: same_run_def)

lemma same_run_nth:
  assumes "same_run s s'"
  shows "length (threads s') = length (threads s)"
    "k < length (threads s) \<Longrightarrow> tc_relation (threads s' ! k) = tc_relation (threads s ! k) \<and> tc_state (threads s' ! k) = tc_state (threads s ! k)"
  using assms unfolding same_run_def by (metis length_map, metis length_map nth_map)

lemma notify_at_same: "notify_at j i s = Inr s' \<Longrightarrow> same_run s s'"
  using notify_at_frame [of j i s s'] by (auto simp: same_run_def notify_at_iff thread_simps update_same)

lemma update_loop_same: "update_loop nxt key is s = Inr s' \<Longrightarrow> same_run s s'"
proof (induction "is" arbitrary: s)
  case (Cons i "is")
  then obtain j s1 where "notify_at j i s = Inr s1" "update_loop nxt key is s1 = Inr s'" by (auto elim!: rbind_InrE)
  with notify_at_same Cons.IH same_run_trans show ?case by blast
qed (simp add: same_run_def)

lemma handle_updated_same:
  assumes "handle_updated nxt parse serialize s = Inr s'"
  shows "same_run s s'"
proof -
  let ?k = "find_if unhandled (threads s)"
  let ?s0 = "set_threads ((threads s)[?k := snd (pop_idxs (threads s ! ?k))]) s"
  from assms obtain s1 key where k: "?k < length (threads s)" and s1: "update_peers parse serialize ?k ?s0 = Inr s1"
    and u: "update_loop nxt key (tc_idxs (threads s ! ?k)) s1 = Inr s'"
    by (auto simp: handle_updated_def Let_def rbind_Inr_iff vec_at_Inr_iff pop_idxs_def)
  have "same_run s s1"
    unfolding same_run_def update_peers_ctx [OF s1] using k
    by (simp add: update_same thread_simps) (simp add: update_same pop_idxs_def)
  with update_loop_same [OF u] same_run_trans show ?thesis by blast
qed

lemma stopped_text_states: "stopped_text parse serialize m i ts data = Inr (ts', data') \<Longrightarrow> map tc_state ts' = map tc_state ts"
  by (induction parse serialize m i ts data arbitrary: ts' data' rule: stopped_text.induct)
    (auto simp: pop_idxs_def elim!: rbind_InrE)

lemma handle_stopped_same:
  assumes "handle_stopped parse serialize s = Inr (out, s')"
  shows "same_run s s'"
proof -
  from assms obtain ts data where ts: "stopped_text parse serialize (graph s) 0 (threads s) [] = Inr (ts, data)"
    and s': "s' = (set_threads ts s)\<lparr>se_peers := []\<rparr>"
    by (auto simp: handle_stopped_def elim!: rbind_InrE)
  from stopped_text_frame [OF ts] stopped_text_states [OF ts] show ?thesis by (simp add: same_run_def s' set_threads_def)
qed

lemma start_run_same:
  assumes "start_run nxt s = Inr s'"
  shows "same_run s s'"
proof -
  from assms obtain i c key nx where c: "pop_execution_idx (se_ctx s) = Inr (i, c)" and
    r: "(let j = find_key (ec_manifest c) (next_key (ec_manifest c) nx) in
      if j = length (index (ec_manifest c)) then Inr (sched_end (s\<lparr>se_ctx := c\<rparr>))
      else notify_at j i (s\<lparr>se_ctx := c, se_queue := snd (thread_sched_push (se_queue s))\<rparr>)) = Inr s'"
    unfolding start_run_def rbind_Inr_iff Let_def by (auto simp: rbind_Inr_iff cong: if_cong)
  then have s': "s' = sched_end (s\<lparr>se_ctx := c\<rparr>) \<or>
      (\<exists>j. notify_at j i (s\<lparr>se_ctx := c, se_queue := snd (thread_sched_push (se_queue s))\<rparr>) = Inr s')"
    unfolding Let_def by (simp split: if_splits) blast
  have cs: "ec_threads c = threads s" "ec_manifest c = graph s"
    using c by (auto simp: pop_execution_idx_def split: if_splits list.splits)
  from s' show ?thesis
  proof (elim disjE exE)
    fix j assume n: "notify_at j i (s\<lparr>se_ctx := c, se_queue := snd (thread_sched_push (se_queue s))\<rparr>) = Inr s'"
    show ?thesis using notify_at_same [OF n] cs by (simp add: same_run_def)
  qed (simp add: same_run_def sched_end_def cs)
qed

text \<open>The invariant: an executor that has written its parameters had every dependency.\<close>

definition run_ordered :: "sched_env \<times> nat set \<Rightarrow> bool" where
  "run_ordered = (\<lambda>(s, over). values_closed (graph s) \<and>
     (\<forall>k < length (threads s). k \<notin> over \<longrightarrow> 5 \<le> tc_state (threads s ! k) \<longrightarrow>
        deps_done (graph s) (tc_relation (threads s ! k))))"

lemma same_run_ordered:
  assumes "same_run s s'" "run_ordered (s, over)" "over \<subseteq> over'"
  shows "run_ordered (s', over')"
proof -
  have "graph s' = graph s" using assms(1) by (simp add: same_run_def)
  then show ?thesis
    using assms(2,3) same_run_nth [OF assms(1)] by (auto simp: run_ordered_def)
qed

lemma executor_turn_cases:
  assumes "executor_turn parse pack os k s = Inr (go, s')"
  obtains b m t where "k < length (threads s)" "thread_continue parse pack os (graph s) (threads s ! k) = Inr (b, m, t)"
    "go \<longrightarrow> b" "graph s' = m" "length (threads s') = length (threads s)"
    "\<forall>j. j \<noteq> k \<longrightarrow> threads s' ! j = threads s ! j" "go \<longrightarrow> threads s' ! k = t"
proof -
  let ?t = "threads s ! k"
  from assms obtain b m t where k: "k < length (threads s)"
    and c: "thread_continue parse pack os (graph s) ?t = Inr (b, m, t)"
    and s': "(go, s') = (let s1 = set_threads ((threads s)[k := t]) (set_graph m s) in
       if \<not> b then (False, if tc_state ?t < 2 then s1 else end_thread k s1)
       else if is_stopped t then (False, sched_end s1) else (True, s1))"
    by (auto simp: executor_turn_def vec_at_Inr_iff Let_def elim!: rbind_InrE split: if_splits)
  have "graph s' = m" "length (threads s') = length (threads s)" "\<forall>j. j \<noteq> k \<longrightarrow> threads s' ! j = threads s ! j"
    "go \<longrightarrow> b \<and> threads s' ! k = t"
    using s' k by (simp_all add: Let_def end_thread_def split: if_splits)
  with k c show ?thesis by (intro that [of b m t]) simp_all
qed

lemma executor_turn_ordered:
  assumes "executor_turn parse pack os k s = Inr (go, s')" "run_ordered (s, over)" "k \<notin> over"
  shows "run_ordered (s', if go then over else insert k over)"
proof -
  let ?t = "threads s ! k"
  from assms(1) obtain b m t where k: "k < length (threads s)"
    and c: "thread_continue parse pack os (graph s) ?t = Inr (b, m, t)"
    and go: "go \<longrightarrow> b" and g: "graph s' = m" and len: "length (threads s') = length (threads s)"
    and ts: "\<forall>j. j \<noteq> k \<longrightarrow> threads s' ! j = threads s ! j" "go \<longrightarrow> threads s' ! k = t"
    by (rule executor_turn_cases)
  from assms(2) have vc: "values_closed (graph s)" and
    dd: "j < length (threads s) \<Longrightarrow> j \<notin> over \<Longrightarrow> 5 \<le> tc_state (threads s ! j) \<Longrightarrow> deps_done (graph s) (tc_relation (threads s ! j))" for j
    by (simp_all add: run_ordered_def)
  note cg = thread_continue_graph [OF c]
  have vc': "values_closed m"
    using cg
  proof (elim disjE conjE exE)
    fix v assume st: "tc_state ?t = 6" and v: "v \<noteq> []" "v \<noteq> ''null''" and m: "m = set_value (tc_relation ?t) v (graph s)"
    from st have "5 \<le> tc_state ?t" by simp
    from set_value_closed [OF vc v dd [OF k assms(3) this]] m show ?thesis by simp
  qed (simp add: vc)
  have mono: "deps_done (graph s) a \<Longrightarrow> deps_done m a" for a
    using cg deps_done_set_value by blast
  have "deps_done m (tc_relation t)" if "go" "5 \<le> tc_state t"
  proof -
    have "deps_done (graph s) (tc_relation ?t)"
      using thread_continue_done [of parse pack os "graph s" ?t m t] c that go dd [OF k assms(3)] by auto
    with mono thread_continue_step [OF c] show ?thesis by simp
  qed
  with vc' mono dd ts len g show ?thesis unfolding run_ordered_def by auto metis+
qed

lemma run_step_ordered:
  assumes "run_step nxt parse pack serialize z z'" "run_ordered z"
  shows "run_ordered z'"
  using assms
proof (induction rule: run_step.induct)
  case (turn k over s os go s')
  then show ?case using executor_turn_ordered by blast
next
  case (quit k s over)
  then show ?case by (auto simp: run_ordered_def)
next
  case (skipped s over)
  then show ?case by (simp add: run_ordered_def)
next
  case (start s s' over)
  then show ?case using same_run_ordered [OF start_run_same] by blast
next
  case (updated s s' over)
  then show ?case using same_run_ordered [OF handle_updated_same] by blast
next
  case (stopped s out s' over)
  then show ?case using same_run_ordered [OF handle_stopped_same] by blast
qed

text \<open>A sequence of turns of one started executor is a run.\<close>

fun turn_run ::
  "(string \<Rightarrow> 'j result) \<Rightarrow> ((string \<times> 'j) list \<Rightarrow> string) \<Rightarrow> thread_os list \<Rightarrow> nat \<Rightarrow> sched_env \<Rightarrow> sched_env result" where
  "turn_run parse pack [] k s = Inr s"
| "turn_run parse pack (os # oss) k s =
     rbind (executor_turn parse pack os k s) (\<lambda>(go, s'). if go then turn_run parse pack oss k s' else Inl NoReturn)"

lemma turn_run_steps:
  "turn_run parse pack oss k s = Inr s' \<Longrightarrow> k \<notin> over \<Longrightarrow> is_started (threads s ! k) \<Longrightarrow>
   (run_step nxt parse pack serialize)\<^sup>*\<^sup>* (s, over) (s', over)"
proof (induction oss arbitrary: s)
  case (Cons os oss)
  then obtain s1 where t: "executor_turn parse pack os k s = Inr (True, s1)" and r: "turn_run parse pack oss k s1 = Inr s'"
    by (auto elim!: rbind_InrE split: if_splits)
  have "is_started (threads s1 ! k)"
    using t
  proof (rule executor_turn_cases)
    fix b m t' assume c: "thread_continue parse pack os (graph s) (threads s ! k) = Inr (b, m, t')"
      and "True \<longrightarrow> threads s1 ! k = t'"
    with thread_continue_step [OF c] Cons.prems(3) show ?thesis by (simp add: is_started_def)
  qed
  with Cons.IH [OF r Cons.prems(2)] have "(run_step nxt parse pack serialize)\<^sup>*\<^sup>* (s1, over) (s', over)" by blast
  moreover have "run_step nxt parse pack serialize (s, over) (s1, if True then over else insert k over)"
    using Cons.prems(2,3) t by (intro run_step.turn) simp_all
  ultimately show ?case by (simp add: converse_rtranclp_into_rtranclp)
qed simp

text \<open>
  C23: the order of execution.  In a run of one controller without peers, whose executors are not
  yet started and whose relations have no values, whatever the interleaving of the executors'
  calls with the turns of the main loop, a relation has a value only when all its dependencies
  have values other than \<open>null\<close>: the executor that stored the value had found them all when it
  wrote the parameters, and none was taken away since.
\<close>
theorem local_run_order:
  assumes "(run_step nxt parse pack serialize)\<^sup>*\<^sup>* (s0, {}) (s, over)"
    "\<forall>a \<in> set (index (graph s0)). rel_value (rel_at (graph s0) a) = []"
    "\<forall>t \<in> set (threads s0). tc_state t = 0"
  shows "values_closed (graph s)"
proof -
  have "run_ordered (s0, {})" using assms(2,3) by (simp add: run_ordered_def values_closed_def)
  with assms(1) have "run_ordered (s, over)"
    by (induction rule: rtranclp_induct) (use run_step_ordered in blast)+
  then show ?thesis by (simp add: run_ordered_def)
qed

theorem local_run_order_witness:
  "\<exists>s over. (run_step (next_at_fuel 7) Inr (\<lambda>_. []) (\<lambda>_ _. []))\<^sup>*\<^sup>* (demo_env, {}) (s, over) \<and>
     rel_value (rel_at (graph s) 0) = ''{}'' \<and> values_closed (graph s)"
proof -
  let ?r = "turn_run Inr (\<lambda>_. []) (replicate 7 demo_os) 2 demo_env"
  have "(case ?r of Inr s \<Rightarrow> rel_value (rel_at (graph s) 0) = ''{}'' | _ \<Rightarrow> False)" by code_simp
  then obtain s where s: "?r = Inr s" and v: "rel_value (rel_at (graph s) 0) = ''{}''" by (auto split: sum.splits)
  have "is_started (threads demo_env ! 2)" by code_simp
  from turn_run_steps [OF s _ this, of "{}"]
  have r: "(run_step (next_at_fuel 7) Inr (\<lambda>_. []) (\<lambda>_ _. []))\<^sup>*\<^sup>* (demo_env, {}) (s, {})" by simp
  have "values_closed (graph s)"
  proof (rule local_run_order [OF r])
    show "\<forall>a \<in> set (index (graph demo_env)). rel_value (rel_at (graph demo_env) a) = []" by code_simp
    show "\<forall>t \<in> set (threads demo_env). tc_state t = 0" by code_simp
  qed
  with r v show ?thesis by blast
qed

end
