(* ===== verification/Subprocess.thy ===== *)
theory Subprocess
  imports ThreadControls
begin

text \<open>
  The other side of \<open>fork_exec\<close> (\<open>thread-controls.cpp\<close>): \<open>subprocess\<close>, which the child runs until it
  becomes the launcher, and the file descriptors of the controller and of its children while
  actions are started and ended.  A table gives for each descriptor the end of a pipe that it
  stands for, tagged with the action that the pipe was made for, and whether it is closed on exec.
\<close>

section \<open>File descriptors\<close>

datatype fend = DownRead nat | DownWrite nat | UpRead nat | UpWrite nat | Event nat | Elsewhere

type_synonym fdtab = "int \<Rightarrow> (fend \<times> bool) option"

text \<open>\<open>close\<close> and \<open>dup2\<close>; \<open>None\<close> is the error for a descriptor that is not open.\<close>

definition close_fd :: "int \<Rightarrow> fdtab \<Rightarrow> fdtab option" where
  "close_fd fd t = (if t fd = None then None else Some (t(fd := None)))"

definition dup2 :: "int \<Rightarrow> int \<Rightarrow> fdtab \<Rightarrow> fdtab option" where
  "dup2 a b t = (case t a of None \<Rightarrow> None | Some (f, _) \<Rightarrow> Some (if a = b then t else t(b \<mapsto> (f, False))))"

definition exec_fds :: "fdtab \<Rightarrow> fdtab" where
  "exec_fds t = (\<lambda>fd. case t fd of None \<Rightarrow> None | Some (f, cloexec) \<Rightarrow> if cloexec then None else Some (f, cloexec))"

definition or_fail :: "string \<Rightarrow> 'a option \<Rightarrow> 'a result" where
  "or_fail msg r = (case r of None \<Rightarrow> Inl (Thrown msg) | Some x \<Rightarrow> Inr x)"

section \<open>The child\<close>

text \<open>\<open>ch_signals\<close>: the calls that unblock \<open>SIGTERM\<close> succeed; \<open>ch_exec\<close>: \<open>execve\<close> does not return.\<close>

record child_os =
  ch_signals :: bool
  ch_setpgid :: bool
  ch_writes :: "write_ret list"
  ch_bin :: "string option"
  ch_setenv :: "string \<Rightarrow> bool"
  ch_exec :: bool

fun write_notice :: "write_ret list \<Rightarrow> nat \<Rightarrow> unit result" where
  "write_notice [] bytes_written = Inl NoReturn"
| "write_notice (WriteNone e # rs) bytes_written =
     (if e = EINTR then (if bytes_written < 8 then write_notice rs bytes_written else Inr ()) else what)"
| "write_notice (WriteLen n # rs) bytes_written =
     (if bytes_written < 8 then
        (if bytes_written + n < 8 then write_notice rs (bytes_written + n) else Inr ())
      else Inr ())"

record launched =
  ln_bin :: string
  ln_argv :: "string list"
  ln_env :: "string \<Rightarrow> string option"
  ln_fds :: fdtab

text \<open>A variable that cannot be exported is only reported.\<close>

fun export_env :: "(string \<Rightarrow> bool) \<Rightarrow> (string \<times> string) list \<Rightarrow> (string \<Rightarrow> string option) \<Rightarrow> (string \<Rightarrow> string option)" where
  "export_env ok [] genv = genv"
| "export_env ok ((k, v) # kvs) genv = export_env ok kvs (if ok k then genv(k \<mapsto> v) else genv)"

text \<open>The descriptors of one start: the two pipes and the event.\<close>

record start_fds =
  sf_down :: "int \<times> int"
  sf_up :: "int \<times> int"
  sf_efd :: int

definition child_fds :: "start_fds \<Rightarrow> fdtab \<Rightarrow> fdtab result" where
  "child_fds fs t =
     rbind (or_fail ''what?'' (close_fd (sf_efd fs) t)) (\<lambda>t1.
     rbind (or_fail ''This shouldn't happen.'' (close_fd (snd (sf_down fs)) t1)) (\<lambda>t2.
     rbind (or_fail ''This shouldn't happen.'' (close_fd (fst (sf_up fs)) t2)) (\<lambda>t3.
     rbind (or_fail ''This shouldn't happen.'' (dup2 (fst (sf_down fs)) 0 t3)) (\<lambda>t4.
       or_fail ''This shouldn't happen.'' (dup2 (snd (sf_up fs)) 3 t4)))))"

text \<open>The launcher, or \<open>None\<close> when \<open>execve\<close> returned and the child exits with status 1.\<close>

definition subprocess ::
  "child_os \<Rightarrow> start_fds \<Rightarrow> string list \<Rightarrow> (string \<times> string) list \<Rightarrow> (string \<Rightarrow> string option) \<Rightarrow> fdtab \<Rightarrow> launched option result" where
  "subprocess os fs argv env genv t =
     (if \<not> ch_signals os \<or> \<not> ch_setpgid os then what
      else rbind (write_notice (ch_writes os) 0) (\<lambda>_.
        rbind (child_fds fs t) (\<lambda>t1.
          case ch_bin os of None \<Rightarrow> what | Some bin \<Rightarrow>
            Inr (if ch_exec os then Some \<lparr>ln_bin = bin, ln_argv = argv, ln_env = export_env (ch_setenv os) env genv, ln_fds = exec_fds t1\<rparr>
                 else None))))"

section \<open>The controller's side\<close>

text \<open>The pipes and the event; the pipes survive an exec, the event does not.\<close>

definition open_pipes :: "nat \<Rightarrow> start_fds \<Rightarrow> fdtab \<Rightarrow> fdtab" where
  "open_pipes k fs t = t(fst (sf_down fs) \<mapsto> (DownRead k, False), snd (sf_down fs) \<mapsto> (DownWrite k, False),
     fst (sf_up fs) \<mapsto> (UpRead k, False), snd (sf_up fs) \<mapsto> (UpWrite k, False), sf_efd fs \<mapsto> (Event k, True))"

definition fresh_fds :: "start_fds \<Rightarrow> fdtab \<Rightarrow> bool" where
  "fresh_fds fs t \<longleftrightarrow> distinct [fst (sf_down fs), snd (sf_down fs), fst (sf_up fs), snd (sf_up fs), sf_efd fs] \<and>
     list_all (\<lambda>fd. t fd = None) [fst (sf_down fs), snd (sf_down fs), fst (sf_up fs), snd (sf_up fs), sf_efd fs]"

text \<open>What \<open>fork_exec\<close> closes when the child has given its notice.\<close>

definition parent_fds :: "start_fds \<Rightarrow> fdtab \<Rightarrow> fdtab result" where
  "parent_fds fs t =
     rbind (or_fail ''what?'' (close_fd (sf_efd fs) t)) (\<lambda>t1.
     rbind (or_fail ''this shouldn't happen.'' (close_fd (fst (sf_down fs)) t1)) (\<lambda>t2.
       or_fail ''this shouldn't happen.'' (close_fd (snd (sf_up fs)) t2)))"

text \<open>The controller, the starts under way, and the children that run.\<close>

record procs =
  ps_parent :: fdtab
  ps_starts :: "(nat \<times> start_fds) list"
  ps_children :: "nat \<Rightarrow> fdtab option"

definition holds :: "fend \<Rightarrow> fdtab \<Rightarrow> bool" where
  "holds e t \<longleftrightarrow> (\<exists>fd c. t fd = Some (e, c))"

inductive proc_step :: "procs \<Rightarrow> procs \<Rightarrow> bool" where
  pipes: "fresh_fds fs (ps_parent s) \<Longrightarrow> \<forall>e \<in> {DownRead k, DownWrite k, UpRead k, UpWrite k, Event k}. \<not> holds e (ps_parent s) \<Longrightarrow>
    ps_children s k = None \<Longrightarrow> k \<notin> fst ` set (ps_starts s) \<Longrightarrow>
    proc_step s (s\<lparr>ps_parent := open_pipes k fs (ps_parent s), ps_starts := ps_starts s @ [(k, fs)]\<rparr>)"
| fork: "(k, fs) \<in> set (ps_starts s) \<Longrightarrow> ps_children s k = None \<Longrightarrow>
    subprocess os fs argv env genv (ps_parent s) = Inr (Some l) \<Longrightarrow>
    proc_step s (s\<lparr>ps_children := (ps_children s)(k \<mapsto> ln_fds l)\<rparr>)"
| started: "(k, fs) \<in> set (ps_starts s) \<Longrightarrow> parent_fds fs (ps_parent s) = Inr t \<Longrightarrow>
    proc_step s (s\<lparr>ps_parent := t, ps_starts := remove1 (k, fs) (ps_starts s)\<rparr>)"
| close: "close_fd fd (ps_parent s) = Some t \<Longrightarrow> ps_parent s fd \<in> {Some (UpRead k, False), Some (DownWrite k, False)} \<Longrightarrow>
    k \<notin> fst ` set (ps_starts s) \<Longrightarrow> proc_step s (s\<lparr>ps_parent := t\<rparr>)"
| exit: "proc_step s (s\<lparr>ps_children := (ps_children s)(k := None)\<rparr>)"

text \<open>Starts one after the other: no pipes are made while a start is under way.\<close>

definition one_start :: "procs \<Rightarrow> procs \<Rightarrow> bool" where
  "one_start s s' \<longleftrightarrow> proc_step s s' \<and> length (ps_starts s') \<le> 1"

definition no_procs :: procs where
  "no_procs = \<lparr>ps_parent = (\<lambda>fd. if 0 \<le> fd \<and> fd \<le> 2 then Some (Elsewhere, False) else None), ps_starts = [], ps_children = (\<lambda>_. None)\<rparr>"

section \<open>The wiring of the child\<close>

lemma or_fail_simps [simp]: "or_fail msg None = Inl (Thrown msg)" "or_fail msg (Some x) = Inr x"
  by (simp_all add: or_fail_def)

lemma or_fail_Inr: "or_fail msg r = Inr x \<longleftrightarrow> r = Some x"
  by (cases r) simp_all

lemma close_fd_open: "t fd = Some x \<Longrightarrow> close_fd fd t = Some (t(fd := None))"
  by (simp add: close_fd_def)

text \<open>What the child keeps of its own two pipes, before it moves them to 0 and 3.\<close>

definition own_ends :: "nat \<Rightarrow> start_fds \<Rightarrow> fdtab \<Rightarrow> fdtab" where
  "own_ends k fs t = t(fst (sf_down fs) \<mapsto> (DownRead k, False), snd (sf_up fs) \<mapsto> (UpWrite k, False))"

definition wired :: "nat \<Rightarrow> start_fds \<Rightarrow> fdtab \<Rightarrow> fdtab" where
  "wired k fs t = (own_ends k fs t)(0 \<mapsto> (DownRead k, False), 3 \<mapsto> (UpWrite k, False))"

lemma child_fds_wired:
  assumes "fresh_fds fs t" "snd (sf_up fs) \<noteq> 0"
  shows "child_fds fs (open_pipes k fs t) = Inr (wired k fs t)"
proof -
  obtain d0 d1 u0 u1 e where fs: "fs = \<lparr>sf_down = (d0, d1), sf_up = (u0, u1), sf_efd = e\<rparr>"
    by (cases fs) auto
  from assms(1) have dist: "distinct [d0, d1, u0, u1, e]" and free: "t d0 = None" "t d1 = None" "t u0 = None" "t u1 = None" "t e = None"
    by (simp_all add: fresh_fds_def fs)
  have "(open_pipes k fs t)(e := None, d1 := None, u0 := None) = own_ends k fs t"
    using dist free by (auto simp: fs open_pipes_def own_ends_def fun_eq_iff)
  moreover have "close_fd e (open_pipes k fs t) = Some ((open_pipes k fs t)(e := None))"
    "close_fd d1 ((open_pipes k fs t)(e := None)) = Some ((open_pipes k fs t)(e := None, d1 := None))"
    "close_fd u0 ((open_pipes k fs t)(e := None, d1 := None)) = Some ((open_pipes k fs t)(e := None, d1 := None, u0 := None))"
    using dist by (auto simp: close_fd_def fs open_pipes_def)
  moreover have "dup2 d0 0 (own_ends k fs t) = Some ((own_ends k fs t)(0 \<mapsto> (DownRead k, False)))"
    using dist by (auto simp: dup2_def fs own_ends_def fun_eq_iff)
  moreover have "dup2 u1 3 ((own_ends k fs t)(0 \<mapsto> (DownRead k, False))) = Some (wired k fs t)"
    using dist assms(2) by (auto simp: dup2_def fs own_ends_def wired_def fun_eq_iff)
  ultimately show ?thesis by (simp add: child_fds_def fs)
qed

lemma subprocess_parts:
  assumes "subprocess os fs argv env genv t = Inr (Some l)"
  obtains t1 bin where "child_fds fs t = Inr t1" "ch_bin os = Some bin" "ln_fds l = exec_fds t1" "ln_argv l = argv"
    "ln_bin l = bin" "ln_env l = export_env (ch_setenv os) env genv"
  using assms by (auto simp: subprocess_def rbind_Inr_iff split: if_splits option.splits)

lemma exec_fds_Some: "exec_fds t fd = Some x \<longleftrightarrow> t fd = Some x \<and> \<not> snd x"
  by (auto simp: exec_fds_def split: option.split)

text \<open>
  C28: the wiring of a launcher.  When the descriptors that the system gave for the two pipes and
  the event were free, and the write end of the upstream pipe is not descriptor 0, a launcher that
  starts reads its parameters at descriptor 0 and writes its result to descriptor 3; it has no end
  of its pipes that belongs to the controller and not the event; whatever else it has, the
  controller had open before.
\<close>
theorem child_wired:
  assumes "fresh_fds fs t" "snd (sf_up fs) \<noteq> 0" "\<forall>e \<in> {DownRead k, DownWrite k, UpRead k, UpWrite k, Event k}. \<not> holds e t"
    "subprocess os fs argv env genv (open_pipes k fs t) = Inr (Some l)"
  shows "ln_fds l 0 = Some (DownRead k, False) \<and> ln_fds l 3 = Some (UpWrite k, False) \<and>
    \<not> holds (DownWrite k) (ln_fds l) \<and> \<not> holds (UpRead k) (ln_fds l) \<and> \<not> holds (Event k) (ln_fds l) \<and>
    (\<forall>e. holds e (ln_fds l) \<longrightarrow> e = DownRead k \<or> e = UpWrite k \<or> holds e t)"
proof -
  have l: "ln_fds l = exec_fds (wired k fs t)"
    using assms(4) child_fds_wired [OF assms(1,2)] by (auto elim: subprocess_parts)
  have h: "e = DownRead k \<or> e = UpWrite k \<or> holds e t" if "holds e (ln_fds l)" for e
    using that by (auto simp: l holds_def exec_fds_Some wired_def own_ends_def split: if_splits)
  have "ln_fds l 0 = Some (DownRead k, False)" "ln_fds l 3 = Some (UpWrite k, False)"
    by (simp_all add: l exec_fds_def wired_def)
  moreover have "\<not> holds e (ln_fds l)" if "e \<in> {DownWrite k, UpRead k, Event k}" for e
    using h [of e] that assms(3) by auto
  ultimately show ?thesis using h by simp
qed

definition demo_start_fds :: "int \<Rightarrow> start_fds" where
  "demo_start_fds n = \<lparr>sf_down = (n, n + 1), sf_up = (n + 2, n + 3), sf_efd = n + 4\<rparr>"

definition demo_child :: child_os where
  "demo_child = \<lparr>ch_signals = True, ch_setpgid = True, ch_writes = [WriteLen 8], ch_bin = Some ''/bin/lua'', ch_setenv = (\<lambda>_. True), ch_exec = True\<rparr>"

lemma demo_child_runs:
  assumes "child_fds fs t = Inr t1"
  shows "subprocess demo_child fs [] [] (\<lambda>_. None) t = Inr (Some \<lparr>ln_bin = ''/bin/lua'', ln_argv = [], ln_env = (\<lambda>_. None), ln_fds = exec_fds t1\<rparr>)"
  using assms by (simp add: subprocess_def demo_child_def)

lemma no_procs_fresh: "3 \<le> n \<Longrightarrow> fresh_fds (demo_start_fds n) (ps_parent no_procs)" "e \<noteq> Elsewhere \<Longrightarrow> \<not> holds e (ps_parent no_procs)"
  by (auto simp: fresh_fds_def demo_start_fds_def no_procs_def holds_def)

theorem child_wired_witness:
  "\<exists>l. subprocess demo_child (demo_start_fds 3) [] [] (\<lambda>_. None) (open_pipes 7 (demo_start_fds 3) (ps_parent no_procs)) = Inr (Some l) \<and>
     ln_fds l 0 = Some (DownRead 7, False) \<and> ln_fds l 3 = Some (UpWrite 7, False)"
proof -
  have u: "snd (sf_up (demo_start_fds 3)) \<noteq> 0" by (simp add: demo_start_fds_def)
  note f = no_procs_fresh(1) [of 3]
  from demo_child_runs [OF child_fds_wired [OF f u]] obtain l where
    l: "subprocess demo_child (demo_start_fds 3) [] [] (\<lambda>_. None) (open_pipes 7 (demo_start_fds 3) (ps_parent no_procs)) = Inr (Some l)" by auto
  from child_wired [OF f u _ l] no_procs_fresh(2) show ?thesis by (intro exI [of _ l]) (simp add: l)
qed

section \<open>Who can write a result\<close>

definition start_ok :: "fdtab \<Rightarrow> nat \<Rightarrow> start_fds \<Rightarrow> bool" where
  "start_ok t k fs \<longleftrightarrow> t (fst (sf_down fs)) = Some (DownRead k, False) \<and> t (snd (sf_down fs)) = Some (DownWrite k, False) \<and>
     t (fst (sf_up fs)) = Some (UpRead k, False) \<and> t (snd (sf_up fs)) = Some (UpWrite k, False) \<and> t (sf_efd fs) = Some (Event k, True)"

definition procs_ok :: "procs \<Rightarrow> bool" where
  "procs_ok s \<longleftrightarrow> length (ps_starts s) \<le> 1 \<and> (\<forall>(k, fs) \<in> set (ps_starts s). start_ok (ps_parent s) k fs) \<and>
     (\<forall>fd c k. ps_parent s fd = Some (UpWrite k, c) \<longrightarrow> (\<exists>fs. (k, fs) \<in> set (ps_starts s) \<and> fd = snd (sf_up fs))) \<and>
     ps_parent s 0 = Some (Elsewhere, False) \<and>
     (\<forall>j t k. ps_children s j = Some t \<longrightarrow> holds (UpWrite k) t \<longrightarrow> k = j)"

lemma start_ok_distinct:
  "start_ok t k fs \<Longrightarrow> distinct [fst (sf_down fs), snd (sf_down fs), fst (sf_up fs), snd (sf_up fs), sf_efd fs]"
  by (auto simp: start_ok_def)

text \<open>A table with a start under way is one to which the pipes were added.\<close>

definition without_start :: "start_fds \<Rightarrow> fdtab \<Rightarrow> fdtab" where
  "without_start fs t = t(fst (sf_down fs) := None, snd (sf_down fs) := None, fst (sf_up fs) := None,
     snd (sf_up fs) := None, sf_efd fs := None)"

lemma start_ok_open:
  assumes "start_ok t k fs"
  shows "open_pipes k fs (without_start fs t) = t" "fresh_fds fs (without_start fs t)"
  using start_ok_distinct [OF assms] assms
  by (auto simp: start_ok_def open_pipes_def without_start_def fresh_fds_def fun_eq_iff)

lemma forked_child:
  assumes "start_ok t k fs" "t 0 = Some (Elsewhere, False)" "subprocess os fs argv env genv t = Inr (Some l)" "holds (UpWrite j) (ln_fds l)"
  shows "j = k \<or> (\<exists>fd c. t fd = Some (UpWrite j, c) \<and> fd \<noteq> snd (sf_up fs))"
proof -
  have u: "snd (sf_up fs) \<noteq> 0" using assms(1,2) by (auto simp: start_ok_def)
  from assms(3) child_fds_wired [OF start_ok_open(2) [OF assms(1)] u, of k]
  have "ln_fds l = exec_fds (wired k fs (without_start fs t))"
    by (auto simp: start_ok_open(1) [OF assms(1)] elim: subprocess_parts)
  with assms(4) show ?thesis
    by (auto simp: holds_def exec_fds_Some wired_def own_ends_def without_start_def split: if_split_asm)
qed

lemma procs_ok_step:
  assumes "proc_step s s'" "length (ps_starts s') \<le> 1" "procs_ok s"
  shows "procs_ok s'"
  using assms
proof (induction rule: proc_step.induct)
  case (pipes fs s k)
  then have e: "ps_starts s = []" by simp
  from pipes(1) have "distinct [fst (sf_down fs), snd (sf_down fs), fst (sf_up fs), snd (sf_up fs), sf_efd fs]"
    by (simp add: fresh_fds_def)
  then have "start_ok (open_pipes k fs (ps_parent s)) k fs" by (auto simp: start_ok_def open_pipes_def)
  moreover have "open_pipes k fs (ps_parent s) 0 = Some (Elsewhere, False)"
    using pipes(1,6) by (auto simp: procs_ok_def fresh_fds_def open_pipes_def)
  moreover have "fd = snd (sf_up fs) \<and> j = k" if "open_pipes k fs (ps_parent s) fd = Some (UpWrite j, c)" for fd j c
    using that e pipes(6) by (auto simp: procs_ok_def open_pipes_def split: if_split_asm)
  ultimately show ?case using e pipes(6) by (auto simp: procs_ok_def)
next
  case (fork k fs s os argv env genv l)
  then have ok: "start_ok (ps_parent s) k fs" "ps_parent s 0 = Some (Elsewhere, False)" by (auto simp: procs_ok_def)
  from fork(1,5) have one: "ps_starts s = [(k, fs)]" by (cases "ps_starts s") (auto simp: procs_ok_def)
  have "j = k" if "holds (UpWrite j) (ln_fds l)" for j
    using forked_child [OF ok fork(3) that] fork(5) one by (auto simp: procs_ok_def)
  with fork show ?case by (auto simp: procs_ok_def)
next
  case (started k fs s t)
  then have ok: "start_ok (ps_parent s) k fs" "ps_parent s 0 = Some (Elsewhere, False)" by (auto simp: procs_ok_def)
  from started(1,4) have one: "ps_starts s = [(k, fs)]" by (cases "ps_starts s") (auto simp: procs_ok_def)
  from started(2) have t: "t = (ps_parent s)(sf_efd fs := None, fst (sf_down fs) := None, snd (sf_up fs) := None)"
    by (auto simp: parent_fds_def rbind_Inr_iff or_fail_Inr close_fd_def split: if_split_asm)
  have "t 0 = Some (Elsewhere, False)" using ok by (auto simp: t start_ok_def)
  moreover have "t fd \<noteq> Some (UpWrite j, c)" for fd j c
    using started(4) one by (auto simp: procs_ok_def t)
  ultimately show ?case using started(4) one by (auto simp: procs_ok_def)
next
  case (close fd s t k)
  then have t: "t = (ps_parent s)(fd := None)" by (auto simp: close_fd_def split: if_split_asm)
  have "start_ok t j fs" if "(j, fs) \<in> set (ps_starts s)" for j fs
  proof -
    from that close(3,5) have "j \<noteq> k" "start_ok (ps_parent s) j fs" by (force simp: procs_ok_def)+
    with close(2) show ?thesis by (auto simp: start_ok_def t)
  qed
  moreover have "t 0 = Some (Elsewhere, False)" using close(2,5) by (auto simp: procs_ok_def t)
  ultimately show ?case using close(5) by (auto simp: procs_ok_def t)
next
  case (exit s k)
  then show ?case by (auto simp: procs_ok_def)
qed

text \<open>
  C21: the end of a result.  When actions are started one after the other, then once a start is
  done and its launcher has ended, no process has the write end of its upstream pipe open any more,
  neither the controller nor any other launcher; so the controller's read loop comes to the end of
  the result.
\<close>
theorem result_ends:
  assumes "one_start\<^sup>*\<^sup>* no_procs s" "j \<notin> fst ` set (ps_starts s)" "ps_children s j = None"
  shows "\<not> holds (UpWrite j) (ps_parent s) \<and> (\<forall>k t. ps_children s k = Some t \<longrightarrow> \<not> holds (UpWrite j) t)"
proof -
  have "procs_ok no_procs" by (auto simp: procs_ok_def no_procs_def)
  with assms(1) have "procs_ok s"
    by (induction rule: rtranclp_induct) (auto simp: one_start_def intro: procs_ok_step)
  then have parent: "\<And>fd c k. ps_parent s fd = Some (UpWrite k, c) \<Longrightarrow> \<exists>fs. (k, fs) \<in> set (ps_starts s)"
    and children: "\<And>k t i. ps_children s k = Some t \<Longrightarrow> holds (UpWrite i) t \<Longrightarrow> i = k" unfolding procs_ok_def by blast+
  have "\<not> holds (UpWrite j) (ps_parent s)"
  proof
    assume "holds (UpWrite j) (ps_parent s)"
    then obtain fs where "(j, fs) \<in> set (ps_starts s)" using parent unfolding holds_def by blast
    with assms(2) show False by (metis fst_conv image_eqI)
  qed
  with children assms(3) show ?thesis by (metis option.distinct(1))
qed

text \<open>One action started by itself: pipes, fork, and the end of its start.\<close>

lemma start_alone:
  assumes "fresh_fds fs t" "snd (sf_up fs) \<noteq> 0"
  shows "parent_fds fs (open_pipes k fs t) = Inr (t(snd (sf_down fs) \<mapsto> (DownWrite k, False), fst (sf_up fs) \<mapsto> (UpRead k, False)))"
  using assms
  by (auto simp: parent_fds_def fresh_fds_def open_pipes_def close_fd_def or_fail_def fun_eq_iff)

theorem result_ends_witness:
  "\<exists>s. one_start\<^sup>*\<^sup>* no_procs s \<and> ps_parent s 5 = Some (UpRead 7, False) \<and> \<not> holds (UpWrite 7) (ps_parent s) \<and>
     (\<forall>k t. ps_children s k \<noteq> Some t \<or> \<not> holds (UpWrite 7) t)"
proof -
  let ?f = "demo_start_fds 3" let ?t = "ps_parent no_procs"
  let ?p = "open_pipes 7 ?f ?t"
  let ?t1 = "?t(4 \<mapsto> (DownWrite 7, False), 5 \<mapsto> (UpRead 7, False))"
  let ?s1 = "no_procs\<lparr>ps_parent := ?p, ps_starts := [(7, ?f)]\<rparr>"
  let ?s2 = "?s1\<lparr>ps_parent := ?t1, ps_starts := []\<rparr>"
  note fresh = no_procs_fresh(1) [of 3]
  have "proc_step no_procs ?s1"
    using pipes [of ?f no_procs 7] fresh no_procs_fresh(2) by (simp add: no_procs_def)
  moreover have "parent_fds ?f ?p = Inr ?t1"
    using start_alone [OF fresh, of 7] by (simp add: demo_start_fds_def)
  then have "proc_step ?s1 ?s2" using started [of 7 ?f ?s1 ?t1] by simp
  ultimately have r: "one_start\<^sup>*\<^sup>* no_procs ?s2"
    by (intro converse_rtranclp_into_rtranclp [of one_start no_procs ?s1 ?s2] r_into_rtranclp) (simp_all add: one_start_def)
  have "7 \<notin> fst ` set (ps_starts ?s2)" "ps_children ?s2 7 = None" by (simp_all add: no_procs_def)
  from result_ends [OF r this] r show ?thesis by (intro exI [of _ ?s2]) auto
qed

text \<open>
  Two starts at once.  The pipes are not closed on exec, so when the pipes of two actions are
  made before either is forked, the second launcher keeps the write end of the first one's upstream
  pipe: there is a run after which both starts are done and the first launcher has ended, but the
  controller does not see the end of its result because the second one still runs.
\<close>
theorem overlapping_starts:
  "\<exists>s t. proc_step\<^sup>*\<^sup>* no_procs s \<and> ps_starts s = [] \<and> ps_children s 1 = None \<and> ps_children s 2 = Some t \<and> holds (UpWrite 1) t"
proof -
  let ?f = "demo_start_fds 3" and ?g = "demo_start_fds 8" let ?t = "ps_parent no_procs"
  let ?p1 = "open_pipes 1 ?f ?t" let ?p2 = "open_pipes 2 ?g ?p1"
  let ?s1 = "no_procs\<lparr>ps_parent := ?p1, ps_starts := [(1, ?f)]\<rparr>"
  let ?s2 = "?s1\<lparr>ps_parent := ?p2, ps_starts := [(1, ?f), (2, ?g)]\<rparr>"
  have fresh2: "fresh_fds ?g ?p1" by (auto simp: fresh_fds_def demo_start_fds_def open_pipes_def no_procs_def)
  have s1: "proc_step no_procs ?s1"
    using pipes [of ?f no_procs 1] no_procs_fresh by (simp add: no_procs_def)
  have h: "\<forall>e \<in> {DownRead 2, DownWrite 2, UpRead 2, UpWrite 2, Event 2}. \<not> holds e (ps_parent ?s1)"
    by (auto simp: holds_def open_pipes_def no_procs_def split: if_split_asm)
  have s2: "proc_step ?s1 ?s2"
    using pipes [of ?g ?s1 2] fresh2 h by (simp add: no_procs_def)
  have ok: "start_ok ?p2 1 ?f" by (simp add: start_ok_def open_pipes_def demo_start_fds_def)
  have u: "snd (sf_up ?f) \<noteq> 0" by (simp add: demo_start_fds_def)
  obtain l1 where l1: "subprocess demo_child ?f [] [] (\<lambda>_. None) ?p2 = Inr (Some l1)"
    using demo_child_runs [OF child_fds_wired [OF start_ok_open(2) [OF ok] u, of 1, unfolded start_ok_open(1) [OF ok]]] by blast
  obtain l2 where l2: "subprocess demo_child ?g [] [] (\<lambda>_. None) ?p2 = Inr (Some l2)" and t2: "ln_fds l2 = exec_fds (wired 2 ?g ?p1)"
    using demo_child_runs [OF child_fds_wired [OF fresh2, of 2]] by (auto simp: demo_start_fds_def)
  let ?s4 = "?s2\<lparr>ps_children := (\<lambda>_. None)(1 \<mapsto> ln_fds l1, 2 \<mapsto> ln_fds l2)\<rparr>"
  have s3: "proc_step ?s2 (?s2\<lparr>ps_children := (\<lambda>_. None)(1 \<mapsto> ln_fds l1)\<rparr>)" (is "proc_step _ ?s3")
    using fork [of 1 ?f ?s2 _ _ _ _ l1] l1 by (simp add: no_procs_def)
  have s4: "proc_step ?s3 ?s4"
    using fork [of 2 ?g ?s3 _ _ _ _ l2] l2 by simp
  let ?t5 = "?p2(7 := None, 3 := None, 6 := None)" let ?t6 = "?t5(12 := None, 8 := None, 11 := None)"
  let ?s5 = "?s4\<lparr>ps_parent := ?t5, ps_starts := [(2, ?g)]\<rparr>"
  have s5: "proc_step ?s4 ?s5"
    using started [of 1 ?f ?s4 ?t5] by (simp add: parent_fds_def close_fd_def demo_start_fds_def open_pipes_def)
  let ?s6 = "?s5\<lparr>ps_parent := ?t6, ps_starts := []\<rparr>"
  have s6: "proc_step ?s5 ?s6"
    using started [of 2 ?g ?s5 ?t6] by (simp add: parent_fds_def close_fd_def demo_start_fds_def open_pipes_def)
  let ?s7 = "?s6\<lparr>ps_children := (ps_children ?s6)(1 := None)\<rparr>"
  have s7: "proc_step ?s6 ?s7" by (rule exit)
  have "ln_fds l2 6 = Some (UpWrite 1, False)"
    by (simp add: t2 exec_fds_def wired_def own_ends_def open_pipes_def demo_start_fds_def)
  then have "holds (UpWrite 1) (ln_fds l2)" by (auto simp: holds_def)
  moreover have "proc_step\<^sup>*\<^sup>* no_procs ?s7"
    using s1 s2 s3 s4 s5 s6 s7 by (meson converse_rtranclp_into_rtranclp rtranclp.rtrancl_refl)
  ultimately show ?thesis by (intro exI [of _ ?s7] exI [of _ "ln_fds l2"]) simp
qed

end
