(* ===== verification/Curl.thy ===== *)
theory Curl
  imports Scheduler "HOL-Library.Signed_Division"
begin

text \<open>
  The requests to the platform's API (\<open>controller-app.cpp\<close>): \<open>CurlMultiHandle\<close>, which shares one
  multi handle of libcurl between threads, the options of the easy handles, and
  \<open>make_api_requests\<close> with its reuse of finished handles.  libcurl is a parameter: the status that
  each call returns is given, and the calls made are recorded in order.  An easy handle is a number,
  the position of its options in \<open>cm_store\<close>; a null pointer is \<open>None\<close>.
\<close>

section \<open>The multi handle\<close>

datatype curl_code = CURLM_OK | CURLM_BAD_EASY_HANDLE | CURLM_FAILED

datatype curl_call = PollBegin | PollEnd | Wakeup | AddHandle nat | Perform | InfoRead | RemoveHandle nat
  | EasyCleanup nat | MultiCleanup

record easy_handle =
  eh_json :: bool
  eh_user :: string
  eh_password :: string
  eh_http2 :: bool
  eh_post :: bool
  eh_agent :: string
  eh_null :: bool
  eh_url :: string
  eh_size :: nat
  eh_body :: string

definition easy_init :: easy_handle where
  "easy_init = \<lparr>eh_json = False, eh_user = [], eh_password = [], eh_http2 = False, eh_post = False, eh_agent = [],
     eh_null = False, eh_url = [], eh_size = 0, eh_body = []\<rparr>"

record curl_multi =
  cm_store :: "easy_handle list"
  cm_easy :: "nat list"
  cm_polling :: nat
  cm_calls :: "curl_call list"

text \<open>Whether the library, the null device and the multi handle could be initialised.\<close>

definition new_multi :: "bool \<Rightarrow> bool \<Rightarrow> bool \<Rightarrow> curl_multi result" where
  "new_multi global_ok null_ok multi_ok =
     (if \<not> global_ok \<or> \<not> null_ok \<or> \<not> multi_ok then what
      else Inr \<lparr>cm_store = [], cm_easy = [], cm_polling = 0, cm_calls = []\<rparr>)"

definition call :: "curl_call \<Rightarrow> curl_multi \<Rightarrow> curl_multi" where
  "call x m = m\<lparr>cm_calls := cm_calls m @ [x]\<rparr>"

text \<open>A thread in \<open>curl_multi_poll\<close> is woken before another one uses the handle.\<close>

definition wake_poller :: "curl_code \<Rightarrow> curl_multi \<Rightarrow> curl_multi result" where
  "wake_poller w m =
     (if 0 < cm_polling m then (case w of CURLM_OK \<Rightarrow> Inr (call Wakeup m) | _ \<Rightarrow> what) else Inr m)"

definition add_handle :: "curl_code \<Rightarrow> nat \<Rightarrow> curl_multi \<Rightarrow> curl_multi result" where
  "add_handle w h m = rbind (wake_poller w m) (\<lambda>m1.
     Inr (call (AddHandle h) (if h \<in> set (cm_easy m1) then m1 else m1\<lparr>cm_easy := cm_easy m1 @ [h]\<rparr>)))"

definition perform :: "curl_code \<Rightarrow> curl_multi \<Rightarrow> curl_multi result" where
  "perform w m = rbind (wake_poller w m) (\<lambda>m1. Inr (call Perform m1))"

definition info_read :: "curl_code \<Rightarrow> curl_multi \<Rightarrow> curl_multi result" where
  "info_read w m = rbind (wake_poller w m) (\<lambda>m1. Inr (call InfoRead m1))"

definition remove_handle :: "curl_code \<Rightarrow> nat \<Rightarrow> curl_multi \<Rightarrow> curl_multi result" where
  "remove_handle w h m = rbind (wake_poller w m) (\<lambda>m1.
     Inr (call (RemoveHandle h) (m1\<lparr>cm_easy := remove1 h (cm_easy m1)\<rparr>)))"

text \<open>
  \<open>poll\<close> before and after \<open>curl_multi_poll\<close>, which runs without the lock; only one thread polls,
  the others sleep for the time that they were given, and an interrupted sleep is resumed.
\<close>

definition poll_enter :: "curl_multi \<Rightarrow> bool \<times> curl_multi" where
  "poll_enter m = (if cm_polling m = 0 then (True, call PollBegin (m\<lparr>cm_polling := cm_polling m + 1\<rparr>)) else (False, m))"

definition poll_leave :: "curl_multi \<Rightarrow> curl_multi" where
  "poll_leave m = call PollEnd (m\<lparr>cm_polling := cm_polling m - 1\<rparr>)"

definition sleep_time :: "int \<Rightarrow> int \<times> int" where
  "sleep_time timeout_ms = (timeout_ms sdiv 1000, timeout_ms smod 1000 * 1000000)"

fun sleep_loop :: "(call_ret \<times> int \<times> int) list \<Rightarrow> int \<times> int \<Rightarrow> (int \<times> int) list result" where
  "sleep_loop [] ts = Inl NoReturn"
| "sleep_loop ((CallOk, rest) # rs) ts = Inr [ts]"
| "sleep_loop ((CallErr e, rest) # rs) ts =
     (if e = EINTR then rbind (sleep_loop rs rest) (\<lambda>tss. Inr (ts # tss)) else what)"

text \<open>The destructor; \<open>st\<close> tells how libcurl answers the removal of a handle.\<close>

fun destroy_loop :: "(nat \<Rightarrow> curl_code) \<Rightarrow> nat list \<Rightarrow> curl_multi \<Rightarrow> curl_multi" where
  "destroy_loop st [] m = m"
| "destroy_loop st (h # hs) m =
     (let m1 = call (RemoveHandle h) m
      in destroy_loop st hs (if st h = CURLM_OK then call (EasyCleanup h) m1 else m1))"

definition destroy_multi :: "(nat \<Rightarrow> curl_code) \<Rightarrow> curl_multi \<Rightarrow> curl_multi" where
  "destroy_multi st m = call MultiCleanup (destroy_loop st (cm_easy m) m)"

section \<open>The requests\<close>

text \<open>\<open>ok\<close> says that libcurl accepts every option that the function sets.\<close>

definition set_common_curl_handle_options :: "bool \<Rightarrow> string \<Rightarrow> easy_handle \<Rightarrow> easy_handle result" where
  "set_common_curl_handle_options ok key eh =
     (case find_char CHR '':'' key of
        None \<Rightarrow> what
      | Some p \<Rightarrow> if ok then Inr (eh\<lparr>eh_json := True, eh_user := take p key, eh_password := drop (Suc p) key,
            eh_http2 := True, eh_post := True, eh_agent := ''curl/7.88.1'', eh_null := True\<rparr>) else what)"

definition set_curl_handle_options :: "bool \<Rightarrow> string \<Rightarrow> string \<Rightarrow> easy_handle \<Rightarrow> easy_handle result" where
  "set_curl_handle_options ok data url eh =
     (if ok then Inr (eh\<lparr>eh_url := url, eh_size := length data, eh_body := data\<rparr>) else what)"

text \<open>One turn of the loop that collects the finished handles.\<close>

record info_turn =
  it_wake :: curl_code
  it_msg :: "nat option"
  it_left :: nat
  it_wake2 :: curl_code
  it_status :: curl_code

fun reuse_loop :: "info_turn list \<Rightarrow> nat list \<Rightarrow> curl_multi \<Rightarrow> (nat list \<times> curl_multi) result" where
  "reuse_loop [] hs m = Inl NoReturn"
| "reuse_loop (t # ts) hs m =
     rbind (info_read (it_wake t) m) (\<lambda>m1.
     rbind (case it_msg t of
         None \<Rightarrow> Inr (hs, m1)
       | Some h \<Rightarrow> rbind (remove_handle (it_wake2 t) h m1) (\<lambda>m2.
           (case it_status t of CURLM_OK \<Rightarrow> Inr (hs @ [h], m2) | CURLM_BAD_EASY_HANDLE \<Rightarrow> Inr (hs, m2) | CURLM_FAILED \<Rightarrow> what))) (\<lambda>(hs', m2).
       if 0 < it_left t then reuse_loop ts hs' m2 else Inr (hs', m2)))"

record post_os =
  po_set :: bool
  po_wake_add :: curl_code
  po_add :: curl_code
  po_wake_perform :: curl_code
  po_perform :: curl_code

record api_os =
  ao_turns :: "info_turn list"
  ao_init :: bool
  ao_common :: bool
  ao_dup :: "nat \<Rightarrow> bool"
  ao_post :: "nat \<Rightarrow> post_os"

definition first_handles :: "api_os \<Rightarrow> string \<Rightarrow> nat list \<Rightarrow> curl_multi \<Rightarrow> (nat option list \<times> curl_multi) result" where
  "first_handles os key hs m =
     (if hs = [] then
        (if ao_init os then rbind (set_common_curl_handle_options (ao_common os) key easy_init) (\<lambda>eh.
           Inr ([Some (length (cm_store m))], m\<lparr>cm_store := cm_store m @ [eh]\<rparr>)) else what)
      else Inr (map Some hs, m))"

fun dup_loop :: "(nat \<Rightarrow> bool) \<Rightarrow> nat list \<Rightarrow> nat option list \<Rightarrow> curl_multi \<Rightarrow> nat option list \<times> curl_multi" where
  "dup_loop dup_ok [] hs m = (hs, m)"
| "dup_loop dup_ok (i # is) hs m =
     (case hd hs of
        None \<Rightarrow> dup_loop dup_ok is (hs @ [None]) m
      | Some f \<Rightarrow>
        (if dup_ok i then dup_loop dup_ok is (hs @ [Some (length (cm_store m))]) (m\<lparr>cm_store := cm_store m @ [cm_store m ! f]\<rparr>)
         else dup_loop dup_ok is (hs @ [None]) m))"

fun post_loop ::
  "('j request_data \<Rightarrow> string) \<Rightarrow> (nat \<Rightarrow> post_os) \<Rightarrow> string \<Rightarrow> nat list \<Rightarrow> 'j request_data \<Rightarrow> nat option list \<Rightarrow> nat list \<Rightarrow>
   curl_multi \<Rightarrow> curl_multi result" where
  "post_loop body os url indices d handles [] m = Inr m"
| "post_loop body os url indices d handles (i # is) m =
     rbind (vec_at handles i) (\<lambda>h. case h of None \<Rightarrow> what | Some h \<Rightarrow>
     rbind (vec_at indices i) (\<lambda>x.
     rbind (set_curl_handle_options (po_set (os i)) (body (d\<lparr>rd_idx := x\<rparr>)) url (cm_store m ! h)) (\<lambda>eh.
     rbind (add_handle (po_wake_add (os i)) h (m\<lparr>cm_store := (cm_store m)[h := eh]\<rparr>)) (\<lambda>m1.
       if po_add (os i) \<noteq> CURLM_OK then what
       else rbind (perform (po_wake_perform (os i)) m1) (\<lambda>m2.
         if po_perform (os i) \<noteq> CURLM_OK then what
         else post_loop body os url indices d handles is m2)))))"

text \<open>\<open>make_api_requests\<close> with its handles; the handles used come with the result.\<close>

definition api_requests ::
  "(32 word \<Rightarrow> string) \<Rightarrow> environment \<Rightarrow> ('j request_data \<Rightarrow> string) \<Rightarrow> api_os \<Rightarrow> exec_context \<Rightarrow> 'j option \<Rightarrow> curl_multi \<Rightarrow>
   (nat option list \<times> curl_multi) result" where
  "api_requests ntop genv body os c val m =
     (let cc = concurrency (ec_manifest c) in
      if cc \<le> 1 then Inr ([], m)
      else rbind (reuse_loop (ao_turns os) [] m) (\<lambda>(hs, m1).
        case genv ''__OW_ACTION_NAME'' of None \<Rightarrow> what | Some name \<Rightarrow>
        (case genv ''__OW_API_HOST'' of None \<Rightarrow> what | Some host \<Rightarrow>
        (case ec_env c ''__OW_API_KEY'' of None \<Rightarrow> what | Some key \<Rightarrow>
           if key = [] then what
           else
             (let indices = populate_indices (length (index (ec_manifest c))) cc in
              rbind (populate_request_data ntop c val indices) (\<lambda>d.
              rbind (api_url host name) (\<lambda>url.
              rbind (first_handles os key hs m1) (\<lambda>(handles, m2).
              case dup_loop (ao_dup os) [length handles..<cc - 1] handles m2 of (handles', m3) \<Rightarrow>
              rbind (post_loop body (ao_post os) url indices d handles' [0..<cc - 1] m3) (\<lambda>m4. Inr (handles', m4))))))))))"

section \<open>One thread polls, and is woken before the handle is used\<close>

text \<open>
  What threads do with the shared handle.  Each operation but the wait itself holds the lock, so
  a run is a sequence of these steps; \<open>sy_polling\<close> are the threads inside \<open>curl_multi_poll\<close> and
  \<open>sy_asleep\<close> those that sleep instead.
\<close>

record curl_system =
  sy_multi :: curl_multi
  sy_polling :: "nat list"
  sy_asleep :: "nat list"

definition waiting :: "curl_system \<Rightarrow> nat list" where
  "waiting s = sy_polling s @ sy_asleep s"

inductive curl_step :: "curl_system \<Rightarrow> curl_system \<Rightarrow> bool" where
  add: "t \<notin> set (waiting s) \<Longrightarrow> add_handle w h (sy_multi s) = Inr m \<Longrightarrow> curl_step s (s\<lparr>sy_multi := m\<rparr>)"
| perform: "t \<notin> set (waiting s) \<Longrightarrow> perform w (sy_multi s) = Inr m \<Longrightarrow> curl_step s (s\<lparr>sy_multi := m\<rparr>)"
| info: "t \<notin> set (waiting s) \<Longrightarrow> info_read w (sy_multi s) = Inr m \<Longrightarrow> curl_step s (s\<lparr>sy_multi := m\<rparr>)"
| remove: "t \<notin> set (waiting s) \<Longrightarrow> remove_handle w h (sy_multi s) = Inr m \<Longrightarrow> curl_step s (s\<lparr>sy_multi := m\<rparr>)"
| enter: "t \<notin> set (waiting s) \<Longrightarrow> poll_enter (sy_multi s) = (b, m) \<Longrightarrow>
    curl_step s (s\<lparr>sy_multi := m, sy_polling := (if b then sy_polling s @ [t] else sy_polling s),
      sy_asleep := (if b then sy_asleep s else sy_asleep s @ [t])\<rparr>)"
| leave: "t \<in> set (sy_polling s) \<Longrightarrow>
    curl_step s (s\<lparr>sy_multi := poll_leave (sy_multi s), sy_polling := remove1 t (sy_polling s)\<rparr>)"
| wake_up: "t \<in> set (sy_asleep s) \<Longrightarrow> curl_step s (s\<lparr>sy_asleep := remove1 t (sy_asleep s)\<rparr>)"

text \<open>
  The discipline that the calls into libcurl keep, as an automaton: at most one
  \<open>curl_multi_poll\<close> at a time, and during one, every other call directly after a wakeup.  The state
  is whether a thread polls and whether it was just woken.
\<close>

fun discipline :: "(bool \<times> bool) option \<Rightarrow> curl_call \<Rightarrow> (bool \<times> bool) option" where
  "discipline None x = None"
| "discipline (Some (p, w)) PollBegin = (if p then None else Some (True, False))"
| "discipline (Some (p, w)) PollEnd = (if p then Some (False, False) else None)"
| "discipline (Some (p, w)) Wakeup = (if p then Some (p, True) else None)"
| "discipline (Some (p, w)) x = (if p \<and> \<not> w then None else Some (p, False))"

definition after_calls :: "curl_call list \<Rightarrow> (bool \<times> bool) option" where
  "after_calls = foldl discipline (Some (False, False))"

definition multi_ok :: "curl_multi \<Rightarrow> bool" where
  "multi_ok m \<longleftrightarrow> distinct (cm_easy m) \<and> set (cm_easy m) \<subseteq> {..<length (cm_store m)}"

definition system_ok :: "curl_system \<Rightarrow> bool" where
  "system_ok s \<longleftrightarrow> length (sy_polling s) = cm_polling (sy_multi s) \<and> cm_polling (sy_multi s) \<le> 1 \<and>
     distinct (waiting s) \<and> distinct (cm_easy (sy_multi s)) \<and>
     after_calls (cm_calls (sy_multi s)) = Some (0 < cm_polling (sy_multi s), False)"

lemma call_simps [simp]:
  "cm_store (call x m) = cm_store m" "cm_easy (call x m) = cm_easy m" "cm_polling (call x m) = cm_polling m"
  "cm_calls (call x m) = cm_calls m @ [x]"
  by (simp_all add: call_def)

lemma after_calls_snoc [simp]: "after_calls (xs @ [x]) = discipline (after_calls xs) x"
  by (simp add: after_calls_def)

lemma wake_poller_Inr:
  "wake_poller w m = Inr m' \<longleftrightarrow> (if 0 < cm_polling m then w = CURLM_OK \<and> m' = call Wakeup m else m' = m)"
  by (cases w) (auto simp: wake_poller_def)

lemma wake_poller_discipline:
  assumes "wake_poller w m = Inr m'" "after_calls (cm_calls m) = Some (0 < cm_polling m, False)"
  shows "cm_store m' = cm_store m \<and> cm_easy m' = cm_easy m \<and> cm_polling m' = cm_polling m \<and>
    after_calls (cm_calls m') = Some (0 < cm_polling m, 0 < cm_polling m)"
  using assms by (auto simp: wake_poller_Inr split: if_splits)

text \<open>
  What the operations share: with the lock, they wake the thread that polls and then make one call
  \<open>x\<close>, which changes the set of handles by \<open>edit\<close>.
\<close>

locale locked_call =
  fixes oper :: "curl_code \<Rightarrow> curl_multi \<Rightarrow> curl_multi result"
    and x :: curl_call
    and edit :: "nat list \<Rightarrow> nat list"
  assumes wakes_first: "oper w m = rbind (wake_poller w m) (\<lambda>m1. Inr (call x (m1\<lparr>cm_easy := edit (cm_easy m1)\<rparr>)))"
    and edit_distinct: "distinct es \<Longrightarrow> distinct (edit es)"
    and no_poll: "x \<notin> {PollBegin, PollEnd, Wakeup}"
begin

lemma disciplined: "discipline (Some (p, w)) x = (if p \<and> \<not> w then None else Some (p, False))"
  using no_poll by (cases x) auto

lemma keeps:
  assumes "oper w m = Inr m'" "after_calls (cm_calls m) = Some (0 < cm_polling m, False)" "distinct (cm_easy m)"
  shows "cm_polling m' = cm_polling m \<and> distinct (cm_easy m') \<and> after_calls (cm_calls m') = Some (0 < cm_polling m', False)"
proof -
  obtain m1 where m1: "wake_poller w m = Inr m1" "m' = call x (m1\<lparr>cm_easy := edit (cm_easy m1)\<rparr>)"
    using assms(1) unfolding wakes_first by (auto simp: rbind_Inr_iff)
  with wake_poller_discipline [OF m1(1) assms(2)] assms(3) show ?thesis
    by (auto simp: disciplined edit_distinct simp del: discipline.simps)
qed

lemma changes: "oper w m = Inr m' \<Longrightarrow> cm_store m' = cm_store m \<and> cm_easy m' = edit (cm_easy m)"
proof -
  assume "oper w m = Inr m'"
  then obtain m1 where "wake_poller w m = Inr m1" "m' = call x (m1\<lparr>cm_easy := edit (cm_easy m1)\<rparr>)"
    unfolding wakes_first by (auto simp: rbind_Inr_iff)
  then show ?thesis by (auto simp: wake_poller_Inr split: if_splits)
qed

lemma goes_through: "cm_polling m = 0 \<or> w = CURLM_OK \<Longrightarrow> \<exists>m'. oper w m = Inr m'"
proof -
  assume "cm_polling m = 0 \<or> w = CURLM_OK"
  then have "\<exists>m1. wake_poller w m = Inr m1" by (auto simp: wake_poller_def)
  then show ?thesis unfolding wakes_first by auto
qed

end

interpretation adding: locked_call "\<lambda>w. add_handle w h" "AddHandle h" "\<lambda>es. if h \<in> set es then es else es @ [h]" for h
  by unfold_locales (auto simp: add_handle_def intro!: arg_cong2 [where f = rbind] ext)

interpretation performing: locked_call perform Perform "\<lambda>es. es"
  by unfold_locales (simp_all add: perform_def)

interpretation reading: locked_call info_read InfoRead "\<lambda>es. es"
  by unfold_locales (simp_all add: info_read_def)

interpretation removing: locked_call "\<lambda>w. remove_handle w h" "RemoveHandle h" "remove1 h" for h
  by unfold_locales (simp_all add: remove_handle_def)

lemmas multi_keeps = reading.changes performing.changes removing.changes adding.changes

lemmas locked_steps = adding.keeps performing.keeps reading.keeps removing.keeps

lemma system_ok_step: "curl_step s s' \<Longrightarrow> system_ok s \<Longrightarrow> system_ok s'"
proof (induction rule: curl_step.induct)
  case (enter t s b m)
  then show ?case
    by (auto simp: system_ok_def waiting_def poll_enter_def split: if_splits)
next
  case (leave t s)
  then have "length (sy_polling s) \<le> 1" "t \<in> set (sy_polling s)" by (simp_all add: system_ok_def)
  then have "sy_polling s = [t]" by (cases "sy_polling s") auto
  with leave show ?case by (auto simp: system_ok_def waiting_def poll_leave_def)
qed (auto simp: system_ok_def waiting_def dest: locked_steps)

text \<open>
  C22: sharing the multi handle.  However threads use it, starting from a new one, never two of them
  are inside \<open>curl_multi_poll\<close>, the counter is their number, a handle is listed once, and the calls
  into libcurl keep the discipline: while one thread polls, another one's call comes directly after
  a wakeup.
\<close>
theorem one_thread_polls:
  assumes "new_multi True True True = Inr m0" "curl_step\<^sup>*\<^sup>* \<lparr>sy_multi = m0, sy_polling = [], sy_asleep = []\<rparr> s"
  shows "length (sy_polling s) \<le> 1 \<and> cm_polling (sy_multi s) = length (sy_polling s) \<and> distinct (cm_easy (sy_multi s)) \<and>
    after_calls (cm_calls (sy_multi s)) = Some (sy_polling s \<noteq> [], False)"
proof -
  from assms(1) have "system_ok \<lparr>sy_multi = m0, sy_polling = [], sy_asleep = []\<rparr>"
    by (auto simp: new_multi_def system_ok_def waiting_def after_calls_def)
  with assms(2) have "system_ok s" by (induction rule: rtranclp_induct) (auto intro: system_ok_step)
  then show ?thesis by (auto simp: system_ok_def simp flip: length_greater_0_conv)
qed

definition demo_multi :: curl_multi where
  "demo_multi = \<lparr>cm_store = [], cm_easy = [], cm_polling = 0, cm_calls = []\<rparr>"

theorem one_thread_polls_witness:
  "\<exists>s :: curl_system. sy_polling s = [1] \<and> cm_easy (sy_multi s) = [0] \<and> length (sy_polling s) \<le> 1 \<and>
     after_calls (cm_calls (sy_multi s)) = Some (True, False)"
proof -
  let ?s0 = "\<lparr>sy_multi = demo_multi, sy_polling = [], sy_asleep = []\<rparr>"
  let ?s1 = "?s0\<lparr>sy_multi := call PollBegin (demo_multi\<lparr>cm_polling := 1\<rparr>), sy_polling := [1]\<rparr>"
  let ?s2 = "?s1\<lparr>sy_multi := call (AddHandle 0) ((call Wakeup (sy_multi ?s1))\<lparr>cm_easy := [0]\<rparr>)\<rparr>"
  have "curl_step ?s0 ?s1"
    using enter [of 1 ?s0 True "call PollBegin (demo_multi\<lparr>cm_polling := 1\<rparr>)"]
    by (simp add: waiting_def poll_enter_def demo_multi_def)
  moreover have "curl_step ?s1 ?s2"
    using add [of 2 ?s1 CURLM_OK 0 "sy_multi ?s2"]
    by (simp add: waiting_def add_handle_def wake_poller_def demo_multi_def)
  ultimately have "curl_step\<^sup>*\<^sup>* ?s0 ?s2" by (meson converse_rtranclp_into_rtranclp rtranclp.rtrancl_refl)
  from one_thread_polls [OF _ this] show ?thesis
    by (intro exI [of _ ?s2]) (simp add: new_multi_def demo_multi_def)
qed

section \<open>Which handles carry the requests\<close>

definition messages :: "info_turn list \<Rightarrow> nat list" where
  "messages ts = concat (map (\<lambda>t. case it_msg t of None \<Rightarrow> [] | Some h \<Rightarrow> [h]) ts)"

lemma reuse_loop_handles:
  assumes "reuse_loop ts hs m = Inr (hs', m')" "distinct (messages ts)" "set (messages ts) \<subseteq> set (cm_easy m)" "distinct (cm_easy m)"
  shows "cm_store m' = cm_store m \<and> distinct (cm_easy m') \<and> set (cm_easy m') \<subseteq> set (cm_easy m) \<and>
    (\<exists>new. hs' = hs @ new \<and> distinct new \<and> set new \<subseteq> set (messages ts) \<and> set new \<inter> set (cm_easy m') = {})"
  using assms
proof (induction ts arbitrary: hs m)
  case (Cons t ts)
  from Cons.prems(1) obtain m1 where m1: "info_read (it_wake t) m = Inr m1" by (auto simp: rbind_Inr_iff)
  note k1 = multi_keeps(1) [OF m1]
  show ?case
  proof (cases "it_msg t")
    case None
    with Cons.prems m1 show ?thesis
      using Cons.IH [of hs m1] k1 by (auto simp: messages_def split: if_splits)
  next
    case (Some h)
    with Cons.prems(1) m1 obtain m2 where m2: "remove_handle (it_wake2 t) h m1 = Inr m2"
      by (auto simp: rbind_Inr_iff)
    note k2 = multi_keeps(3) [OF m2]
    from Some have msg: "messages (t # ts) = h # messages ts" by (simp add: messages_def)
    from this Cons.prems(2,3) have h: "h \<notin> set (messages ts)" "h \<in> set (cm_easy m)" "distinct (messages ts)"
      "set (messages ts) \<subseteq> set (cm_easy m)" by simp_all
    have e: "cm_store m2 = cm_store m" "set (cm_easy m2) = set (cm_easy m) - {h}" "distinct (cm_easy m2)"
      using k1 k2 Cons.prems(4) by simp_all
    have "\<exists>x. (x = [] \<or> x = [h]) \<and> (if 0 < it_left t then reuse_loop ts (hs @ x) m2 else Inr (hs @ x, m2)) = Inr (hs', m')"
    proof (cases "it_status t")
      case CURLM_OK
      with Cons.prems(1) Some m1 m2 show ?thesis by (intro exI [of _ "[h]"]) (simp split: if_split_asm)
    next
      case CURLM_BAD_EASY_HANDLE
      with Cons.prems(1) Some m1 m2 show ?thesis by (intro exI [of _ "[]"]) (simp split: if_split_asm)
    next
      case CURLM_FAILED
      with Cons.prems(1) Some m1 m2 show ?thesis by simp
    qed
    then obtain x where x: "x = [] \<or> x = [h]"
      and r: "(if 0 < it_left t then reuse_loop ts (hs @ x) m2 else Inr (hs @ x, m2)) = Inr (hs', m')" by blast
    have sub: "set (messages ts) \<subseteq> set (cm_easy m2)" using e(2) h(1,4) by blast
    show ?thesis
    proof (cases "0 < it_left t")
      case True
      with r have "reuse_loop ts (hs @ x) m2 = Inr (hs', m')" by simp
      from Cons.IH [OF this h(3) sub e(3)] obtain new where n: "hs' = (hs @ x) @ new" "distinct new" "set new \<subseteq> set (messages ts)"
        "set new \<inter> set (cm_easy m') = {}" "cm_store m' = cm_store m2" "distinct (cm_easy m')" "set (cm_easy m') \<subseteq> set (cm_easy m2)"
        by blast
      have "distinct (x @ new)" "set (x @ new) \<subseteq> set (messages (t # ts))" "set (x @ new) \<inter> set (cm_easy m') = {}"
        using x n(2-4,7) h(1) e(2) msg by auto
      with n e show ?thesis by (intro conjI exI [of _ "x @ new"]) auto
    next
      case False
      with r x e msg show ?thesis by auto
    qed
  qed
qed simp

text \<open>The handles that the requests go to: numbers of the store, each another one.\<close>

definition usable :: "nat option list \<Rightarrow> curl_multi \<Rightarrow> bool" where
  "usable hs m \<longleftrightarrow> distinct (filter (\<lambda>h. h \<noteq> None) hs) \<and> (\<forall>h. Some h \<in> set hs \<longrightarrow> h < length (cm_store m))"

lemma dup_loop_handles:
  assumes "dup_loop dup_ok is hs m = (hs', m')" "usable hs m" "hs \<noteq> []"
  shows "\<exists>xs ys. hs' = hs @ xs \<and> m' = m\<lparr>cm_store := cm_store m @ ys\<rparr> \<and> length xs = length is \<and> usable hs' m' \<and>
    (\<forall>y \<in> set ys. \<exists>f. hd hs = Some f \<and> y = cm_store m ! f) \<and> (\<forall>h. Some h \<in> set xs \<longrightarrow> length (cm_store m) \<le> h)"
  using assms
proof (induction "is" arbitrary: hs m)
  case Nil
  then show ?case by (intro exI [of _ "[]"]) simp
next
  case (Cons i "is")
  have step: ?case if r: "dup_loop dup_ok is (hs @ [x]) (m\<lparr>cm_store := cm_store m @ ys\<rparr>) = (hs', m')"
    and u: "usable (hs @ [x]) (m\<lparr>cm_store := cm_store m @ ys\<rparr>)" and x: "\<forall>h. x = Some h \<longrightarrow> length (cm_store m) \<le> h"
    and y: "\<forall>y \<in> set ys. \<exists>f. hd hs = Some f \<and> y = cm_store m ! f" for x ys
  proof -
    from Cons.IH [OF r u] obtain xs zs where z: "hs' = (hs @ [x]) @ xs" "length xs = length is" "usable hs' m'"
      "m' = m\<lparr>cm_store := cm_store m @ ys @ zs\<rparr>" "\<forall>y \<in> set zs. \<exists>f. hd (hs @ [x]) = Some f \<and> y = (cm_store m @ ys) ! f"
      "\<forall>h. Some h \<in> set xs \<longrightarrow> length (cm_store m @ ys) \<le> h" by auto
    have "f < length (cm_store m)" if "hd hs = Some f" for f
      using that Cons.prems(2,3) by (cases hs) (auto simp: usable_def)
    with z(5) Cons.prems(3) have "\<forall>y \<in> set zs. \<exists>f. hd hs = Some f \<and> y = cm_store m ! f" by (auto simp: nth_append)
    with z x y show ?thesis by (intro exI [of _ "x # xs"] exI [of _ "ys @ zs"]) auto
  qed
  show ?case
  proof (cases "hd hs")
    case None
    with Cons.prems show ?thesis by (intro step [of None "[]"]) (simp_all add: usable_def)
  next
    case (Some f)
    show ?thesis
    proof (cases "dup_ok i")
      case True
      with Some Cons.prems show ?thesis
        by (intro step [of "Some (length (cm_store m))" "[cm_store m ! f]"]) (auto simp: usable_def less_Suc_eq)
    next
      case False
      with Some Cons.prems show ?thesis by (intro step [of None "[]"]) (simp_all add: usable_def)
    qed
  qed
qed

text \<open>What posting leaves: each handle with its own url and body, the others as they were.\<close>

definition carries :: "easy_handle \<Rightarrow> string \<Rightarrow> string \<Rightarrow> bool" where
  "carries eh url data \<longleftrightarrow> eh_url eh = url \<and> eh_body eh = data \<and> eh_size eh = length data"

lemma post_loop_posts:
  assumes "post_loop body os url indices d handles is m = Inr m'" "distinct (map (\<lambda>i. handles ! i) is)"
    "\<forall>h. Some h \<in> set handles \<longrightarrow> h < length (cm_store m)" "distinct (cm_easy m)"
  shows "length (cm_store m') = length (cm_store m) \<and> distinct (cm_easy m') \<and>
    (\<forall>i \<in> set is. \<exists>h. i < length handles \<and> handles ! i = Some h \<and> i < length indices \<and> h \<in> set (cm_easy m') \<and>
       carries (cm_store m' ! h) url (body (d\<lparr>rd_idx := indices ! i\<rparr>))) \<and>
    set (cm_easy m') = set (cm_easy m) \<union> {h. Some h \<in> (\<lambda>i. handles ! i) ` set is} \<and>
    (\<forall>h. eh_user (cm_store m' ! h) = eh_user (cm_store m ! h) \<and> eh_password (cm_store m' ! h) = eh_password (cm_store m ! h)) \<and>
    (\<forall>h. Some h \<notin> (\<lambda>i. handles ! i) ` set is \<longrightarrow> cm_store m' ! h = cm_store m ! h)"
  using assms
proof (induction "is" arbitrary: m)
  case (Cons i "is")
  then obtain h m1 m2 where h: "i < length handles" "handles ! i = Some h" "i < length indices"
    and a: "add_handle (po_wake_add (os i)) h (m\<lparr>cm_store := (cm_store m)[h := (cm_store m ! h)\<lparr>eh_url := url,
        eh_size := length (body (d\<lparr>rd_idx := indices ! i\<rparr>)), eh_body := body (d\<lparr>rd_idx := indices ! i\<rparr>)\<rparr>]\<rparr>) = Inr m1"
    and p: "perform (po_wake_perform (os i)) m1 = Inr m2" and r: "post_loop body os url indices d handles is m2 = Inr m'"
    by (auto simp: rbind_Inr_iff vec_at_Inr_iff set_curl_handle_options_def split: option.splits if_splits)
  from h(1,2) Cons.prems(3) have hl: "h < length (cm_store m)" by (metis nth_mem)
  let ?e = "(cm_store m ! h)\<lparr>eh_url := url, eh_size := length (body (d\<lparr>rd_idx := indices ! i\<rparr>)), eh_body := body (d\<lparr>rd_idx := indices ! i\<rparr>)\<rparr>"
  from multi_keeps(4) [OF a] multi_keeps(2) [OF p] Cons.prems(4) have k: "cm_store m2 = (cm_store m)[h := ?e]"
    "set (cm_easy m2) = insert h (set (cm_easy m))" "distinct (cm_easy m2)" by auto
  from Cons.prems(2) h(2) have new: "Some h \<notin> (\<lambda>i. handles ! i) ` set is" by auto
  have I: "distinct (map (\<lambda>i. handles ! i) is)" "\<forall>h. Some h \<in> set handles \<longrightarrow> h < length (cm_store m2)"
    using Cons.prems(2,3) k(1) by simp_all
  note ih = Cons.IH [OF r I k(3)]
  note IH = ih [THEN conjunct1] ih [THEN conjunct2, THEN conjunct1] ih [THEN conjunct2, THEN conjunct2, THEN conjunct1]
    ih [THEN conjunct2, THEN conjunct2, THEN conjunct2, THEN conjunct1]
    ih [THEN conjunct2, THEN conjunct2, THEN conjunct2, THEN conjunct2, THEN conjunct1]
    ih [THEN conjunct2, THEN conjunct2, THEN conjunct2, THEN conjunct2, THEN conjunct2]
  have "cm_store m' ! h = ?e" using IH(6) new k(1) hl by simp
  then have own: "\<exists>h. i < length handles \<and> handles ! i = Some h \<and> i < length indices \<and> h \<in> set (cm_easy m') \<and>
       carries (cm_store m' ! h) url (body (d\<lparr>rd_idx := indices ! i\<rparr>))"
    using h IH(4) k(2) by (simp add: carries_def)
  have keep: "eh_user (cm_store m2 ! g) = eh_user (cm_store m ! g) \<and> eh_password (cm_store m2 ! g) = eh_password (cm_store m ! g)" for g
    using k(1) hl by (cases "g = h") simp_all
  show ?case
  proof (intro conjI)
    show "\<forall>i \<in> set (i # is). \<exists>h. i < length handles \<and> handles ! i = Some h \<and> i < length indices \<and> h \<in> set (cm_easy m') \<and>
       carries (cm_store m' ! h) url (body (d\<lparr>rd_idx := indices ! i\<rparr>))" using own IH(3) by simp
    show "set (cm_easy m') = set (cm_easy m) \<union> {h. Some h \<in> (\<lambda>i. handles ! i) ` set (i # is)}"
      using IH(4) k(2) h(2) by auto
    show "\<forall>h. Some h \<notin> (\<lambda>i. handles ! i) ` set (i # is) \<longrightarrow> cm_store m' ! h = cm_store m ! h"
      using IH(6) k(1) h(2) by (auto simp: nth_list_update)
      show "\<forall>h. eh_user (cm_store m' ! h) = eh_user (cm_store m ! h) \<and> eh_password (cm_store m' ! h) = eh_password (cm_store m ! h)"
      using IH(5) keep by simp
  qed (simp_all add: IH(1,2) k(1))
qed simp

lemma api_requests_parts:
  assumes "api_requests ntop genv body os c val m = Inr (handles, m')" "1 < concurrency (ec_manifest c)"
  obtains hs m1 name host key d url first m2 m3 where
    "reuse_loop (ao_turns os) [] m = Inr (hs, m1)" "genv ''__OW_ACTION_NAME'' = Some name" "genv ''__OW_API_HOST'' = Some host"
    "ec_env c ''__OW_API_KEY'' = Some key" "key \<noteq> []"
    "populate_request_data ntop c val (populate_indices (length (index (ec_manifest c))) (concurrency (ec_manifest c))) = Inr d"
    "api_url host name = Inr url" "first_handles os key hs m1 = Inr (first, m2)"
    "dup_loop (ao_dup os) [length first..<concurrency (ec_manifest c) - 1] first m2 = (handles, m3)"
    "post_loop body (ao_post os) url (populate_indices (length (index (ec_manifest c))) (concurrency (ec_manifest c))) d handles
       [0..<concurrency (ec_manifest c) - 1] m3 = Inr m'"
proof -
  let ?is = "populate_indices (length (index (ec_manifest c))) (concurrency (ec_manifest c))"
  from assms obtain hs m1 name host key d url first m2 where x: "reuse_loop (ao_turns os) [] m = Inr (hs, m1)"
    "genv ''__OW_ACTION_NAME'' = Some name" "genv ''__OW_API_HOST'' = Some host" "ec_env c ''__OW_API_KEY'' = Some key" "key \<noteq> []"
    "populate_request_data ntop c val ?is = Inr d" "api_url host name = Inr url" "first_handles os key hs m1 = Inr (first, m2)"
    and r: "(case dup_loop (ao_dup os) [length first..<concurrency (ec_manifest c) - 1] first m2 of (handles', m3) \<Rightarrow>
      rbind (post_loop body (ao_post os) url ?is d handles' [0..<concurrency (ec_manifest c) - 1] m3) (\<lambda>m4. Inr (handles', m4))) =
      Inr (handles, m')"
    by (auto simp: api_requests_def Let_def elim!: rbind_InrE split: option.split_asm if_split_asm)
  obtain h3 m3 where d: "dup_loop (ao_dup os) [length first..<concurrency (ec_manifest c) - 1] first m2 = (h3, m3)" by fastforce
  with r have "h3 = handles" "post_loop body (ao_post os) url ?is d handles [0..<concurrency (ec_manifest c) - 1] m3 = Inr m'"
    by (auto simp: rbind_Inr_iff)
  with x d show thesis by (intro that) simp_all
qed

text \<open>The handles before anything is posted: the reused ones and copies of the first, or a new one and its copies.\<close>

lemma request_handles:
  assumes "reuse_loop ts [] m = Inr (hs, m1)" "first_handles os key hs m1 = Inr (first, m2)"
    "dup_loop dup_ok is first m2 = (handles, m3)" "multi_ok m" "distinct (messages ts)" "set (messages ts) \<subseteq> set (cm_easy m)"
  shows "usable handles m3 \<and> length handles = length first + length is \<and> multi_ok m3 \<and> cm_store m1 = cm_store m \<and>
    (\<forall>h. Some h \<in> set handles \<longrightarrow> h \<notin> set (cm_easy m3)) \<and> first \<noteq> [] \<and>
    (\<forall>h. Some h \<in> set handles \<longrightarrow> (if hs = [] then \<exists>eh. set_common_curl_handle_options True key easy_init = Inr eh \<and> cm_store m3 ! h = eh
       else \<exists>r \<in> set hs. cm_store m3 ! h = cm_store m ! r))"
proof -
  from reuse_loop_handles [OF assms(1,5,6)] assms(4) have r: "cm_store m1 = cm_store m" "distinct (cm_easy m1)"
    "set (cm_easy m1) \<subseteq> set (cm_easy m)" "distinct hs" "set hs \<subseteq> set (messages ts)" "set hs \<inter> set (cm_easy m1) = {}"
    by (auto simp: multi_ok_def)
  have hs: "\<forall>h \<in> set hs. h < length (cm_store m)" using r(5) assms(4,6) by (auto simp: multi_ok_def)
  have easy: "set (cm_easy m1) \<subseteq> {..<length (cm_store m)}" using r(3) assms(4) by (auto simp: multi_ok_def)
  have f: "usable first m2 \<and> first \<noteq> [] \<and> cm_easy m2 = cm_easy m1 \<and> length (cm_store m) \<le> length (cm_store m2) \<and>
    (\<forall>h. Some h \<in> set first \<longrightarrow> h \<notin> set (cm_easy m1) \<and>
       (if hs = [] then \<exists>eh. set_common_curl_handle_options True key easy_init = Inr eh \<and> cm_store m2 ! h = eh
        else \<exists>r \<in> set hs. cm_store m2 ! h = cm_store m ! r))"
  proof (cases "hs = []")
    case True
    with assms(2) obtain eh where eh: "set_common_curl_handle_options True key easy_init = Inr eh"
      "first = [Some (length (cm_store m1))]" "m2 = m1\<lparr>cm_store := cm_store m1 @ [eh]\<rparr>"
      by (auto simp: first_handles_def rbind_Inr_iff set_common_curl_handle_options_def split: if_splits option.splits)
    with True r(1) easy show ?thesis by (auto simp: usable_def)
  next
    case False
    with assms(2) r hs show ?thesis by (auto simp: first_handles_def usable_def distinct_map filter_map comp_def)
  qed
  then obtain xs ys where d: "handles = first @ xs" "m3 = m2\<lparr>cm_store := cm_store m2 @ ys\<rparr>" "length xs = length is" "usable handles m3"
    "\<forall>y \<in> set ys. \<exists>f. hd first = Some f \<and> y = cm_store m2 ! f" "\<forall>h. Some h \<in> set xs \<longrightarrow> length (cm_store m2) \<le> h"
    using dup_loop_handles [OF assms(3)] by blast
  have old: "cm_store m3 ! h = cm_store m2 ! h" if "Some h \<in> set first" for h
    using that f d(2) by (auto simp: usable_def nth_append)
  have new: "\<exists>g. Some g \<in> set first \<and> cm_store m3 ! h = cm_store m2 ! g \<and> h \<notin> set (cm_easy m1)" if h: "Some h \<in> set xs" for h
  proof -
    from h d(6) have ge: "length (cm_store m2) \<le> h" by simp
    moreover from h d(1,4) have "h < length (cm_store m3)" by (auto simp: usable_def)
    ultimately have "cm_store m3 ! h \<in> set ys" using d(2) by (simp add: nth_append)
    then obtain g where "hd first = Some g" "cm_store m3 ! h = cm_store m2 ! g" using d(5) by blast
    moreover have "hd first \<in> set first" using f by simp
    moreover have "h \<notin> set (cm_easy m1)" using ge f easy by auto
    ultimately show ?thesis by metis
  qed
  show ?thesis
  proof (intro conjI)
    show "multi_ok m3" using r(2) easy f d(2) by (auto simp: multi_ok_def)
    show "\<forall>h. Some h \<in> set handles \<longrightarrow> h \<notin> set (cm_easy m3)" using f d(1,2) new by auto
    show "\<forall>h. Some h \<in> set handles \<longrightarrow> (if hs = [] then \<exists>eh. set_common_curl_handle_options True key easy_init = Inr eh \<and> cm_store m3 ! h = eh
       else \<exists>r \<in> set hs. cm_store m3 ! h = cm_store m ! r)"
    proof (intro allI impI)
      fix h assume "Some h \<in> set handles"
      then obtain g where "Some g \<in> set first" "cm_store m3 ! h = cm_store m2 ! g" using d(1) old new by auto
      with f show "if hs = [] then \<exists>eh. set_common_curl_handle_options True key easy_init = Inr eh \<and> cm_store m3 ! h = eh
       else \<exists>r \<in> set hs. cm_store m3 ! h = cm_store m ! r" by auto
    qed
  qed (use d f r(1) in simp_all)
qed

lemma post_loop_handles:
  "post_loop body os url indices d handles is m = Inr m' \<Longrightarrow> \<forall>i \<in> set is. i < length handles \<and> handles ! i \<noteq> None \<and> i < length indices"
proof (induction "is" arbitrary: m)
  case (Cons i "is")
  then show ?case by (auto simp: vec_at_Inr_iff elim!: rbind_InrE split: option.split_asm if_split_asm)
qed simp

lemma api_loop_all:
  "\<forall>i \<in> set is. i < length indices \<Longrightarrow>
   api_loop (\<lambda>_. True) indices d is = Inr (map (\<lambda>i. d\<lparr>rd_idx := indices ! i\<rparr>) is)"
  by (induction "is") (simp_all add: vec_at_def)

lemma posted_handles:
  assumes "post_loop body os url indices d handles [0..<n] m = Inr m'" "usable handles m"
  obtains hs where "take n handles = map Some hs" "distinct hs" "length hs = n" "distinct (map (\<lambda>i. handles ! i) [0..<n])"
    "\<And>i. i < n \<Longrightarrow> handles ! i = Some (hs ! i)"
proof -
  from post_loop_handles [OF assms(1)] have h: "\<forall>i < n. i < length handles \<and> handles ! i \<noteq> None" by simp
  have len: "n \<le> length handles" using h by (cases n) auto
  let ?hs = "map (\<lambda>i. the (handles ! i)) [0..<n]"
  have t: "map (\<lambda>i. handles ! i) [0..<n] = take n handles" using len by (intro nth_equalityI) simp_all
  have s: "take n handles = map Some ?hs" unfolding t [symmetric] using h by simp
  have "filter (\<lambda>h. h \<noteq> None) (take n handles) = take n handles" unfolding s by (simp add: filter_id_conv)
  moreover have "distinct (filter (\<lambda>h. h \<noteq> None) (take n handles))"
    using assms(2) by (metis append_take_drop_id distinct_append filter_append usable_def)
  ultimately have "distinct (take n handles)" by simp
  then have "distinct ?hs" unfolding s distinct_map [of Some ?hs] by blast
  moreover have "distinct (map (\<lambda>i. handles ! i) [0..<n])" unfolding t by (rule \<open>distinct (take n handles)\<close>)
  ultimately show thesis using h by (intro that [OF s]) auto
qed

text \<open>
  C9: the requests for the secondary contexts, with their handles.  When they succeed, the bodies
  posted are those of the model of the scheduler, in their order; each goes to another handle, all
  of these are registered with the multi handle, and each carries the url, its own body and the
  length of that body.  This is so whether handles are reused or copied, as long as libcurl reports
  a handle as finished once, and only one that it was given.
\<close>
theorem api_requests_refine:
  assumes "api_requests ntop genv body os c val m = Inr (handles, m')" "1 < concurrency (ec_manifest c)" "multi_ok m"
    "distinct (messages (ao_turns os))" "set (messages (ao_turns os)) \<subseteq> set (cm_easy m)"
  shows "\<exists>reuse url ds hs. make_api_requests ntop genv reuse (\<lambda>_. True) c val = Inr (url, ds) \<and>
    take (concurrency (ec_manifest c) - 1) handles = map Some hs \<and> distinct hs \<and> set hs \<subseteq> set (cm_easy m') \<and> multi_ok m' \<and>
    list_all2 (\<lambda>h d. carries (cm_store m' ! h) url (body d)) hs ds"
proof -
  let ?cc = "concurrency (ec_manifest c)"
  let ?is = "populate_indices (length (index (ec_manifest c))) ?cc"
  obtain hs0 m1 name host key d url first m2 m3 where P: "reuse_loop (ao_turns os) [] m = Inr (hs0, m1)"
    "genv ''__OW_ACTION_NAME'' = Some name" "genv ''__OW_API_HOST'' = Some host" "ec_env c ''__OW_API_KEY'' = Some key" "key \<noteq> []"
    "populate_request_data ntop c val ?is = Inr d" "api_url host name = Inr url" "first_handles os key hs0 m1 = Inr (first, m2)"
    "dup_loop (ao_dup os) [length first..<?cc - 1] first m2 = (handles, m3)"
    "post_loop body (ao_post os) url ?is d handles [0..<?cc - 1] m3 = Inr m'"
    by (rule api_requests_parts [OF assms(1,2)])
  from request_handles [OF P(1,8,9) assms(3-5)] have u: "usable handles m3" "multi_ok m3" by simp_all
  obtain hs where hs: "take (?cc - 1) handles = map Some hs" "distinct hs" "length hs = ?cc - 1"
    "distinct (map (\<lambda>i. handles ! i) [0..<?cc - 1])" "\<And>i. i < ?cc - 1 \<Longrightarrow> handles ! i = Some (hs ! i)"
    by (rule posted_handles [OF P(10) u(1)]) blast
  let ?ds = "map (\<lambda>i. d\<lparr>rd_idx := ?is ! i\<rparr>) [0..<?cc - 1]"
  have loop: "api_loop (\<lambda>_. True) ?is d [0..<?cc - 1] = Inr ?ds"
    by (intro api_loop_all) (simp add: populate_indices_length)
  have "hs0 = [] \<Longrightarrow> find_char CHR '':'' key \<noteq> None"
    using P(8) by (auto simp: first_handles_def set_common_curl_handle_options_def elim!: rbind_InrE split: option.split_asm if_split_asm)
  then have made: "make_api_requests ntop genv (hs0 \<noteq> []) (\<lambda>_. True) c val = Inr (url, ?ds)"
    using assms(2) P(2-7) loop by (auto simp: make_api_requests_def Let_def)
  have bound: "\<forall>h. Some h \<in> set handles \<longrightarrow> h < length (cm_store m3)" "distinct (cm_easy m3)"
    using u by (simp_all add: usable_def multi_ok_def)
  note post = post_loop_posts [OF P(10) hs(4) bound]
  have each: "carries (cm_store m' ! (hs ! i)) url (body (d\<lparr>rd_idx := ?is ! i\<rparr>))" "hs ! i \<in> set (cm_easy m')" if "i < ?cc - 1" for i
    using bspec [OF post [THEN conjunct2, THEN conjunct2, THEN conjunct1], of i] that hs(5) [OF that] by auto
  have "set hs \<subseteq> set (cm_easy m')" using each(2) hs(3) by (auto simp: in_set_conv_nth)
  moreover have "multi_ok m'"
  proof -
    have "set (cm_easy m') \<subseteq> {..<length (cm_store m3)}"
      using post [THEN conjunct2, THEN conjunct2, THEN conjunct2, THEN conjunct1] u(2) hs(5) bound(1) post_loop_handles [OF P(10)]
      by (auto simp: multi_ok_def) (metis atLeastLessThan_iff nth_mem zero_le)
    with post show ?thesis by (auto simp: multi_ok_def)
  qed
  moreover have "list_all2 (\<lambda>h d. carries (cm_store m' ! h) url (body d)) hs ?ds"
    using each(1) hs(3) by (simp add: list_all2_conv_all_nth)
  ultimately show ?thesis using made hs(1,2) by blast
qed

definition demo_posts :: api_os where
  "demo_posts = \<lparr>ao_turns = [\<lparr>it_wake = CURLM_OK, it_msg = Some 0, it_left = 0, it_wake2 = CURLM_OK, it_status = CURLM_OK\<rparr>],
     ao_init = True, ao_common = True, ao_dup = (\<lambda>_. True),
     ao_post = (\<lambda>_. \<lparr>po_set = True, po_wake_add = CURLM_OK, po_add = CURLM_OK, po_wake_perform = CURLM_OK, po_perform = CURLM_OK\<rparr>)\<rparr>"

definition demo_finished :: curl_multi where
  "demo_finished = demo_multi\<lparr>cm_store := [easy_init\<lparr>eh_user := ''old'', eh_password := ''key''\<rparr>], cm_easy := [0]\<rparr>"

definition demo_body :: "string request_data \<Rightarrow> string" where
  "demo_body d = rd_value d @ replicate (rd_idx d) CHR ''x''"

lemma demo_finished_ok: "multi_ok demo_finished" "messages (ao_turns demo_posts) = [0]" "cm_easy demo_finished = [0]"
  by (simp_all add: multi_ok_def demo_finished_def messages_def demo_posts_def)

lemma demo_api_data:
  "populate_request_data (\<lambda>_. ''10.0.0.1'') (demo_api 3) (Some ''{}'') [1, 2] =
     Inr \<lparr>rd_uuid = uuid_show (replicate 16 1), rd_peers = [''10.0.0.1:5200''], rd_value = ''{}'', rd_idx = 2\<rparr>"
  "api_url ''http://h'' ''/guest/pi'' = Inr ''http://h/api/v1/namespaces/guest/actions/pi''"
  "populate_indices 3 3 = [1, 2]" "length (index (ec_manifest (demo_api 3))) = 3" "concurrency (ec_manifest (demo_api 3)) = 3"
  "ec_env (demo_api 3) = demo_api_env"
  by (simp_all add: demo_api_def demo_context_def populate_request_data_def rtostr_def show_nat.simps digit_char_def
      api_url_def path_filename_def populate_indices_def demo_manifest_def upt_rec vec_at_def)

lemma demo_posts_run:
  "\<exists>m'. api_requests (\<lambda>_. ''10.0.0.1'') demo_api_env demo_body demo_posts (demo_api 3) (Some ''{}'') demo_finished =
     Inr ([Some 0, Some 1], m')"
proof -
  have turns: "\<exists>calls. reuse_loop (ao_turns demo_posts) [] demo_finished = Inr ([0], demo_finished\<lparr>cm_easy := [], cm_calls := calls\<rparr>)"
    by (simp add: demo_posts_def demo_finished_def demo_multi_def info_read_def remove_handle_def wake_poller_def call_def)
  then obtain calls where turns: "reuse_loop (ao_turns demo_posts) [] demo_finished = Inr ([0], demo_finished\<lparr>cm_easy := [], cm_calls := calls\<rparr>)" ..
  have upt: "[Suc 0..<2] = [1]" "[0..<2] = [0, 1]" by (simp_all add: upt_rec)
  show ?thesis
    unfolding api_requests_def demo_api_data Let_def
    by (simp add: turns demo_api_data demo_api_env_def first_handles_def upt)
       (simp add: demo_posts_def demo_finished_def demo_multi_def add_handle_def perform_def wake_poller_def
         set_curl_handle_options_def vec_at_def)
qed

theorem api_requests_refine_witness:
  "\<exists>reuse url ds hs. \<exists>m' :: curl_multi. make_api_requests (\<lambda>_. ''10.0.0.1'') demo_api_env reuse (\<lambda>_. True) (demo_api 3) (Some ''{}'') = Inr (url, ds) \<and>
    take 2 [Some 0, Some 1] = map Some hs \<and> distinct hs \<and> list_all2 (\<lambda>h d. carries (cm_store m' ! h) url (demo_body d)) hs ds"
proof -
  obtain m' where r: "api_requests (\<lambda>_. ''10.0.0.1'') demo_api_env demo_body demo_posts (demo_api 3) (Some ''{}'') demo_finished =
      Inr ([Some 0, Some 1], m')" using demo_posts_run by blast
  have c: "concurrency (ec_manifest (demo_api 3)) = 3" by (simp add: demo_api_def)
  have "1 < concurrency (ec_manifest (demo_api 3))" "concurrency (ec_manifest (demo_api 3)) - 1 = 2" by (simp_all add: c)
  from api_requests_refine [OF r this(1) demo_finished_ok(1), unfolded this(2) demo_finished_ok(2,3)] have
    "\<exists>reuse url ds hs. make_api_requests (\<lambda>_. ''10.0.0.1'') demo_api_env reuse (\<lambda>_. True) (demo_api 3) (Some ''{}'') = Inr (url, ds) \<and>
    take 2 [Some 0, Some 1] = map Some hs \<and> distinct hs \<and> set hs \<subseteq> set (cm_easy m') \<and> multi_ok m' \<and>
    list_all2 (\<lambda>h d. carries (cm_store m' ! h) url (demo_body d)) hs ds" by simp
  then show ?thesis by blast
qed

text \<open>
  C30: whose credentials the requests carry.  The key of the run is used only when no finished handle
  was found; otherwise every request carries the user and the password of a finished handle, that
  is of an earlier run.  Finished handles beyond the number needed are neither used nor registered
  any more.
\<close>
theorem api_requests_credentials:
  assumes "api_requests ntop genv body os c val m = Inr (handles, m')" "1 < concurrency (ec_manifest c)" "multi_ok m"
    "distinct (messages (ao_turns os))" "set (messages (ao_turns os)) \<subseteq> set (cm_easy m)"
    "reuse_loop (ao_turns os) [] m = Inr (hs, m1)" "ec_env c ''__OW_API_KEY'' = Some key"
  shows "\<forall>h. Some h \<in> set handles \<longrightarrow>
    (if hs = [] then eh_user (cm_store m' ! h) @ '':'' @ eh_password (cm_store m' ! h) = key
     else \<exists>r \<in> set hs. eh_user (cm_store m' ! h) = eh_user (cm_store m ! r) \<and> eh_password (cm_store m' ! h) = eh_password (cm_store m ! r)) \<and>
    (Some h \<notin> set (take (concurrency (ec_manifest c) - 1) handles) \<longrightarrow> h \<notin> set (cm_easy m'))"
proof -
  let ?cc = "concurrency (ec_manifest c)"
  let ?is = "populate_indices (length (index (ec_manifest c))) ?cc"
  obtain d url first m2 m3 where P: "first_handles os key hs m1 = Inr (first, m2)"
    "dup_loop (ao_dup os) [length first..<?cc - 1] first m2 = (handles, m3)"
    "post_loop body (ao_post os) url ?is d handles [0..<?cc - 1] m3 = Inr m'"
    by (rule api_requests_parts [OF assms(1,2)]) (use assms(6,7) in simp)
  note rh = request_handles [OF assms(6) P(1,2) assms(3-5)]
  then have u: "usable handles m3" "multi_ok m3" "\<forall>h. Some h \<in> set handles \<longrightarrow> h \<notin> set (cm_easy m3)" by simp_all
  obtain hs' where hs': "take (?cc - 1) handles = map Some hs'" "distinct (map (\<lambda>i. handles ! i) [0..<?cc - 1])"
    "length hs' = ?cc - 1" "\<And>i. i < ?cc - 1 \<Longrightarrow> handles ! i = Some (hs' ! i)"
    by (rule posted_handles [OF P(3) u(1)]) blast
  have bound: "\<forall>h. Some h \<in> set handles \<longrightarrow> h < length (cm_store m3)" "distinct (cm_easy m3)"
    using u by (simp_all add: usable_def multi_ok_def)
  note post = post_loop_posts [OF P(3) hs'(2) bound]
  have key: "take p key @ '':'' @ drop (Suc p) key = key" if "find_char CHR '':'' key = Some p" for p
  proof -
    from that have p: "p < length key" "key ! p = CHR '':''"
      using find_if_nth [of "\<lambda>d. d = CHR '':''" key] by (auto simp: find_char_def Let_def split: if_splits)
    from id_take_nth_drop [OF p(1)] p(2) show ?thesis by simp
  qed
  show ?thesis
  proof (intro allI impI conjI)
    fix h assume h: "Some h \<in> set handles"
    have same: "eh_user (cm_store m' ! h) = eh_user (cm_store m3 ! h)" "eh_password (cm_store m' ! h) = eh_password (cm_store m3 ! h)"
      using post by simp_all
    have orig: "if hs = [] then \<exists>eh. set_common_curl_handle_options True key easy_init = Inr eh \<and> cm_store m3 ! h = eh
       else \<exists>r \<in> set hs. cm_store m3 ! h = cm_store m ! r" using rh h by blast
    show "if hs = [] then eh_user (cm_store m' ! h) @ '':'' @ eh_password (cm_store m' ! h) = key
     else \<exists>r \<in> set hs. eh_user (cm_store m' ! h) = eh_user (cm_store m ! r) \<and> eh_password (cm_store m' ! h) = eh_password (cm_store m ! r)"
      using orig same key
      by (auto simp: set_common_curl_handle_options_def dest!: sym [of _ "cm_store m3 ! h"] split: option.split_asm if_splits)
    assume "Some h \<notin> set (take (?cc - 1) handles)"
    then have "Some h \<notin> (\<lambda>i. handles ! i) ` set [0..<?cc - 1]" using hs'(1,3,4) by (auto simp: in_set_conv_nth)
    with post [THEN conjunct2, THEN conjunct2, THEN conjunct2, THEN conjunct1] u(3) h show "h \<notin> set (cm_easy m')" by auto
  qed
qed

theorem api_requests_credentials_witness:
  "\<exists>m'. api_requests (\<lambda>_. ''10.0.0.1'') demo_api_env demo_body demo_posts (demo_api 3) (Some ''{}'') demo_finished =
      Inr ([Some 0, Some 1], m') \<and>
     eh_user (cm_store m' ! 1) = ''old'' \<and> ec_env (demo_api 3) ''__OW_API_KEY'' = Some ''u:p''"
proof -
  obtain m' where r: "api_requests (\<lambda>_. ''10.0.0.1'') demo_api_env demo_body demo_posts (demo_api 3) (Some ''{}'') demo_finished =
      Inr ([Some 0, Some 1], m')" using demo_posts_run by blast
  have "\<exists>m1. reuse_loop (ao_turns demo_posts) [] demo_finished = Inr ([0], m1)"
    by (simp add: demo_posts_def demo_finished_def demo_multi_def info_read_def remove_handle_def wake_poller_def)
  then obtain m1 where m1: "reuse_loop (ao_turns demo_posts) [] demo_finished = Inr ([0], m1)" ..
  have key: "ec_env (demo_api 3) ''__OW_API_KEY'' = Some ''u:p''" by (simp add: demo_api_def demo_api_env_def)
  have "1 < concurrency (ec_manifest (demo_api 3))" by (simp add: demo_api_def)
  from api_requests_credentials [OF r this _ _ _ m1 key] demo_finished_ok
  have "eh_user (cm_store m' ! 1) = eh_user (cm_store demo_finished ! 0)" by simp
  then show ?thesis using r key by (simp add: demo_finished_def)
qed

end
