(* ===== verification/Startup.thy ===== *)
theory Startup
  imports ControllerIO Curl
begin

text \<open>
  The start of the program (\<open>controller/main.cpp\<close>): its options, its signal masks and its main loop;
  the SCTP socket that the server opens (\<open>sctp-server.cpp\<close>); and the loop of the I/O thread, which
  drives the transfers of libcurl (\<open>controller-io.cpp\<close>).
\<close>

section \<open>Options\<close>

text \<open>What \<open>getopt\<close> returns, before it returns -1.  \<open>None\<close> is the exit after the usage message.\<close>

datatype option_ret = OptU string | OptP string | OptOther

fun read_options :: "option_ret list \<Rightarrow> string option \<Rightarrow> string option \<Rightarrow> (string option \<times> string option) option" where
  "read_options [] usock port = Some (usock, port)"
| "read_options (OptU s # os) usock port = read_options os (Some s) port"
| "read_options (OptP s # os) usock port = read_options os usock (Some s)"
| "read_options (OptOther # os) usock port = None"

definition main_settings :: "option_ret list \<Rightarrow> (string \<times> nat) option result" where
  "main_settings os = (case read_options os None None of
     None \<Rightarrow> Inr None
   | Some (usock, port) \<Rightarrow>
       (let p = (case port of None \<Rightarrow> ''5100'' | Some p \<Rightarrow> p);
            u = (case usock of None \<Rightarrow> ''/run/controller/controller.sock'' | Some u \<Rightarrow> u)
        in case from_chars 10 16 p of
             Inl e \<Rightarrow> Inl (Thrown ''This should never happen.'')
           | Inr n \<Rightarrow> Inr (Some (u, n))))"

section \<open>Signals\<close>

datatype signal_name = TermSignal | ChildSignal | OtherSignal nat

text \<open>
  The masks of the threads that \<open>Controller\<close> starts, which inherit that of the main thread, and of
  the main thread afterwards.  The flags tell whether the calls succeed.
\<close>

definition main_masks :: "bool \<Rightarrow> bool \<Rightarrow> bool \<Rightarrow> signal_name set \<Rightarrow> (signal_name set \<times> signal_name set) result" where
  "main_masks blocked_ok del_ok unblocked_ok blocked =
     (if \<not> blocked_ok then what
      else
        (let sigmask = {TermSignal, ChildSignal}; threads = blocked \<union> sigmask in
         if \<not> del_ok then what
         else if \<not> unblocked_ok then Inl (Thrown ''What?'')
         else Inr (threads, threads - (sigmask - {ChildSignal}))))"

text \<open>What \<open>subprocess\<close> does to the mask that it inherits from the thread that forked it.\<close>

definition child_mask :: "signal_name set \<Rightarrow> signal_name set" where
  "child_mask blocked = blocked - {TermSignal}"

definition handler :: "signal_name \<Rightarrow> bool \<Rightarrow> bool" where
  "handler sig terminated = (if sig = TermSignal then True else terminated)"

text \<open>The values of \<open>TERMINATED_\<close> at the tests of the main loop; how often it slept.\<close>

fun main_loop :: "bool list \<Rightarrow> nat \<Rightarrow> nat result" where
  "main_loop [] naps = Inl NoReturn"
| "main_loop (terminated # ts) naps = (if terminated then Inr naps else main_loop ts (naps + 1))"

section \<open>The SCTP socket\<close>

record sctp_socket =
  so_reuse :: bool
  so_rcvinfo :: bool
  so_assoc_change :: bool
  so_ostreams :: nat
  so_instreams :: nat
  so_attempts :: nat
  so_timeout :: nat
  so_addr :: peer
  so_backlog :: nat

text \<open>\<open>oks\<close>: how \<open>socket\<close>, the four \<open>setsockopt\<close>, \<open>bind\<close> and \<open>listen\<close> end.\<close>

definition open_sctp_socket :: "bool list \<Rightarrow> peer \<Rightarrow> sctp_socket result" where
  "open_sctp_socket oks endpoint =
     (if \<not> list_all (\<lambda>ok. ok) oks then what
      else Inr \<lparr>so_reuse = True, so_rcvinfo = True, so_assoc_change = True, so_ostreams = max_streams, so_instreams = max_streams,
        so_attempts = 0, so_timeout = 3000, so_addr = endpoint, so_backlog = 4096\<rparr>)"

section \<open>The I/O thread\<close>

text \<open>The constructor of \<open>IO\<close> without a port: the loopback network and port 5300, without a look at the environment.\<close>

definition default_local_address ::
  "(string \<Rightarrow> 32 word option) \<Rightarrow> 32 word \<Rightarrow> if_address list option \<Rightarrow> peer result" where
  "default_local_address aton garbage ifs = local_address aton garbage (\<lambda>_. None) 5300 ifs"

text \<open>
  One turn of \<open>IO::start\<close>: the event word at the test, what happens to the transfers and to the
  counter of the running ones while \<open>run_for\<close> runs the callbacks, and libcurl's answers.  The counter
  is \<open>None\<close> until something is written to it: the constructor of \<open>Controller\<close> does not.
\<close>

record io_turn =
  iu_word :: "16 word"
  iu_others :: "nat option \<times> curl_multi \<Rightarrow> nat option \<times> curl_multi"
  iu_wake :: curl_code
  iu_running :: nat

fun io_loop :: "io_turn list \<Rightarrow> nat option \<Rightarrow> curl_multi \<Rightarrow> (nat option \<times> curl_multi) result" where
  "io_loop [] n m = Inl NoReturn"
| "io_loop (t # ts) n m =
     (if iu_word t AND ctl_terminate_event \<noteq> 0 then Inr (n, m)
      else (case iu_others t (n, m) of (n1, m1) \<Rightarrow>
        (case n1 of
           None \<Rightarrow> Inl (Undefined ''num_running_multi_handles_'')
         | Some k \<Rightarrow>
             if k \<noteq> 0 then rbind (perform (iu_wake t) m1) (\<lambda>m2. io_loop ts (Some (iu_running t)) m2)
             else io_loop ts (Some k) m1)))"

section \<open>Properties\<close>

lemma read_options_append: "read_options (os @ os') u p =
    (case read_options os u p of None \<Rightarrow> None | Some (u', p') \<Rightarrow> read_options os' u' p')"
  by (induction os u p rule: read_options.induct) simp_all

text \<open>
  The port.  The last \<open>-p\<close> counts; a port number that fits sixteen bits is read back as it is
  printed, whatever text without a digit follows it, a larger one ends the program, and without
  the option the port is 5100.
\<close>
theorem port_option:
  "main_settings [] = Inr (Some (''/run/controller/controller.sock'', 5100)) \<and>
   (OptOther \<notin> set os \<longrightarrow> n < 2 ^ 16 \<longrightarrow> rest = [] \<or> \<not> is_digit 10 (hd rest) \<longrightarrow>
      (\<exists>u. main_settings (os @ [OptP (show_nat 10 n @ rest)]) = Inr (Some (u, n)))) \<and>
   (OptOther \<notin> set os \<longrightarrow> 2 ^ 16 \<le> n \<longrightarrow> main_settings (os @ [OptP (show_nat 10 n)]) = Inl (Thrown ''This should never happen.'')) \<and>
   (OptOther \<in> set os \<longrightarrow> main_settings os = Inr None)"
proof (intro conjI impI)
  have some: "\<exists>u' p'. read_options os u p = Some (u', p')" if "OptOther \<notin> set os" for u p
    using that by (induction os u p rule: read_options.induct) auto
  have none: "read_options os u p = None" if "OptOther \<in> set os" for u p
    using that by (induction os u p rule: read_options.induct) auto
  show "main_settings [] = Inr (Some (''/run/controller/controller.sock'', 5100))"
    using from_chars_show_nat [of 10 5100 16 "[]"] by (simp add: main_settings_def show_nat.simps digit_char_def)
  show "\<exists>u. main_settings (os @ [OptP (show_nat 10 n @ rest)]) = Inr (Some (u, n))"
    if "OptOther \<notin> set os" "n < 2 ^ 16" "rest = [] \<or> \<not> is_digit 10 (hd rest)"
    using some [OF that(1), of None None] from_chars_show_nat [of 10 n 16 rest] that(2,3)
    by (auto simp: main_settings_def read_options_append Let_def)
  show "main_settings (os @ [OptP (show_nat 10 n)]) = Inl (Thrown ''This should never happen.'')"
    if "OptOther \<notin> set os" "2 ^ 16 \<le> n"
  proof -
    have "takeWhile (is_digit 10) (show_nat 10 n) = show_nat 10 n"
      using show_nat_digits [of 10 n] by (simp add: takeWhile_eq_all_conv list_all_iff)
    note tw = this
    have "show_nat 10 n \<noteq> []" by (subst show_nat.simps) simp
    then have "from_chars 10 16 (show_nat 10 n) = Inl TooLarge"
      unfolding from_chars_def Let_def tw using that(2) by (simp add: digits_val_show_nat)
    with some [OF that(1), of None None] show ?thesis
      by (auto simp: main_settings_def read_options_append Let_def)
  qed
  show "main_settings os = Inr None" if "OptOther \<in> set os"
    using none [OF that] by (simp add: main_settings_def)
qed

theorem port_option_witness:
  "\<exists>u. main_settings ([OptU ''/tmp/c.sock'', OptP ''1''] @ [OptP (show_nat 10 5200 @ '' sctp'')]) = Inr (Some (u, 5200))"
  using port_option [THEN conjunct2, THEN conjunct1, of "[OptU ''/tmp/c.sock'', OptP ''1'']" 5200 "'' sctp''"]
  by (simp add: is_digit_def digit_val_def)

text \<open>
  Who gets \<open>SIGTERM\<close>.  Whatever was blocked to begin with, once the controller is constructed the
  main thread takes it and the threads of the controller do not, so that its handler ends the main
  loop; a launcher takes it too, so that \<open>kill_subprocesses\<close> reaches it.  \<open>SIGCHLD\<close> stays blocked in all
  of them.
\<close>
theorem term_signal_reaches:
  assumes "main_masks ok1 ok2 ok3 blocked = Inr (workers, main)"
  shows "TermSignal \<in> workers \<and> TermSignal \<notin> main \<and> TermSignal \<notin> child_mask workers \<and>
    ChildSignal \<in> workers \<inter> main \<inter> child_mask workers \<and> handler TermSignal False"
  using assms by (auto simp: main_masks_def Let_def child_mask_def handler_def split: if_splits)

theorem term_signal_reaches_witness:
  "TermSignal \<notin> {ChildSignal} \<and> TermSignal \<notin> child_mask {TermSignal, ChildSignal} \<and> handler TermSignal False"
proof -
  have "main_masks True True True {} = Inr ({TermSignal, ChildSignal}, {ChildSignal})"
    by (auto simp: main_masks_def Let_def)
  from term_signal_reaches [OF this] show ?thesis by simp
qed

text \<open>
  The streams asked for are the streams used.  The number of the next stream of a server that
  has run in any way is one that its socket asked for when an association was set up.
\<close>
theorem stream_in_range:
  assumes "sctp_any\<^sup>*\<^sup>* new_server sv" "open_sctp_socket oks endpoint = Inr so"
  shows "unat (sv_next sv) < so_ostreams so \<and> so_ostreams so = so_instreams so \<and> so_ostreams so < 2 ^ 16"
  using run_next [OF assms(1)] inv_new_server assms(2)
  by (auto simp: sctp_inv_def open_sctp_socket_def max_streams_def split: if_splits)

theorem stream_in_range_witness:
  "\<exists>so :: sctp_socket. unat (sv_next demo_server) < so_ostreams so"
proof -
  have "open_sctp_socket [True, True, True, True, True, True, True] demo_peer =
      Inr (\<lparr>so_reuse = True, so_rcvinfo = True, so_assoc_change = True, so_ostreams = max_streams, so_instreams = max_streams,
        so_attempts = 0, so_timeout = 3000, so_addr = demo_peer, so_backlog = 4096\<rparr>)" (is "_ = Inr ?so")
    by (simp add: open_sctp_socket_def)
  from stream_in_range [OF r_into_rtranclp [where r = sctp_any, OF exI, OF sctp_step.data [OF demo_receive]] this]
  show ?thesis by (intro exI [of _ ?so]) blast
qed

text \<open>
  The I/O thread reads a counter that nobody wrote.  In the first turn, unless the program is
  already told to stop or a callback has made requests, the number of running transfers is not
  initialised when it is read; once it is, the loop ends with the turn in which it sees the
  terminate event, as long as libcurl can be woken.
\<close>
theorem io_counter_unwritten:
  "(iu_word t AND ctl_terminate_event = 0 \<longrightarrow> fst (iu_others t (None, m)) = None \<longrightarrow>
      io_loop (t # ts) None m = Inl (Undefined ''num_running_multi_handles_'')) \<and>
   ((\<exists>t \<in> set us. iu_word t AND ctl_terminate_event \<noteq> 0) \<longrightarrow>
    (\<forall>t \<in> set us. iu_wake t = CURLM_OK \<and> (\<forall>k m. fst (iu_others t (Some k, m)) \<noteq> None)) \<longrightarrow>
      (\<exists>n' m'. io_loop us (Some k) m = Inr (n', m')))"
proof (intro conjI impI)
  show "io_loop (t # ts) None m = Inl (Undefined ''num_running_multi_handles_'')"
    if "iu_word t AND ctl_terminate_event = 0" "fst (iu_others t (None, m)) = None"
    using that by (cases "iu_others t (None, m)") simp
  show "\<exists>n' m'. io_loop us (Some k) m = Inr (n', m')"
    if "\<exists>t \<in> set us. iu_word t AND ctl_terminate_event \<noteq> 0"
      "\<forall>t \<in> set us. iu_wake t = CURLM_OK \<and> (\<forall>k m. fst (iu_others t (Some k, m)) \<noteq> None)"
    using that
  proof (induction us arbitrary: k m)
    case (Cons u us)
    obtain n1 m1 where o: "iu_others u (Some k, m) = (n1, m1)" by (cases "iu_others u (Some k, m)")
    with Cons.prems(2) obtain j where j: "n1 = Some j" by (metis fst_conv list.set_intros(1) not_None_eq)
    obtain m2 where m2: "perform (iu_wake u) m1 = Inr m2" using performing.goes_through Cons.prems(2) by fastforce
    show ?case using Cons.IH Cons.prems o j m2 by auto
  qed simp
qed

theorem io_counter_unwritten_witness:
  "io_loop [\<lparr>iu_word = 0, iu_others = (\<lambda>s. s), iu_wake = CURLM_OK, iu_running = 0\<rparr>] None demo_multi =
     Inl (Undefined ''num_running_multi_handles_'')"
  using io_counter_unwritten [THEN conjunct1, of "\<lparr>iu_word = 0, iu_others = (\<lambda>s. s), iu_wake = CURLM_OK, iu_running = 0\<rparr>" demo_multi "[]"]
  by simp

end
