(* ===== verification/Lifetimes.thy ===== *)
theory Lifetimes
  imports ControllerIO
begin

text \<open>
  What is made at the beginning of something and undone at its end: the temporary directory of an
  execution context (\<open>execution-context.cpp\<close>), the sessions of a Unix server from \<open>accept\<close> and
  \<open>async_connect\<close> to the destructor (\<open>unix-server.cpp\<close>), and the end of the SCTP server
  (\<open>sctp-server.cpp\<close>).
\<close>

section \<open>The directory of a context\<close>

text \<open>\<open>path::operator/=\<close> is \<open>path_join\<close>; an absolute right operand replaces the left one.\<close>

definition context_directory :: "environment \<Rightarrow> string result" where
  "context_directory env = (case env ''__OW_ACTIVATION_ID'' of
     None \<Rightarrow> Inl (Thrown ''out_of_range'') | Some i \<Rightarrow> Inr (path_join ''/tmp'' i))"

text \<open>What the destructor removes; a failure of \<open>remove_all\<close> is only reported.\<close>

definition destroy_context :: "exec_context \<Rightarrow> string option result" where
  "destroy_context c =
     (if ec_route c = RUN then rbind (context_directory (ec_env c)) (\<lambda>d. Inr (Some d)) else Inr None)"

section \<open>The Unix server\<close>

text \<open>A session is its number; \<open>ux_called\<close> are the completion functions called, with what they got.\<close>

record unix_server =
  ux_listed :: "nat list"
  ux_fresh :: nat
  ux_accepting :: bool
  ux_called :: "(bool \<times> nat) list"

definition new_unix_server :: unix_server where
  "new_unix_server = \<lparr>ux_listed = [], ux_fresh = 0, ux_accepting = False, ux_called = []\<rparr>"

text \<open>
  The answers of \<open>async_accept\<close> so far, in order: whether there was a connection.  When all are used
  up the last call waits.
\<close>

fun unix_accept :: "bool list \<Rightarrow> unix_server \<Rightarrow> unix_server" where
  "unix_accept [] sv = sv\<lparr>ux_accepting := True\<rparr>"
| "unix_accept (ok # oks) sv =
     (if ok then unix_accept oks (sv\<lparr>ux_listed := ux_listed sv @ [ux_fresh sv], ux_fresh := ux_fresh sv + 1,
        ux_called := ux_called sv @ [(True, ux_fresh sv)]\<rparr>)
      else sv\<lparr>ux_accepting := False\<rparr>)"

definition unix_connect :: "bool \<Rightarrow> unix_server \<Rightarrow> unix_server" where
  "unix_connect ok sv =
     (let sv1 = (if ok then sv\<lparr>ux_listed := ux_listed sv @ [ux_fresh sv]\<rparr> else sv)
      in sv1\<lparr>ux_fresh := ux_fresh sv + 1, ux_called := ux_called sv @ [(ok, ux_fresh sv)]\<rparr>)"

definition unix_close :: "nat \<Rightarrow> unix_server \<Rightarrow> unix_server" where
  "unix_close p sv = sv\<lparr>ux_listed := erase_first (\<lambda>q. q = p) (ux_listed sv)\<rparr>"

text \<open>The destructor, which also removes the file of the socket.\<close>

definition unix_destroy :: "string \<Rightarrow> string set \<Rightarrow> unix_server \<Rightarrow> string set \<times> unix_server" where
  "unix_destroy path files sv = (files - {path}, sv\<lparr>ux_listed := []\<rparr>)"

section \<open>The end of the SCTP server\<close>

definition sctp_stop :: "sctp_server \<Rightarrow> sctp_server" where
  "sctp_stop sv = sv\<lparr>sv_listed := []\<rparr>"

text \<open>The destructor; whether the socket could be closed is only reported.\<close>

definition sctp_destroy :: "int \<Rightarrow> sctp_server \<Rightarrow> int list \<times> sctp_server" where
  "sctp_destroy fd sv = ([fd], sctp_stop sv)"

section \<open>Properties\<close>

lemma finish_context_directory:
  assumes "finish_context w u i ps env m = Inr c"
  shows "ec_route c = RUN \<and> context_directory (ec_env c) = context_directory env \<and> (\<exists>d. context_directory env = Inr d)"
  using assms by (auto simp: finish_context_def context_directory_def split: option.split_asm if_split_asm)

text \<open>
  The directory of a run.  A context that a request for a run makes is destroyed without an
  exception, and what its destructor removes, whatever is in it, is the path that its constructor
  made a directory at: \<open>/tmp\<close> with the activation id, or, when that id is an absolute path, the
  id itself.
\<close>
theorem run_directory_removed:
  assumes "run_handle w req cs = (Inr (Inr c), cs')"
  shows "\<exists>i. rr_env req ''__OW_ACTIVATION_ID'' = Some i \<and> context_directory (rr_env req) = Inr (path_join ''/tmp'' i) \<and>
    destroy_context c = Inr (Some (path_join ''/tmp'' i)) \<and>
    path_join ''/tmp'' i = (if i \<noteq> [] \<and> hd i = CHR ''/'' then i else ''/tmp/'' @ i)"
proof -
  have "\<exists>c0. (run_context w (rr_env req) = Inr c0 \<or> (\<exists>u i ps. peer_context w u i ps (rr_env req) = Inr c0)) \<and>
      ec_env c = ec_env c0 \<and> ec_route c = ec_route c0"
    using assms by (force simp: run_handle_def Let_def rbind_Inr_iff with_threads_def split: if_split_asm)
  then obtain c0 where c0: "run_context w (rr_env req) = Inr c0 \<or> (\<exists>u i ps. peer_context w u i ps (rr_env req) = Inr c0)"
    and c: "ec_env c = ec_env c0" "ec_route c = ec_route c0" by blast
  from c0 have "ec_route c0 = RUN \<and> context_directory (ec_env c0) = context_directory (rr_env req) \<and> (\<exists>d. context_directory (rr_env req) = Inr d)"
    by (auto simp: run_context_def peer_context_def dest!: finish_context_directory elim!: rbind_InrE split: option.split_asm)
  with c show ?thesis
    by (auto simp: destroy_context_def context_directory_def path_join_def split: option.split_asm)
qed

text \<open>
  The end of accepting.  A Unix server takes up the connections in the order in which they arrive,
  each as a new session of its list, until the first one that fails; after that it accepts nothing
  more, however many connections could have been accepted.
\<close>
theorem accept_ends_on_error:
  "ux_listed (unix_accept oks sv) = ux_listed sv @ [ux_fresh sv..<ux_fresh sv + length (takeWhile (\<lambda>ok. ok) oks)] \<and>
   ux_called (unix_accept oks sv) = ux_called sv @ map (Pair True) [ux_fresh sv..<ux_fresh sv + length (takeWhile (\<lambda>ok. ok) oks)] \<and>
   ux_accepting (unix_accept oks sv) = list_all (\<lambda>ok. ok) oks"
  by (induction oks sv rule: unix_accept.induct) (simp_all add: upt_conv_Cons del: upt_Suc)

end
