(* ===== verification/Shutdown.thy ===== *)
theory Shutdown
  imports Routing
begin

text \<open>
  The end of the process: \<open>Controller::stop\<close>, which the destructor calls, the scheduling loop and the
  thread of \<open>IO::start\<close>, which looks at the same event word.  The completion of a connect or of a
  write, and the arrival of text, are handlers that run on the I/O thread.
\<close>

record 'j process =
  pc_ctl :: "'j controller"
  pc_queue :: "(nat \<times> string) list"
  pc_io :: bool
  pc_ended :: bool

text \<open>The part of \<open>stop()\<close> before it waits for the loop to end.\<close>

definition stop_request :: "'j controller \<Rightarrow> 'j controller" where
  "stop_request ct = ct\<lparr>ct_box := or (ct_box ct) ctl_terminate_event\<rparr>"

text \<open>The test of the I/O thread, between two slices of 200 ms in which it runs handlers.\<close>

definition io_leaves :: "'j controller \<Rightarrow> bool" where
  "io_leaves ct \<longleftrightarrow> and (ct_box ct) ctl_terminate_event \<noteq> 0"

text \<open>
  The steps.  After an exception in the handling of a response (\<open>threw\<close>) the state is arbitrary.
\<close>

inductive process_step :: "'j params \<Rightarrow> 'j process \<Rightarrow> 'j process \<Rightarrow> bool" for P where
  stop: "process_step P p (p\<lparr>pc_ctl := stop_request (pc_ctl p)\<rparr>)"
| io_exit: "io_leaves (pc_ctl p) \<Longrightarrow> process_step P p (p\<lparr>pc_io := False\<rparr>)"
| arrive: "pc_io p \<Longrightarrow> \<not> mq_is_full (pc_queue p) \<Longrightarrow>
    process_step P p (p\<lparr>pc_queue := mq_push m (pc_queue p),
      pc_ctl := (pc_ctl p)\<lparr>ct_box := or (ct_box (pc_ctl p)) ctl_read_event\<rparr>\<rparr>)"
| connected: "pc_io p \<Longrightarrow> i < length (ct_connects (pc_ctl p)) \<Longrightarrow> connect_done ok i t (pc_ctl p) = Inr ct \<Longrightarrow>
    process_step P p (p\<lparr>pc_ctl := ct\<rparr>)"
| written: "pc_io p \<Longrightarrow> i < length (ct_closing (pc_ctl p)) \<Longrightarrow>
    process_step P p (p\<lparr>pc_ctl := write_done i (pc_ctl p)\<rparr>)"
| broken_server: "pc_io p \<Longrightarrow> process_step P p (p\<lparr>pc_ctl := close_server i (pc_ctl p)\<rparr>)"
| broken_client: "pc_io p \<Longrightarrow> process_step P p (p\<lparr>pc_ctl := close_client i (pc_ctl p)\<rparr>)"
| executed: "k < length (ct_ctxs (pc_ctl p)) \<Longrightarrow> j < length (threads (sched_of (pc_ctl p) k)) \<Longrightarrow>
    process_step P p (p\<lparr>pc_ctl := put_sched k (executor_end j v (sched_of (pc_ctl p) k)) (pc_ctl p)\<rparr>)"
| turn: "\<not> pc_ended p \<Longrightarrow> mq_pull (pc_queue p) = (msg, q) \<Longrightarrow>
    loop_turn P (ct_box (pc_ctl p)) msg (pc_ctl p) = Inr (Routed ct) \<Longrightarrow>
    process_step P p (p\<lparr>pc_ctl := ct, pc_queue := q\<rparr>)"
| threw: "\<not> pc_ended p \<Longrightarrow> mq_pull (pc_queue p) = (msg, q) \<Longrightarrow>
    loop_turn P (ct_box (pc_ctl p)) msg (pc_ctl p) = Inr (ClientThrew s e) \<Longrightarrow>
    process_step P p (p\<lparr>pc_ctl := ct, pc_queue := q\<rparr>)"
| ended: "\<not> pc_ended p \<Longrightarrow> mq_pull (pc_queue p) = (msg, q) \<Longrightarrow>
    loop_turn P (ct_box (pc_ctl p)) msg (pc_ctl p) = Inr LoopEnded \<Longrightarrow>
    process_step P p (p\<lparr>pc_ended := True, pc_queue := q\<rparr>)"

inductive_cases process_stepE: "process_step P p p'"

section \<open>The loop does not touch the list of server sessions in its passes\<close>

lemma rfold_hs:
  assumes "rfold f xs ct = Inr ct'" "\<And>x ct ct'. f x ct = Inr ct' \<Longrightarrow> ct_hs ct' = ct_hs ct"
  shows "ct_hs ct' = ct_hs ct"
  using rfold_invariant [of f xs ct ct' "\<lambda>c. ct_hs c = ct_hs ct"] assms by simp

lemma put_sched_hs [simp]: "ct_hs (put_sched k s ct) = ct_hs ct"
  by (simp add: put_sched_def)

lemma finish_at_hs: "finish_at P k ct = Inr ct' \<Longrightarrow> ct_hs ct' = ct_hs ct"
  by (elim finish_atE)
    (auto dest!: rfold_hs simp: answer_waiting_def end_server_def on_session_fields elim!: rbind_InrE)

lemma finish_loop_hs: "finish_loop n P ct = Inr ct' \<Longrightarrow> ct_hs ct' = ct_hs ct"
proof (induction n arbitrary: ct)
  case (Suc n)
  then show ?case by (auto simp: Let_def dest: finish_at_hs elim!: rbind_InrE split: if_split_asm)
qed simp

lemma update_at_hs: "update_at P k ct = Inr ct' \<Longrightarrow> ct_hs ct' = ct_hs ct"
  by (elim update_atE)
    (auto simp: tell_data_def on_sched_def Let_def on_session_fields dest!: rfold_hs elim!: rbind_InrE split: if_split_asm)

lemma sched_pass_hs:
  assumes "sched_pass P ct = Inr ct'"
  shows "ct_hs ct' = ct_hs ct"
proof -
  obtain ct1 where "finish_loop (Suc (length (ct_ctxs ct))) P ct = Inr ct1" "update_pass P ct1 = Inr ct'"
    using assms by (auto simp: sched_pass_def simp del: finish_loop.simps elim!: rbind_InrE)
  then show ?thesis
    by (auto simp: update_pass_def simp del: finish_loop.simps dest!: finish_loop_hs rfold_hs intro: update_at_hs split: if_split_asm)
qed

lemma idle_turn_hs:
  assumes "loop_turn P l None ct = Inr r" "ct_hs ct \<noteq> []"
  shows "\<exists>ct'. r = Routed ct' \<and> ct_hs ct' = ct_hs ct"
  using assms by (auto simp: loop_turn_def Let_def then_pass_def routed_def elim!: rbind_InrE dest!: sched_pass_hs split: if_split_asm)

section \<open>Properties\<close>

definition stranded :: "nat list \<Rightarrow> 'j process \<Rightarrow> bool" where
  "stranded hs p \<longleftrightarrow> \<not> pc_io p \<and> \<not> pc_ended p \<and> pc_queue p = [] \<and> ct_hs (pc_ctl p) = hs"

lemma stranded_step: "process_step P p p' \<Longrightarrow> hs \<noteq> [] \<Longrightarrow> stranded hs p \<Longrightarrow> stranded hs p'"
  by (induction rule: process_step.induct)
    (auto simp: stranded_def stop_request_def mq_pull_def dest!: idle_turn_hs)

text \<open>
  C40: Stopping with an open session.  Once the thread of \<open>IO::start\<close> has left its loop, which it does as soon as the stop is
  requested, a scheduling loop that has an open server session and no message never ends, and
  the destructor of the controller waits for ever: the session would be taken off the list by the
  completion of its last write, and nobody runs that any more.
\<close>
theorem shutdown_hangs:
  assumes "(process_step P)\<^sup>*\<^sup>* p p'" "\<not> pc_io p" "\<not> pc_ended p" "pc_queue p = []" "ct_hs (pc_ctl p) \<noteq> []"
  shows "\<not> pc_ended p' \<and> ct_hs (pc_ctl p') = ct_hs (pc_ctl p)"
proof -
  have "stranded (ct_hs (pc_ctl p)) p'"
    using assms(1)
  proof (induction rule: rtranclp_induct)
    case base
    then show ?case using assms(2-4) by (simp add: stranded_def)
  next
    case (step y z)
    then show ?case using assms(5) by (blast intro: stranded_step)
  qed
  then show ?thesis by (simp add: stranded_def)
qed

theorem shutdown_hangs_witness:
  "\<exists>p p'. (process_step (demo_params []))\<^sup>*\<^sup>* \<lparr>pc_ctl = demo_ctl, pc_queue = [], pc_io = True, pc_ended = False\<rparr> p \<and>
    (process_step (demo_params []))\<^sup>+\<^sup>+ p p' \<and> \<not> pc_io p \<and> io_leaves (pc_ctl p) \<and> ct_ctxs (pc_ctl p) = [] \<and>
    \<not> pc_ended p' \<and> ct_hs (pc_ctl p') = [0]"
proof -
  let ?P = "demo_params []" and ?t = "''POST /run ''"
  obtain s where s: "server_read (fill ?t new_session) = Inr s" "verb_started (hs_request s)"
    "next_chunk (hs_request s) = 0" "req_route (hs_request s) = ''/run''"
    using demo_segment by blast
  let ?ct = "(add_session 7 s demo_ctl)\<lparr>ct_hs := ct_hs demo_ctl @ [0]\<rparr>"
  let ?p0 = "\<lparr>pc_ctl = demo_ctl, pc_queue = [], pc_io = True, pc_ended = False\<rparr>"
  let ?p1 = "?p0\<lparr>pc_queue := mq_push (7, ?t) [], pc_ctl := demo_ctl\<lparr>ct_box := or (ct_box demo_ctl) ctl_read_event\<rparr>\<rparr>"
  let ?p2 = "?p1\<lparr>pc_ctl := ?ct, pc_queue := []\<rparr>"
  let ?p3 = "?p2\<lparr>pc_ctl := stop_request ?ct\<rparr>"
  let ?p4 = "?p3\<lparr>pc_io := False\<rparr>"
  have z: "ct_box demo_ctl = 0" "ct_hs demo_ctl = []" "ct_hcs demo_ctl = []" "ct_ctxs demo_ctl = []"
    by (simp_all add: demo_ctl_def new_controller_def)
  have e: "and ctl_read_event ctl_end_event = 0" "and ctl_read_event ctl_terminate_event = 0"
    "and ctl_terminate_event ctl_end_event = 0" "and ctl_terminate_event (not ctl_terminate_event) = 0"
    by (simp_all add: ctl_read_event_def ctl_end_event_def ctl_terminate_event_def)
  have "server_turn ?P 7 ?t demo_ctl = Inr ?ct"
    by (rule new_session_turn [OF _ _ _ s(1-3)]) (simp_all add: demo_ctl_def new_controller_def s(4))
  moreover have "(pc_ctl ?p1)\<lparr>ct_box := clear_events (ct_box (pc_ctl ?p1)) (ct_box (pc_ctl ?p1))\<rparr> = demo_ctl"
    by (simp add: demo_ctl_def new_controller_def clear_events_def ctl_read_event_def ctl_terminate_event_def)
  ultimately have t: "loop_turn ?P (ct_box (pc_ctl ?p1)) (Some (7, ?t)) (pc_ctl ?p1) = Inr (Routed ?ct)"
    by (simp add: loop_turn_def take_message_def Let_def routed_def then_pass_def z e)
  have "process_step ?P ?p0 ?p1"
    using process_step.arrive [of ?p0 ?P "(7, ?t)"] by (simp add: mq_is_full_def max_queue_length_def)
  moreover have "process_step ?P ?p1 ?p2"
    using process_step.turn [OF _ _ t] by (simp add: mq_pull_def mq_push_def)
  moreover have "process_step ?P ?p2 ?p3" using process_step.stop [of ?P ?p2] by simp
  moreover have "process_step ?P ?p3 ?p4"
    using process_step.io_exit [of ?p3 ?P] by (simp add: io_leaves_def stop_request_def z add_session_def ctl_terminate_event_def)
  ultimately have run: "(process_step ?P)\<^sup>*\<^sup>* ?p0 ?p4" by (meson converse_rtranclp_into_rtranclp rtranclp.rtrancl_refl)
  have "loop_turn ?P (ct_box (stop_request ?ct)) None (stop_request ?ct) = Inr (Routed (stop_request ?ct))"
    by (simp add: loop_turn_def Let_def then_pass_def stop_request_def clear_events_def add_session_def z e)
  then have "(process_step ?P)\<^sup>+\<^sup>+ ?p4 ?p4"
    using process_step.turn [of ?p4 None "[]" ?P "stop_request ?ct"] by (simp add: mq_pull_def tranclp.r_into_trancl)
  with run shutdown_hangs [OF tranclp_into_rtranclp, of ?P ?p4 ?p4] show ?thesis
    by (intro exI [of _ ?p4]) (simp add: io_leaves_def stop_request_def add_session_def z ctl_terminate_event_def)
qed

lemma take_message_goes_on: "take_message P t text ct = Inr r \<Longrightarrow> r \<noteq> LoopEnded"
  by (auto simp: take_message_def client_turn_def routed_def Let_def elim!: rbind_InrE
      split: if_split_asm sum.split_asm cpp_error.split_asm)

lemma then_pass_goes_on: "then_pass P b r = Inr LoopEnded \<Longrightarrow> r = LoopEnded"
  by (auto simp: then_pass_def routed_def elim!: rbind_InrE split: turn.split_asm if_split_asm)

text \<open>
  When the loop ends: exactly in a turn whose copy of the event word has the terminate event while
  the controller has no session and no context, and not because of anything a message, a reply or a pass does.
\<close>
theorem loop_ends_iff:
  "loop_turn P l msg ct = Inr LoopEnded \<longleftrightarrow>
     and l ctl_terminate_event \<noteq> 0 \<and> ct_hs ct = [] \<and> ct_ctxs ct = [] \<and> ct_hcs ct = []"
  by (auto simp: loop_turn_def Let_def elim!: rbind_InrE dest!: then_pass_goes_on dest: take_message_goes_on
      split: option.split_asm if_split_asm)

text \<open>
  A controller that was made and stopped before anything happened: the next turn ends the loop.
\<close>
theorem idle_shutdown:
  "process_step P \<lparr>pc_ctl = stop_request (new_controller here proc q), pc_queue = [], pc_io = io, pc_ended = False\<rparr>
     \<lparr>pc_ctl = stop_request (new_controller here proc q), pc_queue = [], pc_io = io, pc_ended = True\<rparr>"
proof -
  let ?p = "\<lparr>pc_ctl = stop_request (new_controller here proc q), pc_queue = [], pc_io = io, pc_ended = False\<rparr>"
  have "loop_turn P (ct_box (pc_ctl ?p)) None (pc_ctl ?p) = Inr LoopEnded"
    unfolding loop_ends_iff by (simp add: stop_request_def new_controller_def ctl_terminate_event_def)
  then have "process_step P ?p (?p\<lparr>pc_ended := True, pc_queue := []\<rparr>)"
    by (intro process_step.ended) (simp_all add: mq_pull_def)
  then show ?thesis by simp
qed

end
