(* ===== verification/LuaCurl.thy ===== *)
theory LuaCurl
  imports Prelude
begin

text \<open>
  The module \<open>easyCurl\<close> for Lua scripts (\<open>lua-easy-curl.c\<close>).  A C function of the module takes the
  values on the stack of Lua and returns values or raises an error of Lua; it changes the world of C
  objects below: streams, buffers, handles and lists of libcurl.  A pointer is a number, 0 is
  \<open>NULL\<close>; to use one that is not (or no longer) the object that is needed is \<open>Undefined\<close>.
\<close>

section \<open>Lua values and the C objects\<close>

text \<open>A number is given by \<open>lua_tointeger\<close>, which has no result for one with a fraction.\<close>

datatype lua_value = LNil | LBool bool | LNumber "64 word option" | LString string | LUser nat | LOther

datatype lua_return = Returns "lua_value list" | Raises string

datatype easy_value = VString string | VLong "64 word" | VPointer nat

datatype c_object =
    FileStream string bool
  | MemStream nat bool
  | Buffer nat string
  | Easy "nat \<Rightarrow> easy_value option" "64 word"
  | Slist "string list"

record c_world =
  cw_objs :: "nat \<Rightarrow> c_object option"
  cw_fresh :: nat
  cw_files :: "string \<Rightarrow> string"

type_synonym lua_result = "(lua_return \<times> c_world) result"

text \<open>
  The C library answers whether a file opens (for writing or reading) and whether \<open>fmemopen\<close> succeeds.  The
  functions of libcurl are arguments too: the number and kind of an option by its name, and what
  the calls do to the world; what the theorems rely on is \<open>curl_laws\<close> and \<open>slist_laws\<close> below.
\<close>

datatype option_kind = KLong | KString | KPointer

record c_os =
  os_fopen :: "string \<Rightarrow> bool \<Rightarrow> bool"
  os_fmemopen :: "nat \<Rightarrow> bool"
  os_easy_init :: "c_world \<Rightarrow> nat \<times> c_world"
  os_option :: "string \<Rightarrow> (nat \<times> option_kind) option"
  os_setopt :: "nat \<Rightarrow> nat \<Rightarrow> easy_value \<Rightarrow> c_world \<Rightarrow> c_world result"
  os_perform :: "nat \<Rightarrow> c_world \<Rightarrow> (64 word \<times> c_world) result"
  os_getinfo :: "nat \<Rightarrow> c_world \<Rightarrow> 64 word result"
  os_cleanup :: "nat \<Rightarrow> c_world \<Rightarrow> c_world result"
  os_append :: "nat \<Rightarrow> string \<Rightarrow> c_world \<Rightarrow> (nat \<times> c_world) result"
  os_free_all :: "nat \<Rightarrow> c_world \<Rightarrow> c_world result"

definition max_buf_size :: nat where
  "max_buf_size = 8388608"

definition nul :: char where
  "nul = CHR 0x00"

definition allocate :: "c_object \<Rightarrow> c_world \<Rightarrow> nat \<times> c_world" where
  "allocate x w = (cw_fresh w, w\<lparr>cw_objs := (cw_objs w)(cw_fresh w \<mapsto> x), cw_fresh := cw_fresh w + 1\<rparr>)"

definition release :: "nat \<Rightarrow> c_world \<Rightarrow> c_world" where
  "release p w = w\<lparr>cw_objs := (cw_objs w)(p := None)\<rparr>"

definition c_string :: "string \<Rightarrow> string" where
  "c_string s = takeWhile (\<lambda>c. c \<noteq> nul) s"

definition fclose :: "nat \<Rightarrow> c_world \<Rightarrow> c_world result" where
  "fclose p w = (case cw_objs w p of
     Some (FileStream _ _) \<Rightarrow> Inr (release p w)
   | Some (MemStream _ _) \<Rightarrow> Inr (release p w)
   | _ \<Rightarrow> Inl (Undefined ''fclose''))"

definition free_buffer :: "nat \<Rightarrow> c_world \<Rightarrow> c_world result" where
  "free_buffer p w = (if p = 0 then Inr w else (case cw_objs w p of
     Some (Buffer _ _) \<Rightarrow> Inr (release p w) | _ \<Rightarrow> Inl (Undefined ''free'')))"

text \<open>
  What is written to a memory stream goes into its buffer as long as there is room; a null byte follows
  when there is room for it.  \<open>lua_pushstring\<close> reads a buffer up to the first null byte.
\<close>

definition stream_write :: "nat \<Rightarrow> string \<Rightarrow> c_world \<Rightarrow> c_world result" where
  "stream_write p s w = (case cw_objs w p of
     Some (FileStream f True) \<Rightarrow> Inr (w\<lparr>cw_files := (cw_files w)(f := cw_files w f @ s)\<rparr>)
   | Some (MemStream b True) \<Rightarrow> (case cw_objs w b of
       Some (Buffer n t) \<Rightarrow> Inr (w\<lparr>cw_objs := (cw_objs w)(b \<mapsto> Buffer n (take n (t @ s)))\<rparr>)
     | _ \<Rightarrow> Inl (Undefined ''fwrite''))
   | _ \<Rightarrow> Inl (Undefined ''fwrite''))"

definition buffer_text :: "nat \<Rightarrow> c_world \<Rightarrow> lua_value result" where
  "buffer_text p w = (if p = 0 then Inr LNil else (case cw_objs w p of
     Some (Buffer n t) \<Rightarrow> if nul \<in> set t \<or> length t < n then Inr (LString (c_string t))
       else Inl (Undefined ''lua_pushstring'')
   | _ \<Rightarrow> Inl (Undefined ''lua_pushstring'')))"

section \<open>Streams and buffers\<close>

definition raises :: "string \<Rightarrow> c_world \<Rightarrow> lua_result" where
  "raises m w = Inr (Raises m, w)"

definition returns :: "lua_value list \<Rightarrow> c_world \<Rightarrow> lua_result" where
  "returns vs w = Inr (Returns vs, w)"

definition open_readdata_from_file :: "c_os \<Rightarrow> lua_value list \<Rightarrow> c_world \<Rightarrow> lua_result" where
  "open_readdata_from_file os args w =
     (if length args \<noteq> 1 then raises ''This function takes 1 argument.'' w
      else (case args ! 0 of
        LString path \<Rightarrow>
          if \<not> os_fopen os (c_string path) False then returns [LNil] w
          else (case allocate (FileStream (c_string path) False) w of (p, w1) \<Rightarrow> returns [LUser p] w1)
      | _ \<Rightarrow> raises ''The first argument must be absolute path string i.e. /home/user/data/file.txt'' w))"

definition close_readdata_from_file :: "c_os \<Rightarrow> lua_value list \<Rightarrow> c_world \<Rightarrow> lua_result" where
  "close_readdata_from_file os args w =
     (if length args \<noteq> 1 then raises ''This function takes 1 argument.'' w
      else (case args ! 0 of
        LUser p \<Rightarrow> rbind (fclose p w) (returns [LNil])
      | _ \<Rightarrow> raises ''The first argument must be a FILE* stream.'' w))"

text \<open>The pointer to the stream is not tested: it is 0 when \<open>fmemopen\<close> fails.\<close>

definition new_readbuf :: "c_os \<Rightarrow> lua_value list \<Rightarrow> c_world \<Rightarrow> lua_result" where
  "new_readbuf os args w =
     (if length args \<noteq> 1 then raises ''This function takes 1 argument.'' w
      else (case args ! 0 of
        LString s \<Rightarrow>
          (let data = c_string s in
           case allocate (Buffer (length data) data) w of (b, w1) \<Rightarrow>
             if os_fmemopen os (length data)
             then (case allocate (MemStream b False) w1 of (p, w2) \<Rightarrow> returns [LUser b, LUser p] w2)
             else returns [LUser b, LUser 0] w1)
      | _ \<Rightarrow> raises ''The first argument must be of type string.'' w))"

definition close_readbuf :: "c_os \<Rightarrow> lua_value list \<Rightarrow> c_world \<Rightarrow> lua_result" where
  "close_readbuf os args w =
     (if length args \<noteq> 2 then raises ''This function takes two arguments.'' w
      else (case args ! 1 of
        LUser p \<Rightarrow> rbind (fclose p w) (\<lambda>w1.
          (case args ! 0 of
             LUser b \<Rightarrow> rbind (free_buffer b w1) (returns [LNil, LNil])
           | _ \<Rightarrow> raises ''The first argument must be a void* buffer.'' w1))
      | _ \<Rightarrow> raises ''The second argument must be a FILE* stream.'' w))"

definition new_writebuf :: "c_os \<Rightarrow> lua_value list \<Rightarrow> c_world \<Rightarrow> lua_result" where
  "new_writebuf os args w =
     (if length args \<noteq> 0 then raises ''This function takes no arguments.'' w
      else (case allocate (Buffer max_buf_size []) w of (b, w1) \<Rightarrow>
        if \<not> os_fmemopen os max_buf_size then raises ''fmemopen failed.'' w1
        else (case allocate (MemStream b True) w1 of (p, w2) \<Rightarrow> returns [LUser b, LUser p] w2)))"

definition close_writebuf :: "c_os \<Rightarrow> lua_value list \<Rightarrow> c_world \<Rightarrow> lua_result" where
  "close_writebuf os args w =
     (if length args \<noteq> 2 then raises ''This function takes 2 arguments.'' w
      else (case args ! 1 of
        LUser p \<Rightarrow> rbind (fclose p w) (\<lambda>w1.
          (case args ! 0 of
             LUser b \<Rightarrow> rbind (buffer_text b w1) (\<lambda>v. rbind (free_buffer b w1) (returns [v, LNil]))
           | _ \<Rightarrow> raises ''The first argument must be of type void* buf'' w1))
      | _ \<Rightarrow> raises ''The second argument must be of type FILE* stream'' w))"

text \<open>When \<open>fopen\<close> fails the case for a string falls through to the default.\<close>

definition open_writedata_file :: "c_os \<Rightarrow> lua_value list \<Rightarrow> c_world \<Rightarrow> lua_result" where
  "open_writedata_file os args w =
     (if length args \<noteq> 1 then raises ''This function takes one argument.'' w
      else (let other = raises ''The first argument must be a path string to a file.'' w in
        case args ! 0 of
          LString path \<Rightarrow>
            if \<not> os_fopen os (c_string path) True then other
            else (case allocate (FileStream (c_string path) True) w of
              (p, w1) \<Rightarrow> returns [LUser p] (w1\<lparr>cw_files := (cw_files w1)(c_string path := [])\<rparr>))
        | _ \<Rightarrow> other))"

definition close_writedata_file :: "c_os \<Rightarrow> lua_value list \<Rightarrow> c_world \<Rightarrow> lua_result" where
  "close_writedata_file os args w =
     (if length args \<noteq> 1 then raises ''This function takes one argument.'' w
      else (case args ! 0 of
        LUser p \<Rightarrow> rbind (fclose p w) (returns [LNil])
      | _ \<Rightarrow> raises ''The first argument must be a FILE* stream.'' w))"

section \<open>Handles\<close>

definition lua_easy_init :: "c_os \<Rightarrow> lua_value list \<Rightarrow> c_world \<Rightarrow> lua_result" where
  "lua_easy_init os args w =
     (case os_easy_init os w of (p, w1) \<Rightarrow> returns [LUser p] w1)"

text \<open>A name that is none of these leaves the argument on the stack, and it is the result.\<close>

definition http_version_values :: "(string \<times> 64 word) list" where
  "http_version_values = [(''1.0'', 1), (''1.1'', 2), (''2.0'', 3), (''2TLS'', 4), (''2_PRIOR_KNOWLEDGE'', 5),
     (''3.0'', 30), (''3_ONLY'', 31)]"

definition lua_http_version :: "c_os \<Rightarrow> lua_value list \<Rightarrow> c_world \<Rightarrow> lua_result" where
  "lua_http_version os args w =
     (if length args \<noteq> 1 then raises ''This function must take 1 argument.'' w
      else (case args ! 0 of
        LString s \<Rightarrow> (case map_of http_version_values (c_string s) of
            Some v \<Rightarrow> returns [LNumber (Some v)] w
          | None \<Rightarrow> returns [LString s] w)
      | _ \<Rightarrow> raises ''The argument must be a string.'' w))"

text \<open>The third argument, by its type; \<open>None\<close> for a light user data value with another option.\<close>

definition easy_parameter :: "string \<Rightarrow> lua_value \<Rightarrow> string + easy_value" where
  "easy_parameter name v = (case v of
     LString s \<Rightarrow> Inr (VString (c_string s))
   | LNumber n \<Rightarrow> Inr (VLong (case n of None \<Rightarrow> 0 | Some k \<Rightarrow> k))
   | LUser p \<Rightarrow>
       if name = ''WRITEDATA'' \<or> name = ''READDATA'' then Inr (VPointer p)
       else if name = ''HTTPHEADER'' then Inr (VPointer p)
       else Inl ''The third argument was a LIGHTUSERDATA, but it was not a WRITEDATA, a READDATA, or a HTTPHEADER.''
   | _ \<Rightarrow> Inl ''The third argument was not a STRING, a NUMBER, or a LIGHTUSERDATA.'')"

text \<open>The result of \<open>curl_easy_setopt\<close> is stored and not looked at.\<close>

definition easy_setopt :: "c_os \<Rightarrow> lua_value list \<Rightarrow> c_world \<Rightarrow> lua_result" where
  "easy_setopt os args w =
     (if length args \<noteq> 3 then raises ''This function must take 3 arguments!'' w
      else (case args ! 0 of
        LUser hnd \<Rightarrow> (case args ! 1 of
          LString name \<Rightarrow> (case easy_parameter (c_string name) (args ! 2) of
            Inl m \<Rightarrow> raises m w
          | Inr v \<Rightarrow> (case os_option os (c_string name) of
              Some opt \<Rightarrow> rbind (os_setopt os hnd (fst opt) v w) (returns [])
            | None \<Rightarrow> raises ''The option string passed in is not a valid CURL easy option parameter.'' w))
        | _ \<Rightarrow> raises ''The second argument must be a CURL easy option string.'' w)
      | _ \<Rightarrow> raises ''The first argument must be a CURL* handle'' w))"

definition easy_perform :: "c_os \<Rightarrow> lua_value list \<Rightarrow> c_world \<Rightarrow> lua_result" where
  "easy_perform os args w =
     (if length args \<noteq> 1 then raises ''This function must take 1 argument.'' w
      else (case args ! 0 of
        LUser hnd \<Rightarrow> rbind (os_perform os hnd w) (\<lambda>(res, w1). returns [LNumber (Some res)] w1)
      | _ \<Rightarrow> raises ''The function argument must be a CURL* easy handle.'' w))"

definition easy_cleanup :: "c_os \<Rightarrow> lua_value list \<Rightarrow> c_world \<Rightarrow> lua_result" where
  "easy_cleanup os args w =
     (if length args \<noteq> 1 then raises ''This function must take 1 argument.'' w
      else (case args ! 0 of
        LUser hnd \<Rightarrow> rbind (os_cleanup os hnd w) (returns [LNil])
      | _ \<Rightarrow> raises ''The function argument must be a CURL* easy handle.'' w))"

definition easy_getinfo :: "c_os \<Rightarrow> lua_value list \<Rightarrow> c_world \<Rightarrow> lua_result" where
  "easy_getinfo os args w =
     (if length args \<noteq> 2 then raises ''This function must take 2 arguments.'' w
      else (case args ! 0 of
        LUser hnd \<Rightarrow> (case args ! 1 of
          LString name \<Rightarrow>
            if c_string name = ''RESPONSE_CODE''
            then rbind (os_getinfo os hnd w) (\<lambda>code. returns [LNumber (Some code)] w)
            else raises ''easy_getinfo does not support this option yet.'' w
        | _ \<Rightarrow> raises ''The second function argument must be a CURL_INFO Option string.'' w)
      | _ \<Rightarrow> raises ''The first function argument must be a CURL* easy handle.'' w))"

section \<open>Lists\<close>

definition new_slist :: "c_os \<Rightarrow> lua_value list \<Rightarrow> c_world \<Rightarrow> lua_result" where
  "new_slist os args w = returns [LUser 0] w"

definition slist_append :: "c_os \<Rightarrow> lua_value list \<Rightarrow> c_world \<Rightarrow> lua_result" where
  "slist_append os args w =
     (if length args \<noteq> 2 then raises ''This function must take 2 arguments.'' w
      else (case args ! 0 of
        LUser p \<Rightarrow> (case args ! 1 of
          LString s \<Rightarrow> rbind (os_append os p (c_string s) w) (\<lambda>(q, w1). returns [LUser q] w1)
        | _ \<Rightarrow> raises ''This function must take a string as its second argument.'' w)
      | _ \<Rightarrow> raises ''This function must take a curl_slist* as its first argument.'' w))"

definition slist_free_all :: "c_os \<Rightarrow> lua_value list \<Rightarrow> c_world \<Rightarrow> lua_result" where
  "slist_free_all os args w =
     (if length args \<noteq> 1 then raises ''This function must take 1 argument.'' w
      else (case args ! 0 of
        LUser p \<Rightarrow> rbind (os_free_all os p w) (returns [LNil])
      | _ \<Rightarrow> raises ''This function must take a curl_slist* as its argument.'' w))"

section \<open>The module\<close>

definition easyCurl :: "(string \<times> (c_os \<Rightarrow> lua_value list \<Rightarrow> c_world \<Rightarrow> lua_result)) list" where
  "easyCurl = [(''easy_cleanup'', easy_cleanup), (''easy_perform'', easy_perform), (''http_version'', lua_http_version),
     (''easy_setopt'', easy_setopt), (''easy_init'', lua_easy_init), (''easy_getinfo'', easy_getinfo),
     (''open_writedata_file'', open_writedata_file), (''close_writedata_file'', close_writedata_file),
     (''new_writebuf'', new_writebuf), (''close_writebuf'', close_writebuf),
     (''open_readdata_from_file'', open_readdata_from_file), (''close_readdata_from_file'', close_readdata_from_file),
     (''new_readbuf'', new_readbuf), (''close_readbuf'', close_readbuf), (''new_slist'', new_slist),
     (''slist_append'', slist_append), (''slist_free_all'', slist_free_all)]"

text \<open>A call of the module from a script; a name that is not registered is \<open>nil\<close>, which cannot be called.\<close>

definition lua_call :: "c_os \<Rightarrow> string \<Rightarrow> lua_value list \<Rightarrow> c_world \<Rightarrow> lua_result" where
  "lua_call os f args w = (case map_of easyCurl f of
     None \<Rightarrow> raises ''attempt to call a nil value'' w | Some g \<Rightarrow> g os args w)"

section \<open>What libcurl documents\<close>

text \<open>Which value an option of a kind can be given; a null pointer resets an option.\<close>

definition fits :: "option_kind \<Rightarrow> easy_value \<Rightarrow> bool" where
  "fits k v = (case (k, v) of
     (KLong, VLong _) \<Rightarrow> True
   | (KString, VString _) \<Rightarrow> True
   | (KPointer, VPointer _) \<Rightarrow> True
   | (KString, VLong n) \<Rightarrow> n = 0
   | (KPointer, VLong n) \<Rightarrow> n = 0
   | (KString, VPointer p) \<Rightarrow> p = 0
   | _ \<Rightarrow> False)"

text \<open>
  The documented behaviour that the theorems use, with \<open>answer\<close> for the code, the status and the body of a
  transfer with given options: a new handle has no options; an option keeps the last value; a
  transfer writes its body to the stream of \<open>WRITEDATA\<close>; a value of another type than the option's is
  undefined; and cleaning up releases the handle.
\<close>

definition curl_laws :: "((nat \<Rightarrow> easy_value option) \<Rightarrow> 64 word \<times> 64 word \<times> string) \<Rightarrow> c_os \<Rightarrow> bool" where
  "curl_laws answer os \<longleftrightarrow>
     (\<forall>w. os_easy_init os w = allocate (Easy (\<lambda>_. None) 0) w \<or> os_easy_init os w = (0, w)) \<and>
     (\<forall>w h opts c n i k v. cw_objs w h = Some (Easy opts c) \<longrightarrow> os_option os n = Some (i, k) \<longrightarrow>
        os_setopt os h i v w = (if fits k v then Inr (w\<lparr>cw_objs := (cw_objs w)(h \<mapsto> Easy (opts(i \<mapsto> v)) c)\<rparr>)
          else Inl (Undefined ''curl_easy_setopt''))) \<and>
     (\<forall>w h opts c i k p. cw_objs w h = Some (Easy opts c) \<longrightarrow> os_option os ''WRITEDATA'' = Some (i, k) \<longrightarrow>
        opts i = Some (VPointer p) \<longrightarrow> os_perform os h w = (case answer opts of (res, code, body) \<Rightarrow>
          rbind (stream_write p body w) (\<lambda>w1. Inr (res, w1\<lparr>cw_objs := (cw_objs w1)(h \<mapsto> Easy opts code)\<rparr>)))) \<and>
     (\<forall>w h opts c. cw_objs w h = Some (Easy opts c) \<longrightarrow>
        os_getinfo os h w = Inr c \<and> os_cleanup os h w = Inr (release h w))"

definition slist_laws :: "(string \<Rightarrow> bool) \<Rightarrow> c_os \<Rightarrow> bool" where
  "slist_laws enough os \<longleftrightarrow>
     (\<forall>w s. os_append os 0 s w = Inr (if enough s then allocate (Slist [s]) w else (0, w))) \<and>
     (\<forall>w p xs s. p \<noteq> 0 \<longrightarrow> cw_objs w p = Some (Slist xs) \<longrightarrow>
        os_append os p s w = Inr (if enough s then (p, w\<lparr>cw_objs := (cw_objs w)(p \<mapsto> Slist (xs @ [s]))\<rparr>) else (0, w)) \<and>
        os_free_all os p w = Inr (release p w))"

section \<open>What a call does to the world\<close>

text \<open>Elementary effects: only objects that exist are changed or released, and new ones get a fresh pointer.\<close>

inductive c_effect :: "c_world \<Rightarrow> c_world \<Rightarrow> bool" where
  new: "c_effect w (snd (allocate x w))"
| released: "p \<in> dom (cw_objs w) \<Longrightarrow> c_effect w (release p w)"
| changed: "p \<in> dom (cw_objs w) \<Longrightarrow> c_effect w (w\<lparr>cw_objs := (cw_objs w)(p \<mapsto> x)\<rparr>)"
| files: "c_effect w (w\<lparr>cw_files := fs\<rparr>)"

abbreviation c_effects :: "c_world \<Rightarrow> c_world \<Rightarrow> bool" where
  "c_effects \<equiv> c_effect\<^sup>*\<^sup>*"

lemmas c_effects_intros = rtranclp.rtrancl_refl r_into_rtranclp [where r = c_effect] c_effect.intros

lemma c_effects_new: "allocate x w = (p, w') \<Longrightarrow> c_effects w w'"
  using c_effect.new [of w x] by auto

lemma fclose_effects: "fclose p w = Inr w' \<Longrightarrow> c_effects w w'"
  by (auto simp: fclose_def split: option.split_asm c_object.split_asm intro!: c_effects_intros)

lemma free_effects: "free_buffer p w = Inr w' \<Longrightarrow> c_effects w w'"
  by (auto simp: free_buffer_def split: option.split_asm c_object.split_asm if_split_asm intro!: c_effects_intros)

lemma write_effects: "stream_write p s w = Inr w' \<Longrightarrow> c_effects w w' \<and> dom (cw_objs w') = dom (cw_objs w)"
  by (auto simp: stream_write_def split: option.split_asm c_object.split_asm bool.split_asm if_split_asm intro!: c_effects_intros)

lemma files_changed_effects:
  "p \<in> dom (cw_objs w) \<Longrightarrow> c_effects w (w\<lparr>cw_files := fs, cw_objs := (cw_objs w)(p \<mapsto> x)\<rparr>)"
  using c_effect.files [of w fs] c_effect.changed [of p "w\<lparr>cw_files := fs\<rparr>" x] by (simp add: rtranclp.rtrancl_into_rtrancl r_into_rtranclp)

lemmas effects_trans = rtranclp_trans [where r = c_effect]

lemmas stream_defs = open_readdata_from_file_def close_readdata_from_file_def new_readbuf_def close_readbuf_def
  new_writebuf_def close_writebuf_def open_writedata_file_def close_writedata_file_def

lemmas handle_defs = lua_easy_init_def lua_http_version_def easy_setopt_def easy_perform_def
  easy_cleanup_def easy_getinfo_def new_slist_def slist_append_def slist_free_all_def

lemmas call_splits = if_split_asm lua_value.split_asm prod.split_asm option.split_asm c_object.split_asm sum.split_asm

lemma stream_effects:
  "open_readdata_from_file os args w = Inr (r, w') \<Longrightarrow> c_effects w w'"
  "close_readdata_from_file os args w = Inr (r, w') \<Longrightarrow> c_effects w w'"
  "new_readbuf os args w = Inr (r, w') \<Longrightarrow> c_effects w w'"
  "close_readbuf os args w = Inr (r, w') \<Longrightarrow> c_effects w w'"
  "new_writebuf os args w = Inr (r, w') \<Longrightarrow> c_effects w w'"
  "close_writebuf os args w = Inr (r, w') \<Longrightarrow> c_effects w w'"
  "open_writedata_file os args w = Inr (r, w') \<Longrightarrow> c_effects w w'"
  "close_writedata_file os args w = Inr (r, w') \<Longrightarrow> c_effects w w'"
  by (auto simp: stream_defs raises_def returns_def Let_def elim!: rbind_InrE split: call_splits
      dest!: c_effects_new fclose_effects free_effects intro: effects_trans rtranclp.rtrancl_into_rtrancl c_effect.files)

text \<open>A library that changes the world only in these ways.\<close>

definition curl_effects :: "c_os \<Rightarrow> bool" where
  "curl_effects os \<longleftrightarrow> (\<forall>w. c_effects w (snd (os_easy_init os w))) \<and>
     (\<forall>h i v w w'. os_setopt os h i v w = Inr w' \<longrightarrow> c_effects w w') \<and>
     (\<forall>h w r w'. os_perform os h w = Inr (r, w') \<longrightarrow> c_effects w w') \<and>
     (\<forall>h w w'. os_cleanup os h w = Inr w' \<longrightarrow> c_effects w w') \<and>
     (\<forall>p s w q w'. os_append os p s w = Inr (q, w') \<longrightarrow> c_effects w w') \<and>
     (\<forall>p w w'. os_free_all os p w = Inr w' \<longrightarrow> c_effects w w')"

lemma curl_effectsD:
  assumes "curl_effects os"
  shows "os_easy_init os w = (p, w') \<Longrightarrow> c_effects w w'" "os_setopt os h i v w = Inr w' \<Longrightarrow> c_effects w w'"
    "os_perform os h w = Inr (r, w') \<Longrightarrow> c_effects w w'" "os_cleanup os h w = Inr w' \<Longrightarrow> c_effects w w'"
    "os_append os p s w = Inr (p', w') \<Longrightarrow> c_effects w w'" "os_free_all os p w = Inr w' \<Longrightarrow> c_effects w w'"
proof -
  show "os_easy_init os w = (p, w') \<Longrightarrow> c_effects w w'"
    using assms by (auto simp: curl_effects_def dest!: spec [where x = w])
qed (insert assms, unfold curl_effects_def, blast+)

lemma handle_effects:
  assumes "curl_effects os"
  shows "lua_easy_init os args w = Inr (r, w') \<Longrightarrow> c_effects w w'"
    "lua_http_version os args w = Inr (r, w') \<Longrightarrow> c_effects w w'"
    "easy_setopt os args w = Inr (r, w') \<Longrightarrow> c_effects w w'"
    "easy_perform os args w = Inr (r, w') \<Longrightarrow> c_effects w w'"
    "easy_cleanup os args w = Inr (r, w') \<Longrightarrow> c_effects w w'"
    "easy_getinfo os args w = Inr (r, w') \<Longrightarrow> c_effects w w'"
    "new_slist os args w = Inr (r, w') \<Longrightarrow> c_effects w w'"
    "slist_append os args w = Inr (r, w') \<Longrightarrow> c_effects w w'"
    "slist_free_all os args w = Inr (r, w') \<Longrightarrow> c_effects w w'"
  by (auto simp: handle_defs raises_def returns_def elim!: rbind_InrE split: call_splits dest: curl_effectsD [OF assms])

lemma lua_callE:
  assumes "lua_call os f args w = Inr (r, w')"
  obtains "w' = w" | g where "(f, g) \<in> set easyCurl" "g os args w = Inr (r, w')"
  using assms by (auto simp: lua_call_def raises_def split: option.split_asm dest: map_of_SomeD)

lemma lua_call_effects: "lua_call os f args w = Inr (r, w') \<Longrightarrow> curl_effects os \<Longrightarrow> c_effects w w'"
  by (elim lua_callE) (auto simp: easyCurl_def intro: stream_effects handle_effects)

definition world_ok :: "c_world \<Rightarrow> bool" where
  "world_ok w \<longleftrightarrow> 0 < cw_fresh w \<and> (\<forall>p \<in> dom (cw_objs w). 0 < p \<and> p < cw_fresh w)"

lemma c_effect_ok: "c_effect w w' \<Longrightarrow> world_ok w \<Longrightarrow> world_ok w' \<and> cw_fresh w \<le> cw_fresh w'"
  by (induction rule: c_effect.induct) (auto simp: world_ok_def allocate_def release_def dom_def less_Suc_eq split: if_split_asm)

lemma c_effects_ok: "c_effects w w' \<Longrightarrow> world_ok w \<Longrightarrow> world_ok w' \<and> cw_fresh w \<le> cw_fresh w'"
  by (induction rule: rtranclp_induct) (auto dest: c_effect_ok)

section \<open>Scripts\<close>

text \<open>
  A script as a list of assignments \<open>x, y = f(a, b)\<close>: the names on the left, the function, the
  arguments.  Names that get no value become \<open>nil\<close>.
\<close>

datatype lua_arg = Var string | Str string

fun assign :: "string list \<Rightarrow> lua_value list \<Rightarrow> (string \<Rightarrow> lua_value) \<Rightarrow> string \<Rightarrow> lua_value" where
  "assign [] vs env = env"
| "assign (x # xs) [] env = assign xs [] (env(x := LNil))"
| "assign (x # xs) (v # vs) env = assign xs vs (env(x := v))"

definition arg_value :: "(string \<Rightarrow> lua_value) \<Rightarrow> lua_arg \<Rightarrow> lua_value" where
  "arg_value env a = (case a of Var x \<Rightarrow> env x | Str s \<Rightarrow> LString s)"

fun run_script :: "c_os \<Rightarrow> (string list \<times> string \<times> lua_arg list) list \<Rightarrow> (string \<Rightarrow> lua_value) \<Rightarrow> c_world \<Rightarrow>
    ((string + (string \<Rightarrow> lua_value)) \<times> c_world) result" where
  "run_script os [] env w = Inr (Inr env, w)"
| "run_script os ((xs, f, as) # cs) env w =
     rbind (lua_call os f (map (arg_value env) as) w) (\<lambda>(r, w1). case r of
       Raises m \<Rightarrow> Inr (Inl m, w1)
     | Returns vs \<Rightarrow> run_script os cs (assign xs vs env) w1)"

text \<open>Example 1 of the README, with the arguments of \<open>easy_perform\<close> as a parameter.\<close>

definition get_script :: "string \<Rightarrow> lua_arg list \<Rightarrow> (string list \<times> string \<times> lua_arg list) list" where
  "get_script url as =
     [([''hnd''], ''easy_init'', []),
      ([], ''easy_setopt'', [Var ''hnd'', Str ''URL'', Str url]),
      ([''data'', ''stream''], ''new_writebuf'', []),
      ([], ''easy_setopt'', [Var ''hnd'', Str ''WRITEDATA'', Var ''stream'']),
      ([''ret''], ''easy_perform'', as),
      ([''hnd''], ''easy_cleanup'', [Var ''hnd'']),
      ([''data'', ''stream''], ''close_writebuf'', [Var ''data'', Var ''stream''])]"

lemma lua_call_at: "map_of easyCurl f = Some g \<Longrightarrow> lua_call os f args w = g os args w"
  by (simp add: lua_call_def)

lemma calls:
  "lua_call os ''easy_init'' = lua_easy_init os" "lua_call os ''easy_setopt'' = easy_setopt os"
  "lua_call os ''new_writebuf'' = new_writebuf os" "lua_call os ''easy_perform'' = easy_perform os"
  "lua_call os ''easy_cleanup'' = easy_cleanup os" "lua_call os ''close_writebuf'' = close_writebuf os"
  by (intro ext; simp add: lua_call_at easyCurl_def)+

lemma c_string_id: "nul \<notin> set s \<Longrightarrow> c_string s = s"
  by (auto simp: c_string_def takeWhile_eq_all_conv)

lemma option_names: "c_string ''URL'' = ''URL''" "c_string ''WRITEDATA'' = ''WRITEDATA''"
  by (simp_all add: c_string_def nul_def)

lemma curl_lawsD:
  assumes "curl_laws answer os"
  shows "fst (os_easy_init os w) \<noteq> 0 \<Longrightarrow> os_easy_init os w = allocate (Easy (\<lambda>_. None) 0) w"
    "cw_objs w h = Some (Easy opts c) \<Longrightarrow> os_option os n = Some (i, k) \<Longrightarrow> fits k v \<Longrightarrow>
       os_setopt os h i v w = Inr (w\<lparr>cw_objs := (cw_objs w)(h \<mapsto> Easy (opts(i \<mapsto> v)) c)\<rparr>)"
    "cw_objs w h = Some (Easy opts c) \<Longrightarrow> os_option os ''WRITEDATA'' = Some (i, k) \<Longrightarrow> opts i = Some (VPointer p) \<Longrightarrow>
       os_perform os h w = (case answer opts of (res, code, body) \<Rightarrow>
         rbind (stream_write p body w) (\<lambda>w1. Inr (res, w1\<lparr>cw_objs := (cw_objs w1)(h \<mapsto> Easy opts code)\<rparr>)))"
    "cw_objs w h = Some (Easy opts c) \<Longrightarrow> os_cleanup os h w = Inr (release h w)"
    "cw_objs w h = Some (Easy opts c) \<Longrightarrow> os_option os n = Some (i, k) \<Longrightarrow> \<not> fits k v \<Longrightarrow>
       os_setopt os h i v w = Inl (Undefined ''curl_easy_setopt'')"
proof -
  show "fst (os_easy_init os w) \<noteq> 0 \<Longrightarrow> os_easy_init os w = allocate (Easy (\<lambda>_. None) 0) w"
    using assms by (auto simp: curl_laws_def dest!: spec [where x = w])
qed (use assms in \<open>simp_all add: curl_laws_def\<close>)

lemmas call_defs = lua_easy_init_def easy_setopt_def new_writebuf_def easy_perform_def
  easy_cleanup_def close_writebuf_def fclose_def free_buffer_def buffer_text_def stream_write_def allocate_def release_def
  raises_def returns_def easy_parameter_def fits_def

text \<open>
  C29: A request as the README makes it, but with the handle as the argument of \<open>easy_perform\<close>.  The script
  ends with the body, up to its first null byte, in \<open>data\<close> and the result of the transfer in \<open>ret\<close>, and
  leaves no object behind; a body that fills the buffer and has no null byte is read past its end.
\<close>
theorem lua_get_request:
  assumes "world_ok w" "curl_laws answer os" "fst (os_easy_init os w) \<noteq> 0" "os_fmemopen os max_buf_size"
    "os_option os ''URL'' = Some (u, KString)" "os_option os ''WRITEDATA'' = Some (d, KPointer)" "u \<noteq> d"
    "answer [u \<mapsto> VString (c_string url), d \<mapsto> VPointer (cw_fresh w + 2)] = (res, code, body)"
  shows "run_script os (get_script url [Var ''hnd'']) env w =
    (if nul \<in> set (take max_buf_size body) \<or> length body < max_buf_size
     then Inr (Inr (env(''hnd'' := LNil, ''ret'' := LNumber (Some res), ''data'' := LString (c_string (take max_buf_size body)),
       ''stream'' := LNil)), w\<lparr>cw_fresh := cw_fresh w + 3\<rparr>)
     else Inl (Undefined ''lua_pushstring''))"
proof -
  have free: "cw_fresh w \<noteq> 0" "cw_objs w (cw_fresh w) = None" "cw_objs w (Suc (cw_fresh w)) = None" "cw_objs w (Suc (Suc (cw_fresh w))) = None"
    using assms(1) by (auto simp: world_ok_def dom_def)
  then have objs: "(cw_objs w)(cw_fresh w := None, Suc (cw_fresh w) := None, Suc (Suc (cw_fresh w)) := None) = cw_objs w"
    by (intro ext) simp
  show ?thesis
    using assms(3-8) free objs
    by (simp add: get_script_def calls call_defs curl_lawsD [OF assms(2)] option_names arg_value_def fun_upd_twist)
qed

text \<open>
  The README calls \<open>easy_perform()\<close> without the handle: the script ends with an error and the handle, the
  buffer and the stream stay.
\<close>
theorem readme_get_raises:
  assumes "world_ok w" "curl_laws answer os" "fst (os_easy_init os w) \<noteq> 0" "os_fmemopen os max_buf_size"
    "os_option os ''URL'' = Some (u, KString)" "os_option os ''WRITEDATA'' = Some (d, KPointer)"
  shows "\<exists>w'. run_script os (get_script url []) env w = Inr (Inl ''This function must take 1 argument.'', w') \<and>
    dom (cw_objs w') = dom (cw_objs w) \<union> {cw_fresh w, cw_fresh w + 1, cw_fresh w + 2}"
proof -
  have "cw_fresh w \<noteq> 0" using assms(1) by (simp add: world_ok_def)
  then show ?thesis
    using assms(3-6) by (auto simp: get_script_def calls call_defs curl_lawsD [OF assms(2)] option_names arg_value_def)
qed

lemma fclose_twice: "fclose p w = Inr w' \<Longrightarrow> fclose p w' = Inl (Undefined ''fclose'')"
  by (auto simp: fclose_def release_def split: option.split_asm c_object.split_asm)

text \<open>
  What a call that raises an error leaves.  It changes nothing, but for two cases: the closers of buffers have closed
  the stream when the other argument is wrong, so that the same call with the right one closes
  it again, which is undefined; and \<open>new_writebuf\<close> keeps the buffer.
\<close>
theorem failed_call_world:
  assumes "lua_call os f args w = Inr (Raises m, w')"
  shows "w' = w \<or>
    (f \<in> {''close_readbuf'', ''close_writebuf''} \<and>
      (\<exists>p. args ! 1 = LUser p \<and> fclose p w = Inr w' \<and> (\<forall>b. lua_call os f [LUser b, LUser p] w' = Inl (Undefined ''fclose'')))) \<or>
    (f = ''new_writebuf'' \<and> w' = snd (allocate (Buffer max_buf_size []) w))"
  using assms
proof (cases rule: lua_callE)
  case (2 g)
  then show ?thesis
    by (simp add: easyCurl_def)
      (elim disjE; auto simp: stream_defs handle_defs raises_def returns_def Let_def lua_call_at easyCurl_def fclose_twice
        elim!: rbind_InrE split: call_splits)
qed simp

fun append_all :: "c_os \<Rightarrow> string list \<Rightarrow> nat \<Rightarrow> c_world \<Rightarrow> lua_result" where
  "append_all os [] p w = returns [LUser p] w"
| "append_all os (s # ss) p w = rbind (slist_append os [LUser p, LString s] w) (\<lambda>(r, w1).
     case r of Returns [LUser q] \<Rightarrow> append_all os ss q w1 | _ \<Rightarrow> Inr (r, w1))"

lemma slist_lawsD:
  assumes "slist_laws enough os"
  shows "os_append os 0 s w = Inr (if enough s then allocate (Slist [s]) w else (0, w))"
    "p \<noteq> 0 \<Longrightarrow> cw_objs w p = Some (Slist xs) \<Longrightarrow>
       os_append os p s w = Inr (if enough s then (p, w\<lparr>cw_objs := (cw_objs w)(p \<mapsto> Slist (xs @ [s]))\<rparr>) else (0, w))"
    "p \<noteq> 0 \<Longrightarrow> cw_objs w p = Some (Slist xs) \<Longrightarrow> os_free_all os p w = Inr (release p w)"
  using assms by (auto simp: slist_laws_def)

lemma append_to_list:
  assumes "slist_laws enough os"
  shows "\<forall>s \<in> set ss. enough (c_string s) \<Longrightarrow> p \<noteq> 0 \<Longrightarrow> cw_objs w p = Some (Slist xs) \<Longrightarrow>
   append_all os ss p w = returns [LUser p] (w\<lparr>cw_objs := (cw_objs w)(p \<mapsto> Slist (xs @ map c_string ss))\<rparr>)"
proof (induction ss arbitrary: xs w)
  case Nil
  then have "(cw_objs w)(p \<mapsto> Slist xs) = cw_objs w" by auto
  then show ?case by simp
qed (simp add: slist_append_def slist_lawsD [OF assms] returns_def)

text \<open>
  Appending.  Strings appended one after the other to a new list are on it in their order, at one pointer, and
  freeing the list leaves the world as it was; a string that cannot be appended gives the null
  pointer for the list, and nothing frees what is on it.
\<close>
theorem slist_in_order:
  assumes "slist_laws enough os" "world_ok w" "ss \<noteq> []" "\<forall>s \<in> set ss. enough (c_string s)"
  shows "\<exists>w'. append_all os ss 0 w = returns [LUser (cw_fresh w)] w' \<and>
    cw_objs w' = (cw_objs w)(cw_fresh w \<mapsto> Slist (map c_string ss)) \<and>
    lua_call os ''slist_free_all'' [LUser (cw_fresh w)] w' = returns [LNil] (w\<lparr>cw_fresh := cw_fresh w + 1\<rparr>) \<and>
    (\<not> enough (c_string s) \<longrightarrow> lua_call os ''slist_append'' [LUser (cw_fresh w), LString s] w' = returns [LUser 0] w')"
proof -
  obtain t ts where ss: "ss = t # ts" using assms(3) by (cases ss) auto
  have p: "cw_fresh w \<noteq> 0" "cw_objs w (cw_fresh w) = None" using assms(2) by (auto simp: world_ok_def dom_def)
  then have "(cw_objs w)(cw_fresh w := None) = cw_objs w" by (intro fun_upd_idem)
  note p = p this
  show ?thesis
    using assms(4) p by (auto simp: ss slist_append_def slist_lawsD [OF assms(1)] allocate_def returns_def
        append_to_list [OF assms(1)] lua_call_at easyCurl_def slist_free_all_def release_def)
qed

text \<open>
  Whatever a script does, as long as it does not come to an undefined use: the objects that exist have pointers
  that were given out before and are not null, so a new object never takes the place of another.
\<close>
theorem script_world_ok:
  "run_script os cs env w = Inr (r, w') \<Longrightarrow> curl_effects os \<Longrightarrow> world_ok w \<Longrightarrow> world_ok w' \<and> cw_fresh w \<le> cw_fresh w'"
proof (induction os cs env w rule: run_script.induct)
  case (2 os xs f as cs env w)
  from 2(2) obtain q w1 where call: "lua_call os f (map (arg_value env) as) w = Inr (q, w1)" by (auto elim!: rbind_InrE)
  then have w1: "world_ok w1" "cw_fresh w \<le> cw_fresh w1" using c_effects_ok [OF lua_call_effects] 2(3,4) by blast+
  show ?case
  proof (cases q)
    case (Returns vs)
    then show ?thesis using 2(1) [OF call refl Returns _ 2(3) w1(1)] 2(2) call w1(2) by simp
  next
    case (Raises m)
    then show ?thesis using 2(2) call w1 by simp
  qed
qed simp

text \<open>
  A version string that the table does not have is returned as it is, and as an option for libcurl it is of
  the wrong kind.
\<close>
theorem unknown_version_undefined:
  assumes "curl_laws answer os" "map_of http_version_values (c_string s) = None" "cw_objs w hnd = Some (Easy opts c)"
    "os_option os ''HTTP_VERSION'' = Some (i, KLong)"
  shows "lua_call os ''http_version'' [LString s] w = Inr (Returns [LString s], w) \<and>
    lua_call os ''easy_setopt'' [LUser hnd, LString ''HTTP_VERSION'', LString s] w = Inl (Undefined ''curl_easy_setopt'')"
proof -
  have "os_setopt os hnd i v w = Inl (Undefined ''curl_easy_setopt'')" if "\<not> fits KLong v" for v
    using curl_lawsD(5) [OF assms(1,3,4) that] .
  moreover have "c_string ''HTTP_VERSION'' = ''HTTP_VERSION''" by (simp add: c_string_def nul_def)
  ultimately show ?thesis
    using assms(2,4) by (simp add: lua_call_at easyCurl_def lua_http_version_def easy_setopt_def returns_def easy_parameter_def fits_def)
qed

section \<open>A library that keeps the laws\<close>

definition demo_option :: "string \<Rightarrow> (nat \<times> option_kind) option" where
  "demo_option = map_of [(''URL'', (10002, KString)), (''WRITEDATA'', (10001, KPointer)), (''HTTP_VERSION'', (84, KLong))]"

definition demo_setopt :: "nat \<Rightarrow> nat \<Rightarrow> easy_value \<Rightarrow> c_world \<Rightarrow> c_world result" where
  "demo_setopt h i v w = (case cw_objs w h of
     Some (Easy opts c) \<Rightarrow>
       if fits (if i = 10002 then KString else if i = 10001 then KPointer else KLong) v
       then Inr (w\<lparr>cw_objs := (cw_objs w)(h \<mapsto> Easy (opts(i \<mapsto> v)) c)\<rparr>) else Inl (Undefined ''curl_easy_setopt'')
   | _ \<Rightarrow> Inl (Undefined ''curl_easy_setopt''))"

definition demo_transfer :: "nat \<Rightarrow> c_world \<Rightarrow> (64 word \<times> c_world) result" where
  "demo_transfer h w = (case cw_objs w h of
     Some (Easy opts c) \<Rightarrow> (case opts 10001 of
         Some (VPointer p) \<Rightarrow> rbind (stream_write p ''ok'' w) (\<lambda>w1.
           Inr (0, w1\<lparr>cw_objs := (cw_objs w1)(h \<mapsto> Easy opts 200)\<rparr>))
       | _ \<Rightarrow> Inr (0, w))
   | _ \<Rightarrow> Inl (Undefined ''curl_easy_perform''))"

definition demo_lua_os :: c_os where
  "demo_lua_os = \<lparr>os_fopen = (\<lambda>_ _. True), os_fmemopen = (\<lambda>_. True), os_easy_init = allocate (Easy (\<lambda>_. None) 0),
     os_option = demo_option, os_setopt = demo_setopt, os_perform = demo_transfer,
     os_getinfo = (\<lambda>h w. case cw_objs w h of Some (Easy opts c) \<Rightarrow> Inr c | _ \<Rightarrow> Inl (Undefined ''curl_easy_getinfo'')),
     os_cleanup = (\<lambda>h w. case cw_objs w h of Some (Easy opts c) \<Rightarrow> Inr (release h w) | _ \<Rightarrow> Inl (Undefined ''curl_easy_cleanup'')),
     os_append = (\<lambda>p s w. if p = 0 then Inr (allocate (Slist [s]) w) else (case cw_objs w p of
       Some (Slist xs) \<Rightarrow> Inr (p, w\<lparr>cw_objs := (cw_objs w)(p \<mapsto> Slist (xs @ [s]))\<rparr>)
     | _ \<Rightarrow> Inl (Undefined ''curl_slist_append''))),
     os_free_all = (\<lambda>p w. case cw_objs w p of Some (Slist xs) \<Rightarrow> Inr (release p w) | _ \<Rightarrow> Inl (Undefined ''curl_slist_free_all''))\<rparr>"

definition demo_c_world :: c_world where
  "demo_c_world = \<lparr>cw_objs = (\<lambda>_. None), cw_fresh = 1, cw_files = (\<lambda>_. [])\<rparr>"

lemma demo_curl_laws: "curl_laws (\<lambda>_. (0, 200, ''ok'')) demo_lua_os"
  unfolding curl_laws_def
  by (intro conjI allI impI)
    (auto simp: demo_lua_os_def demo_setopt_def demo_transfer_def demo_option_def split: if_split_asm)

lemma demo_slist_laws: "slist_laws (\<lambda>_. True) demo_lua_os"
  unfolding slist_laws_def by (auto simp: demo_lua_os_def split: if_split_asm)

lemma c_effects_change_after:
  "c_effects w w1 \<Longrightarrow> dom (cw_objs w1) = dom (cw_objs w) \<Longrightarrow> cw_objs w h = Some y \<Longrightarrow>
   c_effects w (w1\<lparr>cw_objs := (cw_objs w1)(h \<mapsto> x)\<rparr>)"
  by (rule rtranclp.rtrancl_into_rtrancl, assumption, rule c_effect.changed) auto

lemma demo_curl_effects: "curl_effects demo_lua_os"
  unfolding curl_effects_def
  by (intro conjI allI impI)
    (auto simp: demo_lua_os_def demo_setopt_def demo_transfer_def elim!: rbind_InrE dest!: write_effects
      split: call_splits easy_value.split_asm
      intro: c_effects_intros c_effects_new c_effects_change_after)

theorem lua_get_request_witness:
  "run_script demo_lua_os (get_script ''http://localhost/'' [Var ''hnd'']) (\<lambda>_. LNil) demo_c_world =
    Inr (Inr ((\<lambda>_. LNil)(''hnd'' := LNil, ''ret'' := LNumber (Some 0), ''data'' := LString ''ok'', ''stream'' := LNil)),
      demo_c_world\<lparr>cw_fresh := cw_fresh demo_c_world + 3\<rparr>)"
proof -
  have "take max_buf_size ''ok'' = ''ok''" "c_string ''ok'' = ''ok''" "(2 :: nat) < max_buf_size"
    by (simp_all add: max_buf_size_def c_string_def nul_def)
  then show ?thesis
    by (subst lua_get_request [OF _ demo_curl_laws, where u = 10002 and d = 10001 and res = 0 and code = 200 and body = "''ok''"])
      (simp_all add: demo_lua_os_def demo_option_def demo_c_world_def world_ok_def allocate_def)
qed

end
