(* ===== verification/Spec2Isabelle.thy ===== *)
theory Spec2Isabelle
  imports PassRefinement Handshake LocalRun Subprocess Startup Lifetimes Shutdown LuaCurl
begin

text \<open>
  A model of the stochastic scheduler controller: a C++ program that runs a workflow of functions
  (the \<^emph>\<open>action manifest\<close>) in several containers at once.  Every container runs the same workflow in
  another order, chosen at random from an execution index; a result that one container has computed
  is sent to the others, which then stop working on it.  The controller of a container accepts HTTP
  requests on a Unix socket and on SCTP streams, keeps one \<^emph>\<open>execution context\<close> per run, and starts
  one subprocess per function.

  \<^bold>\<open>The theories, and what they model.\<close>
  \<^item> \<open>Prelude\<close>: the vocabulary of the development.  \<open>'a result\<close> is \<open>cpp_error + 'a\<close>; an exception, an
    access that C++ leaves undefined and a call that never returns are values.  \<open>find_if\<close>, \<open>from_chars\<close>,
    \<open>show_nat\<close>, \<open>vec_at\<close> are the parts of the standard library that the sources use.
  \<^item> \<open>BigNum\<close>, \<open>HttpMessage\<close>, \<open>HttpChunk\<close>, \<open>HttpHeader\<close>, \<open>MessageLoop\<close>, \<open>HttpRequest\<close>, \<open>HttpResponse\<close>:
    \<open>http-requests.cpp\<close>, the extraction and insertion operators of HTTP messages.  A stream is the
    list of its buffered characters; an extraction takes some of them and leaves the rest.
  \<^item> \<open>HttpSession\<close>: \<open>http-session.cpp\<close> and \<open>app-session.hpp\<close>, a message pair on a transport stream
    with its two mutexes.
  \<^item> \<open>Uuid\<close>: \<open>uuid.cpp\<close>, on a little-endian machine.
  \<^item> \<open>JsonScan\<close>: \<open>find_next_json_object\<close> of \<open>controller-app.cpp\<close> and the loop that takes one chunk apart.
  \<^item> \<open>ActionManifest\<close>: \<open>action-relation.cpp\<close>, \<open>action-manifest.cpp\<close>.  A pointer to a relation is its
    position in \<open>store\<close>; \<open>index\<close> is the sorted list of pointers.
  \<^item> \<open>ThreadControls\<close>: \<open>thread-controls.cpp\<close>, the parent's side of the pipe protocol with a
    subprocess, the state machine of a thread, and the queue of initializer threads.
  \<^item> \<open>Subprocess\<close>: the child's side of \<open>fork_exec\<close> and the tables of file descriptors of the controller
    and its launchers, with starts that overlap.
  \<^item> \<open>ExecutionContext\<close>: \<open>execution-context.cpp\<close> and \<open>run.cpp\<close>.
  \<^item> \<open>Scheduler\<close>: the scheduling functions of \<open>controller-app.cpp\<close>, over \<open>sched_env\<close>: a context, the
    event word of the controller, the queue of initializers and the open peer sessions.
  \<^item> \<open>Executors\<close>: \<open>initialize_executor\<close> and the thread function of \<open>controller-app.cpp\<close> that starts the
    threads of a run one by one; a wait is a turn in which the other threads do anything.
  \<^item> \<open>LocalRun\<close>: the run of one controller without peers, as an interleaving of the single calls of
    \<open>thread_continue\<close> of its executors (\<open>executor_turn\<close>, which is one iteration of \<open>executor_loop\<close>) with
    the turns of the main loop; the order in which relations get their values.
  \<^item> \<open>Curl\<close>: \<open>CurlMultiHandle\<close> of \<open>controller-app.cpp\<close> as steps of threads that share it, the options of the
    easy handles, and \<open>make_api_requests\<close> with the handles it reuses.
  \<^item> \<open>Responses\<close>: \<open>Controller::create_response\<close> and the answering of the sessions of a context.
  \<^item> \<open>InitResource\<close>: \<open>init.cpp\<close>, the files and the environment an initialization leaves.
  \<^item> \<open>ControllerIO\<close>: \<open>controller-io.cpp\<close>, the choice of the local address, the message queue and the event
    word between the I/O thread and the scheduling loop.
  \<^item> \<open>SctpServer\<close>, \<open>Transports\<close>: \<open>sctp-server.cpp\<close>, \<open>sctp-session.cpp\<close>, \<open>unix-server.cpp\<close>, the connects and
    streams of SCTP and the writing loops of both transports.
  \<^item> \<open>Startup\<close>: \<open>main.cpp\<close>, the constructor of the SCTP server and the loop of the I/O thread.
  \<^item> \<open>Lifetimes\<close>: the destructors of a context and of both servers, accepting and connecting on the Unix
    socket.
  \<^item> \<open>Controller\<close>, \<open>Passes\<close>: \<open>Controller::route_request\<close>, \<open>route_response\<close> and \<open>start\<close> of
    \<open>controller-app.cpp\<close> as one state machine over the record \<open>controller\<close>: the contexts, a store of
    HTTP sessions shared by pointer, the two lists of sessions, the event word, and logs of what was
    asked of others (posted bodies, connects under way, sessions to close when they are written).
    \<open>loop_turn\<close> is one turn of the scheduling loop, \<open>ctl_step\<close> any step of the controller: a turn, a
    turn in which reading from a client session throws, the completion of a connect, the end of a write,
    the failure of a write, the end of an executor.
  \<^item> \<open>ControllerState\<close>: the invariant \<open>ctl_ok\<close> of that state and that every operation keeps it.
  \<^item> \<open>Routing\<close>: the properties of the routes and of the passes.
  \<^item> \<open>PassRefinement\<close>: the passes of the controller do to a context and its streams what the steps
    \<open>handle_updated\<close> and \<open>handle_stopped\<close> of \<open>Scheduler\<close> do.
  \<^item> \<open>Handshake\<close>: two controllers that meet understand each other.
  \<^item> \<open>Shutdown\<close>: \<open>Controller::stop\<close>, the I/O thread and the scheduling loop as the steps of one process.
  \<^item> \<open>LuaCurl\<close>: \<open>lua-easy-curl.c\<close>, the module \<open>easyCurl\<close> for Lua scripts, as functions of the values on the
    stack of Lua and a world of C objects; scripts are lists of calls.

  \<^bold>\<open>Interfaces.\<close>  Where one part relies on another the laws are a locale, interpreted on the
  program's own definitions in the theory that provides them: \<open>byte_reader\<close> (an extraction operator
  that takes one character at a time; chunks and headers), \<open>message_reader\<close> (the loop that requests and
  responses share), \<open>chooser_contract\<close> (what scheduling relies on when it asks \<open>ActionManifest::next\<close>),
  \<open>byte_transport\<close> (what a conversation over HTTP relies on in a transport).

  \<^bold>\<open>What the lemmas show.\<close>  The parsers end on every input, do not depend on how the input is cut into
  segments, and invert the printers; the numbers of any size compare and count correctly, and where
  they do not the condition is exact; a manifest is well-formed and \<open>next\<close> finds a ready relation
  while there is work; the protocol with a subprocess hands over all parameters and the whole result;
  scheduling loses no execution index while a relation has no value, unless the context has stopped as a
  whole, and a relation runs only after its dependencies.  The state of the whole controller is well-formed in every run; a pass
  answers everyone who waits for a stopped context and drops it; initialization happens once and
  before every run; and what one controller says to another is understood.  An executor that nobody
  disturbs does what the scheduler takes as one step; every thread of a run is started once; a
  launcher has its two pipes and nothing of another's when starts do not overlap; at most one thread
  polls libcurl; and a stop with an open session never ends.  Where the code does not do what it means to, the theorem states what it does.

  \<^bold>\<open>Parameters and fuel.\<close>  The JSON library, libcurl (with \<open>curl_laws\<close> for what a script relies on), \<open>inet_aton\<close>, \<open>inet_ntop\<close>, \<open>getenv\<close>, \<open>std::sort\<close>,
  the system calls and the random numbers are arguments of the definitions that use them.  Loops that
  may not end take fuel and give \<open>NoReturn\<close> without it: the message loop has the length of the
  input plus one, which \<open>request_read_returns\<close> and \<open>response_read_returns\<close> show to be enough;
  \<open>next_relation\<close> and \<open>emplace\<close> have the sizes named in \<open>next_relation_ready\<close> and
  \<open>emplace_terminates\<close>; \<open>object_loop\<close> has the length of the chunk plus one, as every object takes a
  character at least, and \<open>finish_loop\<close> the number of contexts plus one (\<open>finish_loop_fuel\<close>; \<open>object_loop_fuel\<close> for the other).  A
  loop that waits for other threads takes the list of its turns, and gives \<open>NoReturn\<close> when that ends.
  The record \<open>params\<close> holds the parameters of the controller, among them whether \<open>NDEBUG\<close> is defined.

  \<^bold>\<open>Exceptions.\<close>  An exception in the routing of a request or in a pass ends the process, which is
  \<open>Inl\<close>.  Around the routing of a response every exception is caught and the session closed; that is
  \<open>ClientThrew\<close>.  When it is the reading from the session that throws, \<open>ctl_step\<close> goes on with the session
  closed and in any state; when the routing throws, the state the exception leaves behind is not modelled,
  and the turn is no step of \<open>ctl_step\<close> (\<open>process_step\<close> of \<open>Shutdown\<close> takes any state then).

  \<^bold>\<open>Conditions.\<close>  Some statements hold under a condition that the program does not check, and say so.
  Text between two controllers must be taken whole by \<open>find_next_json_object\<close>, which counts braces inside
  strings too (\<open>object_text_iff\<close>; \<open>json_object_plain\<close> gives a sufficient condition on JSON objects).  The size
  line of a chunk must have no superfluous zeros in front of its last sixteen digits (\<open>tight_line\<close>;
  \<open>padded_size_overruns\<close> shows what happens otherwise).  An SCTP session that adopts an association must
  not be a stream that is already listed (the flag of \<open>sctp_step\<close>; \<open>connect_completes_twice\<close> is a run
  that breaks it).  A request is read alike in one segment or several only if it is chunked and its first visible
  character starts a verb.

  \<^bold>\<open>Not modelled.\<close>  Condition variables and the sleeping of threads (an interleaving of steps stands for
  them), boost asio and the sockets below it, the interpreter of Lua, the driver \<open>main.cpp\<close> of the
  library and the tests.  The manifest file \<open>PROJECT.json\<close> lists every part of the program with its status.
\<close>

end
